(* ===== verification/Prelude.thy ===== *)
theory Prelude
  imports Main "HOL-Library.AList" "HOL-Library.Multiset" "HOL-Library.List_Lexorder"
    "HOL-Library.Char_ord"
begin

text \<open>
  What the components share: the Go values the sources compute with and the generic lemmas on
  them.

  \<^item> \<open>int\<close> models Go's 64-bit \<open>int\<close>; where a source compares with
    \<open>math.MaxInt\<close> the bound is \<open>max_int\<close>.
  \<^item> \<open>time.Time\<close> is a number of nanoseconds and \<open>time.Duration\<close> a difference of
    two; \<open>time_sub\<close> saturates as \<open>Time.Sub\<close> does.
  \<^item> A Go string is a \<open>string\<close> (its bytes); \<open><\<close> on strings is Go's bytewise
    order. Case folding is the ASCII part of \<open>strings.EqualFold\<close>: accelerator names are
    node label values and Kubernetes names, which are ASCII.
  \<^item> A Go map is an association list with distinct keys, read with \<open>map_of\<close>. The
    order of the list is the order a \<open>range\<close> over the map visits it in, which Go leaves
    open: what is proved for every list is proved for every iteration order.
  \<^item> \<open>sort.SliceStable\<close> is \<open>stable_sort\<close>; \<open>sort.Slice\<close>, which may leave
    ties in any order, is any function that meets the locale \<open>slice_sorter\<close>.
\<close>

named_theorems gomap_simps \<open>reads of updated Go maps\<close>

type_synonym ('k, 'v) gomap = "('k \<times> 'v) list"
type_synonym gotime = int
type_synonym duration = int

subsection \<open>Machine bounds and time\<close>

definition max_int :: int where
  "max_int = 2 ^ 63 - 1"

definition min_int :: int where
  "min_int = - (2 ^ 63)"

text \<open>\<open>Time.Sub\<close> returns the difference, saturated to the range of a \<open>Duration\<close>.\<close>

definition time_sub :: "gotime \<Rightarrow> gotime \<Rightarrow> duration" where
  "time_sub t u = max min_int (min max_int (t - u))"

lemma max_int_pos [simp]: "0 < max_int" and max_int_nonneg [simp]: "0 \<le> max_int"
  by (simp_all add: max_int_def)

lemma min_int_neg [simp]: "min_int < 0"
  by (simp add: min_int_def)

lemma time_sub_self [simp]: "time_sub t t = 0"
  using min_int_neg max_int_nonneg by (simp add: time_sub_def)

lemma time_sub_gt_iff: "d < max_int \<Longrightarrow> min_int \<le> d \<Longrightarrow> (d < time_sub t u) = (d < t - u)"
  by (auto simp: time_sub_def)

lemma time_sub_mono: "t \<le> t' \<Longrightarrow> time_sub t u \<le> time_sub t' u"
  by (auto simp: time_sub_def)

lemma time_sub_antimono: "u \<le> u' \<Longrightarrow> time_sub t u' \<le> time_sub t u"
  by (auto simp: time_sub_def)

text \<open>Go's \<open>/\<close> on integers truncates towards zero.\<close>

definition godiv :: "int \<Rightarrow> int \<Rightarrow> int" where
  "godiv a b = sgn a * sgn b * (\<bar>a\<bar> div \<bar>b\<bar>)"

lemma godiv_pos: "0 \<le> a \<Longrightarrow> 0 < b \<Longrightarrow> godiv a b = a div b"
  by (cases "a = 0") (simp_all add: godiv_def)

subsection \<open>Strings: ASCII case folding and splitting\<close>

definition lower_char :: "char \<Rightarrow> char" where
  "lower_char c =
     (if (65::nat) \<le> of_char c \<and> of_char c \<le> (90::nat) then char_of (of_char c + 32 :: nat) else c)"

definition upper_char :: "char \<Rightarrow> char" where
  "upper_char c =
     (if (97::nat) \<le> of_char c \<and> of_char c \<le> (122::nat) then char_of (of_char c - 32 :: nat) else c)"

definition to_lower :: "string \<Rightarrow> string" where
  "to_lower s = map lower_char s"

definition to_upper :: "string \<Rightarrow> string" where
  "to_upper s = map upper_char s"

text \<open>The two foldings on the bits of a character, for evaluation.\<close>

lemma lower_char_bits [code]:
  "lower_char (Char b0 b1 b2 b3 b4 b5 b6 b7) =
     (if \<not> b7 \<and> b6 \<and> \<not> b5 \<and> (b0 \<or> b1 \<or> b2 \<or> b3 \<or> b4) \<and> \<not> (b4 \<and> b3 \<and> (b2 \<or> b1 \<and> b0))
      then Char b0 b1 b2 b3 b4 True b6 b7 else Char b0 b1 b2 b3 b4 b5 b6 b7)"
  by (cases b0; cases b1; cases b2; cases b3; cases b4; cases b5; cases b6; cases b7) (simp_all add: lower_char_def char_of_def bit_Suc_0_iff)

lemma upper_char_bits [code]:
  "upper_char (Char b0 b1 b2 b3 b4 b5 b6 b7) =
     (if \<not> b7 \<and> b6 \<and> b5 \<and> (b0 \<or> b1 \<or> b2 \<or> b3 \<or> b4) \<and> \<not> (b4 \<and> b3 \<and> (b2 \<or> b1 \<and> b0))
      then Char b0 b1 b2 b3 b4 False b6 b7 else Char b0 b1 b2 b3 b4 b5 b6 b7)"
  by (cases b0; cases b1; cases b2; cases b3; cases b4; cases b5; cases b6; cases b7) (simp_all add: upper_char_def char_of_def bit_Suc_0_iff)

text \<open>\<open>strings.EqualFold\<close> on ASCII names.\<close>

definition equal_fold :: "string \<Rightarrow> string \<Rightarrow> bool" where
  "equal_fold a b = (to_lower a = to_lower b)"

lemma equal_fold_refl [simp]: "equal_fold a a"
  by (simp add: equal_fold_def)

lemma equal_fold_sym: "equal_fold a b = equal_fold b a"
  by (auto simp: equal_fold_def)

lemma equal_fold_trans: "equal_fold a b \<Longrightarrow> equal_fold b c \<Longrightarrow> equal_fold a c"
  by (simp add: equal_fold_def)

lemma equal_fold_length: "equal_fold a b \<Longrightarrow> length a = length b"
  unfolding equal_fold_def to_lower_def by (rule map_eq_imp_length_eq)

text \<open>Decimal digits.\<close>

definition is_digit :: "char \<Rightarrow> bool" where
  "is_digit c \<longleftrightarrow> (48::nat) \<le> of_char c \<and> of_char c \<le> (57::nat)"

definition digit_val :: "char \<Rightarrow> nat" where
  "digit_val c = of_char c - 48"

definition nat_of_digits :: "string \<Rightarrow> nat" where
  "nat_of_digits = foldl (\<lambda>n c. 10 * n + digit_val c) 0"

text \<open>\<open>strconv.Atoi\<close>, and \<open>strconv.ParseInt(s, 10, 64)\<close>: \<open>None\<close> is its error, a bad character or a value out of range.\<close>

definition strconv_Atoi :: "string \<Rightarrow> int option" where
  "strconv_Atoi s =
     (let (neg, ds) = (case s of [] \<Rightarrow> (False, [])
                       | c # cs \<Rightarrow> if c = CHR ''-'' then (True, cs)
                                   else if c = CHR ''+'' then (False, cs) else (False, s));
          v = (if neg then - int (nat_of_digits ds) else int (nat_of_digits ds))
      in if ds = [] \<or> \<not> list_all is_digit ds \<or> v < min_int \<or> max_int < v then None else Some v)"

text \<open>Only capital letters are changed, so a character that is not a letter folds to itself alone.\<close>

lemma of_char_bound: "of_char (c :: char) < (256 :: nat)"
  by (rule nat_of_char_less_256)

lemma of_char_lower: "(of_char (lower_char c) :: nat) =
    (if (65::nat) \<le> of_char c \<and> of_char c \<le> (90::nat) then of_char c + 32 else of_char c)"
  by (simp add: lower_char_def)

lemma of_char_upper: "(of_char (upper_char c) :: nat) =
    (if (97::nat) \<le> of_char c \<and> of_char c \<le> (122::nat) then of_char c - 32 else of_char c)"
  by (auto simp: upper_char_def of_char_of intro!: mod_less)

lemma of_char_inject: "(of_char c = (of_char d :: nat)) = (c = d)"
  by (metis char_of_char)

lemma lower_char_fixed:
  assumes "of_char d < (65::nat)"
  shows "lower_char c = d \<longleftrightarrow> c = d"
proof -
  have "lower_char c = d \<longleftrightarrow> of_char (lower_char c) = (of_char d :: nat)"
    by (simp only: of_char_inject)
  also have "\<dots> \<longleftrightarrow> of_char c = (of_char d :: nat)"
    using assms by (auto simp only: of_char_lower split: if_splits)
  also have "\<dots> \<longleftrightarrow> c = d"
    by (simp only: of_char_inject)
  finally show ?thesis .
qed

lemma lower_char_hyphen [simp]: "lower_char c = CHR ''-'' \<longleftrightarrow> c = CHR ''-''"
  by (rule lower_char_fixed) simp

lemma hyphen_lower_char: "CHR ''-'' = lower_char c \<longleftrightarrow> CHR ''-'' = c"
  using lower_char_hyphen [of c] by (simp only: eq_commute)

lemma upper_lower [simp]: "upper_char (lower_char c) = upper_char c"
proof -
  have "of_char (upper_char (lower_char c)) = (of_char (upper_char c) :: nat)"
    by (simp only: of_char_upper of_char_lower) simp
  then show ?thesis by (simp only: of_char_inject)
qed

lemma to_upper_fold: "equal_fold a b \<Longrightarrow> to_upper a = to_upper b"
proof -
  assume "equal_fold a b"
  then have "map upper_char (to_lower a) = map upper_char (to_lower b)"
    by (simp add: equal_fold_def)
  then show ?thesis by (simp add: to_lower_def to_upper_def comp_def)
qed

lemma to_lower_hyphen: "CHR ''-'' \<in> set (to_lower s) \<longleftrightarrow> CHR ''-'' \<in> set s"
  by (induction s) (simp_all add: to_lower_def hyphen_lower_char)

lemma equal_fold_hyphen: "equal_fold a b \<Longrightarrow> CHR ''-'' \<in> set a \<longleftrightarrow> CHR ''-'' \<in> set b"
  by (metis equal_fold_def to_lower_hyphen)

lemma equal_fold_append:
  "equal_fold a a' \<Longrightarrow> equal_fold b b' \<Longrightarrow> equal_fold (a @ b) (a' @ b')"
  by (simp add: equal_fold_def to_lower_def)

text \<open>\<open>strings.Split(s, sep)\<close> for a one-byte separator.\<close>

fun split_on :: "char \<Rightarrow> string \<Rightarrow> string list" where
  "split_on c [] = [[]]"
| "split_on c (x # xs) =
     (if x = c then [] # split_on c xs
      else (case split_on c xs of [] \<Rightarrow> [[x]] | p # ps \<Rightarrow> (x # p) # ps))"

lemma split_on_not_Nil [simp]: "split_on c s \<noteq> []"
  by (induction c s rule: split_on.induct) (auto split: list.splits)

lemma length_split_on: "length (split_on c s) = Suc (count_list s c)"
  by (induction c s rule: split_on.induct) (auto split: list.splits)

lemma split_on_lengths:
  "sum_list (map length (split_on c s)) + length (split_on c s) = Suc (length s)"
  by (induction c s rule: split_on.induct) (auto split: list.splits)

lemma split_on_no_sep: "p \<in> set (split_on c s) \<Longrightarrow> c \<notin> set p"
  by (induction c s arbitrary: p rule: split_on.induct) (auto split: list.splits if_splits)

lemma split_on_fold:
  "map to_lower (split_on (CHR ''-'') s) = split_on (CHR ''-'') (to_lower s)"
proof (induction s)
  case Nil
  then show ?case by (simp add: to_lower_def)
next
  case (Cons x xs)
  obtain p ps where ps: "split_on (CHR ''-'') xs = p # ps"
    by (meson neq_Nil_conv split_on_not_Nil)
  then have "split_on (CHR ''-'') (to_lower xs) = to_lower p # map to_lower ps"
    using Cons by simp
  with ps show ?case by (simp add: to_lower_def)
qed

lemma equal_fold_split:
  assumes "equal_fold a b"
  shows "length (split_on (CHR ''-'') a) = length (split_on (CHR ''-'') b)"
    and "i < length (split_on (CHR ''-'') a) \<Longrightarrow>
      equal_fold (split_on (CHR ''-'') a ! i) (split_on (CHR ''-'') b ! i)"
proof -
  have eq: "map to_lower (split_on (CHR ''-'') a) = map to_lower (split_on (CHR ''-'') b)"
    using assms by (simp add: split_on_fold equal_fold_def)
  then show len: "length (split_on (CHR ''-'') a) = length (split_on (CHR ''-'') b)"
    by (rule map_eq_imp_length_eq)
  show "equal_fold (split_on (CHR ''-'') a ! i) (split_on (CHR ''-'') b ! i)"
    if "i < length (split_on (CHR ''-'') a)"
    using that len eq by (metis equal_fold_def nth_map)
qed

lemma length_ge_2: "2 \<le> length xs \<Longrightarrow> \<exists>a b r. xs = a # b # r"
  by (cases xs; cases "tl xs") auto

lemma length_ge_3: "3 \<le> length xs \<Longrightarrow> \<exists>a b c r. xs = a # b # c # r"
  by (cases xs; cases "tl xs"; cases "tl (tl xs)") auto

lemma distinct_map_eq:
  "distinct (map f xs) \<Longrightarrow> x \<in> set xs \<Longrightarrow> y \<in> set xs \<Longrightarrow> f x = f y \<Longrightarrow> x = y"
  by (simp add: distinct_map inj_on_def)

subsection \<open>\<open>slices.Min\<close>: \<open>None\<close> is the panic on an empty slice\<close>

definition slices_Min :: "'a::linorder list \<Rightarrow> 'a option" where
  "slices_Min xs = (case xs of [] \<Rightarrow> None | x # ys \<Rightarrow> Some (foldl min x ys))"

lemma foldl_min: "foldl min (x :: 'a::linorder) ys = Min (insert x (set ys))"
proof (induction ys arbitrary: x)
  case Nil
  then show ?case by simp
next
  case (Cons y ys)
  have "foldl min x (y # ys) = Min (insert (min x y) (set ys))"
    using Cons by simp
  also have "\<dots> = Min (insert x (set (y # ys)))"
    by (cases "ys = []") (simp_all add: min.assoc)
  finally show ?case .
qed

lemma slices_Min_eq: "slices_Min xs = (if xs = [] then None else Some (Min (set xs)))"
  by (cases xs) (simp_all add: slices_Min_def foldl_min)

lemma slices_Min_Some_iff: "slices_Min xs = Some m \<longleftrightarrow> xs \<noteq> [] \<and> m = Min (set xs)"
  by (auto simp: slices_Min_eq)

lemma slices_Min_in: "slices_Min xs = Some m \<Longrightarrow> m \<in> set xs"
  by (auto simp: slices_Min_Some_iff)

lemma slices_Min_cong: "set xs = set ys \<Longrightarrow> slices_Min xs = slices_Min ys"
  by (auto simp: slices_Min_eq)

subsection \<open>Sorting\<close>

fun insert_by :: "('a \<Rightarrow> 'a \<Rightarrow> bool) \<Rightarrow> 'a \<Rightarrow> 'a list \<Rightarrow> 'a list" where
  "insert_by lt x [] = [x]"
| "insert_by lt x (y # ys) = (if lt y x then y # insert_by lt x ys else x # y # ys)"

text \<open>\<open>sort.SliceStable\<close> and \<open>slices.SortStableFunc\<close>, for a \<open>lt\<close> that is a strict weak order.\<close>

definition stable_sort :: "('a \<Rightarrow> 'a \<Rightarrow> bool) \<Rightarrow> 'a list \<Rightarrow> 'a list" where
  "stable_sort lt xs = foldr (insert_by lt) xs []"

definition strict_weak :: "('a \<Rightarrow> 'a \<Rightarrow> bool) \<Rightarrow> bool" where
  "strict_weak lt \<longleftrightarrow>
     (\<forall>x y. lt x y \<longrightarrow> \<not> lt y x) \<and>
     (\<forall>x y z. \<not> lt x y \<longrightarrow> \<not> lt y z \<longrightarrow> \<not> lt x z)"

lemma strict_weak_asym: "strict_weak lt \<Longrightarrow> lt x y \<Longrightarrow> \<not> lt y x"
  unfolding strict_weak_def by blast

lemma strict_weak_negtrans:
  "strict_weak lt \<Longrightarrow> \<not> lt x y \<Longrightarrow> \<not> lt y z \<Longrightarrow> \<not> lt x z"
  unfolding strict_weak_def by blast

text \<open>Comparing by a key in a linear order is a strict weak order.\<close>

lemma strict_weak_key: "strict_weak (\<lambda>x y. key x < (key y :: 'b::linorder))"
  by (auto simp: strict_weak_def)

lemma mset_insert_by [simp]: "mset (insert_by lt x ys) = add_mset x (mset ys)"
  by (induction ys) auto

lemma mset_stable_sort [simp]: "mset (stable_sort lt xs) = mset xs"
  by (induction xs) (simp_all add: stable_sort_def)

lemma set_stable_sort [simp]: "set (stable_sort lt xs) = set xs"
  by (rule mset_eq_setD) simp

lemma set_insert_by [simp]: "set (insert_by lt x ys) = insert x (set ys)"
  by (induction ys) auto

lemma sorted_insert_by:
  assumes "strict_weak lt" and "sorted_wrt (\<lambda>x y. \<not> lt y x) ys"
  shows "sorted_wrt (\<lambda>x y. \<not> lt y x) (insert_by lt x ys)"
  using assms(2)
proof (induction ys)
  case Nil
  then show ?case by simp
next
  case (Cons y ys)
  show ?case
  proof (cases "lt y x")
    case True
    with Cons show ?thesis
      by (auto dest: strict_weak_asym [OF assms(1)])
  next
    case False
    with Cons.prems have "\<not> lt z x" if "z \<in> set ys" for z
      using that strict_weak_negtrans [OF assms(1), of z y x] by auto
    with False Cons.prems show ?thesis by auto
  qed
qed

lemma sorted_stable_sort:
  "strict_weak lt \<Longrightarrow> sorted_wrt (\<lambda>x y. \<not> lt y x) (stable_sort lt xs)"
  by (induction xs) (simp_all add: stable_sort_def sorted_insert_by)

text \<open>
  \<open>sort.Slice\<close>: a permutation of its argument with no inversion. The library promises nothing
  about elements that compare equal.
\<close>

locale slice_sorter =
  fixes sort_slice :: "('a \<Rightarrow> 'a \<Rightarrow> bool) \<Rightarrow> 'a list \<Rightarrow> 'a list"
  assumes sort_mset: "mset (sort_slice lt xs) = mset xs"
    and sort_sorted: "strict_weak lt \<Longrightarrow> sorted_wrt (\<lambda>x y. \<not> lt y x) (sort_slice lt xs)"
begin

lemma sort_set: "set (sort_slice lt xs) = set xs"
  by (rule mset_eq_setD) (rule sort_mset)

lemma sort_length: "length (sort_slice lt xs) = length xs"
  by (rule mset_eq_length) (rule sort_mset)

lemma sort_distinct: "distinct (sort_slice lt xs) = distinct xs"
  by (rule mset_eq_imp_distinct_iff) (rule sort_mset)

text \<open>An element at an earlier position is never greater than one at a later position.\<close>

lemma sort_nth:
  assumes "strict_weak lt" and "i < j" and "j < length xs"
  shows "\<not> lt (sort_slice lt xs ! j) (sort_slice lt xs ! i)"
  using sort_sorted [OF assms(1), of xs] assms(2,3) sort_length [of lt xs]
  by (auto simp: sorted_wrt_iff_nth_less)

end

interpretation stable: slice_sorter stable_sort
  by unfold_locales (simp_all add: sorted_stable_sort)

text \<open>When distinct elements never tie, the result does not depend on the sorting algorithm.\<close>

lemma sorted_wrt_unique:
  assumes "mset xs = mset ys"
    and "sorted_wrt (\<lambda>x y. \<not> lt y x) xs" and "sorted_wrt (\<lambda>x y. \<not> lt y x) ys"
    and "\<And>x y. x \<in> set xs \<Longrightarrow> y \<in> set xs \<Longrightarrow> \<not> lt x y \<Longrightarrow> \<not> lt y x \<Longrightarrow> x = y"
  shows "xs = ys"
  using assms
proof (induction xs arbitrary: ys)
  case Nil
  then show ?case by simp
next
  case (Cons x xs)
  obtain y ys' where ys: "ys = y # ys'"
    using Cons.prems(1) by (cases ys) auto
  have x_in: "x \<in> set ys" and y_in: "y \<in> set (x # xs)"
    using Cons.prems(1) ys by (metis list.set_intros(1) set_mset_mset)+
  have "x = y"
  proof (rule ccontr)
    assume "x \<noteq> y"
    then have "\<not> lt x y" "\<not> lt y x"
      using x_in y_in ys Cons.prems(2,3) by auto
    then show False using Cons.prems(4) [of x y] y_in \<open>x \<noteq> y\<close> by auto
  qed
  moreover have "xs = ys'"
    using Cons.prems ys \<open>x = y\<close> by (intro Cons.IH) auto
  ultimately show ?case using ys by simp
qed

subsection \<open>Go maps\<close>

text \<open>
  \<open>m[k]\<close> of a map with zero value \<open>z\<close>, \<open>m[k] = v\<close>, \<open>delete(m, k)\<close>, and
  \<open>maps.Equal\<close>.
\<close>

definition mget :: "'v \<Rightarrow> ('k, 'v) gomap \<Rightarrow> 'k \<Rightarrow> 'v" where
  "mget z m k = (case map_of m k of None \<Rightarrow> z | Some v \<Rightarrow> v)"

definition mput :: "'k \<Rightarrow> 'v \<Rightarrow> ('k, 'v) gomap \<Rightarrow> ('k, 'v) gomap" where
  "mput k v m = AList.update k v m"

definition mdel :: "'k \<Rightarrow> ('k, 'v) gomap \<Rightarrow> ('k, 'v) gomap" where
  "mdel k m = AList.delete k m"

definition mkeys :: "('k, 'v) gomap \<Rightarrow> 'k list" where
  "mkeys m = map fst m"

definition maps_Equal :: "('k, 'v) gomap \<Rightarrow> ('k, 'v) gomap \<Rightarrow> bool" where
  "maps_Equal a b = (length a = length b \<and> list_all (\<lambda>(k, v). map_of b k = Some v) a)"

definition gomap_ok :: "('k, 'v) gomap \<Rightarrow> bool" where
  "gomap_ok m = distinct (mkeys m)"

lemma mget_mput [gomap_simps]: "mget z (mput k v m) k' = (if k' = k then v else mget z m k')"
  by (simp add: mget_def mput_def update_conv')

lemma map_of_mput [gomap_simps]: "map_of (mput k v m) = (map_of m)(k \<mapsto> v)"
  by (simp add: mput_def update_conv')

lemma map_of_mdel [gomap_simps]: "map_of (mdel k m) = (map_of m)(k := None)"
  by (simp add: mdel_def delete_conv')

lemma gomap_ok_mput [intro]: "gomap_ok m \<Longrightarrow> gomap_ok (mput k v m)"
  by (simp add: gomap_ok_def mkeys_def mput_def distinct_update)

lemma gomap_ok_mdel [intro]: "gomap_ok m \<Longrightarrow> gomap_ok (mdel k m)"
  by (simp add: gomap_ok_def mkeys_def mdel_def distinct_delete)

lemma gomap_ok_Nil [simp]: "gomap_ok []"
  by (simp add: gomap_ok_def mkeys_def)

lemma set_mkeys_mput [gomap_simps]: "set (mkeys (mput k v m)) = insert k (set (mkeys m))"
  by (simp add: mkeys_def mput_def flip: dom_map_of_conv_image_fst) (simp add: update_conv')

lemma map_of_in_mkeys: "map_of m k = Some v \<Longrightarrow> k \<in> set (mkeys m)"
  by (force simp: mkeys_def dest: map_of_SomeD)

text \<open>\<open>m[k] += n\<close> on a map of numbers.\<close>

definition madd :: "'k \<Rightarrow> int \<Rightarrow> ('k, int) gomap \<Rightarrow> ('k, int) gomap" where
  "madd k n m = mput k (mget 0 m k + n) m"

lemma mget_madd [gomap_simps]: "mget 0 (madd k n m) k' = (if k' = k then mget 0 m k + n else mget 0 m k')"
  by (simp add: madd_def gomap_simps)

lemma gomap_ok_madd [intro]: "gomap_ok m \<Longrightarrow> gomap_ok (madd k n m)"
  by (simp add: madd_def gomap_ok_mput)

lemma set_mkeys_madd [gomap_simps]: "set (mkeys (madd k n m)) = insert k (set (mkeys m))"
  by (simp add: madd_def gomap_simps)

lemma mget_not_key: "k \<notin> set (mkeys m) \<Longrightarrow> mget z m k = z"
  by (simp add: mget_def mkeys_def map_of_eq_None_iff [THEN iffD2])

lemma mget_in: "gomap_ok m \<Longrightarrow> (k, v) \<in> set m \<Longrightarrow> mget z m k = v"
  by (simp add: mget_def gomap_ok_def mkeys_def)

text \<open>Mapping over the values of a map keeps its keys.\<close>

lemma mkeys_map_values [simp]: "mkeys (map (\<lambda>(k, v). (k, f k v)) m) = mkeys m"
  by (induction m) (auto simp: mkeys_def)

lemma map_of_map_values: "map_of (map (\<lambda>(k, v). (k, f k v)) m) k = map_option (f k) (map_of m k)"
  by (induction m) auto

text \<open>The sum of the values, and of those at the keys that satisfy \<open>P\<close>.\<close>

definition msum_where :: "('k \<Rightarrow> bool) \<Rightarrow> ('k, int) gomap \<Rightarrow> int" where
  "msum_where P m = sum_list (map (\<lambda>(k, v). if P k then v else 0) m)"

definition msum :: "('k, int) gomap \<Rightarrow> int" where
  "msum m = sum_list (map snd m)"

lemma msum_where_Nil [simp]: "msum_where P [] = 0"
  by (simp add: msum_where_def)

lemma msum_where_Cons [simp]: "msum_where P ((k, v) # m) = (if P k then v else 0) + msum_where P m"
  by (simp add: msum_where_def)

lemma msum_where_True: "msum m = msum_where (\<lambda>_. True) m"
  by (induction m) (auto simp: msum_def msum_where_def)

lemma msum_where_mput:
  "gomap_ok m \<Longrightarrow> msum_where P (mput k v m) = msum_where P m + (if P k then v - mget 0 m k else 0)"
proof (induction m)
  case Nil
  then show ?case by (simp add: mput_def mget_def)
next
  case (Cons a m)
  obtain k' v' where a: "a = (k', v')" by (cases a)
  show ?case
  proof (cases "k' = k")
    case True
    then show ?thesis using a by (simp add: mput_def mget_def)
  next
    case False
    then have "msum_where P (mput k v (a # m)) = (if P k' then v' else 0) + msum_where P (mput k v m)"
      "mget 0 (a # m) k = mget 0 m k"
      using a by (auto simp: mput_def mget_def)
    then show ?thesis using Cons a by (simp add: gomap_ok_def mkeys_def)
  qed
qed

lemma msum_where_madd: "gomap_ok m \<Longrightarrow> msum_where P (madd k n m) = msum_where P m + (if P k then n else 0)"
  by (simp add: madd_def msum_where_mput)

lemma msum_madd: "gomap_ok m \<Longrightarrow> msum (madd k n m) = msum m + n"
  by (simp add: msum_where_True msum_where_madd)

text \<open>A map of maps, \<open>m[k][l]\<close>; a missing outer key reads as an empty inner map.\<close>

definition mget2 :: "('k, ('l, 'v) gomap) gomap \<Rightarrow> 'k \<Rightarrow> 'l \<Rightarrow> 'v option" where
  "mget2 m k l = map_of (mget [] m k) l"

definition mput2 :: "'k \<Rightarrow> 'l \<Rightarrow> 'v \<Rightarrow> ('k, ('l, 'v) gomap) gomap \<Rightarrow> ('k, ('l, 'v) gomap) gomap" where
  "mput2 k l v m = mput k (mput l v (mget [] m k)) m"

definition mdel2 :: "'k \<Rightarrow> 'l \<Rightarrow> ('k, ('l, 'v) gomap) gomap \<Rightarrow> ('k, ('l, 'v) gomap) gomap" where
  "mdel2 k l m = (if k \<in> set (mkeys m) then mput k (mdel l (mget [] m k)) m else m)"

lemma mget2_mput2 [gomap_simps]:
  "mget2 (mput2 k l v m) k' l' = (if k' = k \<and> l' = l then Some v else mget2 m k' l')"
  by (simp add: mget2_def mput2_def gomap_simps)

lemma mget2_mdel2 [gomap_simps]:
  "mget2 (mdel2 k l m) k' l' = (if k' = k \<and> l' = l then None else mget2 m k' l')"
proof -
  have "k \<notin> set (mkeys m) \<Longrightarrow> mget2 m k l = None"
    by (simp add: mget2_def mget_def mkeys_def map_of_eq_None_iff [THEN iffD2])
  then show ?thesis by (auto simp: mdel2_def mget2_def gomap_simps)
qed

lemma mget2_Nil [gomap_simps]: "mget2 [] k l = None"
  by (simp add: mget2_def mget_def)

text \<open>Two iteration orders of one map.\<close>

definition same_map :: "('k, 'v) gomap \<Rightarrow> ('k, 'v) gomap \<Rightarrow> bool" where
  "same_map m m' = (mset m = mset m')"

lemma same_map_set: "same_map m m' \<Longrightarrow> set m = set m'"
  unfolding same_map_def by (rule mset_eq_setD)

lemma same_map_keys: "same_map m m' \<Longrightarrow> set (mkeys m) = set (mkeys m')"
  by (simp add: mkeys_def same_map_set)

end
