(* ===== verification/Shape.thy ===== *)
theory Shape
  imports Prelude "HOL-Library.Log_Nat"
begin

text \<open>
  What one engine occupies, worked out from its command line:
  \<open>internal/warmpool/pool/shape.go\<close>.

  The library functions the file calls are modelled where it calls them: \<open>strings.Fields\<close>,
  \<open>strings.Cut\<close>, \<open>strings.Contains\<close>, \<open>strconv.Atoi\<close>, \<open>strconv.ParseFloat\<close>
  on a run of digits, and the one regular expression \<open>paramCount\<close>, whose leftmost matches are
  found by \<open>findAll\<close>. Command lines are ASCII.

  A non-negative \<open>float64\<close> is the rational it stands for and \<open>f64\<close> rounds to the
  nearest one, ties to even; \<open>int64\<close> arithmetic wraps (\<open>wrap64\<close>), and a float beyond the
  range converts to the least \<open>int64\<close>, as it does on amd64.
\<close>

named_theorems shape_simps \<open>evaluation of the command line readers\<close>

subsection \<open>Machine arithmetic\<close>

definition wrap64 :: "int \<Rightarrow> int" where
  "wrap64 x = (x + 2 ^ 63) mod 2 ^ 64 - 2 ^ 63"

definition exp2 :: "int \<Rightarrow> rat" where
  "exp2 e = 2 powi e"

text \<open>The exponent of a positive rational: the \<open>e\<close> with \<open>exp2 e \<le> x < exp2 (e + 1)\<close>.\<close>

definition floor_log2 :: "rat \<Rightarrow> int" where
  "floor_log2 x =
     (let (n, d) = quotient_of x;
          e = int (floorlog 2 (nat n)) - int (floorlog 2 (nat d))
      in if x < exp2 e then e - 1 else e)"

definition round_even :: "rat \<Rightarrow> int" where
  "round_even x =
     (let f = \<lfloor>x\<rfloor>; r = x - of_int f in
      if r < 1 / 2 then f else if 1 / 2 < r then f + 1 else if even f then f else f + 1)"

definition f64 :: "rat \<Rightarrow> rat" where
  "f64 x = (if x \<le> 0 then 0
     else let e = max (floor_log2 x - 52) (- 1074) in of_int (round_even (x / exp2 e)) * exp2 e)"

definition max_f64 :: rat where
  "max_f64 = (2 ^ 53 - 1) * 2 ^ 971"

text \<open>\<open>int64(f)\<close>.\<close>

definition int64_of :: "rat \<Rightarrow> int" where
  "int64_of f = (if f < 2 ^ 63 then \<lfloor>f\<rfloor> else min_int)"

subsection \<open>Strings\<close>

definition is_space :: "char \<Rightarrow> bool" where
  "is_space c \<longleftrightarrow> of_char c = (32::nat) \<or> (9::nat) \<le> of_char c \<and> of_char c \<le> (13::nat)"

text \<open>\<open>strings.Fields\<close>: \<open>cur\<close> is the field being read, reversed.\<close>

fun fields_from :: "string \<Rightarrow> string \<Rightarrow> string list" where
  "fields_from cur [] = (if cur = [] then [] else [rev cur])"
| "fields_from cur (c # cs) =
     (if is_space c then (if cur = [] then fields_from [] cs else rev cur # fields_from [] cs)
      else fields_from (c # cur) cs)"

definition strings_Fields :: "string \<Rightarrow> string list" where
  "strings_Fields s = fields_from [] s"

text \<open>\<open>strings.Cut(s, "=")\<close>: before, after, found.\<close>

fun strings_Cut :: "char \<Rightarrow> string \<Rightarrow> string \<times> string \<times> bool" where
  "strings_Cut sep [] = ([], [], False)"
| "strings_Cut sep (c # cs) =
     (if c = sep then ([], cs, True)
      else let (before, after, found) = strings_Cut sep cs in (c # before, after, found))"

fun has_prefix :: "string \<Rightarrow> string \<Rightarrow> bool" where
  "has_prefix _ [] = True"
| "has_prefix [] (_ # _) = False"
| "has_prefix (c # cs) (p # ps) = (c = p \<and> has_prefix cs ps)"

fun strings_Contains :: "string \<Rightarrow> string \<Rightarrow> bool" where
  "strings_Contains [] sub = (sub = [])"
| "strings_Contains (c # cs) sub = (has_prefix (c # cs) sub \<or> strings_Contains cs sub)"

text \<open>
  \<open>strconv.ParseFloat\<close> of \<open>whole\<close> or \<open>whole.fr\<close>, both runs of digits: the value
  correctly rounded, and the range error as \<open>None\<close>.
\<close>

definition parse_float :: "string \<Rightarrow> string \<Rightarrow> rat option" where
  "parse_float whole fr =
     (let v = f64 (of_nat (nat_of_digits (whole @ fr)) / 10 ^ length fr)
      in if max_f64 < v then None else Some v)"

subsection \<open>The parameter count in a model name\<close>

text \<open>
  \<open>paramCount\<close>, \<open>(?i)(?:^|[-_/.])(?:(\d+)x)?(\d+(?:\.\d+)?)b(?:$|[-_/.])\<close>.
  \<open>count_body\<close> matches what follows the opening delimiter and gives the experts group, the
  number as its whole and fractional digits, and what is left after the closing delimiter.
  No character class of the pattern overlaps the one after it, so one attempt decides the match.
\<close>

record param_match =
  pmExperts :: string
  pmWhole :: string
  pmFrac :: string

definition is_delim :: "char \<Rightarrow> bool" where
  "is_delim c \<longleftrightarrow> c \<in> {CHR ''-'', CHR ''_'', CHR ''/'', CHR ''.''}"

definition digits_of :: "string \<Rightarrow> string" where
  "digits_of s = takeWhile is_digit s"

definition after_digits :: "string \<Rightarrow> string" where
  "after_digits s = dropWhile is_digit s"

definition count_number :: "string \<Rightarrow> (string \<times> string \<times> string) option" where
  "count_number s =
     (if digits_of s = [] then None
      else let r = after_digits s in
        if r \<noteq> [] \<and> hd r = CHR ''.'' \<and> digits_of (tl r) \<noteq> []
        then Some (digits_of s, digits_of (tl r), after_digits (tl r))
        else Some (digits_of s, [], r))"

definition count_close :: "string \<Rightarrow> string option" where
  "count_close s =
     (case s of [] \<Rightarrow> None
      | c # r \<Rightarrow> if lower_char c \<noteq> CHR ''b'' then None
                  else case r of [] \<Rightarrow> Some [] | d # r' \<Rightarrow> if is_delim d then Some r' else None)"

definition count_tail :: "string \<Rightarrow> string \<Rightarrow> (param_match \<times> string) option" where
  "count_tail experts s =
     (case count_number s of None \<Rightarrow> None
      | Some (w, f, r) \<Rightarrow>
          (case count_close r of None \<Rightarrow> None
           | Some rest \<Rightarrow> Some (\<lparr>pmExperts = experts, pmWhole = w, pmFrac = f\<rparr>, rest)))"

definition count_body :: "string \<Rightarrow> (param_match \<times> string) option" where
  "count_body s =
     (let r = after_digits s in
      if digits_of s \<noteq> [] \<and> r \<noteq> [] \<and> lower_char (hd r) = CHR ''x''
      then count_tail (digits_of s) (tl r) else count_tail [] s)"

text \<open>\<open>FindAllStringSubmatch\<close>: successive matches, each starting where the last one ended.\<close>

lemma after_digits_length: "length (after_digits s) \<le> length s"
  by (simp add: after_digits_def length_dropWhile_le)

lemma count_number_length: "count_number s = Some (w, f, r) \<Longrightarrow> length r \<le> length s"
  using after_digits_length [of s] after_digits_length [of "tl (after_digits s)"]
  by (auto simp: count_number_def Let_def split: if_splits)

lemma count_tail_length: "count_tail e s = Some (m, r) \<Longrightarrow> length r < length s"
  by (auto simp: count_tail_def count_close_def dest!: count_number_length
      split: option.splits prod.splits list.splits if_splits)

lemma count_body_length: "count_body s = Some (m, r) \<Longrightarrow> length r < length s"
  using after_digits_length [of s]
  by (cases "after_digits s")
    (auto simp: count_body_def Let_def dest!: count_tail_length split: if_splits)

function findAll :: "bool \<Rightarrow> string \<Rightarrow> param_match list" where
  "findAll bol s =
     (case if bol then count_body s else None of
        Some (m, rest) \<Rightarrow> m # findAll False rest
      | None \<Rightarrow>
          (case s of [] \<Rightarrow> []
           | c # cs \<Rightarrow>
               (case if is_delim c then count_body cs else None of
                  Some (m, rest) \<Rightarrow> m # findAll False rest
                | None \<Rightarrow> findAll False cs)))"
  by pat_completeness auto
termination
  by (relation "measure (length \<circ> snd)") (auto dest!: count_body_length split: if_splits)

definition paramsOf :: "string \<Rightarrow> rat option" where
  "paramsOf model =
     (let matches = findAll True model in
      if matches = [] then None
      else let m = last matches in
        (case parse_float (pmWhole m) (pmFrac m) of None \<Rightarrow> None
         | Some billions \<Rightarrow>
             if billions \<le> 0 then None
             else
               let billions' =
                 (if pmExperts m \<noteq> [] then
                    (case parse_float (pmExperts m) [] of None \<Rightarrow> billions
                     | Some experts \<Rightarrow> if 0 < experts then f64 (billions * experts) else billions)
                  else billions)
               in Some (f64 (billions' * 10 ^ 9))))"

subsection \<open>Reading the command line\<close>

text \<open>The loop of \<open>flagValue\<close>; the second equation for a flag takes the next token and skips it.\<close>

fun flagScan :: "string \<Rightarrow> string \<Rightarrow> string list \<Rightarrow> string" where
  "flagScan name value [] = value"
| "flagScan name value [f] =
     (let (field, inline, hasInline) = strings_Cut (CHR ''='') f in
      if field = name \<and> hasInline then inline else value)"
| "flagScan name value (f # g # rest) =
     (let (field, inline, hasInline) = strings_Cut (CHR ''='') f in
      if field \<noteq> name then flagScan name value (g # rest)
      else if hasInline then flagScan name inline (g # rest)
      else flagScan name g rest)"

definition flagValue :: "string \<Rightarrow> string \<Rightarrow> string" where
  "flagValue options name = flagScan name [] (strings_Fields options)"

definition nodeCount :: "string \<Rightarrow> int" where
  "nodeCount options =
     (case strconv_Atoi (flagValue options ''--nnodes'') of None \<Rightarrow> 1
      | Some n \<Rightarrow> if n < 1 \<or> 2 ^ 31 - 1 < n then 1 else n)"

definition parallelism :: "string \<Rightarrow> int" where
  "parallelism options =
     (let gpus = foldl (\<lambda>gpus flag.
            (case strconv_Atoi (flagValue options flag) of None \<Rightarrow> gpus
             | Some n \<Rightarrow> if 1 < n then wrap64 (gpus * n) else gpus))
          1 [''--tensor-parallel-size'', ''--pipeline-parallel-size'', ''--data-parallel-size'']
      in if gpus < 1 \<or> 2 ^ 31 - 1 < gpus then 1 else gpus)"

definition bytesPerParam :: "string \<Rightarrow> int" where
  "bytesPerParam options =
     (let dtype = to_lower (flagValue options ''--dtype'');
          quant = to_lower (flagValue options ''--quantization'')
      in if strings_Contains dtype ''float32'' \<or> dtype = ''float'' \<or> dtype = ''fp32'' then 4
         else if strings_Contains dtype ''float8'' \<or> strings_Contains dtype ''fp8'' \<or>
                 strings_Contains quant ''fp8'' \<or> strings_Contains quant ''float8'' then 1
         else 2)"

subsection \<open>The shape and its memo\<close>

record shape =
  HostBytes :: int
  shGPUs :: int
  shPods :: int

definition Known :: "shape \<Rightarrow> bool" where
  "Known s \<longleftrightarrow> 0 < HostBytes s"

definition sleeperOverheadBytes :: int where
  "sleeperOverheadBytes = 2609 * 2 ^ 20"

definition weightsOf :: "rat \<Rightarrow> string \<Rightarrow> int" where
  "weightsOf params options = int64_of (f64 (params * of_int (bytesPerParam options)))"

definition copiesOf :: "string \<Rightarrow> int" where
  "copiesOf options =
     (case strconv_Atoi (flagValue options ''--data-parallel-size'') of None \<Rightarrow> 1
      | Some dp \<Rightarrow> if 1 < dp then dp else 1)"

text \<open>
  \<open>sleeperOverheadBytes*ranks + weights*copies*14/10\<close>: the products wrap, the division
  truncates.
\<close>

definition hostBytes :: "int \<Rightarrow> int \<Rightarrow> int \<Rightarrow> int" where
  "hostBytes ranks weights copies =
     (let w = wrap64 (wrap64 (weights * copies) * 14);
          q = (if 0 \<le> w then w div 10 else - ((- w) div 10))
      in wrap64 (wrap64 (sleeperOverheadBytes * ranks) + q))"

definition computeShape :: "string \<Rightarrow> shape" where
  "computeShape options =
     (let s = \<lparr>HostBytes = 0, shGPUs = parallelism options, shPods = nodeCount options\<rparr> in
      case paramsOf (flagValue options ''--model'') of None \<Rightarrow> s
      | Some params \<Rightarrow>
          let ranks = shGPUs s div shPods s;
              ranks' = (if ranks < 1 then 1 else ranks)
          in s\<lparr>HostBytes := hostBytes ranks' (weightsOf params options) (copiesOf options)\<rparr>)"

definition shapeMemoMax :: nat where
  "shapeMemoMax = 1024"

text \<open>\<open>ShapeOf\<close> with the package variable \<open>shapeMemo\<close> passed and returned.\<close>

definition ShapeOf :: "(string, shape) gomap \<Rightarrow> string \<Rightarrow> shape \<times> (string, shape) gomap" where
  "ShapeOf memo options =
     (case map_of memo options of Some cached \<Rightarrow> (cached, memo)
      | None \<Rightarrow>
          let s = computeShape options;
              memo' = (if shapeMemoMax \<le> length memo then [] else memo)
          in (s, mput options s memo'))"

subsection \<open>Ranges\<close>

lemma wrap64_range: "- (2 ^ 63) \<le> wrap64 x \<and> wrap64 x < 2 ^ 63"
  by (simp add: wrap64_def)

lemma wrap64_id: "- (2 ^ 63) \<le> x \<Longrightarrow> x < 2 ^ 63 \<Longrightarrow> wrap64 x = x"
  by (simp add: wrap64_def mod_pos_pos_trivial)

lemma parallelism_range: "1 \<le> parallelism options \<and> parallelism options \<le> 2 ^ 31 - 1"
  by (simp add: parallelism_def Let_def)

lemma nodeCount_range: "1 \<le> nodeCount options \<and> nodeCount options \<le> 2 ^ 31 - 1"
  by (simp add: nodeCount_def split: option.split)

lemma copiesOf_pos: "1 \<le> copiesOf options"
  by (simp add: copiesOf_def split: option.split)

lemma hostBytes_exact:
  assumes "0 \<le> ranks" and "0 \<le> weights" and "0 \<le> copies"
    and "weights * copies * 14 < 2 ^ 63"
    and "sleeperOverheadBytes * ranks + weights * copies * 14 div 10 < 2 ^ 63"
  shows "hostBytes ranks weights copies = sleeperOverheadBytes * ranks + weights * copies * 14 div 10"
proof -
  have wc: "0 \<le> weights * copies" using assms by simp
  then have "wrap64 (weights * copies) = weights * copies"
    using assms(4) by (intro wrap64_id) linarith+
  then have w: "wrap64 (wrap64 (weights * copies) * 14) = weights * copies * 14"
    using assms(4) wc by (simp only:) (intro wrap64_id; linarith)
  have o: "0 \<le> sleeperOverheadBytes * ranks" using assms(1) by (simp add: sleeperOverheadBytes_def)
  have "0 \<le> weights * copies * 14" using wc by linarith
  then have q: "0 \<le> weights * copies * 14 div 10"
    by (simp only: pos_imp_zdiv_nonneg_iff zero_less_numeral)
  have "wrap64 (sleeperOverheadBytes * ranks) = sleeperOverheadBytes * ranks"
    using o q assms(5) by (intro wrap64_id) linarith+
  moreover have "wrap64 (sleeperOverheadBytes * ranks + weights * copies * 14 div 10)
      = sleeperOverheadBytes * ranks + weights * copies * 14 div 10"
    using o q assms(5) by (intro wrap64_id) linarith+
  ultimately show ?thesis
    using w wc by (simp add: hostBytes_def Let_def)
qed

subsection \<open>The memo\<close>

definition memo_ok :: "(string, shape) gomap \<Rightarrow> bool" where
  "memo_ok memo \<longleftrightarrow> gomap_ok memo \<and> length memo \<le> shapeMemoMax \<and>
     list_all (\<lambda>(options, s). s = computeShape options) memo"

lemma length_mput: "length (mput k v m) = (if k \<in> set (mkeys m) then length m else Suc (length m))"
  by (induction m) (auto simp: mput_def mkeys_def)

lemma set_mput_subset: "set (mput k v m) \<subseteq> insert (k, v) (set m)"
  by (induction m) (auto simp: mput_def)

lemma memo_ok_empty: "memo_ok []"
  by (simp add: memo_ok_def)

lemma ShapeOf_memo:
  assumes "memo_ok memo"
  shows "fst (ShapeOf memo options) = computeShape options" and "memo_ok (snd (ShapeOf memo options))"
proof -
  show "fst (ShapeOf memo options) = computeShape options"
    using assms by (auto simp: ShapeOf_def Let_def memo_ok_def list_all_iff split: option.split
        dest!: map_of_SomeD)
  let ?m = "if shapeMemoMax \<le> length memo then [] else memo"
  have m: "gomap_ok ?m" "length ?m < shapeMemoMax" "list_all (\<lambda>(options, s). s = computeShape options) ?m"
    using assms by (auto simp: memo_ok_def shapeMemoMax_def)
  then have "memo_ok (mput options (computeShape options) ?m)"
    using set_mput_subset [of options "computeShape options" ?m]
    by (auto simp: memo_ok_def length_mput list_all_iff simp del: if_split)
  then show "memo_ok (snd (ShapeOf memo options))"
    using assms by (auto simp: ShapeOf_def Let_def split: option.split if_splits)
qed

lemma ShapeOf_calls:
  assumes "memo_ok memo"
  shows "memo_ok (fst (foldl (\<lambda>(memo, rs) options. (snd (ShapeOf memo options), rs @ [ShapeOf memo options]))
      (memo, rs) calls)) \<and>
    map fst (snd (foldl (\<lambda>(memo, rs) options. (snd (ShapeOf memo options), rs @ [ShapeOf memo options]))
      (memo, rs) calls)) = map fst rs @ map computeShape calls"
  using assms
  by (induction calls arbitrary: memo rs) (simp_all add: ShapeOf_memo)

subsection \<open>Rounding\<close>

lemma exp2_pos [simp]: "0 < exp2 e"
  by (simp add: exp2_def)

lemma exp2_nz [simp]: "exp2 e \<noteq> 0"
  by (simp add: exp2_def)

lemma exp2_add: "exp2 (a + b) = exp2 a * exp2 b"
  by (simp add: exp2_def power_int_add)

lemma exp2_diff: "exp2 (a - b) = exp2 a / exp2 b"
  by (simp add: exp2_def power_int_diff)

lemma exp2_nat: "exp2 (int n) = 2 ^ n"
  by (simp add: exp2_def)

lemma exp2_less_iff [simp]: "exp2 a < exp2 b \<longleftrightarrow> a < b"
  using power_int_strict_increasing [of a b "2::rat"] power_int_increasing [of b a "2::rat"]
  by (fastforce simp: exp2_def not_less [symmetric])

lemma floorlog_exp2:
  assumes "0 < n"
  shows "exp2 (int (floorlog 2 n) - 1) \<le> of_nat n \<and> of_nat n < exp2 (int (floorlog 2 n))"
proof -
  have b: "2 ^ (floorlog 2 n - 1) \<le> n" "n < 2 ^ floorlog 2 n"
    using floorlog_bounds [of n 2] assms by auto
  have "0 < floorlog 2 n" using b assms by (cases "floorlog 2 n") auto
  then have "int (floorlog 2 n) - 1 = int (floorlog 2 n - 1)" by simp
  moreover have "(2::rat) ^ (floorlog 2 n - 1) \<le> of_nat n" "of_nat n < (2::rat) ^ floorlog 2 n"
    using b by (metis of_nat_le_iff of_nat_numeral of_nat_power, metis of_nat_less_iff of_nat_numeral of_nat_power)
  ultimately show ?thesis by (simp only: exp2_nat)
qed

lemma floor_log2_bounds:
  assumes "0 < x"
  shows "exp2 (floor_log2 x) \<le> x \<and> x < exp2 (floor_log2 x + 1)"
proof -
  obtain n d where q: "quotient_of x = (n, d)" by (cases "quotient_of x")
  have d: "0 < d" and x: "x = of_int n / of_int d"
    using quotient_of_denom_pos [OF q] quotient_of_div [OF q] by auto
  then have n: "0 < n" using assms by (simp add: zero_less_divide_iff)
  define a b where "a = int (floorlog 2 (nat n))" and "b = int (floorlog 2 (nat d))"
  have na: "exp2 (a - 1) \<le> of_int n" "of_int n < exp2 a"
    using floorlog_exp2 [of "nat n"] n by (auto simp: a_def of_nat_nat)
  have db: "exp2 (b - 1) \<le> of_int d" "of_int d < exp2 b"
    using floorlog_exp2 [of "nat d"] d by (auto simp: b_def of_nat_nat)
  have dpos: "(0::rat) < of_int d" using d by simp
  have "x < exp2 (a - b + 1)"
  proof -
    have "x < exp2 a / exp2 (b - 1)"
      unfolding x using na(2) db(1) dpos n by (intro frac_less) auto
    then show ?thesis by (simp add: exp2_diff [symmetric] algebra_simps)
  qed
  moreover have "exp2 (a - b - 1) \<le> x"
  proof -
    have "exp2 (a - 1) / exp2 b \<le> x"
      unfolding x using na(1) db(2) dpos n by (intro frac_le) auto
    then show ?thesis by (simp add: exp2_diff [symmetric] algebra_simps)
  qed
  ultimately show ?thesis
    by (auto simp: floor_log2_def q a_def b_def Let_def algebra_simps)
qed

lemma round_even_of_int [simp]: "round_even (of_int n) = n"
  by (simp add: round_even_def)

text \<open>A product of an integer of at most 53 bits and a power of two is represented exactly.\<close>

lemma f64_exact:
  assumes "0 < m" and "m < 2 ^ 53" and "- 1074 \<le> e" and "x = of_int m * exp2 e"
  shows "f64 x = x"
proof -
  have x: "0 < x" using assms(1,4) by simp
  define e' where "e' = max (floor_log2 x - 52) (- 1074)"
  have "x < exp2 53 * exp2 e"
    using assms(2,4) by (simp add: exp2_def)
  then have "exp2 (floor_log2 x) < exp2 (53 + e)"
    using floor_log2_bounds [OF x] by (simp add: exp2_add)
  then have "e' \<le> e" using assms(3) by (simp add: e'_def)
  then obtain k where k: "e = e' + int k" by (metis zle_iff_zadd)
  have "x / exp2 e' = of_int (m * 2 ^ k)"
    by (simp add: assms(4) k exp2_add exp2_nat)
  then have "of_int (round_even (x / exp2 e')) * exp2 e' = x"
    by (simp only: round_even_of_int) (simp add: assms(4) k exp2_add exp2_nat)
  then show ?thesis using x by (simp add: f64_def Let_def e'_def)
qed

lemma f64_of_int: "0 \<le> n \<Longrightarrow> n < 2 ^ 53 \<Longrightarrow> f64 (of_int n) = of_int n"
  using f64_exact [of n 0 "of_int n"] by (cases "n = 0") (simp_all add: f64_def exp2_def)

subsection \<open>Parameter counts\<close>

lemma digits_append:
  assumes "list_all is_digit ds" and "r = [] \<or> \<not> is_digit (hd r)"
  shows "digits_of (ds @ r) = ds" and "after_digits (ds @ r) = r"
proof -
  have "takeWhile is_digit r = []" "dropWhile is_digit r = r"
    using assms(2) by (cases r; simp)+
  then show "digits_of (ds @ r) = ds" "after_digits (ds @ r) = r"
    using assms(1) by (simp_all add: digits_of_def after_digits_def list_all_iff takeWhile_append dropWhile_append)
qed

lemma delim_not_digit [simp, dest]: "is_delim c \<Longrightarrow> \<not> is_digit c"
  by (auto simp: is_delim_def is_digit_def)

lemma b_not_digit: "lower_char b = CHR ''b'' \<Longrightarrow> \<not> is_digit b \<and> b \<noteq> CHR ''.'' \<and> lower_char b \<noteq> CHR ''x'' \<and> \<not> is_delim b"
  by (auto simp: is_digit_def is_delim_def lower_char_def split: if_splits)

lemma count_body_nondigit: "s = [] \<or> \<not> is_digit (hd s) \<Longrightarrow> count_body s = None"
  by (cases s) (auto simp: count_body_def count_tail_def count_number_def digits_of_def Let_def)

lemma lower_B: "lower_char (CHR ''B'') = CHR ''b''" "lower_char (CHR ''x'') = CHR ''x''"
  by code_simp+

definition count_suffix :: "string \<Rightarrow> bool" where
  "count_suffix suf \<longleftrightarrow> suf = [] \<or> is_delim (hd suf)"

lemma count_body_number:
  assumes "ds \<noteq> []" and "list_all is_digit ds" and "lower_char b = CHR ''b''" and "count_suffix suf"
  shows "count_body (ds @ b # suf) = Some (\<lparr>pmExperts = [], pmWhole = ds, pmFrac = []\<rparr>, tl suf)"
proof -
  have d: "digits_of (ds @ b # suf) = ds" "after_digits (ds @ b # suf) = b # suf"
    using digits_append [OF assms(2), of "b # suf"] b_not_digit [OF assms(3)] by auto
  have n: "count_number (ds @ b # suf) = Some (ds, [], b # suf)"
    using assms(1) b_not_digit [OF assms(3)] by (simp add: count_number_def d Let_def)
  have c: "count_close (b # suf) = Some (tl suf)"
    using assms(3,4) by (cases suf) (auto simp: count_close_def count_suffix_def)
  show ?thesis
    using assms(1) b_not_digit [OF assms(3)] by (simp add: count_body_def d Let_def count_tail_def n c)
qed

lemma count_body_experts:
  assumes "es \<noteq> []" and "list_all is_digit es" and "lower_char x = CHR ''x''"
    and "ds \<noteq> []" and "list_all is_digit ds" and "lower_char b = CHR ''b''" and "count_suffix suf"
  shows "count_body (es @ x # ds @ b # suf) = Some (\<lparr>pmExperts = es, pmWhole = ds, pmFrac = []\<rparr>, tl suf)"
proof -
  have x: "\<not> is_digit x" using assms(3) by (auto simp: is_digit_def lower_char_def split: if_splits)
  have e: "digits_of (es @ x # ds @ b # suf) = es" "after_digits (es @ x # ds @ b # suf) = x # ds @ b # suf"
    using digits_append [OF assms(2), of "x # ds @ b # suf"] x by auto
  have d: "digits_of (ds @ b # suf) = ds" "after_digits (ds @ b # suf) = b # suf"
    using digits_append [OF assms(5), of "b # suf"] b_not_digit [OF assms(6)] by auto
  have n: "count_number (ds @ b # suf) = Some (ds, [], b # suf)"
    using assms(4) b_not_digit [OF assms(6)] by (simp add: count_number_def d Let_def)
  have c: "count_close (b # suf) = Some (tl suf)"
    using assms(6,7) by (cases suf) (auto simp: count_close_def count_suffix_def)
  show ?thesis
    using assms(1,3) by (simp add: count_body_def e Let_def count_tail_def n c)
qed

declare findAll.simps [simp del]

text \<open>No count is found in a text without digits, and none before its first digit.\<close>

lemma findAll_step:
  "findAll False (c # cs) =
     (case if is_delim c then count_body cs else None of
        Some (m, rest) \<Rightarrow> m # findAll False rest | None \<Rightarrow> findAll False cs)"
  by (subst findAll.simps) simp

lemma findAll_bol:
  "s = [] \<or> \<not> is_digit (hd s) \<Longrightarrow> findAll True s = findAll False s"
  by (subst (1 2) findAll.simps) (simp add: count_body_nondigit)

lemma findAll_no_digit: "list_all (\<lambda>c. \<not> is_digit c) s \<Longrightarrow> findAll False s = []"
proof (induction s)
  case Nil
  then show ?case by (subst findAll.simps) simp
next
  case (Cons c cs)
  then have "count_body cs = None" by (cases cs) (auto intro: count_body_nondigit)
  with Cons show ?case by (simp add: findAll_step)
qed

lemma findAll_no_delim: "list_all (\<lambda>c. \<not> is_delim c) s \<Longrightarrow> findAll False s = []"
proof (induction s)
  case Nil
  then show ?case by (subst findAll.simps) simp
next
  case (Cons c cs)
  then show ?case by (simp add: findAll_step)
qed

lemma findAll_prefix:
  assumes "list_all (\<lambda>c. \<not> is_digit c) pre" and "is_delim d" and "count_body t = Some (m, rest)"
  shows "findAll False (pre @ d # t) = m # findAll False rest"
  using assms(1)
proof (induction pre)
  case Nil
  then show ?case using assms(2,3) by (simp add: findAll_step)
next
  case (Cons c cs)
  have "\<not> is_digit (hd (cs @ d # t))" using Cons.prems assms(2) by (cases cs) auto
  then have "count_body (cs @ d # t) = None" by (simp add: count_body_nondigit)
  with Cons show ?case by (simp add: findAll_step)
qed

lemma findAll_name:
  assumes "list_all (\<lambda>c. \<not> is_digit c) pre" and "is_delim d" and "count_body t = Some (m, rest)"
  shows "findAll True (pre @ d # t) = m # findAll False rest"
  using findAll_prefix [OF assms] findAll_bol [of "pre @ d # t"] assms(1,2) by (cases pre) auto

lemma parse_float_nat:
  assumes "nat_of_digits ds < 2 ^ 53"
  shows "parse_float ds [] = Some (of_nat (nat_of_digits ds))"
proof -
  have "f64 (of_nat (nat_of_digits ds)) = of_nat (nat_of_digits ds)"
    using f64_of_int [of "int (nat_of_digits ds)"] assms by (simp add: of_nat_less_numeral_power_cancel_iff)
  moreover have "(of_nat (nat_of_digits ds) :: rat) \<le> max_f64"
  proof -
    have "(of_nat (nat_of_digits ds) :: rat) < 2 ^ 53"
      using assms by (metis of_nat_less_iff of_nat_numeral of_nat_power)
    also have "(2 ^ 53 :: rat) \<le> max_f64" by (simp add: max_f64_def)
    finally show ?thesis by simp
  qed
  ultimately show ?thesis by (simp add: parse_float_def Let_def)
qed

lemma factor_le: "1 \<le> (k :: nat) \<Longrightarrow> k * n \<le> m \<Longrightarrow> n \<le> m"
  by (cases k) auto

lemma paramsOf_last:
  assumes "findAll True model = ms @ [\<lparr>pmExperts = es, pmWhole = ds, pmFrac = []\<rparr>]"
    and "1 \<le> nat_of_digits ds" and "es \<noteq> [] \<Longrightarrow> 1 \<le> nat_of_digits es"
    and "(if es = [] then 1 else nat_of_digits es) * nat_of_digits ds \<le> 9000000"
  shows "paramsOf model =
    Some (of_nat ((if es = [] then 1 else nat_of_digits es) * nat_of_digits ds) * 10 ^ 9)"
proof -
  define n k where "n = nat_of_digits ds" and "k = (if es = [] then 1 else nat_of_digits es)"
  have k: "1 \<le> k" "k * n \<le> 9000000" and n: "1 \<le> n" using assms(2-4) by (auto simp: n_def k_def)
  have small: "n \<le> 9000000" "k \<le> 9000000"
    using k n factor_le [of k n] factor_le [of n k] by (simp_all add: mult.commute)
  have ds: "parse_float ds [] = Some (of_nat n)"
    using parse_float_nat [of ds] small by (simp add: n_def)
  define p where "p = k * n"
  have p: "p \<le> 9000000" "of_nat n * of_nat k = (of_nat p :: rat)"
    using k(2) by (simp_all add: p_def mult.commute)
  have prod: "f64 (of_nat n * of_nat k) = of_nat p"
    using f64_of_int [of "int p"] p by simp
  have total: "f64 (of_nat p * 10 ^ 9) = of_nat p * 10 ^ 9"
    using f64_of_int [of "int p * 10 ^ 9"] p(1) by simp
  have "es \<noteq> [] \<Longrightarrow> parse_float es [] = Some (of_nat k)"
    using parse_float_nat [of es] small by (simp add: k_def)
  with ds prod total n k show ?thesis
    by (cases "es = []") (simp_all add: paramsOf_def assms(1) Let_def p_def k_def flip: n_def)
qed

subsection \<open>Properties\<close>

text \<open>
  A model name that carries one parameter count between delimiters, \<open>...-8B-Instruct\<close>,
  is read as that many billions of parameters, and a mixture of experts \<open>...-8x7B\<close> as the
  product of its two numbers, exactly, up to nine million billions: the experts are never
  dropped and no rounding of the float arithmetic shows.
\<close>

lemma paramsOf_count:
  assumes "list_all (\<lambda>c. \<not> is_digit c) pre" and "is_delim d"
    and "list_all is_digit es" and "list_all is_digit ds"
    and "1 \<le> nat_of_digits ds" and "1 \<le> nat_of_digits es"
    and "nat_of_digits es * nat_of_digits ds \<le> 9000000"
    and "lower_char x = CHR ''x''" and "lower_char b = CHR ''b''"
    and "count_suffix suf" and "list_all (\<lambda>c. \<not> is_digit c) suf"
  shows "paramsOf (pre @ d # ds @ b # suf) = Some (of_nat (nat_of_digits ds) * 10 ^ 9) \<and>
    paramsOf (pre @ d # es @ x # ds @ b # suf) = Some (of_nat (nat_of_digits es * nat_of_digits ds) * 10 ^ 9)"
proof
  have ne: "ds \<noteq> []" "es \<noteq> []" using assms(5,6) by (auto simp: nat_of_digits_def)
  have rest: "findAll False (tl suf) = []"
    using assms(11) by (cases suf) (auto intro: findAll_no_digit)
  have "nat_of_digits ds \<le> 9000000" using assms(6,7) by (rule factor_le)
  moreover have "findAll True (pre @ d # ds @ b # suf) = [\<lparr>pmExperts = [], pmWhole = ds, pmFrac = []\<rparr>]"
    using findAll_name [OF assms(1,2) count_body_number [OF ne(1) assms(4,9,10)]] rest by simp
  ultimately show "paramsOf (pre @ d # ds @ b # suf) = Some (of_nat (nat_of_digits ds) * 10 ^ 9)"
    using paramsOf_last [of _ "[]" "[]" ds] assms(5) by simp
  have "findAll True (pre @ d # es @ x # ds @ b # suf) = [\<lparr>pmExperts = es, pmWhole = ds, pmFrac = []\<rparr>]"
    using findAll_name [OF assms(1,2) count_body_experts [OF ne(2) assms(3,8) ne(1) assms(4,9,10)]] rest
    by simp
  then show "paramsOf (pre @ d # es @ x # ds @ b # suf) =
      Some (of_nat (nat_of_digits es * nat_of_digits ds) * 10 ^ 9)"
    using paramsOf_last [of _ "[]" es ds] assms(5-7) ne by simp
qed

lemma paramsOf_count_example:
  "paramsOf ''mistralai/Mixtral-7B-Instruct'' = Some (7 * 10 ^ 9) \<and>
   paramsOf ''mistralai/Mixtral-8x7B-Instruct'' = Some (56 * 10 ^ 9)"
  using paramsOf_count [of "''mistralai/Mixtral''" "CHR ''-''" "''8''" "''7''" "CHR ''x''" "CHR ''B''" "''-Instruct''"]
  by (simp add: is_digit_def is_delim_def nat_of_digits_def digit_val_def lower_B count_suffix_def)

text \<open>
  C36. Two counts that share a delimiter, \<open>...-2B-8B\<close>, are read as the FIRST: the pattern
  consumes the delimiter that closes one match, so the next count has none to open it. The
  comment on \<open>paramCount\<close> says the last match wins; here the smaller or earlier number decides
  what the admission check charges.
\<close>

theorem paramsOf_shared_delimiter:
  assumes "list_all (\<lambda>c. \<not> is_digit c) pre" and "is_delim d"
    and "list_all is_digit ds" and "1 \<le> nat_of_digits ds" and "nat_of_digits ds \<le> 9000000"
    and "lower_char b = CHR ''b''" and "is_delim d'" and "list_all is_digit es" and "lower_char b' = CHR ''b''"
  shows "paramsOf (pre @ d # ds @ b # d' # es @ [b']) = Some (of_nat (nat_of_digits ds) * 10 ^ 9)"
proof -
  have ne: "ds \<noteq> []" using assms(4) by (auto simp: nat_of_digits_def)
  have "count_body (ds @ b # d' # es @ [b']) =
      Some (\<lparr>pmExperts = [], pmWhole = ds, pmFrac = []\<rparr>, es @ [b'])"
    using count_body_number [OF ne assms(3,6), of "d' # es @ [b']"] assms(7) by (simp add: count_suffix_def)
  moreover have "findAll False (es @ [b']) = []"
    using assms(8) b_not_digit [OF assms(9)] by (intro findAll_no_delim) (auto simp: list_all_iff dest: delim_not_digit)
  ultimately show ?thesis
    using findAll_name [OF assms(1,2)] paramsOf_last [of _ "[]" "[]" ds] assms(4,5) by simp
qed

theorem paramsOf_shared_delimiter_witness:
  "paramsOf ''org/Draft-2B-70B'' = Some (2 * 10 ^ 9)"
  using paramsOf_shared_delimiter [of "''org/Draft''" "CHR ''-''" "''2''" "CHR ''B''" "CHR ''-''" "''70''" "CHR ''B''"]
  by (simp add: is_digit_def is_delim_def nat_of_digits_def digit_val_def lower_B)

text \<open>
  The memo is invisible: from an empty memo, and after any calls, \<open>ShapeOf\<close> returns
  what \<open>computeShape\<close> computes, and the memo never holds more than its bound.
\<close>

lemma ShapeOf_memo_invisible:
  "map fst (snd (foldl (\<lambda>(memo, rs) options. (snd (ShapeOf memo options), rs @ [ShapeOf memo options]))
      ([], []) calls)) = map computeShape calls \<and>
   length (fst (foldl (\<lambda>(memo, rs) options. (snd (ShapeOf memo options), rs @ [ShapeOf memo options]))
      ([], []) calls)) \<le> shapeMemoMax"
  using ShapeOf_calls [OF memo_ok_empty, of "[]" calls] by (simp add: memo_ok_def)

text \<open>
  While the 64-bit products do not overflow, an engine whose name gives a size charges its
  Pod one overhead per rank, at least one, and seven fifths of the weights of every data-parallel
  copy; its devices and its Pods are between 1 and \<open>math.MaxInt32\<close> whatever the flags say.
\<close>

lemma computeShape_charge:
  assumes "paramsOf (flagValue options ''--model'') = Some params"
    and "0 \<le> weightsOf params options"
    and "weightsOf params options * copiesOf options * 14 < 2 ^ 62"
  shows "HostBytes (computeShape options) =
      sleeperOverheadBytes * max 1 (parallelism options div nodeCount options)
      + weightsOf params options * copiesOf options * 14 div 10
    \<and> 1 \<le> shGPUs (computeShape options) \<and> shGPUs (computeShape options) \<le> 2 ^ 31 - 1
    \<and> 1 \<le> shPods (computeShape options) \<and> shPods (computeShape options) \<le> 2 ^ 31 - 1"
proof -
  let ?r = "max 1 (parallelism options div nodeCount options)"
  have "parallelism options div nodeCount options \<le> parallelism options"
    using parallelism_range [of options] nodeCount_range [of options]
    zdiv_mono2 [of "parallelism options" 1 "nodeCount options"] by simp
  then have r: "1 \<le> ?r" "?r \<le> 2 ^ 31 - 1"
    using parallelism_range [of options] by auto
  have "sleeperOverheadBytes * ?r \<le> sleeperOverheadBytes * (2 ^ 31 - 1)"
    using r by (intro mult_left_mono) (auto simp: sleeperOverheadBytes_def)
  also have "\<dots> < 2 ^ 62 + 2 ^ 61" by (simp add: sleeperOverheadBytes_def)
  finally have o: "sleeperOverheadBytes * ?r < 2 ^ 62 + 2 ^ 61" .
  have "hostBytes ?r (weightsOf params options) (copiesOf options) =
      sleeperOverheadBytes * ?r + weightsOf params options * copiesOf options * 14 div 10"
  proof (rule hostBytes_exact)
    have "weightsOf params options * copiesOf options * 14 div 10 \<le> 2 ^ 62 div 10"
      using assms(3) by (intro zdiv_mono1) auto
    then show "sleeperOverheadBytes * ?r + weightsOf params options * copiesOf options * 14 div 10 < 2 ^ 63"
      using o by simp
    show "weightsOf params options * copiesOf options * 14 < 2 ^ 63"
      using assms(3) by simp
  qed (use r assms(2) copiesOf_pos [of options] in linarith)+
  moreover have "(if a < 1 then 1 else a) = max 1 a" for a :: int by simp
  ultimately show ?thesis
    using parallelism_range [of options] nodeCount_range [of options]
    by (simp add: computeShape_def Let_def assms(1))
qed

lemma qwen_options:
  fixes options defines "options \<equiv> ''--model Qwen/Qwen3-8B --tensor-parallel-size 2''"
  shows "paramsOf (flagValue options ''--model'') = Some (8 * 10 ^ 9)"
    and "weightsOf (8 * 10 ^ 9) options = 16 * 10 ^ 9"
    and "copiesOf options = 1" and "parallelism options = 2" and "nodeCount options = 1"
proof -
  have m: "flagValue options ''--model'' = ''Qwen/Qwen3-8B''"
    unfolding options_def by code_simp
  have "findAll True ''Qwen/Qwen3-8B'' = [] @ [\<lparr>pmExperts = [], pmWhole = ''8'', pmFrac = []\<rparr>]"
    by code_simp
  then show "paramsOf (flagValue options ''--model'') = Some (8 * 10 ^ 9)"
    unfolding m by (subst paramsOf_last) (auto simp: nat_of_digits_def digit_val_def)
  have "bytesPerParam options = 2" unfolding options_def by code_simp
  then show "weightsOf (8 * 10 ^ 9) options = 16 * 10 ^ 9"
    using f64_of_int [of "16 * 10 ^ 9"] by (simp add: weightsOf_def int64_of_def)
  show "copiesOf options = 1" "parallelism options = 2" "nodeCount options = 1"
    unfolding options_def by code_simp+
qed

lemma computeShape_charge_example:
  "HostBytes (computeShape ''--model Qwen/Qwen3-8B --tensor-parallel-size 2'') = 27871469568 \<and>
   shGPUs (computeShape ''--model Qwen/Qwen3-8B --tensor-parallel-size 2'') \<le> 2 ^ 31 - 1"
  using computeShape_charge [OF qwen_options(1)] qwen_options
  by (simp add: sleeperOverheadBytes_def)

end
