(* ===== verification/WarmPool.thy ===== *)
theory WarmPool
  imports Shape
begin

text \<open>
  What the warm pool reports and the readers of it: \<open>internal/warmpool/pool/pool.go\<close> and
  \<open>AcceleratorMismatch\<close> of \<open>pool/accelerator.go\<close>. A \<open>Membership\<close> is one
  model's residency in one Pod; \<open>ByPod\<close> groups them, \<open>Free\<close> says which Pods can serve a
  wake. Policy is decided over these in theory Policy.
\<close>

named_theorems pool_simps \<open>grouping of memberships by Pod\<close>

subsection \<open>Data\<close>

text \<open>\<open>types.NamespacedName\<close> and its \<open>String\<close>.\<close>

record namespacedName =
  nnNamespace :: string
  nnName :: string

definition NN_String :: "namespacedName \<Rightarrow> string" where
  "NN_String p = nnNamespace p @ ''/'' @ nnName p"

datatype tier = Ram | Disk

datatype state = Absent | Loading | Asleep | Waking | Serving | Draining

record modelRef =
  mrNamespace :: string
  Variant :: string
  EngineOptions :: string
  mrAccelerator :: string
  PoolLabels :: "(string, string) gomap"

record podCapacity =
  pcGPUs :: int
  MemoryLimitBytes :: int
  pcAccelerator :: string
  PodsPerGroup :: int

record endpoint =
  PodIP :: string
  Port :: int

record membership =
  Model :: modelRef
  Pod :: namespacedName
  State :: state
  mTier :: tier
  Endpoint :: endpoint
  LastUsed :: gotime
  mPool :: string
  Capacity :: podCapacity

type_synonym by_pod = "(namespacedName, membership list) gomap"

text \<open>The name an instance is keyed by, \<open>m.Model.Variant\<close>; empty for the placeholder of an idle Pod.\<close>

abbreviation variant_of :: "membership \<Rightarrow> string" where
  "variant_of m \<equiv> Variant (Model m)"

definition Group :: "podCapacity \<Rightarrow> bool" where
  "Group c \<longleftrightarrow> 1 < PodsPerGroup c"

definition zero_capacity :: podCapacity where
  "zero_capacity = \<lparr>pcGPUs = 0, MemoryLimitBytes = 0, pcAccelerator = [], PodsPerGroup = 0\<rparr>"

subsection \<open>Operations\<close>

definition busy_state :: "state \<Rightarrow> bool" where
  "busy_state s = (case s of Loading \<Rightarrow> True | Waking \<Rightarrow> True | Serving \<Rightarrow> True | Draining \<Rightarrow> True
     | Absent \<Rightarrow> False | Asleep \<Rightarrow> False)"

fun Free :: "membership list \<Rightarrow> bool" where
  "Free [] = True"
| "Free (m # inPod) = (if busy_state (State m) then False else Free inPod)"

definition ByPod :: "membership list \<Rightarrow> by_pod" where
  "ByPod all = foldl (\<lambda>out m. mput (Pod m) (mget [] out (Pod m) @ [m]) out) [] all"

definition FreePods :: "membership list \<Rightarrow> int" where
  "FreePods all = foldl (\<lambda>free (_, inPod). if Free inPod then free + 1 else free) 0 (ByPod all)"

definition Resident :: "membership list \<Rightarrow> int" where
  "Resident inPod = foldl (\<lambda>n m. if variant_of m \<noteq> [] then n + 1 else n) 0 inPod"

text \<open>The pair of the reason and the verdict; an unknown on either side does not block.\<close>

definition AcceleratorMismatch :: "string \<Rightarrow> string \<Rightarrow> string \<times> bool" where
  "AcceleratorMismatch wanted held =
     (if wanted = [] \<or> held = [] \<or> wanted = held then ([], False)
      else (''needs '' @ wanted @ '', this Pod is on '' @ held, True))"

subsection \<open>Grouping by Pod\<close>

lemma ByPod_fold:
  "map_of (foldl (\<lambda>out m. mput (Pod m) (mget [] out (Pod m) @ [m]) out) acc all) p =
     (if filter (\<lambda>m. Pod m = p) all = [] then map_of acc p
      else Some (mget [] acc p @ filter (\<lambda>m. Pod m = p) all))"
  by (induction all arbitrary: acc) (auto simp: gomap_simps mget_def)

lemma ByPod_map [pool_simps]:
  "map_of (ByPod all) p =
     (if filter (\<lambda>m. Pod m = p) all = [] then None else Some (filter (\<lambda>m. Pod m = p) all))"
  by (simp add: ByPod_def ByPod_fold) (simp add: mget_def)

lemma ByPod_get [pool_simps]: "mget [] (ByPod all) p = filter (\<lambda>m. Pod m = p) all"
  by (auto simp: mget_def ByPod_map)

lemma ByPod_ok [simp]: "gomap_ok (ByPod all)"
proof -
  have "gomap_ok acc \<Longrightarrow>
      gomap_ok (foldl (\<lambda>out m. mput (Pod m) (mget [] out (Pod m) @ [m]) out) acc all)" for acc
    by (induction all arbitrary: acc) auto
  then show ?thesis by (simp add: ByPod_def)
qed

lemma ByPod_in: "(p, ms) \<in> set (ByPod all) \<longleftrightarrow> ms \<noteq> [] \<and> ms = filter (\<lambda>m. Pod m = p) all"
proof -
  have "(p, ms) \<in> set (ByPod all) \<longleftrightarrow> map_of (ByPod all) p = Some ms"
    using ByPod_ok [of all] by (simp add: gomap_ok_def mkeys_def map_of_eq_Some_iff)
  then show ?thesis by (auto simp: ByPod_map)
qed

lemma ByPod_keys: "set (mkeys (ByPod all)) = Pod ` set all"
proof -
  have "p \<in> set (mkeys (ByPod all)) \<longleftrightarrow> map_of (ByPod all) p \<noteq> None" for p
    by (simp add: mkeys_def map_of_eq_None_iff)
  then show ?thesis by (auto simp: ByPod_map filter_empty_conv split: if_splits)
qed

lemma Free_iff: "Free ms \<longleftrightarrow> (\<forall>m \<in> set ms. State m = Absent \<or> State m = Asleep)"
  by (induction ms) (auto simp: busy_state_def split: state.splits)

lemma foldl_count:
  "foldl (\<lambda>n x. if P x then n + 1 else n) (k :: int) xs = k + int (length (filter P xs))"
  by (induction xs arbitrary: k) auto

lemma Resident_count: "Resident ms = int (length (filter (\<lambda>m. variant_of m \<noteq> []) ms))"
  using foldl_count [of "\<lambda>m. variant_of m \<noteq> []" 0 ms] by (simp add: Resident_def)

lemma Resident_nonneg [simp]: "0 \<le> Resident ms"
  by (simp add: Resident_count)

lemma Resident_0: "Resident ms \<le> 0 \<longleftrightarrow> (\<forall>m \<in> set ms. variant_of m = [])"
  by (simp add: Resident_count filter_empty_conv)

lemma FreePods_count: "FreePods all = int (length (filter (\<lambda>(_, ms). Free ms) (ByPod all)))"
  using foldl_count [of "\<lambda>(_, ms). Free ms" 0 "ByPod all"] by (simp add: FreePods_def case_prod_unfold)

lemma Mismatch_known: "snd (AcceleratorMismatch w h) \<longleftrightarrow> w \<noteq> [] \<and> h \<noteq> [] \<and> w \<noteq> h"
  by (simp add: AcceleratorMismatch_def)

end
