(* ===== verification/Policy.thy ===== *)
theory Policy
  imports WarmPool
begin

text \<open>
  What the warm pool should do: \<open>internal/warmpool/policy/policy.go\<close>, whole. \<open>Decide\<close>
  is a pure function from an observation (\<open>Input\<close>) and a configuration to a \<open>Plan\<close>:
  returns, then borrows, then admissions, then evictions, and the shortfall of the reserve.

  Two things in the source are left open by Go: the order of \<open>range\<close> over the map of Pods, and
  the order \<open>sort.Slice\<close> gives to elements that compare equal. Where a result can depend on
  them they are taken from an argument of type \<open>runtime\<close>, and the locale \<open>go_runtime\<close>
  states what Go promises of it; the theorems hold for every such runtime. Sets of Pods
  (\<open>map[types.NamespacedName]bool\<close> with only \<open>true\<close> in it) are lists.

  A sentence that \<open>doesNotFit\<close> formats is a value of \<open>declineReason\<close> that carries the
  numbers put into it. A \<open>Share\<close> is the quotient \<open>demand.go\<close> computes, a rational.
\<close>

named_theorems plan_simps \<open>the fields of the plan Decide builds\<close>

subsection \<open>Data\<close>

record config =
  SleepMinSize :: int
  MaxHold :: duration
  MinHold :: duration
  Retained :: bool
  AdmissionWindow :: duration
  MinMissesToAdmit :: int
  PreloadTop :: int
  MaxInstancesPerPod :: int
  PodMemoryBytes :: int

record variantDemand =
  vdModel :: modelRef
  Desired :: int
  Ready :: int
  Parked :: bool
  Share :: rat
  vdWarmPool :: string
  WarmCopies :: "int option"

abbreviation name_of :: "variantDemand \<Rightarrow> string" where
  "name_of v \<equiv> Variant (vdModel v)"

definition wantedCopies :: "variantDemand \<Rightarrow> int \<times> bool" where
  "wantedCopies v = (case WarmCopies v of None \<Rightarrow> (1, False) | Some n \<Rightarrow> (n, True))"

record borrow =
  brPod :: namespacedName
  brVariant :: string

record input =
  Memberships :: "membership list"
  Variants :: "variantDemand list"
  BorrowedAt :: "(borrow, gotime) gomap"
  Admitting :: "(namespacedName, bool) gomap"
  WantAwake :: string
  MissesAt :: "(string, gotime list) gomap"
  Now :: gotime

record action =
  acPod :: namespacedName
  acModel :: modelRef

datatype declineReason =
    NeedsGPUs int int
  | SpansPods int int
  | WrongAccelerator string
  | SizeUnknown
  | OverBudget int int int

record declined =
  dcModel :: modelRef
  Reason :: declineReason
  Permanent :: bool

record plan =
  Return :: "action list"
  Borrow :: "action list"
  Admit :: "action list"
  Evict :: "action list"
  GrowBy :: int
  Blocked :: "modelRef list"
  Missed :: "modelRef list"
  Declined :: "declined list"

text \<open>What Go leaves to the runtime.\<close>

record runtime =
  sortMembers :: "(membership \<Rightarrow> membership \<Rightarrow> bool) \<Rightarrow> membership list \<Rightarrow> membership list"
  sortPods :: "(namespacedName \<Rightarrow> namespacedName \<Rightarrow> bool) \<Rightarrow> namespacedName list \<Rightarrow> namespacedName list"
  rangePods :: "nat \<Rightarrow> by_pod \<Rightarrow> by_pod"

subsection \<open>Returns\<close>

definition borrowedAt :: "input \<Rightarrow> membership \<Rightarrow> gotime" where
  "borrowedAt inp m =
     (case map_of (BorrowedAt inp) \<lparr>brPod = Pod m, brVariant = variant_of m\<rparr> of
        Some t \<Rightarrow> t | None \<Rightarrow> Now inp)"

definition anotherVariantIsShort :: "input \<Rightarrow> string \<Rightarrow> bool" where
  "anotherVariantIsShort inp self =
     list_ex (\<lambda>v. name_of v \<noteq> self \<and> Ready v < Desired v) (Variants inp)"

definition lentByVariant :: "membership list \<Rightarrow> (string, membership list) gomap" where
  "lentByVariant all =
     foldl (\<lambda>out m. if State m = Serving then mput (variant_of m) (mget [] out (variant_of m) @ [m]) out
                     else out) [] all"

text \<open>One bridge of \<open>returnsFor\<close>: position \<open>i\<close> in the list, oldest first.\<close>

definition returnsBridge :: "config \<Rightarrow> bool \<Rightarrow> int \<Rightarrow> input \<Rightarrow> int \<times> membership \<Rightarrow> bool" where
  "returnsBridge cfg yield excess inp im =
     (let (i, m) = im;
          held = time_sub (Now inp) (borrowedAt inp m);
          expired = (\<not> Retained cfg \<and> MaxHold cfg \<le> held);
          tooYoung = (0 < MinHold cfg \<and> \<not> yield \<and> held < MinHold cfg)
      in (i < excess \<and> \<not> tooYoung) \<or> expired)"

definition returnsFor :: "runtime \<Rightarrow> variantDemand \<Rightarrow> membership list \<Rightarrow> input \<Rightarrow> config \<Rightarrow> action list" where
  "returnsFor rt v lent inp cfg =
     (let stillNeeded = Desired v - Ready v;
          stillNeeded' = (if stillNeeded < 0 then 0 else stillNeeded);
          excess = int (length lent) - stillNeeded';
          sorted = sortMembers rt (\<lambda>a b. borrowedAt inp a < borrowedAt inp b) lent;
          yield = anotherVariantIsShort inp (name_of v)
      in map (\<lambda>(_, m). \<lparr>acPod = Pod m, acModel = Model m\<rparr>)
           (filter (returnsBridge cfg yield excess inp)
              (zip (map int [0..<length sorted]) sorted)))"

definition knownModels :: "variantDemand list \<Rightarrow> (string, modelRef) gomap" where
  "knownModels vs = foldl (\<lambda>out v. mput (name_of v) (vdModel v) out) [] vs"

definition withKnownModel :: "action \<Rightarrow> (string, modelRef) gomap \<Rightarrow> action" where
  "withKnownModel a known =
     (case map_of known (Variant (acModel a)) of None \<Rightarrow> a
      | Some full \<Rightarrow> if PoolLabels full = [] then a else a\<lparr>acModel := full\<rparr>)"

text \<open>\<open>orphanReturns\<close>, with its comparison.\<close>

definition orphanLess :: "action \<Rightarrow> action \<Rightarrow> bool" where
  "orphanLess a b =
     (if acPod a \<noteq> acPod b then NN_String (acPod a) < NN_String (acPod b)
      else Variant (acModel a) < Variant (acModel b))"

definition orphanReturns :: "membership list \<Rightarrow> action list" where
  "orphanReturns all =
     stable_sort orphanLess
       (map (\<lambda>m. \<lparr>acPod = Pod m, acModel = Model m\<rparr>) (filter (\<lambda>m. State m = Waking) all))"

fun isShort :: "variantDemand list \<Rightarrow> string \<Rightarrow> (string, membership list) gomap \<Rightarrow> bool" where
  "isShort [] variant lent = False"
| "isShort (v # vs) variant lent =
     (if name_of v \<noteq> variant then isShort vs variant lent
      else 0 < Desired v - Ready v - int (length (mget [] lent variant)))"

text \<open>The loop of \<open>intentReturns\<close> over the Pods: it stops at the first Pod that gives an action.\<close>

fun intentScan :: "string \<Rightarrow> namespacedName list \<Rightarrow> by_pod \<Rightarrow> action list" where
  "intentScan want returned [] = []"
| "intentScan want returned ((podRef, inPod) # rest) =
     (if podRef \<in> set returned then intentScan want returned rest
      else if \<not> list_ex (\<lambda>m. variant_of m = want) inPod then intentScan want returned rest
      else let out = map (\<lambda>m. \<lparr>acPod = podRef, acModel = Model m\<rparr>)
                       (filter (\<lambda>m. \<not> (variant_of m = want \<or> State m \<noteq> Serving)) inPod)
           in if out \<noteq> [] then out else intentScan want returned rest)"

definition intentReturns :: "runtime \<Rightarrow> input \<Rightarrow> by_pod \<Rightarrow> (string, membership list) gomap
    \<Rightarrow> namespacedName list \<Rightarrow> action list" where
  "intentReturns rt inp byPod lent returned =
     (if WantAwake inp = [] then []
      else if mget [] lent (WantAwake inp) \<noteq> [] then []
      else if \<not> isShort (Variants inp) (WantAwake inp) lent then []
      else intentScan (WantAwake inp) returned (rangePods rt 0 byPod))"

definition dropOrphanReturnsSupersededByBorrows ::
    "action list \<Rightarrow> action list \<Rightarrow> action list \<Rightarrow> action list" where
  "dropOrphanReturnsSupersededByBorrows returns orphans borrows =
     (if orphans = [] \<or> borrows = [] then returns
      else let key = (\<lambda>a. \<lparr>brPod = acPod a, brVariant = Variant (acModel a)\<rparr>);
               redundant = map key orphans; borrowed = map key borrows
           in filter (\<lambda>a. \<not> (key a \<in> set redundant \<and> key a \<in> set borrowed)) returns)"

subsection \<open>Borrows\<close>

definition freePods :: "by_pod \<Rightarrow> namespacedName list \<Rightarrow> (namespacedName, bool) gomap \<Rightarrow> namespacedName list" where
  "freePods byPod returning admitting =
     map fst (filter (\<lambda>(p, inPod). \<not> mget False admitting p \<and> (Free inPod \<or> p \<in> set returning)) byPod)"

definition podLess :: "by_pod \<Rightarrow> namespacedName \<Rightarrow> namespacedName \<Rightarrow> bool" where
  "podLess byPod p q =
     (let ri = Resident (mget [] byPod p); rj = Resident (mget [] byPod q) in
      if ri \<noteq> rj then ri < rj else NN_String p < NN_String q)"

definition holds_variant :: "by_pod \<Rightarrow> string \<Rightarrow> namespacedName \<Rightarrow> bool" where
  "holds_variant byPod variant p = list_ex (\<lambda>m. variant_of m = variant) (mget [] byPod p)"

definition holding :: "runtime \<Rightarrow> by_pod \<Rightarrow> namespacedName list \<Rightarrow> string \<Rightarrow> namespacedName list" where
  "holding rt byPod free variant = sortPods rt (podLess byPod) (filter (holds_variant byPod variant) free)"

definition residentCount :: "by_pod \<Rightarrow> string \<Rightarrow> int" where
  "residentCount byPod variant =
     (if variant = [] then 0
      else foldl (\<lambda>count (_, inPod). if list_ex (\<lambda>m. variant_of m = variant) inPod then count + 1 else count)
             0 byPod)"

text \<open>
  The borrow loop of \<open>Decide\<close>: its state is the set of free Pods and the three lists of the
  plan it appends to. Appending the candidates until \<open>borrowed = shortfall\<close> takes the first
  \<open>shortfall\<close> of them.
\<close>

record borrowState =
  bsFree :: "namespacedName list"
  bsBorrow :: "action list"
  bsBlocked :: "modelRef list"
  bsMissed :: "modelRef list"

definition borrowStep :: "runtime \<Rightarrow> by_pod \<Rightarrow> (string, membership list) gomap
    \<Rightarrow> borrowState \<Rightarrow> variantDemand \<Rightarrow> borrowState" where
  "borrowStep rt byPod lent st v =
     (let shortfall = Desired v - Ready v - int (length (mget [] lent (name_of v))) in
      if shortfall \<le> 0 then st
      else let candidates = holding rt byPod (bsFree st) (name_of v) in
        if candidates = [] then
          (if 0 < residentCount byPod (name_of v)
           then st\<lparr>bsBlocked := bsBlocked st @ [vdModel v]\<rparr>
           else st\<lparr>bsMissed := bsMissed st @ [vdModel v]\<rparr>)
        else
          let taken = take (nat shortfall) candidates;
              st' = st\<lparr>bsBorrow := bsBorrow st @ map (\<lambda>p. \<lparr>acPod = p, acModel = vdModel v\<rparr>) taken,
                       bsFree := filter (\<lambda>p. p \<notin> set taken) (bsFree st)\<rparr>
          in if int (length taken) < shortfall
             then st'\<lparr>bsBlocked := bsBlocked st' @ [vdModel v]\<rparr> else st')"

definition borrows :: "runtime \<Rightarrow> by_pod \<Rightarrow> (string, membership list) gomap
    \<Rightarrow> namespacedName list \<Rightarrow> variantDemand list \<Rightarrow> borrowState" where
  "borrows rt byPod lent free vs =
     foldl (borrowStep rt byPod lent)
       \<lparr>bsFree = free, bsBorrow = [], bsBlocked = [], bsMissed = []\<rparr> vs"

subsection \<open>Admissions\<close>

definition missesInWindow :: "input \<Rightarrow> config \<Rightarrow> string \<Rightarrow> int" where
  "missesInWindow inp cfg variant =
     foldl (\<lambda>count t. if time_sub (Now inp) t \<le> AdmissionWindow cfg then count + 1 else count)
       0 (mget [] (MissesAt inp) variant)"

definition candidateLess :: "variantDemand \<Rightarrow> variantDemand \<Rightarrow> bool" where
  "candidateLess a b =
     (let iExplicit = snd (wantedCopies a); jExplicit = snd (wantedCopies b) in
      if iExplicit \<noteq> jExplicit then iExplicit
      else if Parked a \<noteq> Parked b then Parked a
      else Share b < Share a)"

text \<open>The switch of the filtering loop: explicit and not zero, or parked, or popular, or missed often.\<close>

definition admissible :: "input \<Rightarrow> config \<Rightarrow> string list \<Rightarrow> variantDemand \<Rightarrow> bool" where
  "admissible inp cfg popular v =
     (let (want, explicit) = wantedCopies v in
      if explicit \<and> want = 0 then False
      else if explicit then True
      else Parked v \<or> name_of v \<in> set popular \<or>
           (MinMissesToAdmit cfg \<le> missesInWindow inp cfg (name_of v) \<and> 0 < MinMissesToAdmit cfg))"

definition candidatesForAdmission :: "input \<Rightarrow> config \<Rightarrow> variantDemand list" where
  "candidatesForAdmission inp cfg =
     (let byShare = stable_sort (\<lambda>a b. Share b < Share a) (Variants inp);
          popular = map name_of (take (nat (PreloadTop cfg)) byShare)
      in stable_sort candidateLess (filter (admissible inp cfg popular) byShare))"

fun capacityOf :: "membership list \<Rightarrow> podCapacity" where
  "capacityOf [] = zero_capacity"
| "capacityOf (m # resident) =
     (if 0 < pcGPUs (Capacity m) \<or> 0 < MemoryLimitBytes (Capacity m) \<or> pcAccelerator (Capacity m) \<noteq> []
      then Capacity m else capacityOf resident)"

definition committedBytes :: "membership list \<Rightarrow> int" where
  "committedBytes resident =
     foldl (\<lambda>committed m. let held = computeShape (EngineOptions (Model m)) in
              if Known held then wrap64 (committed + HostBytes held) else committed) 0 resident"

text \<open>The budget after the clamp to the container's own limit; not positive when there is none.\<close>

definition podBudget :: "podCapacity \<Rightarrow> config \<Rightarrow> int" where
  "podBudget capacity cfg =
     (let budget = PodMemoryBytes cfg in
      if 0 < MemoryLimitBytes capacity \<and> (budget \<le> 0 \<or> MemoryLimitBytes capacity < budget)
      then MemoryLimitBytes capacity else budget)"

text \<open>The empty reason of the source is \<open>None\<close>.\<close>

definition doesNotFit :: "modelRef \<Rightarrow> membership list \<Rightarrow> config \<Rightarrow> declineReason option \<times> bool" where
  "doesNotFit model resident cfg =
     (let shape = computeShape (EngineOptions model);
          capacity = capacityOf resident;
          gpus = (if pcGPUs capacity < 1 then 1 else pcGPUs capacity);
          pods = (if PodsPerGroup capacity < 1 then 1 else PodsPerGroup capacity);
          (why, bad) = AcceleratorMismatch (mrAccelerator model) (pcAccelerator capacity);
          budget = podBudget capacity cfg
      in if gpus < shGPUs shape then (Some (NeedsGPUs (shGPUs shape) gpus), True)
         else if shPods shape \<noteq> pods then (Some (SpansPods (shPods shape) pods), True)
         else if bad then (Some (WrongAccelerator why), True)
         else if budget \<le> 0 then (None, False)
         else if \<not> Known shape then (Some SizeUnknown, True)
         else let committed = committedBytes resident in
           if budget < wrap64 (committed + HostBytes shape)
           then (Some (OverBudget (HostBytes shape) committed budget), False)
           else (None, False))"

text \<open>\<open>roomiestFreePod\<close>: the fold keeps the best Pod so far; \<open>None\<close> is not found.\<close>

definition roomiestStep :: "by_pod \<Rightarrow> config \<Rightarrow> namespacedName option \<Rightarrow> namespacedName \<Rightarrow> namespacedName option" where
  "roomiestStep byPod cfg best p =
     (if 0 < MaxInstancesPerPod cfg \<and> MaxInstancesPerPod cfg \<le> Resident (mget [] byPod p) then best
      else case best of None \<Rightarrow> Some p
        | Some b \<Rightarrow>
            if Resident (mget [] byPod p) < Resident (mget [] byPod b) \<or>
               (Resident (mget [] byPod p) = Resident (mget [] byPod b) \<and> NN_String p < NN_String b)
            then Some p else Some b)"

definition roomiestFreePod :: "by_pod \<Rightarrow> namespacedName list \<Rightarrow> config \<Rightarrow> namespacedName option" where
  "roomiestFreePod byPod free cfg = foldl (roomiestStep byPod cfg) None free"

definition roomiestFreePodWithout :: "by_pod \<Rightarrow> namespacedName list \<Rightarrow> config \<Rightarrow> string \<Rightarrow> bool
    \<Rightarrow> namespacedName option" where
  "roomiestFreePodWithout byPod free cfg variant emptyOnly =
     roomiestFreePod byPod
       (filter (\<lambda>p. \<not> (emptyOnly \<and> 0 < Resident (mget [] byPod p)) \<and>
                    \<not> list_ex (\<lambda>m. variant_of m = variant \<and> variant \<noteq> []) (mget [] byPod p)) free) cfg"

definition admittedSoFar :: "action list \<Rightarrow> string \<Rightarrow> int" where
  "admittedSoFar placed variant =
     foldl (\<lambda>count a. if Variant (acModel a) = variant then count + 1 else count) 0 placed"

record admitState =
  asFree :: "namespacedName list"
  asOut :: "action list"
  asDeclined :: "declined list"

text \<open>
  The inner loop of \<open>admissions\<close> for one variant. Every turn that does not leave the loop
  spends one of the budget, which is therefore the argument the recursion is on; the remaining
  budget is returned.
\<close>

fun admitVariant :: "by_pod \<Rightarrow> config \<Rightarrow> bool \<Rightarrow> variantDemand \<Rightarrow> nat \<Rightarrow> int \<Rightarrow> admitState
    \<Rightarrow> nat \<times> admitState" where
  "admitVariant byPod cfg emptyOnly v 0 placed st = (0, st)"
| "admitVariant byPod cfg emptyOnly v (Suc budget) placed st =
     (if residentCount byPod (name_of v) + placed < fst (wantedCopies v) then
        (case roomiestFreePodWithout byPod (asFree st) cfg (name_of v) emptyOnly of
           None \<Rightarrow> (Suc budget, st)
         | Some target \<Rightarrow>
             (case doesNotFit (vdModel v) (mget [] byPod target) cfg of
                (Some reason, permanent) \<Rightarrow>
                  (Suc budget, st\<lparr>asDeclined := asDeclined st @
                     [\<lparr>dcModel = vdModel v, Reason = reason, Permanent = permanent\<rparr>]\<rparr>)
              | (None, _) \<Rightarrow>
                  admitVariant byPod cfg emptyOnly v budget (placed + 1)
                    (st\<lparr>asOut := asOut st @ [\<lparr>acPod = target, acModel = vdModel v\<rparr>],
                        asFree := filter (\<lambda>p. p \<noteq> target) (asFree st)\<rparr>)))
      else (Suc budget, st))"

definition admitStep :: "by_pod \<Rightarrow> config \<Rightarrow> bool \<Rightarrow> nat \<times> admitState \<Rightarrow> variantDemand \<Rightarrow> nat \<times> admitState" where
  "admitStep byPod cfg emptyOnly bst v =
     (let (budget, st) = bst in
      if budget = 0 then (budget, st)
      else admitVariant byPod cfg emptyOnly v budget (admittedSoFar (asOut st) (name_of v)) st)"

definition admissions :: "input \<Rightarrow> config \<Rightarrow> by_pod \<Rightarrow> namespacedName list \<Rightarrow> bool \<Rightarrow> admitState" where
  "admissions inp cfg byPod free emptyPodsOnly =
     (let budget = int (length free) - SleepMinSize cfg;
          st = \<lparr>asFree = free, asOut = [], asDeclined = []\<rparr>
      in if budget \<le> 0 then st
         else snd (foldl (admitStep byPod cfg emptyPodsOnly) (nat budget, st) (candidatesForAdmission inp cfg)))"

subsection \<open>Evictions\<close>

definition claimedThisPass :: "action list \<Rightarrow> action list \<Rightarrow> namespacedName list" where
  "claimedThisPass borrow admit = map acPod borrow @ map acPod admit"

text \<open>\<open>isLent[pod][variant]\<close>.\<close>

definition isLent :: "(string, membership list) gomap \<Rightarrow> namespacedName \<Rightarrow> string \<Rightarrow> bool" where
  "isLent lent p variant = list_ex (\<lambda>(w, ms). w = variant \<and> list_ex (\<lambda>m. Pod m = p) ms) lent"

definition heldCopies :: "by_pod \<Rightarrow> (string, membership list) gomap \<Rightarrow> namespacedName list \<Rightarrow> string
    \<Rightarrow> membership list" where
  "heldCopies byPod lent claimed variant =
     concat (map (\<lambda>(podRef, inPod).
         if podRef \<in> set claimed then []
         else filter (\<lambda>m. \<not> (variant_of m \<noteq> variant \<or> variant_of m = []) \<and>
                          \<not> isLent lent podRef (variant_of m)) inPod) byPod)"

definition evictLess :: "membership \<Rightarrow> membership \<Rightarrow> bool" where
  "evictLess a b =
     (if LastUsed a \<noteq> LastUsed b then LastUsed a < LastUsed b
      else nnName (Pod a) < nnName (Pod b))"

text \<open>
  One variant. \<open>warmPoolCopies\<close> is parsed as a non-negative number, so the slice
  \<open>held[:len(held)-want]\<close> is within bounds.
\<close>

definition evictVariant :: "runtime \<Rightarrow> by_pod \<Rightarrow> (string, membership list) gomap \<Rightarrow> namespacedName list
    \<Rightarrow> variantDemand \<Rightarrow> action list" where
  "evictVariant rt byPod lent claimed v =
     (let (want, explicit) = wantedCopies v in
      if \<not> explicit then []
      else let held = heldCopies byPod lent claimed (name_of v) in
        if int (length held) \<le> want then []
        else map (\<lambda>m. \<lparr>acPod = Pod m, acModel = Model m\<rparr>)
               (take (nat (int (length held) - want)) (sortMembers rt evictLess held)))"

definition evictions :: "runtime \<Rightarrow> input \<Rightarrow> by_pod \<Rightarrow> (string, membership list) gomap
    \<Rightarrow> namespacedName list \<Rightarrow> action list" where
  "evictions rt inp byPod lent claimed =
     concat (map (\<lambda>(n, v). evictVariant rt (rangePods rt (Suc n) byPod) lent claimed v)
       (zip [0..<length (Variants inp)] (Variants inp)))"

subsection \<open>The plan\<close>

text \<open>Step 1: what the variants, the orphans and the intent hand back.\<close>

definition variantReturns :: "runtime \<Rightarrow> input \<Rightarrow> config \<Rightarrow> action list" where
  "variantReturns rt inp cfg =
     (let lent = lentByVariant (Memberships inp); known = knownModels (Variants inp) in
      concat (map (\<lambda>v. map (\<lambda>a. withKnownModel a known) (returnsFor rt v (mget [] lent (name_of v)) inp cfg))
        (Variants inp)))"

definition knownOrphans :: "input \<Rightarrow> action list" where
  "knownOrphans inp =
     map (\<lambda>a. withKnownModel a (knownModels (Variants inp))) (orphanReturns (Memberships inp))"

definition stepReturns :: "runtime \<Rightarrow> input \<Rightarrow> config \<Rightarrow> action list" where
  "stepReturns rt inp cfg =
     (let first = variantReturns rt inp cfg @ knownOrphans inp in
      first @ intentReturns rt inp (ByPod (Memberships inp)) (lentByVariant (Memberships inp)) (map acPod first))"

text \<open>The reserve the borrows start from, and the state after them.\<close>

definition reserveFree :: "runtime \<Rightarrow> input \<Rightarrow> config \<Rightarrow> namespacedName list" where
  "reserveFree rt inp cfg =
     freePods (ByPod (Memberships inp)) (map acPod (stepReturns rt inp cfg)) (Admitting inp)"

definition stepBorrows :: "runtime \<Rightarrow> input \<Rightarrow> config \<Rightarrow> borrowState" where
  "stepBorrows rt inp cfg =
     borrows rt (ByPod (Memberships inp)) (lentByVariant (Memberships inp)) (reserveFree rt inp cfg) (Variants inp)"

definition stepAdmits :: "runtime \<Rightarrow> input \<Rightarrow> config \<Rightarrow> admitState" where
  "stepAdmits rt inp cfg =
     (let bs = stepBorrows rt inp cfg in
      admissions inp cfg (ByPod (Memberships inp)) (bsFree bs) (0 < length (bsBlocked bs)))"

definition Decide :: "runtime \<Rightarrow> input \<Rightarrow> config \<Rightarrow> plan" where
  "Decide rt inp cfg =
     (let byPod = ByPod (Memberships inp);
          lent = lentByVariant (Memberships inp);
          bs = stepBorrows rt inp cfg;
          adm = stepAdmits rt inp cfg;
          short = SleepMinSize cfg - int (length (asFree adm))
      in \<lparr>Return = dropOrphanReturnsSupersededByBorrows (stepReturns rt inp cfg) (knownOrphans inp) (bsBorrow bs),
          Borrow = bsBorrow bs,
          Admit = asOut adm,
          Evict = evictions rt inp byPod lent (claimedThisPass (bsBorrow bs) (asOut adm)),
          GrowBy = (if 0 < short then short else 0),
          Blocked = bsBlocked bs,
          Missed = bsMissed bs,
          Declined = asDeclined adm\<rparr>)"

subsection \<open>What Go promises\<close>

locale go_runtime = members: slice_sorter "sortMembers rt" + pods: slice_sorter "sortPods rt"
  for rt :: runtime +
  assumes range_mset: "mset (rangePods rt n m) = mset m"
begin

lemma range_set: "set (rangePods rt n m) = set m"
  by (rule mset_eq_setD) (rule range_mset)

end

text \<open>The runtime of a stable sort and of ranges in insertion order.\<close>

definition plain_runtime :: runtime where
  "plain_runtime = \<lparr>sortMembers = stable_sort, sortPods = stable_sort, rangePods = \<lambda>_ m. m\<rparr>"

interpretation plain: go_runtime plain_runtime
  by unfold_locales (simp_all add: plain_runtime_def sorted_stable_sort)

end
