(* ===== verification/PolicyLoops.thy ===== *)
theory PolicyLoops
  imports Policy
begin

text \<open>
  The two loops of \<open>Decide\<close> and the fit check: the borrow loop as an invariant of
  \<open>borrowStep\<close>, the admission loop as one of \<open>admitVariant\<close> and \<open>admitStep\<close>.
\<close>

subsection \<open>Reading the plan and the lending\<close>

lemma Decide_fields [plan_simps]:
  "Return (Decide rt inp cfg) =
     dropOrphanReturnsSupersededByBorrows (stepReturns rt inp cfg) (knownOrphans inp) (bsBorrow (stepBorrows rt inp cfg))"
  "Borrow (Decide rt inp cfg) = bsBorrow (stepBorrows rt inp cfg)"
  "Admit (Decide rt inp cfg) = asOut (stepAdmits rt inp cfg)"
  "Evict (Decide rt inp cfg) = evictions rt inp (ByPod (Memberships inp)) (lentByVariant (Memberships inp))
     (claimedThisPass (bsBorrow (stepBorrows rt inp cfg)) (asOut (stepAdmits rt inp cfg)))"
  "GrowBy (Decide rt inp cfg) = max 0 (SleepMinSize cfg - int (length (asFree (stepAdmits rt inp cfg))))"
  "Blocked (Decide rt inp cfg) = bsBlocked (stepBorrows rt inp cfg)"
  "Missed (Decide rt inp cfg) = bsMissed (stepBorrows rt inp cfg)"
  "Declined (Decide rt inp cfg) = asDeclined (stepAdmits rt inp cfg)"
  by (simp_all add: Decide_def Let_def)

lemma lent_fold:
  "mget [] (foldl (\<lambda>out m. if State m = Serving then mput (variant_of m) (mget [] out (variant_of m) @ [m]) out
                     else out) acc all) w =
     mget [] acc w @ filter (\<lambda>m. State m = Serving \<and> variant_of m = w) all"
  by (induction all arbitrary: acc) (auto simp: gomap_simps)

lemma lent_get: "mget [] (lentByVariant all) w = filter (\<lambda>m. State m = Serving \<and> variant_of m = w) all"
  by (simp add: lentByVariant_def lent_fold) (simp add: mget_def)

lemma lent_ok: "gomap_ok (lentByVariant all)"
proof -
  have "gomap_ok acc \<Longrightarrow> gomap_ok (foldl (\<lambda>out m. if State m = Serving
      then mput (variant_of m) (mget [] out (variant_of m) @ [m]) out else out) acc all)" for acc
    by (induction all arbitrary: acc) auto
  then show ?thesis by (simp add: lentByVariant_def)
qed

lemma isLent_iff:
  "isLent (lentByVariant all) p w \<longleftrightarrow> (\<exists>m \<in> set all. State m = Serving \<and> Pod m = p \<and> variant_of m = w)"
proof -
  have "isLent l p w \<longleftrightarrow> (\<exists>m \<in> set (mget [] l w). Pod m = p)" if "gomap_ok l" for l
  proof -
    have "(w, ms) \<in> set l \<longleftrightarrow> map_of l w = Some ms" for ms
      using that by (simp add: gomap_ok_def mkeys_def map_of_eq_Some_iff)
    then show ?thesis
      by (cases "map_of l w") (auto simp: isLent_def mget_def list_ex_iff)
  qed
  then show ?thesis by (auto simp: lent_ok lent_get)
qed

lemma known_fold:
  "map_of (foldl (\<lambda>out v. mput (name_of v) (vdModel v) out) acc vs) w =
     (case filter (\<lambda>v. name_of v = w) vs of [] \<Rightarrow> map_of acc w | us \<Rightarrow> Some (vdModel (last us)))"
  by (induction vs arbitrary: acc) (auto simp: gomap_simps split: list.splits)

lemma knownModels_Some:
  assumes "map_of (knownModels vs) w = Some full"
  shows "Variant full = w \<and> (\<exists>v \<in> set vs. vdModel v = full)"
proof -
  obtain u us where f: "filter (\<lambda>v. name_of v = w) vs = u # us" and full: "full = vdModel (last (u # us))"
    using assms unfolding knownModels_def known_fold by (auto split: list.splits)
  have "last (u # us) \<in> set (filter (\<lambda>v. name_of v = w) vs)"
    unfolding f by (rule last_in_set) simp
  with full show ?thesis by auto
qed

lemma knownModels_of:
  assumes "distinct (map name_of vs)" and "v \<in> set vs"
  shows "map_of (knownModels vs) (name_of v) = Some (vdModel v)"
proof -
  let ?f = "filter (\<lambda>u. name_of u = name_of v) vs"
  have f: "set ?f = {v}" using assms distinct_map_eq [OF assms(1)] by auto
  then obtain u us where us: "?f = u # us" by (cases ?f) auto
  have "last (u # us) \<in> set (u # us)" by (rule last_in_set) simp
  then have "last (u # us) = v" using f unfolding us by blast
  then show ?thesis unfolding knownModels_def known_fold us by simp
qed

lemma withKnown_simps [simp]:
  "acPod (withKnownModel a (knownModels vs)) = acPod a"
  "Variant (acModel (withKnownModel a (knownModels vs))) = Variant (acModel a)"
  by (auto simp: withKnownModel_def dest: knownModels_Some split: option.splits)

subsection \<open>The reserve\<close>

lemma set_freePods:
  "p \<in> set (freePods (ByPod all) ret adm) \<longleftrightarrow>
     p \<in> Pod ` set all \<and> \<not> mget False adm p \<and> (Free (filter (\<lambda>m. Pod m = p) all) \<or> p \<in> set ret)"
  by (auto simp: freePods_def ByPod_in filter_empty_conv image_iff)

lemma distinct_freePods: "distinct (freePods (ByPod all) ret adm)"
  using ByPod_ok [of all] unfolding freePods_def gomap_ok_def mkeys_def by (rule distinct_map_filter)

subsection \<open>The borrow loop\<close>

definition shortfall :: "(string, membership list) gomap \<Rightarrow> variantDemand \<Rightarrow> int" where
  "shortfall lent v = Desired v - Ready v - int (length (mget [] lent (name_of v)))"

lemma mset_take_out:
  assumes "distinct F" and "distinct T" and "set T \<subseteq> set F"
  shows "mset (filter (\<lambda>p. p \<notin> set T) F) + mset T = mset F"
proof -
  have "mset (filter (\<lambda>p. p \<in> set T) F) = mset T"
    using assms by (subst set_eq_iff_mset_eq_distinct [symmetric]) auto
  then show ?thesis
    using multiset_partition [of "mset F" "\<lambda>p. p \<in> set T"] by (simp add: add.commute)
qed

text \<open>What the loop has recorded about one variant.\<close>

definition about :: "string \<Rightarrow> borrowState \<Rightarrow> action list \<times> modelRef list \<times> modelRef list" where
  "about w st = (filter (\<lambda>a. Variant (acModel a) = w) (bsBorrow st),
     filter (\<lambda>m. Variant m = w) (bsBlocked st), filter (\<lambda>m. Variant m = w) (bsMissed st))"

context go_runtime
begin

text \<open>
  One variant: the Pods taken are free ones that hold its model, no more than its shortfall, and
  all of them when that is not enough, which is then a block, or a miss if no Pod holds it at all.
\<close>

lemma borrowStep_effect:
  fixes byPod lent st v
  defines "st' \<equiv> borrowStep rt byPod lent st v"
    and "cand \<equiv> {p \<in> set (bsFree st). holds_variant byPod (name_of v) p}"
  assumes "distinct (bsFree st)"
  obtains taken where
    "distinct taken" "set taken \<subseteq> cand" "int (length taken) \<le> max 0 (shortfall lent v)"
    "bsFree st' = filter (\<lambda>p. p \<notin> set taken) (bsFree st)"
    "bsBorrow st' = bsBorrow st @ map (\<lambda>p. \<lparr>acPod = p, acModel = vdModel v\<rparr>) taken"
    "int (length taken) < shortfall lent v \<Longrightarrow> set taken = cand"
    "bsBlocked st' = bsBlocked st @ (if int (length taken) < shortfall lent v \<and>
        (taken \<noteq> [] \<or> 0 < residentCount byPod (name_of v)) then [vdModel v] else [])"
    "bsMissed st' = bsMissed st @ (if int (length taken) < shortfall lent v \<and>
        \<not> (taken \<noteq> [] \<or> 0 < residentCount byPod (name_of v)) then [vdModel v] else [])"
proof -
  let ?c = "holding rt byPod (bsFree st) (name_of v)"
  have c: "set ?c = cand" "distinct ?c"
    using assms(3) by (simp_all add: holding_def pods.sort_set pods.sort_distinct cand_def)
  let ?t = "take (nat (shortfall lent v)) ?c"
  show thesis
  proof (rule that [of ?t])
    show "distinct ?t" "set ?t \<subseteq> cand" using c set_take_subset [of _ ?c] by auto
    show "int (length ?t) \<le> max 0 (shortfall lent v)" by auto
    show "int (length ?t) < shortfall lent v \<Longrightarrow> set ?t = cand" using c by (auto simp: take_all)
  qed (auto simp: st'_def borrowStep_def Let_def shortfall_def)
qed

text \<open>The loop: Pods move from the free set to the borrows and are neither lost nor used twice.\<close>

lemma borrowFold_pods:
  assumes "distinct (bsFree st)"
  shows "mset (bsFree (foldl (borrowStep rt byPod lent) st vs))
      + mset (map acPod (bsBorrow (foldl (borrowStep rt byPod lent) st vs)))
    = mset (bsFree st) + mset (map acPod (bsBorrow st))"
    and "distinct (bsFree (foldl (borrowStep rt byPod lent) st vs))"
  using assms
proof (induction vs arbitrary: st)
  case Nil
  { case 1 then show ?case by simp }
  { case 2 then show ?case by simp }
next
  case (Cons v vs)
  have step: "distinct (bsFree (borrowStep rt byPod lent st v)) \<and>
      mset (bsFree (borrowStep rt byPod lent st v)) + mset (map acPod (bsBorrow (borrowStep rt byPod lent st v)))
      = mset (bsFree st) + mset (map acPod (bsBorrow st))" if d: "distinct (bsFree st)" for st
  proof (rule borrowStep_effect [OF d, of byPod v lent], goal_cases)
    case (1 taken)
    then show ?case
      using d mset_take_out [OF d, of taken] by (auto simp: comp_def ac_simps)
  qed
  { case 1
    show ?case
      using Cons.IH(1) [OF conjunct1 [OF step [OF 1]]] conjunct2 [OF step [OF 1]] by (simp only: foldl_Cons) }
  { case 2
    show ?case
      using Cons.IH(2) [OF conjunct1 [OF step [OF 2]]] by (simp only: foldl_Cons) }
qed

text \<open>Every borrow is of a Pod that holds the model of a variant that is short.\<close>

lemma borrowFold_models:
  assumes "distinct (bsFree st)"
    and "a \<in> set (bsBorrow (foldl (borrowStep rt byPod lent) st vs))" and "a \<notin> set (bsBorrow st)"
  shows "\<exists>v \<in> set vs. acModel a = vdModel v \<and> 0 < shortfall lent v \<and> holds_variant byPod (name_of v) (acPod a)"
  using assms
proof (induction vs arbitrary: st)
  case Nil
  then show ?case by simp
next
  case (Cons v vs)
  obtain taken where t: "set taken \<subseteq> {p \<in> set (bsFree st). holds_variant byPod (name_of v) p}"
      "int (length taken) \<le> max 0 (shortfall lent v)"
      "bsBorrow (borrowStep rt byPod lent st v) = bsBorrow st @ map (\<lambda>p. \<lparr>acPod = p, acModel = vdModel v\<rparr>) taken"
      "bsFree (borrowStep rt byPod lent st v) = filter (\<lambda>p. p \<notin> set taken) (bsFree st)"
    by (rule borrowStep_effect [OF Cons.prems(1), of byPod v lent])
  show ?case
  proof (cases "a \<in> set (bsBorrow (borrowStep rt byPod lent st v))")
    case True
    then have a: "acPod a \<in> set taken" "acModel a = vdModel v"
      using Cons.prems(3) t(3) by auto
    then have "0 < length taken" by auto
    then have "0 < shortfall lent v" using t(2) by linarith
    then show ?thesis using a t(1) by auto
  next
    case False
    then show ?thesis
      using Cons.IH [of "borrowStep rt byPod lent st v"] Cons.prems t(4) by auto
  qed
qed

text \<open>The number of borrows of a variant named once is its shortfall, unless it is reported.\<close>

lemma borrowFold_others:
  assumes "distinct (bsFree st)" and "w \<notin> name_of ` set vs"
  shows "about w (foldl (borrowStep rt byPod lent) st vs) = about w st \<and>
     set (bsFree (foldl (borrowStep rt byPod lent) st vs)) \<subseteq> set (bsFree st)"
  using assms
proof (induction vs arbitrary: st)
  case Nil
  then show ?case by simp
next
  case (Cons v vs)
  show ?case
  proof (rule borrowStep_effect [OF Cons.prems(1), of byPod v lent], goal_cases)
    case (1 taken)
    have "distinct (bsFree (borrowStep rt byPod lent st v))" using 1 Cons.prems(1) by simp
    moreover have "about w (borrowStep rt byPod lent st v) = about w st"
      using 1 Cons.prems(2) by (auto simp: about_def comp_def filter_empty_conv)
    ultimately show ?case
      using Cons.IH [of "borrowStep rt byPod lent st v"] 1 Cons.prems(2) by auto
  qed
qed

lemma borrowFold_covered:
  assumes "distinct (map name_of vs)" and "v \<in> set vs" and "distinct free"
    and "0 < shortfall lent v" and "borrows rt byPod lent free vs = st"
  shows "(let n = int (length (filter (\<lambda>a. Variant (acModel a) = name_of v) (bsBorrow st)));
              reported = (\<lambda>ms. filter (\<lambda>m. Variant m = name_of v) ms) in
      if n = shortfall lent v then reported (bsBlocked st) = [] \<and> reported (bsMissed st) = []
      else n < shortfall lent v \<and> (\<forall>p \<in> set (bsFree st). \<not> holds_variant byPod (name_of v) p) \<and>
        (if 0 < n \<or> 0 < residentCount byPod (name_of v)
         then reported (bsBlocked st) = [vdModel v] \<and> reported (bsMissed st) = []
         else reported (bsBlocked st) = [] \<and> reported (bsMissed st) = [vdModel v]))"
proof -
  let ?st0 = "\<lparr>bsFree = free, bsBorrow = [], bsBlocked = [], bsMissed = []\<rparr>"
  obtain us ws where vs: "vs = us @ v # ws" using assms(2) by (meson split_list)
  have names: "name_of v \<notin> name_of ` set us" "name_of v \<notin> name_of ` set ws"
    using assms(1) vs by auto
  define st1 where "st1 = foldl (borrowStep rt byPod lent) ?st0 us"
  have d1: "distinct (bsFree st1)" using borrowFold_pods(2) [of ?st0] assms(3) by (simp add: st1_def)
  have a1: "about (name_of v) st1 = ([], [], [])"
    using borrowFold_others [of ?st0 "name_of v" us] names(1) assms(3) by (simp add: st1_def about_def)
  define st2 where "st2 = borrowStep rt byPod lent st1 v"
  have st: "st = foldl (borrowStep rt byPod lent) st2 ws"
    using assms(5) by (simp add: borrows_def vs st1_def st2_def)
  show ?thesis
  proof (rule borrowStep_effect [OF d1, of byPod v lent], goal_cases)
    case (1 taken)
    note eff = 1 [folded st2_def]
    have d2: "distinct (bsFree st2)" using eff d1 by simp
    have same: "about (name_of v) st = about (name_of v) st2" and sub: "set (bsFree st) \<subseteq> set (bsFree st2)"
      using borrowFold_others [OF d2 names(2), of byPod lent] by (auto simp: st)
    have a2: "about (name_of v) st2 = (map (\<lambda>p. \<lparr>acPod = p, acModel = vdModel v\<rparr>) taken,
        if int (length taken) < shortfall lent v \<and> (taken \<noteq> [] \<or> 0 < residentCount byPod (name_of v)) then [vdModel v] else [],
        if int (length taken) < shortfall lent v \<and> \<not> (taken \<noteq> [] \<or> 0 < residentCount byPod (name_of v)) then [vdModel v] else [])"
      using eff(5,7,8) a1 by (simp add: about_def comp_def)
    have "int (length taken) \<le> shortfall lent v" using eff(3) assms(4) by simp
    moreover have "\<forall>p \<in> set (bsFree st). \<not> holds_variant byPod (name_of v) p"
      if "int (length taken) < shortfall lent v"
      using eff(4) eff(6) [OF that] sub by auto
    ultimately show ?case
      using same a2 unfolding about_def by (auto simp: Let_def)
  qed
qed

end

subsection \<open>The admission loop\<close>

lemma roomiestFold_in:
  "foldl (roomiestStep byPod cfg) best ps = Some t \<Longrightarrow> best = Some t \<or>
     t \<in> set ps \<and> (0 < MaxInstancesPerPod cfg \<longrightarrow> Resident (mget [] byPod t) < MaxInstancesPerPod cfg)"
proof (induction ps arbitrary: best)
  case Nil
  then show ?case by simp
next
  case (Cons p ps)
  then have "roomiestStep byPod cfg best p = Some t \<or>
      t \<in> set ps \<and> (0 < MaxInstancesPerPod cfg \<longrightarrow> Resident (mget [] byPod t) < MaxInstancesPerPod cfg)"
    by simp
  then show ?case by (auto simp: roomiestStep_def split: option.splits if_splits)
qed

text \<open>What one admission of a variant into a Pod respects.\<close>

definition admitOk :: "by_pod \<Rightarrow> config \<Rightarrow> bool \<Rightarrow> modelRef \<Rightarrow> namespacedName \<Rightarrow> bool" where
  "admitOk byPod cfg emptyOnly model p \<longleftrightarrow>
     fst (doesNotFit model (mget [] byPod p) cfg) = None \<and>
     \<not> (Variant model \<noteq> [] \<and> holds_variant byPod (Variant model) p) \<and>
     (emptyOnly \<longrightarrow> Resident (mget [] byPod p) = 0) \<and>
     (0 < MaxInstancesPerPod cfg \<longrightarrow> Resident (mget [] byPod p) < MaxInstancesPerPod cfg)"

lemma roomiestWithout_ok:
  assumes "roomiestFreePodWithout byPod free cfg (Variant model) emptyOnly = Some t"
    and "fst (doesNotFit model (mget [] byPod t) cfg) = None"
  shows "t \<in> set free \<and> admitOk byPod cfg emptyOnly model t"
proof -
  have "\<not> 0 < Resident ms \<longleftrightarrow> Resident ms = 0" for ms
    using Resident_nonneg [of ms] by linarith
  then show ?thesis
    using roomiestFold_in [OF assms(1) [unfolded roomiestFreePodWithout_def roomiestFreePod_def]] assms(2)
    by (auto simp: admitOk_def holds_variant_def list_ex_iff)
qed

text \<open>
  One variant: the Pods taken leave the free set, each admission respects \<open>admitOk\<close>, each costs
  one of the budget, and the copies never exceed what the variant wants.
\<close>

definition admitEffect :: "by_pod \<Rightarrow> config \<Rightarrow> bool \<Rightarrow> admitState \<Rightarrow> nat \<Rightarrow> nat \<Rightarrow> admitState \<Rightarrow> action list \<Rightarrow> bool" where
  "admitEffect byPod cfg emptyOnly st b b' st' new \<longleftrightarrow>
     asOut st' = asOut st @ new \<and> distinct (map acPod new) \<and> acPod ` set new \<subseteq> set (asFree st) \<and>
     asFree st' = filter (\<lambda>p. p \<notin> acPod ` set new) (asFree st) \<and> b = b' + length new \<and>
     (\<forall>a \<in> set new. admitOk byPod cfg emptyOnly (acModel a) (acPod a))"

lemma admitEffect_refl: "admitEffect byPod cfg e st b b (st\<lparr>asDeclined := ds\<rparr>) []"
  by (simp add: admitEffect_def)

lemma admitEffect_trans:
  "admitEffect byPod cfg e st b b1 st1 n1 \<Longrightarrow> admitEffect byPod cfg e st1 b1 b2 st2 n2 \<Longrightarrow>
    admitEffect byPod cfg e st b b2 st2 (n1 @ n2)"
  by (auto simp: admitEffect_def conj_commute image_Un)

lemma admitVariant_effect:
  assumes "admitVariant byPod cfg e v b placed st = (b', st')"
  shows "\<exists>new. admitEffect byPod cfg e st b b' st' new \<and> (\<forall>a \<in> set new. acModel a = vdModel v) \<and>
    residentCount byPod (name_of v) + placed + int (length new)
      \<le> max (residentCount byPod (name_of v) + placed) (fst (wantedCopies v))"
  using assms
proof (induction byPod cfg e v b placed st arbitrary: b' st' rule: admitVariant.induct)
  case (1 byPod cfg e v placed st)
  then show ?case using admitEffect_refl [of byPod cfg e st 0 "asDeclined st"] by force
next
  case (2 byPod cfg e v budget placed st)
  note keep = admitEffect_refl [of byPod cfg e st "Suc budget"]
  show ?case
  proof (cases "residentCount byPod (name_of v) + placed < fst (wantedCopies v)")
    case False
    then show ?thesis using 2(2) keep [of "asDeclined st"] by force
  next
    case True
    show ?thesis
    proof (cases "roomiestFreePodWithout byPod (asFree st) cfg (name_of v) e")
      case None
      then show ?thesis using 2(2) True keep [of "asDeclined st"] by force
    next
      case (Some t)
      show ?thesis
      proof (cases "fst (doesNotFit (vdModel v) (mget [] byPod t) cfg)")
        case (Some r)
        then show ?thesis
          using 2(2) True \<open>roomiestFreePodWithout _ _ _ _ _ = Some t\<close> keep
          by (force split: prod.splits)
      next
        case None
        let ?a = "\<lparr>acPod = t, acModel = vdModel v\<rparr>"
        let ?st1 = "st\<lparr>asOut := asOut st @ [?a], asFree := filter (\<lambda>p. p \<noteq> t) (asFree st)\<rparr>"
        obtain perm where fit: "doesNotFit (vdModel v) (mget [] byPod t) cfg = (None, perm)"
          using None by (cases "doesNotFit (vdModel v) (mget [] byPod t) cfg") auto
        have rec: "admitVariant byPod cfg e v budget (placed + 1) ?st1 = (b', st')"
          using 2(2) True Some fit by simp
        obtain new where new: "admitEffect byPod cfg e ?st1 budget b' st' new" "\<forall>a \<in> set new. acModel a = vdModel v"
          "residentCount byPod (name_of v) + (placed + 1) + int (length new)
            \<le> max (residentCount byPod (name_of v) + (placed + 1)) (fst (wantedCopies v))"
          using 2(1) [OF True Some fit [symmetric] refl rec] by blast
        have "admitEffect byPod cfg e st (Suc budget) budget ?st1 [?a]"
          using roomiestWithout_ok [OF Some] fit by (simp add: admitEffect_def)
        from admitEffect_trans [OF this new(1)] show ?thesis
          using new(2,3) True by (intro exI [of _ "?a # new"]) auto
      qed
    qed
  qed
qed

lemma admittedSoFar_count:
  "admittedSoFar as w = int (length (filter (\<lambda>a. Variant (acModel a) = w) as))"
  using foldl_count [of "\<lambda>a. Variant (acModel a) = w" 0 as] by (simp add: admittedSoFar_def)

lemma admitFold_effect:
  assumes "foldl (admitStep byPod cfg e) (b, st) cs = (b', st')"
  shows "\<exists>new. admitEffect byPod cfg e st b b' st' new \<and> (\<forall>a \<in> set new. \<exists>v \<in> set cs. acModel a = vdModel v)"
  using assms
proof (induction cs arbitrary: b st)
  case Nil
  then show ?case using admitEffect_refl [of byPod cfg e st b "asDeclined st"] by force
next
  case (Cons v cs)
  obtain b1 st1 where step: "admitStep byPod cfg e (b, st) v = (b1, st1)"
    by (cases "admitStep byPod cfg e (b, st) v")
  have "\<exists>n1. admitEffect byPod cfg e st b b1 st1 n1 \<and> (\<forall>a \<in> set n1. acModel a = vdModel v)"
  proof (cases "b = 0")
    case True
    then show ?thesis using step admitEffect_refl [of byPod cfg e st b "asDeclined st"] by (force simp: admitStep_def)
  next
    case False
    then show ?thesis using step admitVariant_effect [of byPod cfg e v b _ st b1 st1] by (auto simp: admitStep_def)
  qed
  then obtain n1 where n1: "admitEffect byPod cfg e st b b1 st1 n1" "\<forall>a \<in> set n1. acModel a = vdModel v" by blast
  obtain n2 where n2: "admitEffect byPod cfg e st1 b1 b' st' n2" "\<forall>a \<in> set n2. \<exists>v \<in> set cs. acModel a = vdModel v"
    using Cons.IH [of b1 st1] Cons.prems step by auto
  show ?case
    using admitEffect_trans [OF n1(1) n2(1)] n1(2) n2(2) by (intro exI [of _ "n1 @ n2"]) auto
qed

text \<open>No variant gets more copies than the most any of its demand entries asks for.\<close>

lemma admitFold_copies:
  assumes "\<forall>v \<in> set cs. name_of v = w \<longrightarrow> fst (wantedCopies v) \<le> K"
  shows "residentCount byPod w + admittedSoFar (asOut (snd (foldl (admitStep byPod cfg e) (b, st) cs))) w
    \<le> max (residentCount byPod w + admittedSoFar (asOut st) w) K"
  using assms
proof (induction cs arbitrary: b st)
  case Nil
  then show ?case by simp
next
  case (Cons v cs)
  obtain b1 st1 where step: "admitStep byPod cfg e (b, st) v = (b1, st1)"
    by (cases "admitStep byPod cfg e (b, st) v")
  have "residentCount byPod w + admittedSoFar (asOut st1) w \<le> max (residentCount byPod w + admittedSoFar (asOut st) w) K"
  proof (cases "b = 0")
    case True
    then show ?thesis using step by (simp add: admitStep_def)
  next
    case False
    then obtain new where new: "admitEffect byPod cfg e st b b1 st1 new" "\<forall>a \<in> set new. acModel a = vdModel v"
      "residentCount byPod (name_of v) + admittedSoFar (asOut st) (name_of v) + int (length new)
        \<le> max (residentCount byPod (name_of v) + admittedSoFar (asOut st) (name_of v)) (fst (wantedCopies v))"
      using step admitVariant_effect [of byPod cfg e v b "admittedSoFar (asOut st) (name_of v)" st b1 st1]
      by (auto simp: admitStep_def)
    have "filter (\<lambda>a. Variant (acModel a) = w) new = (if name_of v = w then new else [])"
      using new(2) by (auto simp: filter_empty_conv filter_id_conv)
    then show ?thesis
      using new(1,3) Cons.prems by (auto simp: admitEffect_def admittedSoFar_count)
  qed
  with Cons.IH [of b1 st1] Cons.prems step show ?case by auto
qed

lemma admissions_effect:
  assumes "distinct free"
  obtains new where "asOut (admissions inp cfg byPod free e) = new"
    and "distinct (map acPod new)" and "acPod ` set new \<subseteq> set free"
    and "asFree (admissions inp cfg byPod free e) = filter (\<lambda>p. p \<notin> acPod ` set new) free"
    and "\<forall>a \<in> set new. admitOk byPod cfg e (acModel a) (acPod a) \<and>
           (\<exists>v \<in> set (candidatesForAdmission inp cfg). acModel a = vdModel v)"
    and "new \<noteq> [] \<Longrightarrow> int (length new) \<le> int (length free) - SleepMinSize cfg"
proof -
  let ?st = "\<lparr>asFree = free, asOut = [], asDeclined = []\<rparr>"
  let ?b = "int (length free) - SleepMinSize cfg"
  show thesis
  proof (cases "?b \<le> 0")
    case True
    then show thesis by (intro that [of "[]"]) (simp_all add: admissions_def Let_def)
  next
    case False
    obtain b' st' where run: "foldl (admitStep byPod cfg e) (nat ?b, ?st) (candidatesForAdmission inp cfg) = (b', st')"
      by (cases "foldl (admitStep byPod cfg e) (nat ?b, ?st) (candidatesForAdmission inp cfg)")
    obtain new where new: "admitEffect byPod cfg e ?st (nat ?b) b' st' new"
        "\<forall>a \<in> set new. \<exists>v \<in> set (candidatesForAdmission inp cfg). acModel a = vdModel v"
      using admitFold_effect [OF run] by blast
    have adm: "admissions inp cfg byPod free e = st'"
      using False run by (simp add: admissions_def Let_def)
    show thesis
      using new False unfolding admitEffect_def by (intro that [of new]) (auto simp: adm)
  qed
qed

lemma candidates_in: "set (candidatesForAdmission inp cfg) \<subseteq> set (Variants inp)"
  by (auto simp: candidatesForAdmission_def Let_def)

lemma candidates_wanted:
  "v \<in> set (candidatesForAdmission inp cfg) \<Longrightarrow> WarmCopies v \<noteq> Some 0"
  by (auto simp: candidatesForAdmission_def Let_def admissible_def wantedCopies_def)

lemma reserve_shrinks:
  assumes "distinct F" and "distinct (map acPod new)" and "acPod ` set new \<subseteq> set F"
  shows "length (filter (\<lambda>p. p \<notin> acPod ` set new) F) + length new = length F"
proof -
  have "mset (filter (\<lambda>p. p \<notin> set (map acPod new)) F) + mset (map acPod new) = mset F"
    using assms by (intro mset_take_out) auto
  from arg_cong [OF this, of size] show ?thesis
    by (simp only: size_union size_mset length_map list.set_map)
qed

subsection \<open>The fit check\<close>

lemma committed_sum:
  assumes "0 \<le> acc"
    and "acc + (\<Sum>m \<leftarrow> ms. max 0 (HostBytes (computeShape (EngineOptions (Model m))))) < 2 ^ 63"
  shows "foldl (\<lambda>committed m. let held = computeShape (EngineOptions (Model m)) in
              if Known held then wrap64 (committed + HostBytes held) else committed) acc ms =
    acc + (\<Sum>m \<leftarrow> ms. max 0 (HostBytes (computeShape (EngineOptions (Model m)))))"
  using assms
proof (induction ms arbitrary: acc)
  case Nil
  then show ?case by simp
next
  case (Cons m ms)
  let ?h = "HostBytes (computeShape (EngineOptions (Model m)))"
  have nn: "0 \<le> (\<Sum>m \<leftarrow> ms. max 0 (HostBytes (computeShape (EngineOptions (Model m)))))"
    by (intro sum_list_nonneg) auto
  have w: "0 < ?h \<Longrightarrow> wrap64 (acc + ?h) = acc + ?h"
    using Cons.prems nn by (intro wrap64_id) simp_all
  show ?case
    using Cons.IH [of "acc + max 0 ?h"] Cons.prems w by (auto simp: Known_def Let_def max_def add.assoc)
qed

lemma doesNotFit_None:
  assumes "fst (doesNotFit model ms cfg) = None"
  shows "shGPUs (computeShape (EngineOptions model)) \<le> max 1 (pcGPUs (capacityOf ms))"
    and "shPods (computeShape (EngineOptions model)) = max 1 (PodsPerGroup (capacityOf ms))"
    and "\<not> snd (AcceleratorMismatch (mrAccelerator model) (pcAccelerator (capacityOf ms)))"
    and "0 < podBudget (capacityOf ms) cfg \<Longrightarrow> Known (computeShape (EngineOptions model)) \<and>
      wrap64 (committedBytes ms + HostBytes (computeShape (EngineOptions model))) \<le> podBudget (capacityOf ms) cfg"
  using assms by (auto simp: doesNotFit_def Let_def max_def split: prod.splits if_splits)

lemma doesNotFit_Some:
  assumes "doesNotFit model ms cfg = (Some r, permanent)"
  shows "permanent \<longleftrightarrow> \<not> (\<exists>h c b. r = OverBudget h c b)"
  using assms by (auto simp: doesNotFit_def Let_def split: prod.splits if_splits)

lemma podBudget_limit:
  "0 < MemoryLimitBytes c \<Longrightarrow> 0 < podBudget c cfg \<and> podBudget c cfg \<le> MemoryLimitBytes c"
  by (auto simp: podBudget_def Let_def)

text \<open>A model that is not declined fits the container's memory limit beside what is resident.\<close>

lemma doesNotFit_memory:
  assumes "fst (doesNotFit model ms cfg) = None" and "0 < MemoryLimitBytes (capacityOf ms)"
    and "(\<Sum>m \<leftarrow> ms. max 0 (HostBytes (computeShape (EngineOptions (Model m)))))
      + HostBytes (computeShape (EngineOptions model)) < 2 ^ 63"
  shows "(\<Sum>m \<leftarrow> ms. max 0 (HostBytes (computeShape (EngineOptions (Model m)))))
      + HostBytes (computeShape (EngineOptions model)) \<le> MemoryLimitBytes (capacityOf ms)"
proof -
  let ?s = "\<Sum>m \<leftarrow> ms. max 0 (HostBytes (computeShape (EngineOptions (Model m))))"
  let ?h = "HostBytes (computeShape (EngineOptions model))"
  have b: "0 < podBudget (capacityOf ms) cfg" "podBudget (capacityOf ms) cfg \<le> MemoryLimitBytes (capacityOf ms)"
    using podBudget_limit [OF assms(2), of cfg] by auto
  have h: "0 < ?h" and w: "wrap64 (committedBytes ms + ?h) \<le> podBudget (capacityOf ms) cfg"
    using doesNotFit_None(4) [OF assms(1) b(1)] by (auto simp: Known_def)
  have s: "0 \<le> ?s" by (intro sum_list_nonneg) auto
  have "committedBytes ms = ?s"
    using committed_sum [of 0 ms] h s assms(3)
    by (simp add: committedBytes_def)
  moreover have "wrap64 (?s + ?h) = ?s + ?h" using s h assms(3) by (intro wrap64_id) simp_all
  ultimately show ?thesis using w b by simp
qed

end
