(* ===== verification/PolicyReturns.thy ===== *)
theory PolicyReturns
  imports PolicyLoops
begin

text \<open>
  What goes back to the reserve and what is evicted: \<open>returnsFor\<close>, \<open>orphanReturns\<close>,
  \<open>intentReturns\<close> and \<open>evictions\<close>, for every runtime.
\<close>

subsection \<open>Returns\<close>

definition heldFor :: "input \<Rightarrow> membership \<Rightarrow> duration" where
  "heldFor inp m = time_sub (Now inp) (borrowedAt inp m)"

definition holdExpired :: "input \<Rightarrow> config \<Rightarrow> membership \<Rightarrow> bool" where
  "holdExpired inp cfg m \<longleftrightarrow> \<not> Retained cfg \<and> MaxHold cfg \<le> heldFor inp m"

text \<open>A bridge the floor protects: lent for less than \<open>MinHold\<close> while no other variant is short.\<close>

definition tooYoung :: "input \<Rightarrow> config \<Rightarrow> string \<Rightarrow> membership \<Rightarrow> bool" where
  "tooYoung inp cfg w m \<longleftrightarrow> 0 < MinHold cfg \<and> \<not> anotherVariantIsShort inp w \<and> heldFor inp m < MinHold cfg"

definition observed :: "membership \<Rightarrow> action" where
  "observed m = \<lparr>acPod = Pod m, acModel = Model m\<rparr>"

lemma observed_simps [simp]: "acPod (observed m) = Pod m" "acModel (observed m) = Model m"
  by (simp_all add: observed_def)

definition dueBack :: "input \<Rightarrow> config \<Rightarrow> variantDemand \<Rightarrow> int \<Rightarrow> int \<times> membership \<Rightarrow> bool" where
  "dueBack inp cfg v excess im \<longleftrightarrow>
     holdExpired inp cfg (snd im) \<or> fst im < excess \<and> \<not> tooYoung inp cfg (name_of v) (snd im)"

definition numbered :: "membership list \<Rightarrow> (int \<times> membership) list" where
  "numbered ms = zip (map int [0..<length ms]) ms"

lemma numbered_in: "(i, m) \<in> set (numbered ms) \<Longrightarrow> 0 \<le> i \<and> m \<in> set ms"
  by (auto simp: numbered_def in_set_zip)

lemma numbered_ex: "m \<in> set ms \<Longrightarrow> \<exists>i. (i, m) \<in> set (numbered ms)"
  unfolding numbered_def by (metis in_set_impl_in_set_zip2 length_map length_upt minus_nat.diff_0)

lemma returnsFor_eq:
  "returnsFor rt v lent inp cfg =
     map (observed \<circ> snd) (filter (dueBack inp cfg v (int (length lent) - max 0 (Desired v - Ready v)))
       (numbered (sortMembers rt (\<lambda>a b. borrowedAt inp a < borrowedAt inp b) lent)))"
proof -
  have "returnsBridge cfg (anotherVariantIsShort inp (name_of v)) e inp = dueBack inp cfg v e" for e
    by (auto simp: returnsBridge_def dueBack_def holdExpired_def tooYoung_def heldFor_def Let_def fun_eq_iff)
  moreover have "(\<lambda>(_ :: int, m). \<lparr>acPod = Pod m, acModel = Model m\<rparr>) = observed \<circ> snd"
    by (auto simp: observed_def)
  moreover have "(if x < 0 then 0 else x) = max 0 x" for x :: int by simp
  ultimately show ?thesis by (simp only: returnsFor_def Let_def numbered_def)
qed

text \<open>At most the excess goes back before its time.\<close>

lemma returns_excess:
  "int (length (filter (\<lambda>im. \<not> holdExpired inp cfg (snd im))
      (filter (dueBack inp cfg v excess) (numbered ms)))) \<le> max 0 excess"
proof -
  let ?f = "filter (\<lambda>im. \<not> holdExpired inp cfg (snd im)) (filter (dueBack inp cfg v excess) (numbered ms))"
  have "distinct (map fst (numbered ms))" by (simp add: numbered_def distinct_map)
  then have "distinct (map fst ?f)" by (intro distinct_map_filter)
  then have "card (set (map fst ?f)) = length ?f" by (simp only: distinct_card length_map)
  moreover have "set (map fst ?f) \<subseteq> {0..<excess}"
    by (auto simp: dueBack_def dest: numbered_in)
  ultimately have "length ?f \<le> card {0..<excess}"
    by (metis card_mono finite_atLeastLessThan_int)
  then show ?thesis by simp
qed

context go_runtime
begin

lemma returnsFor_sound:
  assumes "a \<in> set (returnsFor rt v lent inp cfg)"
  shows "\<exists>m \<in> set lent. a = observed m \<and>
    (holdExpired inp cfg m \<or> max 0 (Desired v - Ready v) < int (length lent) \<and> \<not> tooYoung inp cfg (name_of v) m)"
proof -
  obtain i m where im: "(i, m) \<in> set (numbered (sortMembers rt (\<lambda>a b. borrowedAt inp a < borrowedAt inp b) lent))"
      "a = observed m" "dueBack inp cfg v (int (length lent) - max 0 (Desired v - Ready v)) (i, m)"
    using assms unfolding returnsFor_eq by auto
  have "m \<in> set lent" "0 \<le> i" using numbered_in [OF im(1)] by (simp_all add: members.sort_set)
  then show ?thesis using im(2,3) unfolding dueBack_def by (intro bexI [of _ m]) auto
qed

lemma returnsFor_expired:
  assumes "m \<in> set lent" and "holdExpired inp cfg m"
  shows "observed m \<in> set (returnsFor rt v lent inp cfg)"
proof -
  obtain i where "(i, m) \<in> set (numbered (sortMembers rt (\<lambda>a b. borrowedAt inp a < borrowedAt inp b) lent))"
    using numbered_ex assms(1) by (metis members.sort_set)
  then show ?thesis
    using assms(2) unfolding returnsFor_eq by (force simp: dueBack_def)
qed

end

lemma anotherShort_iff:
  "anotherVariantIsShort inp w \<longleftrightarrow> (\<exists>v \<in> set (Variants inp). name_of v \<noteq> w \<and> Ready v < Desired v)"
  by (simp add: anotherVariantIsShort_def list_ex_iff)

lemma isShort_Some:
  "isShort vs w lent \<Longrightarrow> \<exists>v \<in> set vs. name_of v = w \<and> 0 < shortfall lent v"
  by (induction vs) (auto simp: shortfall_def split: if_splits)

lemma orphans_in:
  "a \<in> set (orphanReturns all) \<longleftrightarrow> (\<exists>m \<in> set all. State m = Waking \<and> a = observed m)"
  by (auto simp: orphanReturns_def observed_def)

text \<open>An intent sleeps what is awake beside the chosen model, in one Pod that holds it.\<close>

lemma intentScan_sound:
  assumes "a \<in> set (intentScan want ret bp)"
  shows "\<exists>(p, ms) \<in> set bp. p \<notin> set ret \<and> acPod a = p \<and> (\<exists>m \<in> set ms. variant_of m = want) \<and>
    (\<exists>m \<in> set ms. acModel a = Model m \<and> variant_of m \<noteq> want \<and> State m = Serving)"
  using assms
proof (induction want ret bp rule: intentScan.induct)
  case (1 want returned)
  then show ?case by simp
next
  case (2 want returned p ms rest)
  then show ?case
    by (cases "p \<in> set returned"; cases "list_ex (\<lambda>m. variant_of m = want) ms")
      (auto simp: Let_def list_ex_iff split: if_splits)
qed

subsection \<open>Evictions\<close>

lemma strict_weak_evictLess: "strict_weak evictLess"
  unfolding strict_weak_def evictLess_def by (auto split: if_splits)

lemma heldCopies_in:
  assumes "m \<in> set (heldCopies bp (lentByVariant all) claimed w)" and "mset bp = mset (ByPod all)"
  shows "m \<in> set all \<and> variant_of m = w \<and> w \<noteq> [] \<and> Pod m \<notin> set claimed \<and>
    \<not> (\<exists>m' \<in> set all. State m' = Serving \<and> Pod m' = Pod m \<and> variant_of m' = w)"
proof -
  have bp: "set bp = set (ByPod all)" using assms(2) by (rule mset_eq_setD)
  obtain p ms where pm: "(p, ms) \<in> set bp" "p \<notin> set claimed" "m \<in> set ms" "variant_of m = w" "w \<noteq> []"
      "\<not> isLent (lentByVariant all) p w"
    using assms(1) by (auto simp: heldCopies_def split: if_splits)
  then have "ms = filter (\<lambda>m. Pod m = p) all" using bp by (simp add: ByPod_in)
  with pm show ?thesis by (auto simp: isLent_iff)
qed

lemma heldCopies_name: "m \<in> set (heldCopies bp lent claimed w) \<Longrightarrow> variant_of m = w"
  by (auto simp: heldCopies_def split: if_splits)

text \<open>The number of spare copies does not depend on the order of the range.\<close>

lemma heldCopies_length:
  assumes "mset bp = mset bp'"
  shows "mset (heldCopies bp lent claimed w) = mset (heldCopies bp' lent claimed w)"
proof -
  let ?f = "\<lambda>(p, ms). if p \<in> set claimed then []
      else filter (\<lambda>m. \<not> (variant_of m \<noteq> w \<or> variant_of m = []) \<and> \<not> isLent lent p (variant_of m)) ms"
  have "mset (concat (map ?f xs)) = \<Sum>\<^sub># (image_mset (mset \<circ> ?f) (mset xs))" for xs
    by (induction xs) auto
  then show ?thesis by (simp only: heldCopies_def assms)
qed

context go_runtime
begin

text \<open>
  For an explicit number of copies the spare ones beyond it are evicted, least recently used
  first, and no more.
\<close>

lemma evictVariant_effect:
  assumes "WarmCopies v = Some want" and "0 \<le> want"
  obtains gone kept where "evictVariant rt bp lent claimed v = map observed gone"
    and "mset (gone @ kept) = mset (heldCopies bp lent claimed (name_of v))"
    and "int (length kept) = min want (int (length (heldCopies bp lent claimed (name_of v))))"
    and "\<And>g k. g \<in> set gone \<Longrightarrow> k \<in> set kept \<Longrightarrow> \<not> evictLess k g"
proof -
  let ?h = "heldCopies bp lent claimed (name_of v)"
  let ?s = "sortMembers rt evictLess ?h"
  let ?n = "nat (int (length ?h) - want)"
  have len: "length ?s = length ?h" by (rule members.sort_length)
  have obs: "(\<lambda>m. \<lparr>acPod = Pod m, acModel = Model m\<rparr>) = observed" by (simp add: observed_def fun_eq_iff)
  show thesis
  proof (rule that [of "take ?n ?s" "drop ?n ?s"])
    show "evictVariant rt bp lent claimed v = map observed (take ?n ?s)"
      using assms by (simp add: evictVariant_def wantedCopies_def Let_def obs)
    show "mset (take ?n ?s @ drop ?n ?s) = mset ?h" by (simp add: members.sort_mset)
    show "int (length (drop ?n ?s)) = min want (int (length ?h))" using assms(2) len by auto
    have "sorted_wrt (\<lambda>x y. \<not> evictLess y x) (take ?n ?s @ drop ?n ?s)"
      using members.sort_sorted [OF strict_weak_evictLess] by simp
    then show "\<And>g k. g \<in> set (take ?n ?s) \<Longrightarrow> k \<in> set (drop ?n ?s) \<Longrightarrow> \<not> evictLess k g"
      by (auto simp only: sorted_wrt_append)
  qed
qed

lemma evictVariant_auto: "WarmCopies v = None \<Longrightarrow> evictVariant rt bp lent claimed v = []"
  by (simp add: evictVariant_def wantedCopies_def)

lemma evictVariant_in:
  assumes "a \<in> set (evictVariant rt bp lent claimed v)"
  shows "\<exists>m \<in> set (heldCopies bp lent claimed (name_of v)). a = observed m"
  using assms
  by (auto simp: evictVariant_def Let_def observed_def members.sort_set dest!: in_set_takeD
      split: prod.splits if_splits)

lemma evictions_in:
  assumes "a \<in> set (evictions rt inp (ByPod all) (lentByVariant all) claimed)"
  shows "\<exists>v \<in> set (Variants inp). \<exists>m \<in> set all. WarmCopies v \<noteq> None \<and> variant_of m = name_of v \<and>
    a = observed m \<and> Pod m \<notin> set claimed \<and>
    \<not> (\<exists>m' \<in> set all. State m' = Serving \<and> Pod m' = Pod m \<and> variant_of m' = variant_of m)"
proof -
  obtain n v where nv: "v \<in> set (Variants inp)"
      "a \<in> set (evictVariant rt (rangePods rt n (ByPod all)) (lentByVariant all) claimed v)"
    using assms by (auto simp: evictions_def dest: set_zip_rightD)
  then obtain m where m: "m \<in> set (heldCopies (rangePods rt n (ByPod all)) (lentByVariant all) claimed (name_of v))"
      "a = observed m"
    using evictVariant_in by blast
  have "WarmCopies v \<noteq> None" using nv(2) evictVariant_auto by fastforce
  with nv(1) m heldCopies_in [OF m(1) range_mset] show ?thesis
    by (intro bexI [of _ v] bexI [of _ m]) auto
qed

text \<open>A variant named once loses exactly its spare copies beyond the number it asked for.\<close>

lemma evictions_count:
  assumes "distinct (map name_of (Variants inp))" and "v \<in> set (Variants inp)"
    and "WarmCopies v = Some want" and "0 \<le> want"
  shows "length (filter (\<lambda>a. Variant (acModel a) = name_of v) (evictions rt inp bp lent claimed)) =
    nat (int (length (heldCopies bp lent claimed (name_of v))) - want)"
proof -
  let ?ev = "\<lambda>n u. evictVariant rt (rangePods rt (Suc n) bp) lent claimed u"
  let ?mine = "filter (\<lambda>a. Variant (acModel a) = name_of v)"
  let ?spare = "nat (int (length (heldCopies bp lent claimed (name_of v))) - want)"
  have other: "?mine (?ev n u) = []" if "name_of u \<noteq> name_of v" for n u
    using that by (auto simp: filter_empty_conv dest!: evictVariant_in heldCopies_name)
  have self: "length (?mine (?ev n v)) = ?spare" for n
  proof -
    have "length (heldCopies (rangePods rt (Suc n) bp) lent claimed (name_of v)) =
        length (heldCopies bp lent claimed (name_of v))"
      by (rule mset_eq_length) (rule heldCopies_length [OF range_mset])
    then have "length (?ev n v) = ?spare"
      using assms(3,4) by (simp add: evictVariant_def wantedCopies_def Let_def members.sort_length)
    moreover have "?mine (?ev n v) = ?ev n v"
      by (auto simp: filter_id_conv dest!: evictVariant_in heldCopies_name)
    ultimately show ?thesis by simp
  qed
  have none: "?mine (concat (map (\<lambda>(n, u). ?ev n u) nus)) = []" if "name_of v \<notin> (name_of \<circ> snd) ` set nus" for nus
    using that by (induction nus) (auto simp: other)
  obtain us ws where vs: "Variants inp = us @ v # ws" using assms(2) by (meson split_list)
  then have names: "name_of v \<notin> name_of ` set us" "name_of v \<notin> name_of ` set ws"
    using assms(1) by auto
  have z: "zip [0..<length (Variants inp)] (Variants inp) =
      zip [0..<length us] us @ (length us, v) # zip [Suc (length us)..<length (Variants inp)] ws"
    using upt_add_eq_append [of 0 "length us" "Suc (length ws)"] by (simp add: vs upt_conv_Cons del: upt_Suc)
  have nz: "name_of v \<notin> (name_of \<circ> snd) ` set (zip ns xs)" if "name_of v \<notin> name_of ` set xs" for ns xs
    using that by (auto dest: set_zip_rightD)
  show ?thesis
    using none [OF nz [OF names(1)]] none [OF nz [OF names(2)]] by (simp add: evictions_def z self)
qed

end

end
