(* ===== verification/PolicyPlan.thy ===== *)
theory PolicyPlan
  imports PolicyReturns
begin

text \<open>
  What a plan of \<open>Decide\<close> guarantees, for every runtime Go allows: which Pods it uses, whom it
  lends to, what it admits and evicts, what goes back, and what becomes of the reserve.
\<close>

subsection \<open>The steps put together\<close>

lemma reserveFree_in:
  "p \<in> set (reserveFree rt inp cfg) \<longleftrightarrow>
     p \<in> Pod ` set (Memberships inp) \<and> \<not> mget False (Admitting inp) p \<and>
     (Free (filter (\<lambda>m. Pod m = p) (Memberships inp)) \<or> p \<in> acPod ` set (stepReturns rt inp cfg))"
  by (simp add: reserveFree_def set_freePods)

lemma distinct_reserve: "distinct (reserveFree rt inp cfg)"
  by (simp add: reserveFree_def distinct_freePods)

text \<open>A Pod handed back is in the plan's returns, unless it is an orphan its own variant borrows.\<close>

lemma drop_kept:
  assumes "r \<in> set rs"
  shows "r \<in> set (dropOrphanReturnsSupersededByBorrows rs os bs) \<or>
    (\<exists>o' \<in> set os. \<exists>b \<in> set bs. acPod o' = acPod r \<and> Variant (acModel o') = Variant (acModel r) \<and>
       acPod b = acPod r \<and> Variant (acModel b) = Variant (acModel r))"
  using assms by (auto simp: dropOrphanReturnsSupersededByBorrows_def Let_def) blast

lemma knownOrphans_in:
  "o' \<in> set (knownOrphans inp) \<Longrightarrow>
    \<exists>m \<in> set (Memberships inp). State m = Waking \<and> acPod o' = Pod m \<and> Variant (acModel o') = variant_of m"
  by (auto simp: knownOrphans_def orphans_in) blast

lemma returned_or_reborrowed:
  assumes "p \<in> acPod ` set (stepReturns rt inp cfg)"
  shows "p \<in> acPod ` set (Return (Decide rt inp cfg)) \<or>
    (\<exists>m \<in> set (Memberships inp). \<exists>b \<in> set (Borrow (Decide rt inp cfg)).
       Pod m = p \<and> State m = Waking \<and> acPod b = Pod m \<and> Variant (acModel b) = variant_of m)"
proof -
  obtain r where r: "r \<in> set (stepReturns rt inp cfg)" "p = acPod r" using assms by blast
  from drop_kept [OF r(1), of "knownOrphans inp" "bsBorrow (stepBorrows rt inp cfg)"] show ?thesis
    using r(2) by (auto simp: plan_simps dest!: knownOrphans_in) metis
qed

context go_runtime
begin

lemma stepBorrows_pods:
  "mset (bsFree (stepBorrows rt inp cfg)) + mset (map acPod (bsBorrow (stepBorrows rt inp cfg)))
     = mset (reserveFree rt inp cfg)"
  "distinct (bsFree (stepBorrows rt inp cfg))"
  using borrowFold_pods [of "\<lparr>bsFree = reserveFree rt inp cfg, bsBorrow = [], bsBlocked = [], bsMissed = []\<rparr>"]
    distinct_reserve [of rt inp cfg]
  by (simp_all add: stepBorrows_def borrows_def)

lemma stepBorrows_model:
  assumes "a \<in> set (bsBorrow (stepBorrows rt inp cfg))"
  shows "\<exists>v \<in> set (Variants inp). acModel a = vdModel v \<and> 0 < shortfall (lentByVariant (Memberships inp)) v \<and>
    holds_variant (ByPod (Memberships inp)) (name_of v) (acPod a)"
  using borrowFold_models [of "\<lparr>bsFree = reserveFree rt inp cfg, bsBorrow = [], bsBlocked = [], bsMissed = []\<rparr>" a]
    assms distinct_reserve [of rt inp cfg]
  by (simp add: stepBorrows_def borrows_def)

lemma stepAdmits_effect:
  obtains new where "asOut (stepAdmits rt inp cfg) = new" and "distinct (map acPod new)"
    and "acPod ` set new \<subseteq> set (bsFree (stepBorrows rt inp cfg))"
    and "asFree (stepAdmits rt inp cfg) = filter (\<lambda>p. p \<notin> acPod ` set new) (bsFree (stepBorrows rt inp cfg))"
    and "\<forall>a \<in> set new. admitOk (ByPod (Memberships inp)) cfg (Blocked (Decide rt inp cfg) \<noteq> []) (acModel a) (acPod a) \<and>
           (\<exists>v \<in> set (candidatesForAdmission inp cfg). acModel a = vdModel v)"
    and "new \<noteq> [] \<Longrightarrow> int (length new) \<le> int (length (bsFree (stepBorrows rt inp cfg))) - SleepMinSize cfg"
proof (rule admissions_effect [where free = "bsFree (stepBorrows rt inp cfg)" and inp = inp and cfg = cfg
      and byPod = "ByPod (Memberships inp)" and e = "0 < length (bsBlocked (stepBorrows rt inp cfg))"], goal_cases)
  case 1
  show ?case by (rule stepBorrows_pods(2))
next
  case (2 new)
  show ?case using 2 by (intro that [of new]) (simp_all add: stepAdmits_def Let_def plan_simps)
qed

text \<open>Every Pod of the reserve is lent, or admitted into, or still free, and only one of these.\<close>

lemma plan_pods:
  "mset (map acPod (Borrow (Decide rt inp cfg)) @ map acPod (Admit (Decide rt inp cfg)) @ asFree (stepAdmits rt inp cfg))
     = mset (reserveFree rt inp cfg)"
proof -
  let ?bs = "stepBorrows rt inp cfg"
  obtain new where new: "asOut (stepAdmits rt inp cfg) = new" "distinct (map acPod new)"
      "acPod ` set new \<subseteq> set (bsFree ?bs)"
      "asFree (stepAdmits rt inp cfg) = filter (\<lambda>p. p \<notin> acPod ` set new) (bsFree ?bs)"
    by (rule stepAdmits_effect)
  have "mset (filter (\<lambda>p. p \<notin> set (map acPod new)) (bsFree ?bs)) + mset (map acPod new) = mset (bsFree ?bs)"
    using new stepBorrows_pods(2) by (intro mset_take_out) auto
  then have "mset (asFree (stepAdmits rt inp cfg)) + mset (map acPod new) = mset (bsFree ?bs)"
    using new(4) by (simp only: list.set_map)
  then show ?thesis
    using stepBorrows_pods(1) [of inp cfg] new(1)
    by (simp only: plan_simps mset_append) (simp add: ac_simps)
qed

lemma plan_distinct: "distinct (map acPod (Borrow (Decide rt inp cfg)) @ map acPod (Admit (Decide rt inp cfg)))"
  using mset_eq_imp_distinct_iff [OF plan_pods [of inp cfg]] distinct_reserve [of rt inp cfg] by auto

lemma plan_reserve:
  "a \<in> set (Borrow (Decide rt inp cfg)) \<union> set (Admit (Decide rt inp cfg)) \<Longrightarrow> acPod a \<in> set (reserveFree rt inp cfg)"
  using mset_eq_setD [OF plan_pods [of inp cfg]] by auto

lemma plan_left:
  "int (length (asFree (stepAdmits rt inp cfg))) = int (length (reserveFree rt inp cfg))
     - int (length (Borrow (Decide rt inp cfg))) - int (length (Admit (Decide rt inp cfg)))"
  using mset_eq_length [OF plan_pods [of inp cfg]] by simp

lemma stepAdmits_ok:
  assumes "a \<in> set (Admit (Decide rt inp cfg))"
  shows "admitOk (ByPod (Memberships inp)) cfg (Blocked (Decide rt inp cfg) \<noteq> []) (acModel a) (acPod a) \<and>
    (\<exists>v \<in> set (candidatesForAdmission inp cfg). acModel a = vdModel v)"
  by (rule stepAdmits_effect [of inp cfg]) (use assms in \<open>simp add: plan_simps\<close>)

lemma stepAdmits_floor:
  assumes "Admit (Decide rt inp cfg) \<noteq> []"
  shows "SleepMinSize cfg \<le> int (length (asFree (stepAdmits rt inp cfg)))"
proof -
  let ?bs = "stepBorrows rt inp cfg"
  obtain new where new: "asOut (stepAdmits rt inp cfg) = new" "distinct (map acPod new)"
      "acPod ` set new \<subseteq> set (bsFree ?bs)"
      "asFree (stepAdmits rt inp cfg) = filter (\<lambda>p. p \<notin> acPod ` set new) (bsFree ?bs)"
      "new \<noteq> [] \<Longrightarrow> int (length new) \<le> int (length (bsFree ?bs)) - SleepMinSize cfg"
    by (rule stepAdmits_effect [of inp cfg]) blast
  have "length (asFree (stepAdmits rt inp cfg)) + length new = length (bsFree ?bs)"
    using reserve_shrinks [OF stepBorrows_pods(2) new(2,3)] new(4) by simp
  moreover have "new \<noteq> []" using assms new(1) by (simp add: plan_simps)
  ultimately show ?thesis using new(5) by linarith
qed

end

lemma admissions_copies:
  assumes "\<forall>v \<in> set (Variants inp). name_of v = w \<longrightarrow> fst (wantedCopies v) \<le> K"
  shows "residentCount (ByPod (Memberships inp)) w + admittedSoFar (Admit (Decide rt inp cfg)) w
    \<le> max (residentCount (ByPod (Memberships inp)) w) K"
proof -
  have "\<forall>v \<in> set (candidatesForAdmission inp cfg). name_of v = w \<longrightarrow> fst (wantedCopies v) \<le> K"
    using assms candidates_in [of inp cfg] by blast
  then show ?thesis
    using admitFold_copies [of "candidatesForAdmission inp cfg" w K "ByPod (Memberships inp)" cfg _ _
        "\<lparr>asFree = bsFree (stepBorrows rt inp cfg), asOut = [], asDeclined = []\<rparr>"]
    by (auto simp: plan_simps stepAdmits_def admissions_def Let_def admittedSoFar_def)
qed

lemma residentCount_pos:
  assumes "w \<noteq> []"
  shows "0 < residentCount (ByPod all) w \<longleftrightarrow> (\<exists>m \<in> set all. variant_of m = w)"
proof -
  have "residentCount (ByPod all) w = int (length (filter (\<lambda>(_, ms). list_ex (\<lambda>m. variant_of m = w) ms) (ByPod all)))"
    using assms foldl_count [of "\<lambda>(_, ms). list_ex (\<lambda>m. variant_of m = w) ms" 0 "ByPod all"]
    by (simp add: residentCount_def case_prod_unfold)
  then have "0 < residentCount (ByPod all) w \<longleftrightarrow> (\<exists>(p, ms) \<in> set (ByPod all). \<exists>m \<in> set ms. variant_of m = w)"
    by (auto simp: filter_empty_conv list_ex_iff)
  also have "\<dots> \<longleftrightarrow> (\<exists>m \<in> set all. variant_of m = w)"
  proof
    assume "\<exists>m \<in> set all. variant_of m = w"
    then obtain m where m: "m \<in> set all" "variant_of m = w" by blast
    then have "(Pod m, filter (\<lambda>x. Pod x = Pod m) all) \<in> set (ByPod all)" "m \<in> set (filter (\<lambda>x. Pod x = Pod m) all)"
      by (auto simp: ByPod_in filter_empty_conv)
    with m(2) show "\<exists>(p, ms) \<in> set (ByPod all). \<exists>m \<in> set ms. variant_of m = w" by blast
  qed (auto simp: ByPod_in)
  finally show ?thesis .
qed

lemma holds_variant_iff:
  "holds_variant (ByPod all) w p \<longleftrightarrow> (\<exists>m \<in> set all. Pod m = p \<and> variant_of m = w)"
  by (auto simp: holds_variant_def ByPod_get list_ex_iff)

subsection \<open>An example pool\<close>

text \<open>
  Three Pods: the first serves \<open>a\<close> and has \<open>b\<close> asleep, the second has \<open>a\<close> asleep,
  the third is empty. The optimizer wants \<open>b\<close> awake and \<open>c\<close> asked for one copy.
\<close>

definition exPod :: "string \<Rightarrow> namespacedName" where
  "exPod n = \<lparr>nnNamespace = ''ns'', nnName = n\<rparr>"

definition exModel :: "string \<Rightarrow> (string, string) gomap \<Rightarrow> modelRef" where
  "exModel v labels = \<lparr>mrNamespace = ''ns'', Variant = v, EngineOptions = [], mrAccelerator = [], PoolLabels = labels\<rparr>"

definition exMember :: "string \<Rightarrow> string \<Rightarrow> state \<Rightarrow> membership" where
  "exMember p v st = \<lparr>Model = exModel v [], Pod = exPod p, State = st, mTier = Ram,
     Endpoint = \<lparr>PodIP = [], Port = 0\<rparr>, LastUsed = 0, mPool = [], Capacity = zero_capacity\<rparr>"

definition exDemand :: "string \<Rightarrow> int \<Rightarrow> int \<Rightarrow> int option \<Rightarrow> variantDemand" where
  "exDemand v d r copies = \<lparr>vdModel = exModel v [(''app'', v)], Desired = d, Ready = r, Parked = False, Share = 0,
     vdWarmPool = [], WarmCopies = copies\<rparr>"

definition exInput :: input where
  "exInput = \<lparr>Memberships = [exMember ''p1'' ''a'' Serving, exMember ''p1'' ''b'' Asleep, exMember ''p2'' ''a'' Asleep,
       exMember ''p3'' [] Absent],
     Variants = [exDemand ''a'' 1 0 None, exDemand ''b'' 1 0 None, exDemand ''c'' 0 0 (Some 1)],
     BorrowedAt = [], Admitting = [], WantAwake = ''b'', MissesAt = [], Now = 100\<rparr>"

definition exConfig :: config where
  "exConfig = \<lparr>SleepMinSize = 1, MaxHold = 1000, MinHold = 0, Retained = False, AdmissionWindow = 0, MinMissesToAdmit = 0,
     PreloadTop = 0, MaxInstancesPerPod = 0, PodMemoryBytes = 0\<rparr>"

lemma plain: "go_runtime plain_runtime"
  by (rule plain.go_runtime_axioms)

subsection \<open>Properties\<close>

text \<open>
  C1. One Pod, one use. No Pod is lent twice, lent and admitted into, or admitted into twice
  by one plan; none of them has an admission in flight; and each was free (nothing awake,
  nothing loading in it), or is handed back by this plan, or holds an engine already awake for
  the very model it is lent to.
\<close>

theorem plan_uses_pods_once:
  assumes "go_runtime rt"
  shows "distinct (map acPod (Borrow (Decide rt inp cfg)) @ map acPod (Admit (Decide rt inp cfg))) \<and>
    (\<forall>a \<in> set (Borrow (Decide rt inp cfg)) \<union> set (Admit (Decide rt inp cfg)).
      \<not> mget False (Admitting inp) (acPod a) \<and>
      (Free (filter (\<lambda>m. Pod m = acPod a) (Memberships inp)) \<or>
       acPod a \<in> acPod ` set (Return (Decide rt inp cfg)) \<or>
       (\<exists>m \<in> set (Memberships inp). \<exists>b \<in> set (Borrow (Decide rt inp cfg)).
          Pod m = acPod a \<and> State m = Waking \<and> acPod b = Pod m \<and> Variant (acModel b) = variant_of m)))"
proof (intro conjI ballI)
  show "distinct (map acPod (Borrow (Decide rt inp cfg)) @ map acPod (Admit (Decide rt inp cfg)))"
    by (rule go_runtime.plan_distinct [OF assms])
next
  fix a
  assume "a \<in> set (Borrow (Decide rt inp cfg)) \<union> set (Admit (Decide rt inp cfg))"
  from go_runtime.plan_reserve [OF assms this]
  show "\<not> mget False (Admitting inp) (acPod a)"
    and "Free (filter (\<lambda>m. Pod m = acPod a) (Memberships inp)) \<or>
       acPod a \<in> acPod ` set (Return (Decide rt inp cfg)) \<or>
       (\<exists>m \<in> set (Memberships inp). \<exists>b \<in> set (Borrow (Decide rt inp cfg)).
          Pod m = acPod a \<and> State m = Waking \<and> acPod b = Pod m \<and> Variant (acModel b) = variant_of m)"
    using returned_or_reborrowed [of "acPod a" rt inp cfg] by (auto simp: reserveFree_in)
qed

theorem plan_uses_pods_once_witness:
  "distinct (map acPod (Borrow (Decide plain_runtime exInput exConfig)) @ map acPod (Admit (Decide plain_runtime exInput exConfig)))
   \<and> Borrow (Decide plain_runtime exInput exConfig) = [\<lparr>acPod = exPod ''p1'', acModel = exModel ''b'' [(''app'', ''b'')]\<rparr>]
   \<and> \<not> mget False (Admitting exInput) (exPod ''p1'')"
proof -
  have b: "Borrow (Decide plain_runtime exInput exConfig) = [\<lparr>acPod = exPod ''p1'', acModel = exModel ''b'' [(''app'', ''b'')]\<rparr>]"
    by code_simp
  show ?thesis
    using plan_uses_pods_once [OF plain, of exInput exConfig] b by simp
qed

text \<open>
  C2. A short variant is covered or reported, and the report names the right fault. For
  a variant named once, the plan lends exactly its shortfall; if it lends less, every Pod of the
  reserve that holds the model is lent, and the model is reported exactly once: blocked when
  some Pod holds it (the reserve was too small), missed when none does (the warm set was
  wrong).
\<close>

theorem borrows_cover_or_report:
  assumes "go_runtime rt" and "distinct (map name_of (Variants inp))" and "v \<in> set (Variants inp)"
    and "name_of v \<noteq> []" and "0 < shortfall (lentByVariant (Memberships inp)) v"
  shows "let n = int (length (filter (\<lambda>a. Variant (acModel a) = name_of v) (Borrow (Decide rt inp cfg))));
             reported = filter (\<lambda>m. Variant m = name_of v) in
    (n = shortfall (lentByVariant (Memberships inp)) v \<and>
       reported (Blocked (Decide rt inp cfg)) = [] \<and> reported (Missed (Decide rt inp cfg)) = []) \<or>
    (n < shortfall (lentByVariant (Memberships inp)) v \<and>
       (\<forall>p \<in> set (reserveFree rt inp cfg). \<forall>m \<in> set (Memberships inp).
          Pod m = p \<and> variant_of m = name_of v \<longrightarrow> p \<in> acPod ` set (Borrow (Decide rt inp cfg))) \<and>
       (if \<exists>m \<in> set (Memberships inp). variant_of m = name_of v
        then reported (Blocked (Decide rt inp cfg)) = [vdModel v] \<and> reported (Missed (Decide rt inp cfg)) = []
        else reported (Blocked (Decide rt inp cfg)) = [] \<and> reported (Missed (Decide rt inp cfg)) = [vdModel v]))"
proof -
  let ?lent = "lentByVariant (Memberships inp)" and ?bp = "ByPod (Memberships inp)"
  let ?st = "stepBorrows rt inp cfg"
  let ?n = "int (length (filter (\<lambda>a. Variant (acModel a) = name_of v) (bsBorrow ?st)))"
  note cov = go_runtime.borrowFold_covered [OF assms(1-3) distinct_reserve [of rt inp cfg] assms(5)
      stepBorrows_def [symmetric], unfolded Let_def]
  have held: "0 < ?n \<Longrightarrow> \<exists>m \<in> set (Memberships inp). variant_of m = name_of v"
    using go_runtime.stepBorrows_model [OF assms(1), of _ inp cfg]
    by (fastforce simp: holds_variant_iff filter_empty_conv)
  have res: "set (reserveFree rt inp cfg) = set (bsFree ?st) \<union> acPod ` set (bsBorrow ?st)"
    using mset_eq_setD [OF go_runtime.stepBorrows_pods(1) [OF assms(1), of inp cfg, symmetric, folded mset_append]] by simp
  have lent_all: "\<forall>p \<in> set (reserveFree rt inp cfg). \<forall>m \<in> set (Memberships inp).
      Pod m = p \<and> variant_of m = name_of v \<longrightarrow> p \<in> acPod ` set (bsBorrow ?st)"
    if "\<forall>p \<in> set (bsFree ?st). \<not> holds_variant ?bp (name_of v) p"
    using that unfolding res holds_variant_iff by blast
  show ?thesis
    using cov lent_all held residentCount_pos [OF assms(4), of "Memberships inp"]
    unfolding plan_simps Let_def by (cases "?n = shortfall ?lent v") (auto split: if_splits)
qed

theorem borrows_cover_or_report_witness:
  "int (length (filter (\<lambda>a. Variant (acModel a) = ''b'') (Borrow (Decide plain_runtime exInput exConfig)))) = 1 \<and>
   filter (\<lambda>m. Variant m = ''b'') (Blocked (Decide plain_runtime exInput exConfig)) = []"
proof -
  have h: "distinct (map name_of (Variants exInput))" "exDemand ''b'' 1 0 None \<in> set (Variants exInput)"
      "name_of (exDemand ''b'' 1 0 None) = ''b''" "shortfall (lentByVariant (Memberships exInput)) (exDemand ''b'' 1 0 None) = 1"
      "int (length (filter (\<lambda>a. Variant (acModel a) = ''b'') (Borrow (Decide plain_runtime exInput exConfig)))) = 1"
    by code_simp+
  show ?thesis
    using borrows_cover_or_report [OF plain h(1,2), of exConfig] h(3-5) by (simp add: Let_def)
qed

text \<open>
  C3. The reserve is accounted for exactly. Every Pod of the reserve is lent, admitted
  into, or left free; \<open>GrowBy\<close> is what the free ones lack of \<open>SleepMinSize\<close>; and a plan
  that admits anything leaves at least \<open>SleepMinSize\<close> of them free, so growth is never asked for
  to pay for an admission.
\<close>

theorem reserve_accounting:
  assumes "go_runtime rt"
  shows "let left = int (length (reserveFree rt inp cfg)) - int (length (Borrow (Decide rt inp cfg)))
                    - int (length (Admit (Decide rt inp cfg))) in
    0 \<le> left \<and> GrowBy (Decide rt inp cfg) = max 0 (SleepMinSize cfg - left) \<and>
    (Admit (Decide rt inp cfg) \<noteq> [] \<longrightarrow> SleepMinSize cfg \<le> left \<and> GrowBy (Decide rt inp cfg) = 0)"
  using go_runtime.plan_left [OF assms, of inp cfg] go_runtime.stepAdmits_floor [OF assms, of inp cfg]
  by (auto simp: Let_def plan_simps)

theorem reserve_accounting_witness:
  "Admit (Decide plain_runtime exInput exConfig) \<noteq> [] \<and> GrowBy (Decide plain_runtime exInput exConfig) = 0"
proof -
  have "Admit (Decide plain_runtime exInput exConfig) \<noteq> []" by code_simp
  with reserve_accounting [OF plain, of exInput exConfig] show ?thesis by (simp add: Let_def)
qed

text \<open>
  C5. What may be admitted. Each admission is of a variant that did not opt out with
  \<open>warmPoolCopies: 0\<close>, into a Pod that does not hold it yet and has room for one more
  instance; while any variant is blocked it goes only into a Pod that holds nothing; and the
  copies resident and admitted never exceed what the variant asks for, one when it asks for
  nothing.
\<close>

theorem admissions_respect_demand:
  assumes "go_runtime rt" and "a \<in> set (Admit (Decide rt inp cfg))"
    and "Variant (acModel a) \<noteq> []"
  shows "(\<exists>v \<in> set (Variants inp). acModel a = vdModel v \<and> WarmCopies v \<noteq> Some 0) \<and>
    (\<forall>m \<in> set (Memberships inp). Pod m = acPod a \<longrightarrow> variant_of m \<noteq> Variant (acModel a)) \<and>
    (0 < MaxInstancesPerPod cfg \<longrightarrow>
      Resident (filter (\<lambda>m. Pod m = acPod a) (Memberships inp)) < MaxInstancesPerPod cfg) \<and>
    (Blocked (Decide rt inp cfg) \<noteq> [] \<longrightarrow> Resident (filter (\<lambda>m. Pod m = acPod a) (Memberships inp)) = 0) \<and>
    (\<forall>K. (\<forall>v \<in> set (Variants inp). name_of v = Variant (acModel a) \<longrightarrow> fst (wantedCopies v) \<le> K) \<longrightarrow>
      residentCount (ByPod (Memberships inp)) (Variant (acModel a))
        + admittedSoFar (Admit (Decide rt inp cfg)) (Variant (acModel a))
      \<le> max (residentCount (ByPod (Memberships inp)) (Variant (acModel a))) K)"
proof -
  have ok: "admitOk (ByPod (Memberships inp)) cfg (Blocked (Decide rt inp cfg) \<noteq> []) (acModel a) (acPod a)"
    and c: "\<exists>v \<in> set (candidatesForAdmission inp cfg). acModel a = vdModel v"
    using go_runtime.stepAdmits_ok [OF assms(1,2)] by blast+
  have "\<exists>v \<in> set (Variants inp). acModel a = vdModel v \<and> WarmCopies v \<noteq> Some 0"
    using c candidates_in [of inp cfg] candidates_wanted [of _ inp cfg] by blast
  then show ?thesis
    using ok assms(3) admissions_copies [of inp "Variant (acModel a)" _ rt cfg]
    unfolding admitOk_def holds_variant_iff ByPod_get by blast
qed

theorem admissions_respect_demand_witness:
  "let a = \<lparr>acPod = exPod ''p3'', acModel = exModel ''c'' [(''app'', ''c'')]\<rparr> in
   Admit (Decide plain_runtime exInput exConfig) = [a] \<and>
   residentCount (ByPod (Memberships exInput)) ''c'' + admittedSoFar (Admit (Decide plain_runtime exInput exConfig)) ''c'' \<le> 1"
proof -
  let ?a = "\<lparr>acPod = exPod ''p3'', acModel = exModel ''c'' [(''app'', ''c'')]\<rparr>"
  have h: "Admit (Decide plain_runtime exInput exConfig) = [?a]" "residentCount (ByPod (Memberships exInput)) ''c'' = 0"
    by code_simp+
  have "fst (wantedCopies v) \<le> 1" if "v \<in> set (Variants exInput)" for v
    using that by (auto simp: exInput_def exDemand_def wantedCopies_def)
  then have "residentCount (ByPod (Memberships exInput)) (Variant (acModel ?a))
      + admittedSoFar (Admit (Decide plain_runtime exInput exConfig)) (Variant (acModel ?a))
    \<le> max (residentCount (ByPod (Memberships exInput)) (Variant (acModel ?a))) 1"
    using admissions_respect_demand [OF plain, of ?a exInput exConfig] h(1)
    by (simp add: exModel_def del: max_less_iff_conj)
  with h show ?thesis by (simp add: exModel_def)
qed

text \<open>
  C4. What is admitted fits. An admitted engine needs no more devices than its Pod holds,
  spans exactly as many Pods as the warm unit, and is not pinned to another accelerator; and
  when the container declares a memory limit, the engine's host memory and that of every model
  resident in the Pod stay within it (while the sum is below \<open>2^63\<close> bytes).
\<close>

theorem admitted_model_fits:
  assumes "go_runtime rt" and "a \<in> set (Admit (Decide rt inp cfg))"
  defines "inPod \<equiv> filter (\<lambda>m. Pod m = acPod a) (Memberships inp)"
    and "need \<equiv> computeShape (EngineOptions (acModel a))"
  defines "resident \<equiv> \<Sum>m \<leftarrow> inPod. max 0 (HostBytes (computeShape (EngineOptions (Model m))))"
  shows "shGPUs need \<le> max 1 (pcGPUs (capacityOf inPod)) \<and> shPods need = max 1 (PodsPerGroup (capacityOf inPod)) \<and>
    \<not> snd (AcceleratorMismatch (mrAccelerator (acModel a)) (pcAccelerator (capacityOf inPod))) \<and>
    (0 < MemoryLimitBytes (capacityOf inPod) \<and> resident + HostBytes need < 2 ^ 63 \<longrightarrow>
      resident + HostBytes need \<le> MemoryLimitBytes (capacityOf inPod))"
proof -
  have fit: "fst (doesNotFit (acModel a) inPod cfg) = None"
    using go_runtime.stepAdmits_ok [OF assms(1,2)] unfolding admitOk_def ByPod_get inPod_def by blast
  show ?thesis
    using doesNotFit_None(1-3) [OF fit] doesNotFit_memory [OF fit] by (auto simp: need_def resident_def)
qed

theorem admitted_model_fits_witness:
  "Admit (Decide plain_runtime exInput exConfig) = [\<lparr>acPod = exPod ''p3'', acModel = exModel ''c'' [(''app'', ''c'')]\<rparr>] \<and>
   shGPUs (computeShape []) \<le> 1"
proof -
  let ?a = "\<lparr>acPod = exPod ''p3'', acModel = exModel ''c'' [(''app'', ''c'')]\<rparr>"
  have h: "Admit (Decide plain_runtime exInput exConfig) = [?a]"
      "pcGPUs (capacityOf (filter (\<lambda>m. Pod m = exPod ''p3'') (Memberships exInput))) = 0"
    by code_simp+
  show ?thesis
    using admitted_model_fits [OF plain, of ?a exInput exConfig] h by (simp add: exModel_def)
qed

text \<open>
  C6. Only a spare copy is evicted, and only for a stated number. An evicted copy is of a
  variant with an explicit \<open>warmPoolCopies\<close>, sits in a Pod this plan neither lends nor admits
  into, and is not serving; and a variant named once loses exactly its spare copies beyond the
  number it asked for.
\<close>

theorem evictions_only_spare:
  assumes "go_runtime rt"
  shows "(\<forall>a \<in> set (Evict (Decide rt inp cfg)).
      \<exists>v \<in> set (Variants inp). \<exists>m \<in> set (Memberships inp). WarmCopies v \<noteq> None \<and> variant_of m = name_of v \<and>
        a = observed m \<and> Pod m \<notin> acPod ` (set (Borrow (Decide rt inp cfg)) \<union> set (Admit (Decide rt inp cfg))) \<and>
        \<not> (\<exists>m' \<in> set (Memberships inp). State m' = Serving \<and> Pod m' = Pod m \<and> variant_of m' = variant_of m)) \<and>
    (distinct (map name_of (Variants inp)) \<longrightarrow>
      (\<forall>v \<in> set (Variants inp). \<forall>want. WarmCopies v = Some want \<and> 0 \<le> want \<longrightarrow>
        length (filter (\<lambda>a. Variant (acModel a) = name_of v) (Evict (Decide rt inp cfg))) =
        nat (int (length (heldCopies (ByPod (Memberships inp)) (lentByVariant (Memberships inp))
          (claimedThisPass (Borrow (Decide rt inp cfg)) (Admit (Decide rt inp cfg))) (name_of v))) - want)))"
proof (intro conjI ballI impI allI)
  fix a
  assume "a \<in> set (Evict (Decide rt inp cfg))"
  then have "a \<in> set (evictions rt inp (ByPod (Memberships inp)) (lentByVariant (Memberships inp))
      (claimedThisPass (Borrow (Decide rt inp cfg)) (Admit (Decide rt inp cfg))))"
    by (simp only: plan_simps)
  from go_runtime.evictions_in [OF assms this]
  show "\<exists>v \<in> set (Variants inp). \<exists>m \<in> set (Memberships inp). WarmCopies v \<noteq> None \<and> variant_of m = name_of v \<and>
        a = observed m \<and> Pod m \<notin> acPod ` (set (Borrow (Decide rt inp cfg)) \<union> set (Admit (Decide rt inp cfg))) \<and>
        \<not> (\<exists>m' \<in> set (Memberships inp). State m' = Serving \<and> Pod m' = Pod m \<and> variant_of m' = variant_of m)"
    by (simp add: claimedThisPass_def image_Un)
next
  fix v want
  assume "distinct (map name_of (Variants inp))" "v \<in> set (Variants inp)" "WarmCopies v = Some want \<and> 0 \<le> want"
  then show "length (filter (\<lambda>a. Variant (acModel a) = name_of v) (Evict (Decide rt inp cfg))) =
      nat (int (length (heldCopies (ByPod (Memberships inp)) (lentByVariant (Memberships inp))
        (claimedThisPass (Borrow (Decide rt inp cfg)) (Admit (Decide rt inp cfg))) (name_of v))) - want)"
    unfolding plan_simps using go_runtime.evictions_count [OF assms] by blast
qed

text \<open>Variant \<open>a\<close> opts out while \<open>p1\<close> serves it and \<open>p2\<close> holds it asleep.\<close>

definition exOptOut :: input where
  "exOptOut = exInput\<lparr>Variants := [exDemand ''a'' 1 0 (Some 0)], WantAwake := []\<rparr>"

theorem evictions_only_spare_witness:
  "Evict (Decide plain_runtime exOptOut exConfig) = [observed (exMember ''p2'' ''a'' Asleep)] \<and>
   exPod ''p2'' \<notin> acPod ` (set (Borrow (Decide plain_runtime exOptOut exConfig)) \<union> set (Admit (Decide plain_runtime exOptOut exConfig)))"
proof -
  have h: "Evict (Decide plain_runtime exOptOut exConfig) = [observed (exMember ''p2'' ''a'' Asleep)]"
    by code_simp
  obtain m where m: "observed (exMember ''p2'' ''a'' Asleep) = observed m"
      "Pod m \<notin> acPod ` (set (Borrow (Decide plain_runtime exOptOut exConfig)) \<union> set (Admit (Decide plain_runtime exOptOut exConfig)))"
    using evictions_only_spare [OF plain, of exOptOut exConfig] h
    by (metis list.set_intros(1))
  have "Pod m = exPod ''p2''" using arg_cong [OF m(1), of acPod] by (simp add: exMember_def)
  with h m(2) show ?thesis by simp
qed

lemma variantReturns_named:
  assumes "go_runtime rt" and "a \<in> set (variantReturns rt inp cfg)"
  shows "Variant (acModel a) \<in> name_of ` set (Variants inp)"
proof -
  obtain v r where v: "v \<in> set (Variants inp)" "a = withKnownModel r (knownModels (Variants inp))"
      "r \<in> set (returnsFor rt v (mget [] (lentByVariant (Memberships inp)) (name_of v)) inp cfg)"
    using assms(2) by (auto simp: variantReturns_def Let_def)
  from go_runtime.returnsFor_sound [OF assms(1) v(3)] have "Variant (acModel r) = name_of v"
    by (auto simp: lent_get)
  with v(1,2) show ?thesis by simp
qed

lemma intentReturns_sound:
  assumes "go_runtime rt" and "a \<in> set (intentReturns rt inp (ByPod (Memberships inp)) lent ret)"
  shows "acPod a \<notin> set ret \<and> WantAwake inp \<noteq> [] \<and> isShort (Variants inp) (WantAwake inp) lent \<and>
    (\<exists>m \<in> set (Memberships inp). a = observed m \<and> State m = Serving \<and> variant_of m \<noteq> WantAwake inp)"
proof -
  have w: "WantAwake inp \<noteq> []" "isShort (Variants inp) (WantAwake inp) lent"
    and scan: "a \<in> set (intentScan (WantAwake inp) ret (rangePods rt 0 (ByPod (Memberships inp))))"
    using assms(2) by (auto simp: intentReturns_def split: if_splits)
  obtain p ms m where m: "(p, ms) \<in> set (ByPod (Memberships inp))" "p \<notin> set ret" "acPod a = p" "m \<in> set ms"
      "acModel a = Model m" "variant_of m \<noteq> WantAwake inp" "State m = Serving"
    using intentScan_sound [OF scan] unfolding go_runtime.range_set [OF assms(1)] by blast
  have "m \<in> set (Memberships inp)" "Pod m = p" using m(1,4) by (auto simp: ByPod_in)
  moreover have "a = observed m" using m(3,5) \<open>Pod m = p\<close> by (simp add: observed_def)
  ultimately show ?thesis using w m(2,3,6,7) by (intro conjI bexI [of _ m]) simp_all
qed

lemma expired_bridge_returned:
  assumes "go_runtime rt" and "v \<in> set (Variants inp)" and "m \<in> set (Memberships inp)"
    and "State m = Serving" and "variant_of m = name_of v" and "holdExpired inp cfg m"
    and "distinct (map (\<lambda>m. (Pod m, variant_of m)) (Memberships inp))"
  shows "\<exists>a \<in> set (Return (Decide rt inp cfg)). acPod a = Pod m \<and> Variant (acModel a) = variant_of m"
proof -
  let ?r = "withKnownModel (observed m) (knownModels (Variants inp))"
  have "observed m \<in> set (returnsFor rt v (mget [] (lentByVariant (Memberships inp)) (name_of v)) inp cfg)"
    using assms by (intro go_runtime.returnsFor_expired) (auto simp: lent_get)
  then have "?r \<in> set (stepReturns rt inp cfg)"
    using assms(2) by (auto simp: stepReturns_def variantReturns_def Let_def)
  from drop_kept [OF this, of "knownOrphans inp" "bsBorrow (stepBorrows rt inp cfg)"] show ?thesis
  proof
    assume "?r \<in> set (dropOrphanReturnsSupersededByBorrows (stepReturns rt inp cfg) (knownOrphans inp)
        (bsBorrow (stepBorrows rt inp cfg)))"
    then show ?thesis by (intro bexI [of _ ?r]) (simp_all add: plan_simps)
  next
    assume "\<exists>o' \<in> set (knownOrphans inp). \<exists>b \<in> set (bsBorrow (stepBorrows rt inp cfg)).
      acPod o' = acPod ?r \<and> Variant (acModel o') = Variant (acModel ?r) \<and>
      acPod b = acPod ?r \<and> Variant (acModel b) = Variant (acModel ?r)"
    then obtain m' where "m' \<in> set (Memberships inp)" "State m' = Waking" "Pod m' = Pod m" "variant_of m' = variant_of m"
      by (auto dest!: knownOrphans_in)
    then show ?thesis
      using distinct_map_eq [OF assms(7) _ assms(3), of m'] assms(4) by simp
  qed
qed

lemma undemanded_bridge_return:
  assumes "go_runtime rt" and "m \<in> set (Memberships inp)" and "State m = Serving"
    and "variant_of m \<notin> name_of ` set (Variants inp)"
    and "distinct (map (\<lambda>m. (Pod m, variant_of m)) (Memberships inp))"
    and "a \<in> set (Return (Decide rt inp cfg))" and "acPod a = Pod m" and "Variant (acModel a) = variant_of m"
  shows "WantAwake inp \<noteq> [] \<and> isShort (Variants inp) (WantAwake inp) (lentByVariant (Memberships inp))"
proof -
  have "a \<in> set (stepReturns rt inp cfg)"
    using assms(6) by (auto simp: plan_simps dropOrphanReturnsSupersededByBorrows_def Let_def split: if_splits)
  then consider "a \<in> set (variantReturns rt inp cfg)" | "a \<in> set (knownOrphans inp)"
    | "a \<in> set (intentReturns rt inp (ByPod (Memberships inp)) (lentByVariant (Memberships inp))
        (map acPod (variantReturns rt inp cfg @ knownOrphans inp)))"
    by (auto simp: stepReturns_def Let_def)
  then show ?thesis
  proof cases
    case 1
    then show ?thesis using variantReturns_named [OF assms(1) 1] assms(4,8) by simp
  next
    case 2
    then obtain m' where m': "m' \<in> set (Memberships inp)" "State m' = Waking" "Pod m' = Pod m" "variant_of m' = variant_of m"
      using knownOrphans_in [OF 2] assms(7,8) by auto
    then show ?thesis using distinct_map_eq [OF assms(5) m'(1) assms(2)] assms(3) by simp
  next
    case 3
    then show ?thesis using intentReturns_sound [OF assms(1) 3] by blast
  qed
qed

text \<open>
  C7. What the hold timeout does, and to whom. In a pool that is not retained, take a bridge
  lent for at least \<open>MaxHold\<close> (each model being resident at most once in a Pod). If its variant
  has a demand entry, the bridge is in the plan's returns, even when the same plan lends the Pod
  again. If the variant has left demand, the timeout does not reach it: the plan returns it only
  when the optimizer names another variant, one that is short, to be awake in its stead; with no
  such intent it stays lent, however long it has been held.
\<close>

theorem hold_timeout_returns:
  assumes "go_runtime rt" and "m \<in> set (Memberships inp)" and "State m = Serving" and "\<not> Retained cfg"
    and "MaxHold cfg \<le> time_sub (Now inp) (borrowedAt inp m)"
    and "distinct (map (\<lambda>m. (Pod m, variant_of m)) (Memberships inp))"
  defines "returned \<equiv> \<exists>a \<in> set (Return (Decide rt inp cfg)). acPod a = Pod m \<and> Variant (acModel a) = variant_of m"
  shows "if variant_of m \<in> name_of ` set (Variants inp) then returned
    else returned \<longrightarrow> WantAwake inp \<noteq> [] \<and> isShort (Variants inp) (WantAwake inp) (lentByVariant (Memberships inp))"
proof (cases "variant_of m \<in> name_of ` set (Variants inp)")
  case True
  then obtain v where v: "v \<in> set (Variants inp)" "variant_of m = name_of v" by blast
  have "holdExpired inp cfg m" using assms(4,5) by (simp add: holdExpired_def heldFor_def)
  with expired_bridge_returned [OF assms(1) v(1) assms(2,3) v(2) _ assms(6)] True show ?thesis
    by (simp add: returned_def)
next
  case False
  then show ?thesis
    using undemanded_bridge_return [OF assms(1-3) False assms(6)] unfolding returned_def by auto
qed

text \<open>The bridge of \<open>a\<close> in \<open>p1\<close> began at time 0 and is looked at when the timeout has passed.\<close>

definition exLate :: input where
  "exLate = exInput\<lparr>WantAwake := [], Now := 5000, BorrowedAt := [(\<lparr>brPod = exPod ''p1'', brVariant = ''a''\<rparr>, 0)]\<rparr>"

text \<open>The same bridge when \<open>a\<close> has left demand.\<close>

definition exLeft :: input where
  "exLeft = exLate\<lparr>Variants := [exDemand ''b'' 1 0 None]\<rparr>"

theorem hold_timeout_returns_witness:
  "(\<exists>a \<in> set (Return (Decide plain_runtime exLate exConfig)). acPod a = exPod ''p1'' \<and> Variant (acModel a) = ''a'') \<and>
   \<not> (\<exists>a \<in> set (Return (Decide plain_runtime exLeft exConfig)). acPod a = exPod ''p1'' \<and> Variant (acModel a) = ''a'')"
proof -
  have h: "variant_of (exMember ''p1'' ''a'' Serving) \<in> name_of ` set (Variants exLate)"
      "exMember ''p1'' ''a'' Serving \<in> set (Memberships exLate)"
      "\<not> Retained exConfig" "MaxHold exConfig \<le> time_sub (Now exLate) (borrowedAt exLate (exMember ''p1'' ''a'' Serving))"
      "distinct (map (\<lambda>m. (Pod m, variant_of m)) (Memberships exLate))"
    by code_simp+
  have g: "variant_of (exMember ''p1'' ''a'' Serving) \<notin> name_of ` set (Variants exLeft)"
      "exMember ''p1'' ''a'' Serving \<in> set (Memberships exLeft)"
      "MaxHold exConfig \<le> time_sub (Now exLeft) (borrowedAt exLeft (exMember ''p1'' ''a'' Serving))"
      "distinct (map (\<lambda>m. (Pod m, variant_of m)) (Memberships exLeft))" "WantAwake exLeft = []"
    by code_simp+
  have v: "State (exMember ''p1'' ''a'' Serving) = Serving" "Pod (exMember ''p1'' ''a'' Serving) = exPod ''p1''"
      "variant_of (exMember ''p1'' ''a'' Serving) = ''a''"
    by (simp_all add: exMember_def exModel_def)
  show ?thesis
    using hold_timeout_returns [OF plain h(2) v(1) h(3-5)] h(1)
      hold_timeout_returns [OF plain g(2) v(1) h(3) g(3,4)] g(1,5) v by simp
qed

text \<open>
  The hold floor is honoured. A bridge lent for less than \<open>MinHold\<close> (and not past the
  timeout) is not handed back while no other variant is short, however many ordinary replicas
  report Ready.
\<close>

lemma hold_floor_keeps:
  assumes "go_runtime rt" and "m \<in> set (Memberships inp)" and "State m = Serving"
    and "0 < MinHold cfg" and "time_sub (Now inp) (borrowedAt inp m) < MinHold cfg"
    and "Retained cfg \<or> time_sub (Now inp) (borrowedAt inp m) < MaxHold cfg"
    and "\<forall>v \<in> set (Variants inp). name_of v \<noteq> variant_of m \<longrightarrow> Desired v \<le> Ready v"
    and "distinct (map (\<lambda>m. (Pod m, variant_of m)) (Memberships inp))"
  shows "\<not> (\<exists>a \<in> set (Return (Decide rt inp cfg)). acPod a = Pod m \<and> Variant (acModel a) = variant_of m)"
proof
  assume "\<exists>a \<in> set (Return (Decide rt inp cfg)). acPod a = Pod m \<and> Variant (acModel a) = variant_of m"
  then obtain a where a: "a \<in> set (stepReturns rt inp cfg)" "acPod a = Pod m" "Variant (acModel a) = variant_of m"
    by (auto simp: plan_simps dropOrphanReturnsSupersededByBorrows_def Let_def split: if_splits)
  have same: "m' = m" if "m' \<in> set (Memberships inp)" "Pod m' = Pod m" "variant_of m' = variant_of m" for m'
    using distinct_map_eq [OF assms(8) that(1) assms(2)] that(2,3) by simp
  have young: "tooYoung inp cfg (variant_of m) m" "\<not> holdExpired inp cfg m"
    using assms(4-7) by (auto simp: tooYoung_def holdExpired_def heldFor_def anotherShort_iff not_less)
  consider (variant) "a \<in> set (variantReturns rt inp cfg)" | (orphan) "a \<in> set (knownOrphans inp)"
    | (intent) "a \<in> set (intentScan (WantAwake inp) (map acPod (variantReturns rt inp cfg @ knownOrphans inp))
          (rangePods rt 0 (ByPod (Memberships inp))))"
        "isShort (Variants inp) (WantAwake inp) (lentByVariant (Memberships inp))"
    using a(1) by (auto simp: stepReturns_def intentReturns_def Let_def split: if_splits)
  then show False
  proof cases
    case variant
    then obtain v r where v: "v \<in> set (Variants inp)"
        "r \<in> set (returnsFor rt v (mget [] (lentByVariant (Memberships inp)) (name_of v)) inp cfg)"
        "a = withKnownModel r (knownModels (Variants inp))"
      by (auto simp: variantReturns_def Let_def)
    from go_runtime.returnsFor_sound [OF assms(1) v(2)] obtain m' where m': "m' \<in> set (Memberships inp)"
        "variant_of m' = name_of v" "r = observed m'" "holdExpired inp cfg m' \<or> \<not> tooYoung inp cfg (name_of v) m'"
      unfolding lent_get by auto
    have "m' = m" using same [OF m'(1)] a(2,3) v(3) m'(3) by simp
    with m'(2,4) young show False by auto
  next
    case orphan
    then show False using knownOrphans_in [OF orphan] a(2,3) same assms(3) by force
  next
    case intent
    then obtain v where v: "v \<in> set (Variants inp)" "name_of v = WantAwake inp" "Ready v < Desired v"
      using isShort_Some [OF intent(2)] by (force simp: shortfall_def)
    from intentScan_sound [OF intent(1)] obtain m' where "acModel a = Model m'" "variant_of m' \<noteq> WantAwake inp"
      by blast
    then have "name_of v \<noteq> variant_of m" using a(3) v(2) by auto
    then show False using assms(7) v(1,3) by force
  qed
qed

text \<open>Variant \<open>a\<close> no longer needs its bridge, which is 100 old under a floor of 500.\<close>

definition exYoung :: input where
  "exYoung = exInput\<lparr>WantAwake := [], Variants := [exDemand ''a'' 1 1 None],
     BorrowedAt := [(\<lparr>brPod = exPod ''p1'', brVariant = ''a''\<rparr>, 0)]\<rparr>"

lemma hold_floor_keeps_example:
  "\<not> (\<exists>a \<in> set (Return (Decide plain_runtime exYoung (exConfig\<lparr>MinHold := 500\<rparr>))).
       acPod a = exPod ''p1'' \<and> Variant (acModel a) = ''a'')"
proof -
  let ?m = "exMember ''p1'' ''a'' Serving"
  have h: "?m \<in> set (Memberships exYoung)"
      "time_sub (Now exYoung) (borrowedAt exYoung ?m) < MinHold (exConfig\<lparr>MinHold := 500\<rparr>)"
      "time_sub (Now exYoung) (borrowedAt exYoung ?m) < MaxHold (exConfig\<lparr>MinHold := 500\<rparr>)"
      "distinct (map (\<lambda>m. (Pod m, variant_of m)) (Memberships exYoung))"
    by code_simp+
  have v: "State ?m = Serving" "Pod ?m = exPod ''p1''" "variant_of ?m = ''a''"
    by (simp_all add: exMember_def exModel_def)
  show ?thesis
    using hold_floor_keeps [OF plain h(1) v(1), of "exConfig\<lparr>MinHold := 500\<rparr>"] h(2-4) v
    by (simp add: exYoung_def exDemand_def exModel_def)
qed

text \<open>
  No engine stays awake unused. Every engine seen \<open>Waking\<close> (awake, serving nothing)
  is handed back by the plan or lent, in its Pod, to its own variant.
\<close>

lemma orphans_returned_or_lent:
  assumes "m \<in> set (Memberships inp)" and "State m = Waking"
  shows "\<exists>a \<in> set (Return (Decide rt inp cfg)) \<union> set (Borrow (Decide rt inp cfg)).
    acPod a = Pod m \<and> Variant (acModel a) = variant_of m"
proof -
  let ?o = "withKnownModel (observed m) (knownModels (Variants inp))"
  have "observed m \<in> set (orphanReturns (Memberships inp))" using assms by (auto simp: orphans_in)
  then have "?o \<in> set (stepReturns rt inp cfg)" by (auto simp: stepReturns_def knownOrphans_def Let_def)
  from drop_kept [OF this, of "knownOrphans inp" "bsBorrow (stepBorrows rt inp cfg)"]
  consider "?o \<in> set (Return (Decide rt inp cfg))"
    | b where "b \<in> set (Borrow (Decide rt inp cfg))" "acPod b = Pod m" "Variant (acModel b) = variant_of m"
    by (auto simp: plan_simps)
  then show ?thesis
  proof cases
    case 1
    then show ?thesis by (intro bexI [of _ ?o]) simp_all
  next
    case 2
    then show ?thesis by blast
  qed
qed

lemma orphans_returned_or_lent_example:
  "\<exists>a \<in> set (Return (Decide plain_runtime (exInput\<lparr>Memberships := [exMember ''p1'' ''z'' Waking]\<rparr>) exConfig))
      \<union> set (Borrow (Decide plain_runtime (exInput\<lparr>Memberships := [exMember ''p1'' ''z'' Waking]\<rparr>) exConfig)).
    acPod a = exPod ''p1'' \<and> Variant (acModel a) = ''z''"
  using orphans_returned_or_lent [of "exMember ''p1'' ''z'' Waking" "exInput\<lparr>Memberships := [exMember ''p1'' ''z'' Waking]\<rparr>"
      plain_runtime exConfig]
  by (simp add: exMember_def exModel_def)

text \<open>
  A switch does not empty the pool. When the optimizer's intent makes the plan sleep
  what is awake beside the chosen model, the plan either wakes the chosen model in some Pod or
  lends the freed Pod itself; the Pod is not left with nothing awake in it while the chosen
  model stays asleep.
\<close>

lemma intent_completes_switch:
  assumes "go_runtime rt" and "distinct (map name_of (Variants inp))"
    and "a \<in> set (intentReturns rt inp (ByPod (Memberships inp)) (lentByVariant (Memberships inp))
           (map acPod (variantReturns rt inp cfg @ knownOrphans inp)))"
    and "\<not> mget False (Admitting inp) (acPod a)"
  shows "acPod a \<in> acPod ` set (Borrow (Decide rt inp cfg)) \<or>
    (\<exists>b \<in> set (Borrow (Decide rt inp cfg)). Variant (acModel b) = WantAwake inp)"
proof -
  let ?bp = "ByPod (Memberships inp)" and ?lent = "lentByVariant (Memberships inp)" and ?w = "WantAwake inp"
  let ?st = "stepBorrows rt inp cfg"
  have short: "isShort (Variants inp) ?w ?lent"
    and scan: "a \<in> set (intentScan ?w (map acPod (variantReturns rt inp cfg @ knownOrphans inp)) (rangePods rt 0 ?bp))"
    using assms(3) by (auto simp: intentReturns_def split: if_splits)
  obtain v where v: "v \<in> set (Variants inp)" "name_of v = ?w" "0 < shortfall ?lent v"
    using isShort_Some [OF short] by blast
  have holds: "holds_variant ?bp ?w (acPod a)" and pod: "acPod a \<in> Pod ` set (Memberships inp)"
    using intentScan_sound [OF scan] unfolding go_runtime.range_set [OF assms(1)] holds_variant_iff
    by (auto simp: ByPod_in intro: rev_image_eqI)
  have "a \<in> set (stepReturns rt inp cfg)" using assms(3) by (simp add: stepReturns_def Let_def)
  then have "acPod a \<in> set (reserveFree rt inp cfg)" using pod assms(4) by (auto simp: reserveFree_in)
  moreover have "set (reserveFree rt inp cfg) = set (bsFree ?st) \<union> acPod ` set (bsBorrow ?st)"
    using mset_eq_setD [OF go_runtime.stepBorrows_pods(1) [OF assms(1), of inp cfg, symmetric, folded mset_append]] by simp
  moreover note go_runtime.borrowFold_covered [OF assms(1,2) v(1) distinct_reserve [of rt inp cfg] v(3)
      stepBorrows_def [symmetric], unfolded Let_def v(2)]
  moreover have "\<exists>b \<in> set (bsBorrow ?st). Variant (acModel b) = ?w"
    if "int (length (filter (\<lambda>a. Variant (acModel a) = ?w) (bsBorrow ?st))) = shortfall ?lent v"
  proof -
    have "filter (\<lambda>a. Variant (acModel a) = ?w) (bsBorrow ?st) \<noteq> []" using that v(3) by auto
    then show ?thesis by (simp add: filter_empty_conv)
  qed
  ultimately show ?thesis using holds unfolding plan_simps by (auto split: if_splits)
qed

lemma intent_completes_switch_example:
  "exPod ''p1'' \<in> acPod ` set (Borrow (Decide plain_runtime exInput exConfig)) \<or>
   (\<exists>b \<in> set (Borrow (Decide plain_runtime exInput exConfig)). Variant (acModel b) = ''b'')"
proof -
  have h: "distinct (map name_of (Variants exInput))"
      "observed (exMember ''p1'' ''a'' Serving) \<in> set (intentReturns plain_runtime exInput (ByPod (Memberships exInput))
         (lentByVariant (Memberships exInput)) (map acPod (variantReturns plain_runtime exInput exConfig @ knownOrphans exInput)))"
      "\<not> mget False (Admitting exInput) (acPod (observed (exMember ''p1'' ''a'' Serving)))"
    by code_simp+
  show ?thesis
    using intent_completes_switch [OF plain h] by (simp add: exMember_def exInput_def)
qed

text \<open>
  A return made for a variant or an orphan carries the labels its borrow added: when
  demand knows the variant with a non-empty \<open>PoolLabels\<close>, the action's model is demand's, the
  one whose labels \<open>Deactivate\<close> removes.
\<close>

lemma returns_carry_labels:
  assumes "distinct (map name_of (Variants inp))" and "v \<in> set (Variants inp)" and "PoolLabels (vdModel v) \<noteq> []"
    and "a \<in> set (variantReturns rt inp cfg @ knownOrphans inp)" and "Variant (acModel a) = name_of v"
  shows "acModel a = vdModel v"
proof -
  obtain r where r: "a = withKnownModel r (knownModels (Variants inp))"
    using assms(4) by (auto simp: variantReturns_def knownOrphans_def Let_def)
  have "map_of (knownModels (Variants inp)) (name_of v) = Some (vdModel v)"
    using knownModels_of [OF assms(1,2)] .
  moreover have "Variant (acModel r) = name_of v" using assms(5) by (simp add: r)
  ultimately show ?thesis using assms(3) by (simp add: r withKnownModel_def)
qed

lemma returns_carry_labels_example:
  "variantReturns plain_runtime exLate exConfig = [\<lparr>acPod = exPod ''p1'', acModel = exModel ''a'' [(''app'', ''a'')]\<rparr>] \<and>
   exModel ''a'' [(''app'', ''a'')] = vdModel (exDemand ''a'' 1 0 None)"
proof -
  have h: "variantReturns plain_runtime exLate exConfig = [\<lparr>acPod = exPod ''p1'', acModel = exModel ''a'' [(''app'', ''a'')]\<rparr>]"
      "distinct (map name_of (Variants exLate))" "exDemand ''a'' 1 0 None \<in> set (Variants exLate)"
      "PoolLabels (vdModel (exDemand ''a'' 1 0 None)) \<noteq> []"
    by code_simp+
  show ?thesis
    using returns_carry_labels [OF h(2-4), of "\<lparr>acPod = exPod ''p1'', acModel = exModel ''a'' [(''app'', ''a'')]\<rparr>"
        plain_runtime exConfig] h(1)
    by (simp add: exDemand_def exModel_def)
qed

text \<open>
  C8. Which labels a return carries. Demand knows the labels of a variant's InferencePool, an
  observation does not (every membership's \<open>PoolLabels\<close> are empty), and \<open>Deactivate\<close> removes
  the labels of the action's model. A return of the plan for a demanded variant carries demand's
  labels exactly when a variant's return or an orphan's concerns its Pod; otherwise, a return made
  for the optimizer's intent, it carries none, so the labels the Pod wears outlive the return.
\<close>

theorem return_labels_by_rule:
  assumes "go_runtime rt" and "distinct (map name_of (Variants inp))" and "v \<in> set (Variants inp)"
    and "PoolLabels (vdModel v) \<noteq> []" and "\<forall>m \<in> set (Memberships inp). PoolLabels (Model m) = []"
    and "a \<in> set (Return (Decide rt inp cfg))" and "Variant (acModel a) = name_of v"
  shows "PoolLabels (acModel a) =
    (if acPod a \<in> acPod ` set (variantReturns rt inp cfg @ knownOrphans inp) then PoolLabels (vdModel v) else [])"
proof -
  have "a \<in> set (stepReturns rt inp cfg)"
    using assms(6) by (auto simp: plan_simps dropOrphanReturnsSupersededByBorrows_def Let_def split: if_splits)
  then consider "a \<in> set (variantReturns rt inp cfg @ knownOrphans inp)"
    | "a \<in> set (intentReturns rt inp (ByPod (Memberships inp)) (lentByVariant (Memberships inp))
        (map acPod (variantReturns rt inp cfg @ knownOrphans inp)))"
    unfolding stepReturns_def Let_def set_append by blast
  then show ?thesis
  proof cases
    case 1
    then show ?thesis using returns_carry_labels [OF assms(2-4) 1 assms(7)] by (metis imageI)
  next
    case 2
    then show ?thesis using intentReturns_sound [OF assms(1) 2] assms(5) by auto
  qed
qed

text \<open>
  In the example the optimizer wants \<open>b\<close> awake: the Pod that served \<open>a\<close> is returned without
  \<open>a\<close>'s labels and lent again in the same plan.
\<close>

theorem return_labels_by_rule_witness:
  "\<exists>a \<in> set (Return (Decide plain_runtime exInput exConfig)).
     Variant (acModel a) = ''a'' \<and> PoolLabels (vdModel (exDemand ''a'' 1 0 None)) \<noteq> [] \<and> PoolLabels (acModel a) = [] \<and>
     acPod a \<in> acPod ` set (Borrow (Decide plain_runtime exInput exConfig))"
proof -
  let ?a = "\<lparr>acPod = exPod ''p1'', acModel = exModel ''a'' []\<rparr>"
  have h: "distinct (map name_of (Variants exInput))" "exDemand ''a'' 1 0 None \<in> set (Variants exInput)"
      "PoolLabels (vdModel (exDemand ''a'' 1 0 None)) \<noteq> []"
      "\<forall>m \<in> set (Memberships exInput). PoolLabels (Model m) = []"
      "?a \<in> set (Return (Decide plain_runtime exInput exConfig))"
      "Variant (acModel ?a) = name_of (exDemand ''a'' 1 0 None)" "Variant (acModel ?a) = ''a''"
      "acPod ?a \<notin> acPod ` set (variantReturns plain_runtime exInput exConfig @ knownOrphans exInput)"
      "acPod ?a \<in> acPod ` set (Borrow (Decide plain_runtime exInput exConfig))"
    by code_simp+
  have "PoolLabels (acModel ?a) = []"
    using return_labels_by_rule [OF plain h(1-6)] h(8) by (simp only: if_False)
  with h(3,5,7,9) show ?thesis by (intro bexI [of _ ?a] conjI)
qed

end
