(* ===== verification/Accelerator.thy ===== *)
theory Accelerator
  imports Prelude "HOL-Library.Extended_Nat"
begin

text \<open>
  The accelerator-name tree and the allowlists keyed by it: \<open>internal/accelerator\<close>
  (\<open>accelerator.go\<close>, \<open>identity.go\<close>, \<open>family.go\<close>, \<open>allowlist.go\<close>) and
  \<open>constants.IsAcceleratorResolved\<close>.

  A budget keyed by a family name (\<open>H100\<close>) bounds the sum over its products; a product name
  (\<open>NVIDIA-H100-80GB-HBM3\<close>) bounds itself. \<open>FindKey\<close> and \<open>FindBudgetKey\<close> decide
  which key of a map a declared name is charged to, \<open>AllowlistBound\<close> and its cluster
  versions what a set of allowlists leaves for a name. The map argument is an association list in
  any order; the results are shown not to depend on it.
\<close>

named_theorems accel_simps \<open>the family and product predicates, by hyphens and folding\<close>

subsection \<open>Names\<close>

definition DefaultAcceleratorName :: string where
  "DefaultAcceleratorName = ''unknown''"

definition UnresolvedAcceleratorType :: string where
  "UnresolvedAcceleratorType = ''unresolved''"

definition IsAcceleratorResolved :: "string \<Rightarrow> bool" where
  "IsAcceleratorResolved name =
     (name \<noteq> [] \<and> name \<noteq> DefaultAcceleratorName \<and> name \<noteq> UnresolvedAcceleratorType)"

definition NormalizeAcceleratorName :: "string \<Rightarrow> string" where
  "NormalizeAcceleratorName fullName =
     (if CHR ''-'' \<notin> set fullName then fullName
      else let parts = split_on (CHR ''-'') fullName in
        if length parts < 2 then fullName
        else let vendor = to_upper (parts ! 0) in
          if vendor = ''NVIDIA'' \<and> 3 \<le> length parts \<and> equal_fold (parts ! 1) ''tesla''
            then parts ! 2
          else if vendor = ''NVIDIA'' \<and> 2 \<le> length parts then parts ! 1
          else if vendor = ''AMD'' \<and> 2 \<le> length parts then parts ! 1
          else if vendor = ''INTEL'' \<and> 3 \<le> length parts
            then parts ! 1 @ ''-'' @ parts ! 2
          else if vendor = ''INTEL'' \<and> 2 \<le> length parts then parts ! 1
          else parts ! 1)"

definition IsFamily :: "string \<Rightarrow> bool" where
  "IsFamily name = (NormalizeAcceleratorName name = name)"

definition Family :: "string \<Rightarrow> string" where
  "Family name = NormalizeAcceleratorName name"

definition IsProductOf :: "string \<Rightarrow> string \<Rightarrow> bool" where
  "IsProductOf product family =
     (IsFamily family \<and> \<not> IsFamily product \<and> equal_fold (Family product) family)"

definition Covers :: "string \<Rightarrow> string \<Rightarrow> bool" where
  "Covers key name = (equal_fold key name \<or> IsProductOf name key)"

definition SameName :: "string \<Rightarrow> string \<Rightarrow> bool" where
  "SameName a b =
     (if a = b \<or> equal_fold a b then True
      else if NormalizeAcceleratorName a \<noteq> a \<and> equal_fold (NormalizeAcceleratorName a) b then True
      else if NormalizeAcceleratorName b \<noteq> b \<and> equal_fold (NormalizeAcceleratorName b) a then True
      else False)"

subsection \<open>Finding the key a name is charged to\<close>

text \<open>The pair \<open>(key, ok)\<close> of the source is an option.\<close>

definition FindKey :: "(string, 'v) gomap \<Rightarrow> string \<Rightarrow> string option" where
  "FindKey known name =
     (if name \<in> set (mkeys known) then Some name
      else let normalized = NormalizeAcceleratorName name in
        if normalized \<noteq> name \<and> normalized \<in> set (mkeys known) then Some normalized
        else slices_Min (filter (\<lambda>key. SameName key name) (mkeys known)))"

definition oneSpelling :: "string list \<Rightarrow> bool" where
  "oneSpelling names = list_all (\<lambda>n. equal_fold n (hd names)) (tl names)"

text \<open>The four classes the loop of \<open>FindBudgetKey\<close> sorts the keys into, in the order of its switch.\<close>

datatype key_class = CaseEqual | Product | FamilyOf | Sibling | Unrelated

definition keyClass :: "string \<Rightarrow> string \<Rightarrow> key_class" where
  "keyClass name key =
     (if equal_fold key name then CaseEqual
      else if IsProductOf key name then Product
      else if IsProductOf name key then FamilyOf
      else if \<not> IsFamily name \<and> \<not> IsFamily key \<and> equal_fold (Family key) (Family name) then Sibling
      else Unrelated)"

definition FindBudgetKey :: "(string, 'v) gomap \<Rightarrow> string \<Rightarrow> string option" where
  "FindBudgetKey known name =
     (if name \<in> set (mkeys known) then Some name
      else let caseEqual = filter (\<lambda>k. keyClass name k = CaseEqual) (mkeys known);
               products = filter (\<lambda>k. keyClass name k = Product) (mkeys known);
               families = filter (\<lambda>k. keyClass name k = FamilyOf) (mkeys known);
               sibling = list_ex (\<lambda>k. keyClass name k = Sibling) (mkeys known)
           in if caseEqual \<noteq> [] then slices_Min caseEqual
              else if products \<noteq> [] \<and> oneSpelling products then slices_Min products
              else if products \<noteq> [] then None
              else if families \<noteq> [] \<and> \<not> sibling then slices_Min families
              else None)"

subsection \<open>Allowlist bounds\<close>

record bound =
  bFree :: int
  bUnlimited :: bool

definition tighter :: "int \<times> bool \<Rightarrow> int \<times> bool \<Rightarrow> int \<times> bool" where
  "tighter a b =
     (if snd a then b
      else if snd b then (fst a, False)
      else (min (fst a) (fst b), False))"

definition tightest :: "bound list \<Rightarrow> int \<times> bool" where
  "tightest bounds =
     foldl (\<lambda>acc b. if bUnlimited b then acc else tighter acc (bFree b, False)) (0, True) bounds"

text \<open>The bounds of the keys of an allowlist that satisfy \<open>P\<close>, as its loop collects them.\<close>

definition bounds_at :: "('v \<Rightarrow> bound) \<Rightarrow> (string, 'v) gomap \<Rightarrow> (string \<Rightarrow> bool) \<Rightarrow> bound list" where
  "bounds_at bd a P = map (\<lambda>(key, v). bd v) (filter (\<lambda>(key, v). P key) a)"

text \<open>
  \<open>AllowlistBound\<close>: \<open>bd\<close> is the source's reader \<open>bound\<close> of one value of the
  allowlist. The result is \<open>(free, unlimited, listed)\<close>.
\<close>

definition AllowlistBound :: "('v \<Rightarrow> bound) \<Rightarrow> (string, 'v) gomap \<Rightarrow> string \<Rightarrow> int \<times> bool \<times> bool" where
  "AllowlistBound bd allowlist name =
     (let own = bounds_at bd allowlist (\<lambda>key. equal_fold key name);
          products = bounds_at bd allowlist (\<lambda>key. \<not> equal_fold key name \<and> IsProductOf key name);
          family = bounds_at bd allowlist
            (\<lambda>key. \<not> equal_fold key name \<and> \<not> IsProductOf key name \<and> IsProductOf name key)
      in if own \<noteq> [] then
           (let (free, unlimited) =
                  (if family \<noteq> [] then tighter (tightest own) (tightest family) else tightest own)
            in (free, unlimited, True))
         else if products \<noteq> [] then
           (if list_ex bUnlimited products then (0, True, True)
            else (sum_list (map bFree products), False, True))
         else if family \<noteq> [] then
           (let (free, unlimited) = tightest family in (free, unlimited, True))
         else (0, False, False))"

definition ClusterAllowlistBound ::
    "('v \<Rightarrow> bound) \<Rightarrow> (string, 'v) gomap \<Rightarrow> string \<Rightarrow> int \<times> bool \<times> bool" where
  "ClusterAllowlistBound bd allowlist name =
     (let (free, unlimited, listed) = AllowlistBound bd allowlist name in
      if \<not> listed \<and> name = DefaultAcceleratorName then (0, False, False)
      else if \<not> listed then (0, False, True)
      else (free, unlimited, True))"

definition ClosesFamily :: "(string, 'v) gomap list \<Rightarrow> string \<Rightarrow> bool" where
  "ClosesFamily allowlists name =
     (if \<not> IsFamily name \<or> \<not> IsAcceleratorResolved name then False
      else list_ex (\<lambda>a. \<not> list_ex (\<lambda>key. equal_fold key name) (mkeys a)) allowlists)"

definition ListsProduct :: "(string, 'v) gomap list \<Rightarrow> string \<Rightarrow> bool" where
  "ListsProduct allowlists name =
     list_ex (\<lambda>a. list_ex (\<lambda>key. IsProductOf key name) (mkeys a)) allowlists"

text \<open>The closure \<open>tightestOf\<close> of \<open>ClusterAllowlistsBound\<close>.\<close>

definition tightestOf ::
    "('v \<Rightarrow> bound) \<Rightarrow> (string, 'v) gomap list \<Rightarrow> string \<Rightarrow> int \<times> bool \<times> bool" where
  "tightestOf bd allowlists name =
     (let (free, unlimited, bounds) =
        foldl (\<lambda>(free, unlimited, bounds) a.
                 let (f, u, b) = ClusterAllowlistBound bd a name in
                 if \<not> b then (free, unlimited, bounds)
                 else (let (free', unlimited') = tighter (free, unlimited) (f, u)
                       in (free', unlimited', True)))
              (0, True, False) allowlists
      in (free, unlimited \<and> bounds, bounds))"

text \<open>Every product of \<open>name\<close> some allowlist lists, one spelling of each.\<close>

definition familyProducts :: "(string, 'v) gomap list \<Rightarrow> string \<Rightarrow> string list" where
  "familyProducts allowlists name =
     foldl (\<lambda>ps key. if IsProductOf key name \<and> \<not> list_ex (\<lambda>p. equal_fold p key) ps
                      then ps @ [key] else ps)
       [] (concat (map mkeys allowlists))"

text \<open>The sum over the products, stopping at one that is unlimited.\<close>

fun productSum :: "(string \<Rightarrow> int \<times> bool \<times> bool) \<Rightarrow> string list \<Rightarrow> int \<Rightarrow> int \<times> bool" where
  "productSum tof [] s = (s, False)"
| "productSum tof (p # ps) s =
     (let (f, u, _) = tof p in if u then (s, True) else productSum tof ps (s + f))"

definition ClusterAllowlistsBound ::
    "('v \<Rightarrow> bound) \<Rightarrow> (string, 'v) gomap list \<Rightarrow> string \<Rightarrow> int \<times> bool \<times> bool" where
  "ClusterAllowlistsBound bd allowlists name =
     (let (free, unlimited, bounds) = tightestOf bd allowlists name in
      if \<not> bounds \<or> \<not> ClosesFamily allowlists name then (free, unlimited, bounds)
      else let (s, sumUnlimited) =
                 productSum (tightestOf bd allowlists) (familyProducts allowlists name) 0;
               (free', unlimited') = tighter (free, unlimited) (s, sumUnlimited)
           in (free', unlimited', True))"

subsection \<open>A name is a family exactly when it has no hyphen\<close>

lemma split_hyphen_parts:
  assumes "CHR ''-'' \<in> set s"
  shows "2 \<le> length (split_on (CHR ''-'') s)"
proof -
  have "count_list s (CHR ''-'') \<noteq> 0"
    using assms by (simp add: count_list_0_iff)
  then show ?thesis by (simp add: length_split_on)
qed

lemma split_part_lengths:
  assumes "parts = split_on c s"
  shows "2 \<le> length parts \<Longrightarrow> length (parts ! 1) < length s"
    and "3 \<le> length parts \<Longrightarrow> length (parts ! 1) + length (parts ! 2) + 1 < length s"
proof -
  have total: "sum_list (map length parts) + length parts = Suc (length s)"
    using assms split_on_lengths by simp
  show "length (parts ! 1) < length s" if len: "2 \<le> length parts"
  proof -
    obtain a b r where "parts = a # b # r"
      using length_ge_2 [OF len] by blast
    with total show ?thesis by auto
  qed
  show "length (parts ! 1) + length (parts ! 2) + 1 < length s" if len: "3 \<le> length parts"
  proof -
    obtain a b d r where "parts = a # b # d # r"
      using length_ge_3 [OF len] by blast
    with total show ?thesis by auto
  qed
qed

lemma Normalize_short: "CHR ''-'' \<notin> set name \<Longrightarrow> NormalizeAcceleratorName name = name"
  by (simp add: NormalizeAcceleratorName_def)

lemma Normalize_shortens:
  assumes "CHR ''-'' \<in> set name"
  shows "length (NormalizeAcceleratorName name) < length name"
proof -
  define parts where "parts = split_on (CHR ''-'') name"
  have two: "2 \<le> length parts"
    using split_hyphen_parts [OF assms] by (simp add: parts_def)
  have "3 \<le> length parts \<Longrightarrow> length (parts ! 2) < length name"
    using split_part_lengths(2) [OF parts_def] by linarith
  with two split_part_lengths [OF parts_def] show ?thesis
    by (auto simp: NormalizeAcceleratorName_def Let_def assms simp flip: parts_def)
qed

lemma IsFamily_iff [accel_simps]: "IsFamily name \<longleftrightarrow> CHR ''-'' \<notin> set name"
  using Normalize_shortens [of name] Normalize_short [of name] by (auto simp: IsFamily_def)

lemma IsFamily_fold: "equal_fold a b \<Longrightarrow> IsFamily a = IsFamily b"
  by (simp add: IsFamily_iff equal_fold_hyphen)

lemma Normalize_fold:
  assumes "equal_fold a b"
  shows "equal_fold (NormalizeAcceleratorName a) (NormalizeAcceleratorName b)"
proof (cases "CHR ''-'' \<in> set a")
  case False
  then show ?thesis
    using assms equal_fold_hyphen [OF assms] by (simp add: Normalize_short)
next
  case True
  then have hyb: "CHR ''-'' \<in> set b" using equal_fold_hyphen [OF assms] by simp
  define pa where "pa = split_on (CHR ''-'') a"
  define pb where "pb = split_on (CHR ''-'') b"
  have len: "length pb = length pa"
    and nth: "\<And>i. i < length pa \<Longrightarrow> equal_fold (pa ! i) (pb ! i)"
    using equal_fold_split [OF assms] by (simp_all add: pa_def pb_def)
  have two: "2 \<le> length pa"
    using split_hyphen_parts [OF True] by (simp add: pa_def)
  have up: "to_upper (pa ! 0) = to_upper (pb ! 0)"
    using two by (intro to_upper_fold nth) linarith
  have tesla: "equal_fold (pa ! 1) ''tesla'' = equal_fold (pb ! 1) ''tesla''"
    using nth [of 1] two by (auto simp: equal_fold_def)
  have intel: "3 \<le> length pa \<Longrightarrow>
      equal_fold (pa ! 1 @ ''-'' @ pa ! 2) (pb ! 1 @ ''-'' @ pb ! 2)"
    using nth [of 1] nth [of 2] by (intro equal_fold_append) auto
  have 1: "equal_fold (pa ! 1) (pb ! 1)" and 2: "3 \<le> length pa \<Longrightarrow> equal_fold (pa ! 2) (pb ! 2)"
    using nth two by auto
  show ?thesis
    unfolding NormalizeAcceleratorName_def Let_def pa_def [symmetric] pb_def [symmetric]
    using True hyb two len up tesla intel 1 2 by auto
qed

lemma Family_fold: "equal_fold a b \<Longrightarrow> equal_fold (Family a) (Family b)"
  by (simp add: Family_def Normalize_fold)

lemma IsProductOf_fold:
  assumes "equal_fold p p'" and "equal_fold f f'"
  shows "IsProductOf p f = IsProductOf p' f'"
proof -
  have "equal_fold (Family p) f = equal_fold (Family p') f'"
    using Family_fold [OF assms(1)] assms(2) by (auto simp: equal_fold_def)
  then show ?thesis
    using assms by (simp add: IsProductOf_def IsFamily_fold [of p p'] IsFamily_fold [of f f'])
qed

lemma IsProductOf_irrefl: "equal_fold a b \<Longrightarrow> \<not> IsProductOf a b"
  by (auto simp: IsProductOf_def IsFamily_fold)

lemma IsProductOf_asym: "IsProductOf a b \<Longrightarrow> \<not> IsProductOf b a"
  by (auto simp: IsProductOf_def)

lemma Covers_refl [simp]: "Covers a a"
  by (simp add: Covers_def)

lemma Covers_trans:
  assumes "Covers a b" and "Covers b c"
  shows "Covers a c"
proof (cases "equal_fold a b")
  case True
  with assms(2) show ?thesis
    using IsProductOf_fold [of c c a b] by (auto simp: Covers_def equal_fold_def)
next
  case False
  with assms(1) have prod: "IsProductOf b a" by (simp add: Covers_def)
  then have "\<not> IsFamily b" by (simp add: IsProductOf_def)
  with assms(2) have "equal_fold b c" by (auto simp: Covers_def IsProductOf_def)
  with prod show ?thesis
    using IsProductOf_fold [of b c a a] by (simp add: Covers_def)
qed

subsection \<open>Key lookup: soundness and independence of the map order\<close>

lemma oneSpelling_iff:
  "names \<noteq> [] \<Longrightarrow> oneSpelling names \<longleftrightarrow> (\<forall>a \<in> set names. \<forall>b \<in> set names. equal_fold a b)"
  by (cases names) (auto simp: oneSpelling_def list_all_iff equal_fold_def)

lemma keyClass_simps [accel_simps]:
  "keyClass name k = CaseEqual \<longleftrightarrow> equal_fold k name"
  "keyClass name k = Product \<longleftrightarrow> IsProductOf k name"
  "keyClass name k = FamilyOf \<longleftrightarrow> IsProductOf name k"
proof -
  show "keyClass name k = CaseEqual \<longleftrightarrow> equal_fold k name"
    by (simp add: keyClass_def)
  show "keyClass name k = Product \<longleftrightarrow> IsProductOf k name"
    using IsProductOf_irrefl [of k name] by (auto simp: keyClass_def)
  show "keyClass name k = FamilyOf \<longleftrightarrow> IsProductOf name k"
    using IsProductOf_irrefl [of name k] IsProductOf_asym [of name k] equal_fold_sym [of k name]
    by (auto simp: keyClass_def)
qed

lemma keyClass_Sibling:
  "keyClass name k = Sibling \<longleftrightarrow>
     \<not> equal_fold k name \<and> \<not> IsFamily name \<and> \<not> IsFamily k \<and> equal_fold (Family k) (Family name)"
  by (auto simp: keyClass_def IsProductOf_def)

lemma FindBudgetKey_cong:
  assumes "set (mkeys known) = set (mkeys known')"
  shows "FindBudgetKey known name = FindBudgetKey known' name"
proof -
  have flt: "set (filter P (mkeys known)) = set (filter P (mkeys known'))" for P
    using assms by simp
  have nil: "filter P (mkeys known) = [] \<longleftrightarrow> filter P (mkeys known') = []" for P
    using flt [of P] by (metis set_empty)
  have one: "filter P (mkeys known) \<noteq> [] \<Longrightarrow>
      oneSpelling (filter P (mkeys known)) = oneSpelling (filter P (mkeys known'))" for P
    using flt [of P] nil [of P] by (simp add: oneSpelling_iff)
  have ex: "list_ex P (mkeys known) = list_ex P (mkeys known')" for P
    using assms by (simp add: list_ex_iff)
  show ?thesis
    unfolding FindBudgetKey_def Let_def
    using assms one [of "\<lambda>k. keyClass name k = Product"]
    by (simp add: nil ex slices_Min_cong [OF flt] cong: if_cong)
qed

lemma FindBudgetKey_sound:
  assumes "FindBudgetKey known name = Some key"
  shows "key \<in> set (mkeys known) \<and> (Covers key name \<or> IsProductOf key name)"
  using assms
  by (auto simp: FindBudgetKey_def Let_def Covers_def accel_simps dest!: slices_Min_in
      split: if_splits)

lemma FindBudgetKey_exact: "name \<in> set (mkeys known) \<Longrightarrow> FindBudgetKey known name = Some name"
  by (simp add: FindBudgetKey_def)

text \<open>A product name that is not listed is not found beside a listed sibling.\<close>

lemma FindBudgetKey_sibling:
  assumes "\<not> IsFamily name" and "\<forall>k \<in> set (mkeys known). \<not> equal_fold k name"
    and "k \<in> set (mkeys known)" and "\<not> IsFamily k" and "equal_fold (Family k) (Family name)"
  shows "FindBudgetKey known name = None"
proof -
  have "keyClass name k = Sibling"
    using assms by (simp add: keyClass_Sibling)
  moreover have "name \<notin> set (mkeys known)"
    using assms(2) by auto
  moreover have "filter (\<lambda>k. keyClass name k = CaseEqual) (mkeys known) = []"
    using assms(2) by (simp add: keyClass_simps)
  moreover have "filter (\<lambda>k. keyClass name k = Product) (mkeys known) = []"
    using assms(1) by (simp add: keyClass_simps IsProductOf_def)
  ultimately show ?thesis
    using assms(3) by (auto simp: FindBudgetKey_def Let_def list_ex_iff)
qed

text \<open>A family name is not charged to one of several products.\<close>

lemma FindBudgetKey_several_products:
  assumes "\<forall>k \<in> set (mkeys known). \<not> equal_fold k name"
    and "p \<in> set (mkeys known)" and "q \<in> set (mkeys known)"
    and "IsProductOf p name" and "IsProductOf q name" and "\<not> equal_fold p q"
  shows "FindBudgetKey known name = None"
proof -
  let ?ps = "filter (\<lambda>k. keyClass name k = Product) (mkeys known)"
  have in_ps: "p \<in> set ?ps" "q \<in> set ?ps"
    using assms by (auto simp: keyClass_simps)
  then have "?ps \<noteq> []" by (metis empty_iff list.set(1))
  moreover have "\<not> oneSpelling ?ps"
    using in_ps assms(6) oneSpelling_iff [OF \<open>?ps \<noteq> []\<close>] by blast
  moreover have "name \<notin> set (mkeys known)"
    using assms(1) by auto
  moreover have "filter (\<lambda>k. keyClass name k = CaseEqual) (mkeys known) = []"
    using assms(1) by (simp add: keyClass_simps)
  ultimately show ?thesis by (simp add: FindBudgetKey_def Let_def)
qed

lemma SameName_sym: "SameName a b = SameName b a"
  by (auto simp: SameName_def equal_fold_sym)

lemma FindKey_cong:
  assumes "set (mkeys known) = set (mkeys known')"
  shows "FindKey known name = FindKey known' name"
proof -
  have "slices_Min (filter (\<lambda>k. SameName k name) (mkeys known))
      = slices_Min (filter (\<lambda>k. SameName k name) (mkeys known'))"
    using assms by (intro slices_Min_cong) simp
  then show ?thesis by (simp add: FindKey_def Let_def assms)
qed

lemma FindKey_sound:
  assumes "FindKey known name = Some key"
  shows "key \<in> set (mkeys known) \<and> SameName key name"
proof -
  have "SameName (NormalizeAcceleratorName name) name"
    if "NormalizeAcceleratorName name \<noteq> name"
    using that by (simp add: SameName_def)
  then show ?thesis
    using assms by (auto simp: FindKey_def Let_def SameName_def dest!: slices_Min_in split: if_splits)
qed

lemma FindKey_None:
  "FindKey known name = None \<longleftrightarrow> (\<forall>k \<in> set (mkeys known). \<not> SameName k name)"
proof -
  have "SameName name name" by (simp add: SameName_def)
  moreover have "SameName (NormalizeAcceleratorName name) name"
    by (cases "NormalizeAcceleratorName name = name") (simp_all add: SameName_def)
  ultimately show ?thesis
    by (auto simp: FindKey_def Let_def slices_Min_eq filter_empty_conv)
qed

subsection \<open>Allowlist bounds as numbers of GPUs\<close>

text \<open>What a \<open>(free, unlimited)\<close> pair stands for: a number of GPUs, or no bound.\<close>

definition gpus :: "int \<times> bool \<Rightarrow> enat" where
  "gpus fu = (if snd fu then \<infinity> else enat (nat (fst fu)))"

definition bound_gpus :: "bound \<Rightarrow> enat" where
  "bound_gpus b = gpus (bFree b, bUnlimited b)"

definition listed_gpus :: "int \<times> bool \<times> bool \<Rightarrow> enat" where
  "listed_gpus r = gpus (fst r, fst (snd r))"

lemma gpus_tighter: "gpus (tighter a b) = min (gpus a) (gpus b)"
  by (cases a; cases b) (auto simp: gpus_def tighter_def min_def)

lemma gpus_tightest_fold:
  "gpus (foldl (\<lambda>acc b. if bUnlimited b then acc else tighter acc (bFree b, False)) acc bs)
   = min (gpus acc) (INF b \<in> set bs. bound_gpus b)"
proof (induction bs arbitrary: acc)
  case Nil
  then show ?case by (simp add: top_enat_def)
next
  case (Cons b bs)
  have "gpus (if bUnlimited b then acc else tighter acc (bFree b, False))
      = min (gpus acc) (bound_gpus b)"
    by (simp add: gpus_tighter bound_gpus_def) (simp add: gpus_def)
  with Cons show ?case by (simp add: inf_min min.assoc)
qed

lemma gpus_tightest: "gpus (tightest bs) = (INF b \<in> set bs. bound_gpus b)"
  using gpus_tightest_fold [of "(0, True)" bs] by (simp add: tightest_def gpus_def)

lemma bounds_at_Nil: "bounds_at bd a P = [] \<longleftrightarrow> (\<forall>k \<in> set (mkeys a). \<not> P k)"
  by (auto simp: bounds_at_def mkeys_def filter_empty_conv)

lemma bounds_at_cong:
  "(\<And>k. k \<in> set (mkeys a) \<Longrightarrow> P k = Q k) \<Longrightarrow> bounds_at bd a P = bounds_at bd a Q"
  unfolding bounds_at_def mkeys_def
  by (intro arg_cong [where f = "map _"] filter_cong) force+

lemma bounds_at_range: "b \<in> set (bounds_at bd a P) \<Longrightarrow> \<exists>v. b = bd v"
  by (auto simp: bounds_at_def)

lemma AllowlistBound_family:
  assumes "IsFamily f"
  shows "AllowlistBound bd a f =
    (let own = bounds_at bd a (\<lambda>k. equal_fold k f); products = bounds_at bd a (\<lambda>k. IsProductOf k f)
     in if own \<noteq> [] then (fst (tightest own), snd (tightest own), True)
        else if products \<noteq> [] then
          (if list_ex bUnlimited products then (0, True, True)
           else (sum_list (map bFree products), False, True))
        else (0, False, False))"
proof -
  have prods: "bounds_at bd a (\<lambda>k. \<not> equal_fold k f \<and> IsProductOf k f) = bounds_at bd a (\<lambda>k. IsProductOf k f)"
    using IsProductOf_irrefl by (intro bounds_at_cong) auto
  have fam: "bounds_at bd a (\<lambda>k. \<not> equal_fold k f \<and> \<not> IsProductOf k f \<and> IsProductOf f k) = []"
    using assms by (simp add: bounds_at_Nil IsProductOf_def)
  show ?thesis
    unfolding AllowlistBound_def by (simp only: prods fam Let_def split: prod.split) auto
qed

lemma AllowlistBound_product:
  assumes "IsProductOf p f"
  shows "AllowlistBound bd a p =
    (let own = bounds_at bd a (\<lambda>k. equal_fold k p); family = bounds_at bd a (\<lambda>k. equal_fold k f);
         t = (if own \<noteq> [] then (if family \<noteq> [] then tighter (tightest own) (tightest family) else tightest own)
              else tightest family)
     in if own = [] \<and> family = [] then (0, False, False) else (fst t, snd t, True))"
proof -
  have np: "\<not> IsFamily p" and nf: "IsFamily f"
    using assms by (auto simp: IsProductOf_def)
  have prods: "bounds_at bd a (\<lambda>k. \<not> equal_fold k p \<and> IsProductOf k p) = []"
    using np by (simp add: bounds_at_Nil IsProductOf_def)
  have "(\<not> equal_fold k p \<and> \<not> IsProductOf k p \<and> IsProductOf p k) = equal_fold k f" for k
  proof
    assume "\<not> equal_fold k p \<and> \<not> IsProductOf k p \<and> IsProductOf p k"
    then show "equal_fold k f"
      using assms by (auto simp: IsProductOf_def equal_fold_def)
  next
    assume kf: "equal_fold k f"
    then have "IsProductOf p k"
      using assms IsProductOf_fold [of p p k f] by simp
    moreover have "\<not> equal_fold k p"
      using kf nf np IsFamily_fold by blast
    moreover have "\<not> IsProductOf k p"
      using np by (simp add: IsProductOf_def)
    ultimately show "\<not> equal_fold k p \<and> \<not> IsProductOf k p \<and> IsProductOf p k" by simp
  qed
  then have fam: "bounds_at bd a (\<lambda>k. \<not> equal_fold k p \<and> \<not> IsProductOf k p \<and> IsProductOf p k)
      = bounds_at bd a (\<lambda>k. equal_fold k f)"
    by (intro bounds_at_cong) simp
  show ?thesis
    unfolding AllowlistBound_def by (simp only: prods fam Let_def split: prod.split) auto
qed

text \<open>Under an allowlist that lists the family, a product has no more than its family.\<close>

lemma AllowlistBound_product_le_family:
  assumes "IsProductOf p f" and "k \<in> set (mkeys a)" and "equal_fold k f"
  shows "snd (snd (AllowlistBound bd a p))"
    and "listed_gpus (AllowlistBound bd a p) \<le> listed_gpus (AllowlistBound bd a f)"
proof -
  have f: "IsFamily f" using assms(1) by (simp add: IsProductOf_def)
  have fam: "bounds_at bd a (\<lambda>k. equal_fold k f) \<noteq> []"
    using assms(2,3) by (auto simp only: bounds_at_Nil)
  show "snd (snd (AllowlistBound bd a p))"
    using fam by (simp add: AllowlistBound_product [OF assms(1)] Let_def)
  show "listed_gpus (AllowlistBound bd a p) \<le> listed_gpus (AllowlistBound bd a f)"
    using fam
    by (simp add: AllowlistBound_product [OF assms(1)] AllowlistBound_family [OF f] Let_def
        listed_gpus_def gpus_tighter)
qed

lemma sum_list_bound_gpus:
  assumes "\<forall>b \<in> set bs. 0 \<le> bFree b"
  shows "sum_list (map bound_gpus bs) =
    (if list_ex bUnlimited bs then \<infinity> else enat (nat (sum_list (map bFree bs))))"
  using assms
proof (induction bs)
  case Nil
  then show ?case by (simp add: zero_enat_def)
next
  case (Cons b bs)
  have "0 \<le> sum_list (map bFree bs)"
    using Cons.prems by (intro sum_list_nonneg) auto
  then show ?case
    using Cons by (auto simp: bound_gpus_def gpus_def nat_add_distrib)
qed

text \<open>A family listed only through products is bounded by the sum of their bounds.\<close>

lemma AllowlistBound_family_sum:
  assumes "IsFamily f" and "\<forall>k \<in> set (mkeys a). \<not> equal_fold k f"
    and "\<exists>k \<in> set (mkeys a). IsProductOf k f" and "\<And>v. 0 \<le> bFree (bd v)"
  shows "listed_gpus (AllowlistBound bd a f) =
    sum_list (map bound_gpus (bounds_at bd a (\<lambda>k. IsProductOf k f)))"
proof -
  have own: "bounds_at bd a (\<lambda>k. equal_fold k f) = []"
    using assms(2) by (simp add: bounds_at_Nil)
  have prods: "bounds_at bd a (\<lambda>k. IsProductOf k f) \<noteq> []"
    using assms(3) by (simp add: bounds_at_Nil)
  have "sum_list (map bound_gpus (bounds_at bd a (\<lambda>k. IsProductOf k f))) =
     (if list_ex bUnlimited (bounds_at bd a (\<lambda>k. IsProductOf k f)) then \<infinity>
      else enat (nat (sum_list (map bFree (bounds_at bd a (\<lambda>k. IsProductOf k f))))))"
    using bounds_at_range [of _ bd a] assms(4) by (intro sum_list_bound_gpus) metis
  with own prods show ?thesis
    by (simp add: AllowlistBound_family [OF assms(1)] Let_def listed_gpus_def gpus_def)
qed

subsection \<open>Several allowlists together\<close>

lemma tighter_nonneg: "0 \<le> fst a \<Longrightarrow> 0 \<le> fst b \<Longrightarrow> 0 \<le> fst (tighter a b)"
  by (simp add: tighter_def)

lemma tightest_nonneg: "\<forall>b \<in> set bs. 0 \<le> bFree b \<Longrightarrow> 0 \<le> fst (tightest bs)"
proof -
  have "0 \<le> fst (foldl (\<lambda>acc b. if bUnlimited b then acc else tighter acc (bFree b, False)) acc bs)"
    if "0 \<le> fst acc" "\<forall>b \<in> set bs. 0 \<le> bFree b" for acc
    using that by (induction bs arbitrary: acc) (auto simp: tighter_nonneg)
  then show "\<forall>b \<in> set bs. 0 \<le> bFree b \<Longrightarrow> 0 \<le> fst (tightest bs)"
    by (simp add: tightest_def)
qed

lemma AllowlistBound_nonneg:
  assumes "\<And>v. 0 \<le> bFree (bd v)"
  shows "0 \<le> fst (AllowlistBound bd a name)"
proof -
  have nn: "\<forall>b \<in> set (bounds_at bd a P). 0 \<le> bFree b" for P
    using assms by (auto simp: bounds_at_def)
  have "0 \<le> sum_list (map bFree (bounds_at bd a P))" for P
    using nn by (intro sum_list_nonneg) auto
  then show ?thesis
    using tightest_nonneg [OF nn] by (auto simp: AllowlistBound_def Let_def tighter_nonneg split: prod.split)
      (metis fst_conv tighter_nonneg tightest_nonneg nn)+
qed

lemma ClusterAllowlistBound_nonneg:
  "(\<And>v. 0 \<le> bFree (bd v)) \<Longrightarrow> 0 \<le> fst (ClusterAllowlistBound bd a name)"
  using AllowlistBound_nonneg [of bd a name]
  by (auto simp: ClusterAllowlistBound_def split: prod.split)

text \<open>
  One step of the fold of \<open>tightestOf\<close>, and its invariant: the pair is the minimum over the
  allowlists that bound the name.
\<close>

definition tightestStep :: "('v \<Rightarrow> bound) \<Rightarrow> string \<Rightarrow> int \<times> bool \<times> bool \<Rightarrow> (string, 'v) gomap
    \<Rightarrow> int \<times> bool \<times> bool" where
  "tightestStep bd name acc a =
     (let (free, unlimited, bounds) = acc; (f, u, b) = ClusterAllowlistBound bd a name in
      if \<not> b then (free, unlimited, bounds)
      else (let (free', unlimited') = tighter (free, unlimited) (f, u) in (free', unlimited', True)))"

lemma tightestOf_step:
  "tightestOf bd as name =
     (let r = foldl (tightestStep bd name) (0, True, False) as
      in (fst r, fst (snd r) \<and> snd (snd r), snd (snd r)))"
proof -
  have "(\<lambda>(free, unlimited, bounds) a.
          let (f, u, b) = ClusterAllowlistBound bd a name in
          if \<not> b then (free, unlimited, bounds)
          else (let (free', unlimited') = tighter (free, unlimited) (f, u)
                in (free', unlimited', True))) = tightestStep bd name"
    by (auto simp: fun_eq_iff tightestStep_def)
  then show ?thesis
    by (simp add: tightestOf_def Let_def split: prod.split)
qed

abbreviation bounds_name :: "('v \<Rightarrow> bound) \<Rightarrow> string \<Rightarrow> (string, 'v) gomap \<Rightarrow> bool" where
  "bounds_name bd name a \<equiv> snd (snd (ClusterAllowlistBound bd a name))"

lemma tightestStep_gpus:
  "listed_gpus (tightestStep bd name acc a) =
     (if bounds_name bd name a then min (listed_gpus acc) (listed_gpus (ClusterAllowlistBound bd a name))
      else listed_gpus acc)"
  "snd (snd (tightestStep bd name acc a)) \<longleftrightarrow> snd (snd acc) \<or> bounds_name bd name a"
  using gpus_tighter [of "(fst acc, fst (snd acc))"
      "(fst (ClusterAllowlistBound bd a name), fst (snd (ClusterAllowlistBound bd a name)))"]
  by (auto simp: tightestStep_def listed_gpus_def Let_def split: prod.splits)

lemma tightestStep_nonneg:
  "(\<And>v. 0 \<le> bFree (bd v)) \<Longrightarrow> 0 \<le> fst acc \<Longrightarrow> 0 \<le> fst (tightestStep bd name acc a)"
  using ClusterAllowlistBound_nonneg [of bd a name]
    tighter_nonneg [of "(fst acc, fst (snd acc))"
      "(fst (ClusterAllowlistBound bd a name), fst (snd (ClusterAllowlistBound bd a name)))"]
  by (auto simp: tightestStep_def Let_def split: prod.splits)

lemma tightestFold_gpus:
  "listed_gpus (foldl (tightestStep bd name) acc as) =
     min (listed_gpus acc)
       (INF a \<in> {a \<in> set as. bounds_name bd name a}. listed_gpus (ClusterAllowlistBound bd a name))"
  "snd (snd (foldl (tightestStep bd name) acc as)) \<longleftrightarrow> snd (snd acc) \<or> (\<exists>a \<in> set as. bounds_name bd name a)"
proof (induction as arbitrary: acc)
  case Nil
  { case 1 show ?case by (simp add: top_enat_def) }
  { case 2 show ?case by simp }
next
  case (Cons a as)
  have split: "{x \<in> set (a # as). bounds_name bd name x} =
      (if bounds_name bd name a then insert a {x \<in> set as. bounds_name bd name x}
       else {x \<in> set as. bounds_name bd name x})"
    by auto
  { case 1
    show ?case
      unfolding split by (simp add: Cons.IH(1) tightestStep_gpus inf_min min.assoc) }
  { case 2 show ?case by (auto simp: Cons.IH(2) tightestStep_gpus(2)) }
qed

lemma tightestOf_bounds:
  "snd (snd (tightestOf bd as name)) \<longleftrightarrow> (\<exists>a \<in> set as. bounds_name bd name a)"
  by (simp add: tightestOf_step Let_def tightestFold_gpus(2))

lemma tightestOf_gpus:
  assumes "\<exists>a \<in> set as. bounds_name bd name a"
  shows "listed_gpus (tightestOf bd as name) =
    (INF a \<in> {a \<in> set as. bounds_name bd name a}. listed_gpus (ClusterAllowlistBound bd a name))"
proof -
  let ?r = "foldl (tightestStep bd name) (0, True, False) as"
  have b: "snd (snd ?r)" using assms tightestFold_gpus(2) [of bd name "(0, True, False)" as] by simp
  have "listed_gpus (tightestOf bd as name) = listed_gpus ?r"
    using b by (simp add: tightestOf_step Let_def listed_gpus_def)
  also have "\<dots> = (INF a \<in> {a \<in> set as. bounds_name bd name a}. listed_gpus (ClusterAllowlistBound bd a name))"
    by (simp add: tightestFold_gpus(1)) (simp add: listed_gpus_def gpus_def)
  finally show ?thesis .
qed

lemma tightestOf_nonneg:
  assumes "\<And>v. 0 \<le> bFree (bd v)"
  shows "0 \<le> fst (tightestOf bd as name)"
proof -
  have "0 \<le> fst acc \<Longrightarrow> 0 \<le> fst (foldl (tightestStep bd name) acc as)" for acc
    using assms by (induction as arbitrary: acc) (simp_all add: tightestStep_nonneg del: split_paired_All)
  from this [of "(0, True, False)"] show ?thesis
    by (simp add: tightestOf_step Let_def)
qed

lemma productSum_gpus:
  assumes "\<forall>p \<in> set ps. 0 \<le> fst (tof p)" and "0 \<le> s"
  shows "gpus (productSum tof ps s) = enat (nat s) + (\<Sum>p \<leftarrow> ps. listed_gpus (tof p))"
  using assms
proof (induction ps arbitrary: s)
  case Nil
  then show ?case by (simp add: gpus_def zero_enat_def)
next
  case (Cons p ps)
  obtain f u l where t: "tof p = (f, u, l)" by (cases "tof p") auto
  show ?case
  proof (cases u)
    case True
    then show ?thesis by (simp add: t listed_gpus_def gpus_def)
  next
    case False
    then have "gpus (productSum tof (p # ps) s) = enat (nat (s + f)) + (\<Sum>p \<leftarrow> ps. listed_gpus (tof p))"
      using Cons t by simp
    moreover have "enat (nat (s + f)) = enat (nat s) + listed_gpus (tof p)"
      using False Cons.prems t by (simp add: listed_gpus_def gpus_def nat_add_distrib)
    ultimately show ?thesis by (simp add: add.assoc)
  qed
qed

text \<open>
  The joint bound refines its specification: the tightest bound any allowlist gives the name
  and, for a family that some allowlist lists only through products, the sum over the products
  of what fits under every allowlist.
\<close>

lemma ClusterAllowlistsBound_gpus:
  assumes "\<And>v. 0 \<le> bFree (bd v)" and "\<exists>a \<in> set as. bounds_name bd name a"
  shows "listed_gpus (ClusterAllowlistsBound bd as name) =
    (let tight = \<lambda>n. INF a \<in> {a \<in> set as. bounds_name bd n a}. listed_gpus (ClusterAllowlistBound bd a n)
     in if ClosesFamily as name
        then min (tight name) (\<Sum>p \<leftarrow> familyProducts as name. listed_gpus (tightestOf bd as p))
        else tight name)"
proof -
  have b: "snd (snd (tightestOf bd as name))" using assms(2) by (simp add: tightestOf_bounds)
  have ps: "gpus (productSum (tightestOf bd as) (familyProducts as name) 0) =
      (\<Sum>p \<leftarrow> familyProducts as name. listed_gpus (tightestOf bd as p))"
    using productSum_gpus [of "familyProducts as name" "tightestOf bd as" 0]
      tightestOf_nonneg [of bd as] assms(1) by (simp add: zero_enat_def [symmetric])
  have "listed_gpus (ClusterAllowlistsBound bd as name) =
     (if ClosesFamily as name
      then gpus (tighter (fst (tightestOf bd as name), fst (snd (tightestOf bd as name)))
                   (productSum (tightestOf bd as) (familyProducts as name) 0))
      else listed_gpus (tightestOf bd as name))"
    using b by (auto simp: ClusterAllowlistsBound_def listed_gpus_def Let_def split: prod.splits)
  then show ?thesis
    using tightestOf_gpus [OF assms(2)] by (simp add: gpus_tighter ps Let_def listed_gpus_def)
qed

subsection \<open>Properties\<close>

text \<open>
  C35. The key a name is charged to is a key of the map that covers the name or is a product
  of it, the choice does not depend on the order the map is ranged over, and a closed list stays
  closed: an unlisted product is not charged to a family key beside a listed sibling, and a
  family name listed only through several different products is charged to none of them.
\<close>

theorem FindBudgetKey_closed:
  "(\<forall>key. FindBudgetKey known name = Some key \<longrightarrow>
      key \<in> set (mkeys known) \<and> (Covers key name \<or> IsProductOf key name)) \<and>
   (\<forall>known'. same_map known known' \<longrightarrow> FindBudgetKey known name = FindBudgetKey known' name) \<and>
   ((\<forall>k \<in> set (mkeys known). \<not> equal_fold k name) \<longrightarrow>
      (\<exists>k \<in> set (mkeys known). \<not> IsFamily name \<and> \<not> IsFamily k \<and> equal_fold (Family k) (Family name)) \<or>
      (\<exists>p \<in> set (mkeys known). \<exists>q \<in> set (mkeys known). IsProductOf p name \<and> IsProductOf q name \<and> \<not> equal_fold p q) \<longrightarrow>
      FindBudgetKey known name = None)"
  using FindBudgetKey_sound [of known name] FindBudgetKey_cong [OF same_map_keys, of known _ name]
    FindBudgetKey_sibling [of name known] FindBudgetKey_several_products [of known name]
  by blast

theorem FindBudgetKey_closed_witness:
  "FindBudgetKey [(''NVIDIA-H100-80GB-HBM3'', 4::nat), (''NVIDIA-H100-PCIe'', 2)] ''H100'' = None \<and>
   FindBudgetKey [(''H100'', 4::nat), (''NVIDIA-H100-PCIe'', 2)] ''NVIDIA-H100-80GB-HBM3'' = None"
proof -
  have h: "\<forall>k \<in> set (mkeys [(''NVIDIA-H100-80GB-HBM3'', 4::nat), (''NVIDIA-H100-PCIe'', 2)]). \<not> equal_fold k ''H100''"
      "IsProductOf ''NVIDIA-H100-80GB-HBM3'' ''H100''" "IsProductOf ''NVIDIA-H100-PCIe'' ''H100''"
      "\<not> equal_fold ''NVIDIA-H100-80GB-HBM3'' ''NVIDIA-H100-PCIe''"
      "\<not> IsFamily ''NVIDIA-H100-80GB-HBM3''" "\<not> IsFamily ''NVIDIA-H100-PCIe''"
      "equal_fold (Family ''NVIDIA-H100-PCIe'') (Family ''NVIDIA-H100-80GB-HBM3'')"
      "\<forall>k \<in> set (mkeys [(''H100'', 4::nat), (''NVIDIA-H100-PCIe'', 2)]). \<not> equal_fold k ''NVIDIA-H100-80GB-HBM3''"
    by code_simp+
  show ?thesis
    using h FindBudgetKey_closed [of "[(''NVIDIA-H100-80GB-HBM3'', 4::nat), (''NVIDIA-H100-PCIe'', 2)]" "''H100''"]
      FindBudgetKey_closed [of "[(''H100'', 4::nat), (''NVIDIA-H100-PCIe'', 2)]" "''NVIDIA-H100-80GB-HBM3''"]
    by (simp add: mkeys_def)
qed

text \<open>
  The lookup used for capacity is exact: \<open>FindKey\<close> finds a key precisely when some key
  names the same accelerator, the key it returns is one of those, and the answer does not depend
  on the order of the map.
\<close>

lemma FindKey_exact:
  "(FindKey known name = None \<longleftrightarrow> \<not> list_ex (\<lambda>k. SameName k name) (mkeys known)) \<and>
   (\<forall>key. FindKey known name = Some key \<longrightarrow> key \<in> set (mkeys known) \<and> SameName key name) \<and>
   (\<forall>known'. same_map known known' \<longrightarrow> FindKey known name = FindKey known' name)"
  using FindKey_None [of known name] FindKey_sound [of known name] FindKey_cong [OF same_map_keys, of known _ name]
  by (simp add: list_ex_iff)

lemma FindKey_exact_example:
  "FindKey [(''A100'', 1::nat), (''H100'', 8)] ''nvidia-h100-80gb'' = Some ''H100'' \<and>
   SameName ''H100'' ''nvidia-h100-80gb''"
proof -
  have h: "FindKey [(''A100'', 1::nat), (''H100'', 8)] ''nvidia-h100-80gb'' = Some ''H100''"
    by code_simp
  show ?thesis using FindKey_exact [of "[(''A100'', 1::nat), (''H100'', 8)]" "''nvidia-h100-80gb''"] h by blast
qed

text \<open>
  One allowlist over the two levels of names, read as what it leaves in GPUs (infinitely
  many when unlimited). A product is listed as soon as its family is and never has more than the
  family; a family listed only through its products has exactly their sum.
\<close>

lemma AllowlistBound_levels:
  assumes "\<And>v. 0 \<le> bFree (bd v)"
  shows "(\<forall>p k. IsProductOf p f \<and> k \<in> set (mkeys a) \<and> equal_fold k f \<longrightarrow>
      snd (snd (AllowlistBound bd a p)) \<and> listed_gpus (AllowlistBound bd a p) \<le> listed_gpus (AllowlistBound bd a f)) \<and>
    (IsFamily f \<and> (\<forall>k \<in> set (mkeys a). \<not> equal_fold k f) \<and> (\<exists>k \<in> set (mkeys a). IsProductOf k f) \<longrightarrow>
      listed_gpus (AllowlistBound bd a f) = (\<Sum>b \<leftarrow> bounds_at bd a (\<lambda>k. IsProductOf k f). bound_gpus b))"
  using AllowlistBound_product_le_family [of _ f _ a bd] AllowlistBound_family_sum [of f a bd] assms by blast

lemma AllowlistBound_levels_example:
  "listed_gpus (AllowlistBound (\<lambda>n. \<lparr>bFree = int n, bUnlimited = False\<rparr>)
     [(''NVIDIA-H100-PCIe'', 2), (''NVIDIA-H100-80GB-HBM3'', 4), (''A100'', 9)] ''H100'') = 6"
proof -
  have h: "IsFamily ''H100''"
      "\<forall>k \<in> set (mkeys [(''NVIDIA-H100-PCIe'', 2), (''NVIDIA-H100-80GB-HBM3'', 4), (''A100'', 9::nat)]). \<not> equal_fold k ''H100''"
      "\<exists>k \<in> set (mkeys [(''NVIDIA-H100-PCIe'', 2), (''NVIDIA-H100-80GB-HBM3'', 4), (''A100'', 9::nat)]). IsProductOf k ''H100''"
      "bounds_at (\<lambda>n. \<lparr>bFree = int n, bUnlimited = False\<rparr>)
         [(''NVIDIA-H100-PCIe'', 2), (''NVIDIA-H100-80GB-HBM3'', 4), (''A100'', 9)] (\<lambda>k. IsProductOf k ''H100'') =
       [\<lparr>bFree = 2, bUnlimited = False\<rparr>, \<lparr>bFree = 4, bUnlimited = False\<rparr>]"
    by code_simp+
  show ?thesis
    using AllowlistBound_levels [of "\<lambda>n. \<lparr>bFree = int n, bUnlimited = False\<rparr>" "''H100''"
        "[(''NVIDIA-H100-PCIe'', 2), (''NVIDIA-H100-80GB-HBM3'', 4), (''A100'', 9)]"] h
    by (simp add: bound_gpus_def gpus_def) (simp flip: numeral_eq_enat)
qed

text \<open>
  Several cluster-wide allowlists together refine their specification: the joint bound of
  a name is the least any of them gives it, an allowlist that does not list the name giving
  nothing; and for a family some allowlist lists only through products it is also at most the
  sum, over every product listed anywhere, of what fits under all of them.
\<close>

lemma ClusterAllowlistsBound_refines:
  assumes "\<And>v. 0 \<le> bFree (bd v)" and "\<exists>a \<in> set as. snd (snd (ClusterAllowlistBound bd a name))"
  defines "tight \<equiv> \<lambda>n. INF a \<in> {a \<in> set as. snd (snd (ClusterAllowlistBound bd a n))}. listed_gpus (ClusterAllowlistBound bd a n)"
  shows "listed_gpus (ClusterAllowlistsBound bd as name) =
    (if ClosesFamily as name
     then min (tight name) (\<Sum>p \<leftarrow> familyProducts as name. listed_gpus (tightestOf bd as p))
     else tight name)"
  using ClusterAllowlistsBound_gpus [OF assms(1,2)] by (simp add: tight_def Let_def)

lemma ClusterAllowlistsBound_refines_example:
  "listed_gpus (ClusterAllowlistsBound (\<lambda>n. \<lparr>bFree = int n, bUnlimited = False\<rparr>)
     [[(''NVIDIA-H100-PCIe'', 2)], [(''H100'', 5)]] ''H100'') = 2"
proof -
  let ?bd = "\<lambda>n. \<lparr>bFree = int n, bUnlimited = False\<rparr>" and ?as = "[[(''NVIDIA-H100-PCIe'', 2 :: nat)], [(''H100'', 5)]]"
  have h: "ClusterAllowlistBound ?bd [(''NVIDIA-H100-PCIe'', 2)] ''H100'' = (2, False, True)"
      "ClusterAllowlistBound ?bd [(''H100'', 5)] ''H100'' = (5, False, True)"
      "ClosesFamily ?as ''H100''" "familyProducts ?as ''H100'' = [''NVIDIA-H100-PCIe'']"
      "tightestOf ?bd ?as ''NVIDIA-H100-PCIe'' = (2, False, True)"
    by code_simp+
  have s: "{a \<in> set ?as. snd (snd (ClusterAllowlistBound ?bd a ''H100''))} = set ?as" using h(1,2) by auto
  show ?thesis
    using ClusterAllowlistsBound_refines [of ?bd ?as "''H100''"] h s
    by (simp add: listed_gpus_def gpus_def inf_min) (simp flip: numeral_eq_enat)
qed

end
