(* ===== verification/Headroom.thy ===== *)
theory Headroom
  imports Accelerator
begin

text \<open>
  How many GPUs a namespace may still take, and the version handshake that keeps a warm pool
  from being credited its own GPUs twice: \<open>internal/decision/headroom.go\<close> and the warm-pool
  figure of \<open>internal/decision/gpuusage.go\<close>. A nil map is \<open>None\<close> where the source tells
  it from an empty one.
\<close>

subsection \<open>The headroom store\<close>

record headroom =
  hFree :: "(string, (string, int) gomap) gomap"
  hCluster :: "(string, int) gomap option"
  hNodes :: "(string, int list) gomap option"
  hAt :: gotime
  PoolsVersion :: nat

datatype headroomState = HeadroomUnknown | HeadroomUnbounded | HeadroomBounded

definition HeadroomUnlimited :: int where
  "HeadroomUnlimited = - 1"

definition PublishBoundsOnNodes :: "(string, (string, int) gomap) gomap \<Rightarrow> (string, int) gomap option
    \<Rightarrow> (string, int list) gomap option \<Rightarrow> nat \<Rightarrow> gotime \<Rightarrow> headroom option \<Rightarrow> headroom option" where
  "PublishBoundsOnNodes free cluster nodes poolsVersion now s =
     Some \<lparr>hFree = free, hCluster = cluster, hNodes = nodes, hAt = now, PoolsVersion = poolsVersion\<rparr>"

definition PublishBounds :: "(string, (string, int) gomap) gomap \<Rightarrow> (string, int) gomap option
    \<Rightarrow> nat \<Rightarrow> gotime \<Rightarrow> headroom option \<Rightarrow> headroom option" where
  "PublishBounds free cluster poolsVersion now s = PublishBoundsOnNodes free cluster None poolsVersion now s"

definition Headroom_Publish :: "(string, (string, int) gomap) gomap \<Rightarrow> nat \<Rightarrow> gotime \<Rightarrow> headroom option \<Rightarrow> headroom option" where
  "Headroom_Publish free poolsVersion now s = PublishBounds free None poolsVersion now s"

definition Units :: "string \<Rightarrow> int \<Rightarrow> nat \<Rightarrow> duration \<Rightarrow> gotime \<Rightarrow> headroom option \<Rightarrow> int option" where
  "Units acceleratorName unitGPUs poolsVersion maxAge now s =
     (case s of None \<Rightarrow> None
      | Some h \<Rightarrow>
          if maxAge < time_sub now (hAt h) \<or> PoolsVersion h < poolsVersion \<or> unitGPUs \<le> 0 then None
          else case hNodes h of None \<Rightarrow> None
            | Some nodes \<Rightarrow> Some
                (foldl (\<lambda>units (acc, free).
                    if IsAcceleratorResolved acceleratorName \<and> \<not> SameName acc acceleratorName then units
                    else foldl (\<lambda>units f. units + godiv f unitGPUs) units free) 0 nodes))"

definition Reading :: "string \<Rightarrow> string \<Rightarrow> nat \<Rightarrow> duration \<Rightarrow> gotime \<Rightarrow> headroom option \<Rightarrow> int \<times> headroomState" where
  "Reading namespace acceleratorName poolsVersion maxAge now s =
     (case s of None \<Rightarrow> (0, HeadroomUnknown)
      | Some h \<Rightarrow>
          if maxAge < time_sub now (hAt h) \<or> PoolsVersion h < poolsVersion then (0, HeadroomUnknown)
          else case map_of (hFree h) namespace of
            Some perType \<Rightarrow>
              (let free = (case FindBudgetKey perType acceleratorName of None \<Rightarrow> 0
                           | Some key \<Rightarrow> mget 0 perType key)
               in if free < 0 then (0, HeadroomUnbounded) else (free, HeadroomBounded))
          | None \<Rightarrow>
              (case hCluster h of None \<Rightarrow> (0, HeadroomUnbounded)
               | Some cluster \<Rightarrow>
                   if \<not> IsAcceleratorResolved acceleratorName then (0, HeadroomUnbounded)
                   else case FindBudgetKey cluster acceleratorName of None \<Rightarrow> (0, HeadroomBounded)
                     | Some key \<Rightarrow> if mget 0 cluster key \<noteq> max_int then (mget 0 cluster key, HeadroomBounded)
                                   else (0, HeadroomUnbounded)))"

definition Available :: "string \<Rightarrow> string \<Rightarrow> duration \<Rightarrow> gotime \<Rightarrow> headroom option \<Rightarrow> int option" where
  "Available namespace acceleratorName maxAge now s =
     (let (free, state) = Reading namespace acceleratorName 0 maxAge now s in
      if state = HeadroomBounded then Some free else None)"

subsection \<open>The warm-pool figure\<close>

record warmPoolFigure =
  wpGPUs :: "(string, (string, int) gomap) gomap"
  wpVersion :: nat
  wpChangedAt :: "(string, nat) gomap"

definition noWarmPools :: warmPoolFigure where
  "noWarmPools = \<lparr>wpGPUs = [], wpVersion = 0, wpChangedAt = []\<rparr>"

definition PublishWarmPoolGPUs :: "string \<Rightarrow> (string, int) gomap \<Rightarrow> warmPoolFigure \<Rightarrow> nat \<times> warmPoolFigure" where
  "PublishWarmPoolGPUs namespace byType s =
     (let prev = map_of (wpGPUs s) namespace;
          changed = (\<lambda>gpus. \<lparr>wpGPUs = gpus, wpVersion = wpVersion s + 1,
                              wpChangedAt = mput namespace (wpVersion s + 1) (wpChangedAt s)\<rparr>);
          s' = (if byType = [] \<and> prev = None then s
                else if byType = [] then changed (mdel namespace (wpGPUs s))
                else case prev of
                  None \<Rightarrow> changed (mput namespace byType (wpGPUs s))
                | Some old \<Rightarrow> if maps_Equal old byType then s else changed (mput namespace byType (wpGPUs s)))
      in (mget 0 (wpChangedAt s') namespace, s'))"

definition WarmPoolGPUsWithVersion :: "warmPoolFigure \<Rightarrow> (string, (string, int) gomap) gomap \<times> nat" where
  "WarmPoolGPUsWithVersion s = (wpGPUs s, wpVersion s)"

definition ResetWarmPoolGPUs :: "warmPoolFigure \<Rightarrow> warmPoolFigure" where
  "ResetWarmPoolGPUs s =
     \<lparr>wpGPUs = [], wpVersion = (if wpGPUs s \<noteq> [] then wpVersion s + 1 else wpVersion s), wpChangedAt = []\<rparr>"

definition publishAll :: "(string \<times> (string, int) gomap) list \<Rightarrow> warmPoolFigure \<Rightarrow> warmPoolFigure" where
  "publishAll ps s = foldl (\<lambda>s (ns, byType). snd (PublishWarmPoolGPUs ns byType s)) s ps"

subsection \<open>Versions\<close>

lemma publish_changed:
  fixes ns byType s
  defines "s' \<equiv> snd (PublishWarmPoolGPUs ns byType s)"
  shows "s' = s \<or> wpVersion s' = wpVersion s + 1 \<and> mget 0 (wpChangedAt s') ns = wpVersion s + 1 \<and>
    (\<forall>ns'. ns' \<noteq> ns \<longrightarrow> map_of (wpGPUs s') ns' = map_of (wpGPUs s) ns' \<and>
       mget 0 (wpChangedAt s') ns' = mget 0 (wpChangedAt s) ns')"
  by (auto simp: s'_def PublishWarmPoolGPUs_def Let_def gomap_simps split: option.splits)

lemma publish_version_mono: "wpVersion s \<le> wpVersion (publishAll ps s)"
proof (induction ps arbitrary: s)
  case Nil
  then show ?case by (simp add: publishAll_def)
next
  case (Cons p ps)
  obtain ns b where p: "p = (ns, b)" by (cases p)
  have "wpVersion s \<le> wpVersion (snd (PublishWarmPoolGPUs ns b s))" using publish_changed [of ns b s] by auto
  with Cons [of "snd (PublishWarmPoolGPUs ns b s)"] show ?case by (simp add: publishAll_def p)
qed

text \<open>Either the namespace's figure is the same, or its change is dated after the older state.\<close>

lemma figure_or_newer:
  "map_of (wpGPUs (publishAll ps s)) ns = map_of (wpGPUs s) ns \<and>
     mget 0 (wpChangedAt (publishAll ps s)) ns = mget 0 (wpChangedAt s) ns \<or>
   wpVersion s < mget 0 (wpChangedAt (publishAll ps s)) ns"
proof (induction ps rule: rev_induct)
  case Nil
  then show ?case by (simp add: publishAll_def)
next
  case (snoc p ps)
  obtain ns' b where p: "p = (ns', b)" by (cases p)
  have run: "publishAll (ps @ [p]) s = snd (PublishWarmPoolGPUs ns' b (publishAll ps s))"
    by (simp add: publishAll_def p)
  show ?case
    using snoc publish_changed [of ns' b "publishAll ps s"] publish_version_mono [of s ps]
    unfolding run by (cases "ns' = ns") auto
qed

lemma Reading_current:
  assumes "snd (Reading ns acc v maxAge now s) \<noteq> HeadroomUnknown"
  shows "\<exists>h. s = Some h \<and> v \<le> PoolsVersion h \<and> time_sub now (hAt h) \<le> maxAge"
  using assms by (auto simp: Reading_def split: option.splits if_splits)

lemma Units_sum:
  "foldl (\<lambda>units f. units + godiv f u) n fs = n + (\<Sum>f \<leftarrow> fs. godiv f u)"
  by (induction fs arbitrary: n) auto

lemma Units_fold:
  "foldl (\<lambda>units (acc, free). if P acc then units else foldl (\<lambda>units f. units + godiv f u) units free) n nodes =
     n + (\<Sum>(acc, free) \<leftarrow> filter (\<lambda>(acc, free). \<not> P acc) nodes. \<Sum>f \<leftarrow> free. godiv f u)"
  by (induction nodes arbitrary: n) (auto simp: Units_sum)

lemma godiv_sum_le:
  assumes "0 < u" and "\<forall>f \<in> set fs. 0 \<le> f"
  shows "0 \<le> (\<Sum>f \<leftarrow> fs. godiv f u)" and "(\<Sum>f \<leftarrow> fs. godiv f u) * u \<le> sum_list fs"
  using assms(2)
proof (induction fs)
  case Nil
  { case 1 show ?case by simp }
  { case 2 show ?case by simp }
next
  case (Cons f fs)
  have "f div u * u \<le> f"
    using div_mult_mod_eq [of f u] pos_mod_sign [OF assms(1), of f] by linarith
  then have f: "0 \<le> godiv f u" "godiv f u * u \<le> f" if "0 \<le> f"
    using that assms(1) by (simp_all add: godiv_pos pos_imp_zdiv_nonneg_iff)
  { case 1 then show ?case using Cons.IH f by simp }
  { case 2 then show ?case using Cons.IH f by (simp add: algebra_simps) }
qed

subsection \<open>Properties\<close>

text \<open>
  C39. A pool is never credited its own GPUs twice. Take a snapshot stamped with the version
  of the warm-pool figure it was built from, and any later publishes by any namespaces ending
  with the pool's own. If the pool then reads the snapshot at the version its publish returned
  and gets an answer other than unknown, the figure the snapshot was built from is, for its
  namespace, exactly the one it has just published.
\<close>

theorem pool_not_credited_twice:
  fixes s ps ns byType
  defines "s' \<equiv> publishAll ps s"
  assumes "PublishWarmPoolGPUs ns byType s' = (v, now_figure)"
    and "WarmPoolGPUsWithVersion s = (figure, version)"
    and "snd (Reading ns acc v maxAge now (PublishBoundsOnNodes free cluster nodes version t prev)) \<noteq> HeadroomUnknown"
  shows "map_of figure ns = map_of (wpGPUs now_figure) ns"
proof -
  have v: "v = mget 0 (wpChangedAt now_figure) ns"
    using assms(2) by (auto simp: PublishWarmPoolGPUs_def Let_def)
  have run: "now_figure = publishAll (ps @ [(ns, byType)]) s"
    using arg_cong [OF assms(2), of snd] by (simp add: publishAll_def s'_def)
  have "v \<le> version" using Reading_current [OF assms(4)] by (simp add: PublishBoundsOnNodes_def)
  moreover have "version = wpVersion s" "figure = wpGPUs s"
    using assms(3) by (auto simp: WarmPoolGPUsWithVersion_def)
  ultimately show ?thesis
    using figure_or_newer [of "ps @ [(ns, byType)]" s ns] v run by auto
qed

theorem pool_not_credited_twice_witness:
  "map_of [(''a'', [(''H100'', 2)])] ''a'' =
   map_of (wpGPUs (snd (PublishWarmPoolGPUs ''a'' [(''H100'', 2)]
     (publishAll [(''b'', [(''H100'', 1)])] (publishAll [(''a'', [(''H100'', 2)])] noWarmPools))))) ''a''"
proof -
  let ?s = "publishAll [(''a'', [(''H100'', 2)])] noWarmPools"
  have h: "WarmPoolGPUsWithVersion ?s = ([(''a'', [(''H100'', 2)])], 1)"
      "fst (PublishWarmPoolGPUs ''a'' [(''H100'', 2)] (publishAll [(''b'', [(''H100'', 1)])] ?s)) = 1"
      "snd (Reading ''a'' ''H100'' 1 100 50 (PublishBoundsOnNodes [(''a'', [(''H100'', 3)])] None None 1 0 None)) \<noteq> HeadroomUnknown"
    by code_simp+
  show ?thesis
    using pool_not_credited_twice [OF prod.collapse [symmetric] h(1), where ns = "''a''" and byType = "[(''H100'', 2)]"
        and ps = "[(''b'', [(''H100'', 1)])]"] h(2,3)
    by simp
qed

text \<open>
  Node fit counts whole units on single nodes. What \<open>Units\<close> reports is the number of
  units that fit one node at a time on the nodes of the accelerator: the units never need more
  GPUs than those nodes have free, and a unit larger than every hole fits nowhere, however many
  GPUs are free in total.
\<close>

lemma Units_whole_nodes:
  assumes "Units name u v maxAge now (Some h) = Some n" and "hNodes h = Some nodes"
    and "\<forall>(acc, free) \<in> set nodes. \<forall>f \<in> set free. 0 \<le> f"
  defines "holes \<equiv> concat (map snd (filter (\<lambda>(acc, free). \<not> IsAcceleratorResolved name \<or> SameName acc name) nodes))"
  shows "n = (\<Sum>f \<leftarrow> holes. f div u) \<and> 0 \<le> n \<and> n * u \<le> sum_list holes \<and>
    ((\<forall>f \<in> set holes. f < u) \<longrightarrow> n = 0)"
proof -
  have u: "0 < u" using assms(1,2) by (auto simp: Units_def split: if_splits)
  have nn: "\<forall>f \<in> set holes. 0 \<le> f" using assms(3) by (auto simp: holes_def)
  have sums: "(\<Sum>(acc, free) \<leftarrow> ns. \<Sum>f \<leftarrow> free. godiv f u) = (\<Sum>f \<leftarrow> concat (map snd ns). godiv f u)"
    for ns :: "(string \<times> int list) list"
    by (induction ns) auto
  have "n = (\<Sum>f \<leftarrow> holes. godiv f u)"
    using assms(1,2) by (auto simp: Units_def Units_fold sums holes_def split: if_splits)
  moreover have "(\<Sum>f \<leftarrow> holes. godiv f u) = (\<Sum>f \<leftarrow> holes. f div u)"
    using nn u by (intro arg_cong [where f = sum_list] map_cong) (auto simp: godiv_pos)
  moreover have "(\<Sum>f \<leftarrow> holes. f div u) = 0" if "\<forall>f \<in> set holes. f < u"
    using that nn by (simp add: div_pos_pos_trivial cong: map_cong)
  ultimately show ?thesis using godiv_sum_le [OF u nn] by simp
qed

lemma Units_whole_nodes_example:
  "Units ''H100'' 8 0 100 50 (Some \<lparr>hFree = [], hCluster = None,
     hNodes = Some [(''NVIDIA-H100-PCIe'', [4, 4, 4]), (''A100'', [16])], hAt = 0, PoolsVersion = 0\<rparr>) = Some 0"
proof -
  let ?h = "\<lparr>hFree = [], hCluster = None, hNodes = Some [(''NVIDIA-H100-PCIe'', [4, 4, 4]), (''A100'', [16])], hAt = 0, PoolsVersion = 0\<rparr>"
  have h: "SameName ''NVIDIA-H100-PCIe'' ''H100''" "\<not> SameName ''A100'' ''H100''" "IsAcceleratorResolved ''H100''"
      "\<exists>n. Units ''H100'' 8 0 100 50 (Some ?h) = Some n"
    by (code_simp, code_simp, code_simp, simp add: Units_def time_sub_def max_int_def min_int_def)
  then obtain n where n: "Units ''H100'' 8 0 100 50 (Some ?h) = Some n" by blast
  then show ?thesis using Units_whole_nodes [OF n] h by simp
qed

end
