(* ===== verification/Stores.thy ===== *)
theory Stores
  imports Prelude Complex_Main
begin

text \<open>
  The in-memory stores through which the engines tell each other what they decided or saw:
  \<open>internal/decision\<close>, files \<open>awake.go\<close>, \<open>pressure.go\<close>, \<open>serving.go\<close>,
  \<open>warmpoolsupply.go\<close>, \<open>bridges.go\<close>, \<open>contention.go\<close>, \<open>share_promised.go\<close>,
  \<open>warm_pool_unheld.go\<close>, \<open>gpuusage.go\<close> (the usage snapshots), \<open>activation.go\<close> and \<open>store.go\<close>.

  A method that holds the mutex is one step on the state of its store; the state is passed and
  returned. The reads of \<open>time.Now\<close> are arguments. Copies (\<open>maps.Clone\<close>) are the value
  itself. The contract of the four stores keyed by a pair of names is the locale
  \<open>fresh_store\<close>.
\<close>

named_theorems store_simps \<open>reads after writes of the stores\<close>

subsection \<open>Keyed readings with an age\<close>

record awakeIntent =
  aiVariant :: string
  aiAt :: gotime

type_synonym awakeStore = "(string, (string, awakeIntent) gomap) gomap"

definition Awake_Publish :: "string \<Rightarrow> string \<Rightarrow> string \<Rightarrow> gotime \<Rightarrow> awakeStore \<Rightarrow> awakeStore" where
  "Awake_Publish namespace pool variant t s =
     (if variant = [] then mdel2 namespace pool s
      else mput2 namespace pool \<lparr>aiVariant = variant, aiAt = t\<rparr> s)"

text \<open>\<open>maxAge > 0 && now.Sub(at) > maxAge\<close>.\<close>

definition too_old :: "duration \<Rightarrow> gotime \<Rightarrow> gotime \<Rightarrow> bool" where
  "too_old maxAge now t \<longleftrightarrow> 0 < maxAge \<and> maxAge < time_sub now t"

definition Awake_Get :: "string \<Rightarrow> string \<Rightarrow> duration \<Rightarrow> gotime \<Rightarrow> awakeStore \<Rightarrow> string option" where
  "Awake_Get namespace pool maxAge now s =
     (case mget2 s namespace pool of None \<Rightarrow> None
      | Some intent \<Rightarrow>
          if aiVariant intent = [] then None
          else if too_old maxAge now (aiAt intent) then None
          else Some (aiVariant intent))"

text \<open>A spare fraction is only ever compared; it is a rational.\<close>

record pressure =
  SpareFraction :: rat
  NeedsScaleUp :: bool
  prAt :: gotime

type_synonym pressureStore = "(string, (string, pressure) gomap) gomap"

definition Pressure_Publish :: "string \<Rightarrow> string \<Rightarrow> pressure \<Rightarrow> pressureStore \<Rightarrow> pressureStore" where
  "Pressure_Publish namespace variant p s = mput2 namespace variant p s"

definition Pressure_Get :: "string \<Rightarrow> string \<Rightarrow> duration \<Rightarrow> gotime \<Rightarrow> pressureStore \<Rightarrow> pressure option" where
  "Pressure_Get namespace variant maxAge now s =
     (case mget2 s namespace variant of None \<Rightarrow> None
      | Some p \<Rightarrow> if too_old maxAge now (prAt p) then None else Some p)"

record servingCount =
  scReplicas :: int
  scAt :: gotime

type_synonym servingStore = "(string, (string, servingCount) gomap) gomap"

definition Serving_Publish :: "string \<Rightarrow> string \<Rightarrow> int \<Rightarrow> gotime \<Rightarrow> servingStore \<Rightarrow> servingStore" where
  "Serving_Publish namespace variant replicas t s =
     mput2 namespace variant \<lparr>scReplicas = replicas, scAt = t\<rparr> s"

definition Serving_Get :: "string \<Rightarrow> string \<Rightarrow> duration \<Rightarrow> gotime \<Rightarrow> servingStore \<Rightarrow> int option" where
  "Serving_Get namespace variant maxAge now s =
     (case mget2 s namespace variant of None \<Rightarrow> None
      | Some c \<Rightarrow> if too_old maxAge now (scAt c) then None else Some (scReplicas c))"

record warmPoolSupply =
  wsReplicas :: int
  wsCapacity :: rat
  wsAt :: gotime

type_synonym supplyStore = "(string, (string, warmPoolSupply) gomap) gomap"

definition Supply_Publish :: "string \<Rightarrow> string \<Rightarrow> int \<Rightarrow> rat \<Rightarrow> gotime \<Rightarrow> supplyStore \<Rightarrow> supplyStore" where
  "Supply_Publish namespace variant replicas cap t s =
     mput2 namespace variant \<lparr>wsReplicas = replicas, wsCapacity = cap, wsAt = t\<rparr> s"

definition Supply_Get :: "string \<Rightarrow> string \<Rightarrow> duration \<Rightarrow> gotime \<Rightarrow> supplyStore \<Rightarrow> warmPoolSupply option" where
  "Supply_Get namespace variant maxAge now s =
     (case mget2 s namespace variant of None \<Rightarrow> None
      | Some c \<Rightarrow> if too_old maxAge now (wsAt c) then None else Some c)"

text \<open>The store after a sequence of writes, oldest first, and the last write under one key.\<close>

definition writes :: "(string \<Rightarrow> string \<Rightarrow> 'v \<Rightarrow> gotime \<Rightarrow> 's \<Rightarrow> 's) \<Rightarrow> 's \<Rightarrow> (string \<times> string \<times> 'v \<times> gotime) list \<Rightarrow> 's" where
  "writes publish initial ws = foldl (\<lambda>s (ns, k, v, t). publish ns k v t s) initial ws"

definition last_write :: "string \<Rightarrow> string \<Rightarrow> (string \<times> string \<times> 'v \<times> gotime) list \<Rightarrow> ('v \<times> gotime) option" where
  "last_write ns k ws = map_option (snd \<circ> snd) (find (\<lambda>(ns', k', _). ns' = ns \<and> k' = k) (rev ws))"

lemma last_write_snoc:
  "last_write ns k (ws @ [(ns', k', v, t)]) = (if ns' = ns \<and> k' = k then Some (v, t) else last_write ns k ws)"
  by (auto simp: last_write_def)

text \<open>
  The contract: a read returns the last value written under its own key, for as long as it is
  fresh; a value that is not \<open>meaningful\<close> clears the key.
\<close>

locale fresh_store =
  fixes publish :: "string \<Rightarrow> string \<Rightarrow> 'v \<Rightarrow> gotime \<Rightarrow> 's \<Rightarrow> 's"
    and get :: "string \<Rightarrow> string \<Rightarrow> duration \<Rightarrow> gotime \<Rightarrow> 's \<Rightarrow> 'r option"
    and initial :: 's
    and reading :: "'v \<Rightarrow> gotime \<Rightarrow> 'r"
    and meaningful :: "'v \<Rightarrow> bool"
  assumes get_empty: "get ns k maxAge now initial = None"
    and get_same: "get ns k maxAge now (publish ns k v t s) =
      (if meaningful v \<and> \<not> too_old maxAge now t then Some (reading v t) else None)"
    and get_other: "(ns', k') \<noteq> (ns, k) \<Longrightarrow> get ns' k' maxAge now (publish ns k v t s) = get ns' k' maxAge now s"
begin

lemma writes_snoc: "writes publish initial (ws @ [(ns, k, v, t)]) = publish ns k v t (writes publish initial ws)"
  by (simp add: writes_def)

lemma get_last_write:
  "get ns k maxAge now (writes publish initial ws) =
     (case last_write ns k ws of None \<Rightarrow> None
      | Some (v, t) \<Rightarrow> if meaningful v \<and> \<not> too_old maxAge now t then Some (reading v t) else None)"
proof (induction ws rule: rev_induct)
  case Nil
  then show ?case by (simp add: writes_def last_write_def get_empty)
next
  case (snoc w ws)
  obtain ns' k' v t where w: "w = (ns', k', v, t)" by (cases w) auto
  show ?case
    using snoc get_same [of ns k maxAge now v t "writes publish initial ws"] get_other [of ns k ns' k' maxAge now v t "writes publish initial ws"]
    by (auto simp: w writes_snoc last_write_snoc)
qed

text \<open>A reading that has gone stale stays stale until the key is written again.\<close>

lemma stale_stays:
  assumes "get ns k maxAge now (writes publish initial ws) = None" and "now \<le> now'"
  shows "get ns k maxAge now' (writes publish initial ws) = None"
  using assms time_sub_mono [OF assms(2)]
  by (auto simp: get_last_write too_old_def split: option.splits if_splits) (meson less_le_trans)

end

interpretation awake: fresh_store Awake_Publish Awake_Get "[]" "\<lambda>v _. v" "\<lambda>v. v \<noteq> []"
  by unfold_locales (auto simp: Awake_Publish_def Awake_Get_def gomap_simps)

interpretation pressure: fresh_store "\<lambda>ns k p t. Pressure_Publish ns k (p\<lparr>prAt := t\<rparr>)" Pressure_Get "[]"
    "\<lambda>p t. p\<lparr>prAt := t\<rparr>" "\<lambda>_. True"
  by unfold_locales (auto simp: Pressure_Publish_def Pressure_Get_def gomap_simps)

interpretation serving: fresh_store Serving_Publish Serving_Get "[]" "\<lambda>n _. n" "\<lambda>_. True"
  by unfold_locales (auto simp: Serving_Publish_def Serving_Get_def gomap_simps)

interpretation pool_supply: fresh_store "\<lambda>ns k rc t. Supply_Publish ns k (fst rc) (snd rc) t" Supply_Get "[]"
    "\<lambda>rc t. \<lparr>wsReplicas = fst rc, wsCapacity = snd rc, wsAt = t\<rparr>" "\<lambda>_. True"
  by unfold_locales (auto simp: Supply_Publish_def Supply_Get_def gomap_simps)

subsection \<open>Snapshots replaced wholesale\<close>

record bridgeSnapshot =
  lentTo :: "(string, string) gomap"
  bsAt :: gotime

type_synonym bridgeStore = "(string, bridgeSnapshot) gomap"

definition Bridge_Publish :: "string \<Rightarrow> (string, string) gomap \<Rightarrow> gotime \<Rightarrow> bridgeStore \<Rightarrow> bridgeStore" where
  "Bridge_Publish namespace lent t s = mput namespace \<lparr>lentTo = lent, bsAt = t\<rparr> s"

definition VariantFor :: "string \<Rightarrow> string \<Rightarrow> duration \<Rightarrow> gotime \<Rightarrow> bridgeStore \<Rightarrow> string option" where
  "VariantFor namespace pod maxAge now s =
     (case map_of s namespace of None \<Rightarrow> None
      | Some snapshot \<Rightarrow>
          if too_old maxAge now (bsAt snapshot) then None
          else case map_of (lentTo snapshot) pod of None \<Rightarrow> None
            | Some variant \<Rightarrow> if variant = [] then None else Some variant)"

record gpuContention =
  Limited :: "(string, (string, bool) gomap) gomap"
  gcAt :: gotime

definition Contention_Publish :: "(string, (string, bool) gomap) gomap \<Rightarrow> gotime \<Rightarrow> gpuContention option \<Rightarrow> gpuContention option" where
  "Contention_Publish limited now s = Some \<lparr>Limited = limited, gcAt = now\<rparr>"

definition Contended :: "string \<Rightarrow> string \<Rightarrow> duration \<Rightarrow> gotime \<Rightarrow> gpuContention option \<Rightarrow> bool" where
  "Contended namespace acc maxAge now s =
     (if acc = [] then False
      else case s of None \<Rightarrow> False
        | Some snapshot \<Rightarrow>
            if too_old maxAge now (gcAt snapshot) then False
            else mget2 (Limited snapshot) namespace acc = Some True)"

record sharePromised =
  promised :: "(string, (string, int) gomap) gomap"
  spAt :: gotime

definition SharePromisedMaxAge :: duration where
  "SharePromisedMaxAge = 5 * 60 * 10 ^ 9"

definition Promised_Publish :: "(string, (string, int) gomap) gomap \<Rightarrow> gotime \<Rightarrow> sharePromised option \<Rightarrow> sharePromised option" where
  "Promised_Publish p now s = Some \<lparr>promised = p, spAt = now\<rparr>"

definition Promised_Latest :: "duration \<Rightarrow> gotime \<Rightarrow> sharePromised option \<Rightarrow> (string, (string, int) gomap) gomap option" where
  "Promised_Latest maxAge now s =
     (case s of None \<Rightarrow> None | Some p \<Rightarrow> if maxAge < time_sub now (spAt p) then None else Some (promised p))"

record warmPoolUnheld =
  wuByType :: "(string, int) gomap"
  wuAt :: gotime

definition WarmPoolUnheldMaxAge :: duration where
  "WarmPoolUnheldMaxAge = 5 * 60 * 10 ^ 9"

definition Unheld_Publish :: "string \<Rightarrow> (string, int) gomap \<Rightarrow> gotime \<Rightarrow> (string, warmPoolUnheld) gomap \<Rightarrow> (string, warmPoolUnheld) gomap" where
  "Unheld_Publish namespace byType now s =
     (if byType = [] then mdel namespace s else mput namespace \<lparr>wuByType = byType, wuAt = now\<rparr> s)"

definition Unheld_Latest :: "duration \<Rightarrow> gotime \<Rightarrow> (string, warmPoolUnheld) gomap \<Rightarrow> (string, (string, int) gomap) gomap" where
  "Unheld_Latest maxAge now s =
     map (\<lambda>(ns, u). (ns, wuByType u)) (filter (\<lambda>(ns, u). time_sub now (wuAt u) \<le> maxAge) s)"

record gpuUsage =
  guByType :: "(string, int) gomap"
  guByNamespace :: "(string, (string, int) gomap) gomap"
  TakenAt :: gotime

definition Usage_Publish :: "(string, int) gomap \<Rightarrow> (string, (string, int) gomap) gomap \<Rightarrow> gotime \<Rightarrow> gpuUsage option \<Rightarrow> gpuUsage option" where
  "Usage_Publish byType byNamespace now s = Some \<lparr>guByType = byType, guByNamespace = byNamespace, TakenAt = now\<rparr>"

definition Usage_Get :: "gpuUsage option \<Rightarrow> gpuUsage option" where
  "Usage_Get s = s"

definition Usage_Reset :: "gpuUsage option \<Rightarrow> gpuUsage option" where
  "Usage_Reset s = None"

subsection \<open>Wakes from zero\<close>

record activations =
  acM :: "(string, gotime) gomap"
  firstAt :: "(string, gotime) gomap"

definition NewActivations :: activations where
  "NewActivations = \<lparr>acM = [], firstAt = []\<rparr>"

definition activationKey :: "string \<Rightarrow> string \<Rightarrow> string" where
  "activationKey namespace modelID = namespace @ ''/'' @ modelID"

definition Mark :: "string \<Rightarrow> string \<Rightarrow> gotime \<Rightarrow> activations \<Rightarrow> activations" where
  "Mark namespace modelID now a =
     (let key = activationKey namespace modelID;
          a' = a\<lparr>acM := mput key now (acM a)\<rparr>
      in if map_of (firstAt a) key = None then a'\<lparr>firstAt := mput key now (firstAt a)\<rparr> else a')"

definition CompleteWake :: "string \<Rightarrow> string \<Rightarrow> gotime \<Rightarrow> activations \<Rightarrow> duration option \<times> activations" where
  "CompleteWake namespace modelID now a =
     (let key = activationKey namespace modelID in
      case map_of (firstAt a) key of None \<Rightarrow> (None, a)
      | Some t \<Rightarrow> (Some (time_sub now t), a\<lparr>firstAt := mdel key (firstAt a)\<rparr>))"

definition Clear :: "string \<Rightarrow> string \<Rightarrow> activations \<Rightarrow> activations" where
  "Clear namespace modelID a =
     (let key = activationKey namespace modelID in
      a\<lparr>acM := mdel key (acM a), firstAt := mdel key (firstAt a)\<rparr>)"

definition WithinRetention :: "string \<Rightarrow> string \<Rightarrow> duration \<Rightarrow> gotime \<Rightarrow> activations \<Rightarrow> bool \<times> activations" where
  "WithinRetention namespace modelID retention now a =
     (if retention \<le> 0 then (False, a)
      else let key = activationKey namespace modelID in
        case map_of (acM a) key of None \<Rightarrow> (False, a)
        | Some t \<Rightarrow> if time_sub now t < retention then (True, a) else (False, a\<lparr>acM := mdel key (acM a)\<rparr>))"

subsection \<open>The decision store and its subscribers\<close>

text \<open>
  A subscriber's channel has a buffer of one and carries no payload: its state is whether a
  signal is pending. The cancel function of a subscription is called with its key and id.
\<close>

record decision =
  DesiredReplicas :: int
  UpdatedAt :: gotime

record store =
  dsM :: "(string, decision) gomap"
  dsSubs :: "(string, (nat, bool) gomap) gomap"
  nextSubID :: nat

definition NewStore :: store where
  "NewStore = \<lparr>dsM = [], dsSubs = [], nextSubID = 0\<rparr>"

definition storeKey :: "string \<Rightarrow> string \<Rightarrow> string" where
  "storeKey namespace name = namespace @ ''/'' @ name"

definition Store_Set :: "string \<Rightarrow> string \<Rightarrow> int \<Rightarrow> gotime \<Rightarrow> store \<Rightarrow> store" where
  "Store_Set namespace name desired now s =
     (let key = storeKey namespace name;
          s' = s\<lparr>dsM := mput key \<lparr>DesiredReplicas = desired, UpdatedAt = now\<rparr> (dsM s)\<rparr>
      in case map_of (dsSubs s) key of None \<Rightarrow> s'
         | Some subs \<Rightarrow> s'\<lparr>dsSubs := mput key (map (\<lambda>(i, _). (i, True)) subs) (dsSubs s)\<rparr>)"

definition Store_Subscribe :: "string \<Rightarrow> string \<Rightarrow> store \<Rightarrow> nat \<times> store" where
  "Store_Subscribe namespace name s =
     (let key = storeKey namespace name; i = nextSubID s
      in (i, s\<lparr>nextSubID := i + 1, dsSubs := mput2 key i False (dsSubs s)\<rparr>))"

definition Store_Cancel :: "string \<Rightarrow> string \<Rightarrow> nat \<Rightarrow> store \<Rightarrow> store" where
  "Store_Cancel namespace name i s =
     (let key = storeKey namespace name; subs = mdel2 key i (dsSubs s)
      in s\<lparr>dsSubs := (if mget [] subs key = [] then mdel key subs else subs)\<rparr>)"

text \<open>A receive on the channel: takes the pending signal, \<open>None\<close> when it would block.\<close>

definition Store_Receive :: "string \<Rightarrow> string \<Rightarrow> nat \<Rightarrow> store \<Rightarrow> store option" where
  "Store_Receive namespace name i s =
     (let key = storeKey namespace name in
      if mget2 (dsSubs s) key i = Some True then Some (s\<lparr>dsSubs := mput2 key i False (dsSubs s)\<rparr>) else None)"

definition Store_Get :: "string \<Rightarrow> string \<Rightarrow> store \<Rightarrow> decision option" where
  "Store_Get namespace name s = map_of (dsM s) (storeKey namespace name)"

subsection \<open>Histories of wakes\<close>

datatype act_event =
    EvMark string string gotime
  | EvComplete string string gotime
  | EvClear string string
  | EvWithin string string duration gotime

fun act_step :: "activations \<Rightarrow> act_event \<Rightarrow> activations" where
  "act_step a (EvMark ns m t) = Mark ns m t a"
| "act_step a (EvComplete ns m t) = snd (CompleteWake ns m t a)"
| "act_step a (EvClear ns m) = Clear ns m a"
| "act_step a (EvWithin ns m r t) = snd (WithinRetention ns m r t a)"

definition act_run :: "act_event list \<Rightarrow> activations" where
  "act_run es = foldl act_step NewActivations es"

text \<open>
  What the history says of one key: when the open wake episode began, and the last mark since
  the key was cleared.
\<close>

definition episode_step :: "string \<Rightarrow> gotime option \<Rightarrow> act_event \<Rightarrow> gotime option" where
  "episode_step key o' e = (case e of
       EvMark ns m t \<Rightarrow> if activationKey ns m = key \<and> o' = None then Some t else o'
     | EvComplete ns m t \<Rightarrow> if activationKey ns m = key then None else o'
     | EvClear ns m \<Rightarrow> if activationKey ns m = key then None else o'
     | EvWithin ns m r t \<Rightarrow> o')"

definition mark_step :: "string \<Rightarrow> gotime option \<Rightarrow> act_event \<Rightarrow> gotime option" where
  "mark_step key o' e = (case e of
       EvMark ns m t \<Rightarrow> if activationKey ns m = key then Some t else o'
     | EvClear ns m \<Rightarrow> if activationKey ns m = key then None else o'
     | _ \<Rightarrow> o')"

definition open_episode :: "string \<Rightarrow> act_event list \<Rightarrow> gotime option" where
  "open_episode key es = foldl (episode_step key) None es"

definition last_mark :: "string \<Rightarrow> act_event list \<Rightarrow> gotime option" where
  "last_mark key es = foldl (mark_step key) None es"

lemma act_snoc:
  "act_run (es @ [e]) = act_step (act_run es) e"
  "open_episode key (es @ [e]) = episode_step key (open_episode key es) e"
  "last_mark key (es @ [e]) = mark_step key (last_mark key es) e"
  by (simp_all add: act_run_def open_episode_def last_mark_def)

lemma firstAt_history: "map_of (firstAt (act_run es)) key = open_episode key es"
proof (induction es rule: rev_induct)
  case Nil
  then show ?case by (simp add: act_run_def NewActivations_def open_episode_def)
next
  case (snoc e es)
  then show ?case
    by (cases e) (auto simp: act_snoc episode_step_def Mark_def CompleteWake_def Clear_def WithinRetention_def
        Let_def gomap_simps split: option.splits)
qed

text \<open>
  The hold map keeps the last mark, or has dropped it once it was older than every retention
  asked for from then on.
\<close>

definition asked_ok :: "string \<Rightarrow> duration \<Rightarrow> gotime \<Rightarrow> act_event \<Rightarrow> bool" where
  "asked_ok key r now e = (case e of
     EvWithin ns m r' t \<Rightarrow> activationKey ns m = key \<longrightarrow> (r' \<le> 0 \<or> r \<le> r') \<and> t \<le> now | _ \<Rightarrow> True)"

lemma hold_history:
  assumes "list_all (asked_ok key r now) es"
  shows "map_of (acM (act_run es)) key = last_mark key es \<or>
    map_of (acM (act_run es)) key = None \<and> (\<exists>t. last_mark key es = Some t \<and> r \<le> time_sub now t)"
  using assms
proof (induction es rule: rev_induct)
  case Nil
  then show ?case by (simp add: act_run_def NewActivations_def last_mark_def)
next
  case (snoc e es)
  show ?case
  proof (cases e)
    case (EvWithin ns m r' t')
    have "r \<le> time_sub now t" if "\<not> r' \<le> 0" "activationKey ns m = key" "r' \<le> time_sub t' t" for t
      using that snoc.prems time_sub_mono [of t' now t] by (auto simp: EvWithin asked_ok_def)
    with snoc EvWithin show ?thesis
      by (auto simp: act_snoc mark_step_def WithinRetention_def Let_def gomap_simps not_less split: option.splits if_splits)
  qed (use snoc in \<open>auto simp: act_snoc mark_step_def Mark_def CompleteWake_def Clear_def Let_def gomap_simps
         split: option.splits\<close>)
qed

lemma WithinRetention_history:
  assumes "list_all (asked_ok (activationKey ns m) r now) es" and "0 < r"
  shows "fst (WithinRetention ns m r now (act_run es)) \<longleftrightarrow>
    (\<exists>t. last_mark (activationKey ns m) es = Some t \<and> time_sub now t < r)"
  using hold_history [OF assms(1)] assms(2)
  by (cases "last_mark (activationKey ns m) es") (auto simp: WithinRetention_def Let_def split: option.splits)

subsection \<open>Histories of the decision store\<close>

datatype store_event =
    EvSet string string int gotime
  | EvSubscribe string string
  | EvCancel string string nat
  | EvReceive string string nat

fun store_step :: "store \<Rightarrow> store_event \<Rightarrow> store" where
  "store_step s (EvSet ns n d t) = Store_Set ns n d t s"
| "store_step s (EvSubscribe ns n) = snd (Store_Subscribe ns n s)"
| "store_step s (EvCancel ns n i) = Store_Cancel ns n i s"
| "store_step s (EvReceive ns n i) = (case Store_Receive ns n i s of None \<Rightarrow> s | Some s' \<Rightarrow> s')"

definition store_run :: "store \<Rightarrow> store_event list \<Rightarrow> store" where
  "store_run s es = foldl store_step s es"

text \<open>Whether a write of the key has happened since the subscriber last received.\<close>

definition pending_step :: "string \<Rightarrow> nat \<Rightarrow> bool \<Rightarrow> store_event \<Rightarrow> bool" where
  "pending_step key i b e = (case e of
       EvSet ns n d t \<Rightarrow> storeKey ns n = key \<or> b
     | EvReceive ns n j \<Rightarrow> \<not> (storeKey ns n = key \<and> j = i) \<and> b
     | _ \<Rightarrow> b)"

definition cancels :: "string \<Rightarrow> nat \<Rightarrow> store_event \<Rightarrow> bool" where
  "cancels key i e = (case e of EvCancel ns n j \<Rightarrow> storeKey ns n = key \<and> j = i | _ \<Rightarrow> False)"

lemma map_of_signal: "map_of (map (\<lambda>(i, _). (i, True)) subs) j = map_option (\<lambda>_. True) (map_of subs j)"
  by (induction subs) auto

lemma mget_map_of: "map_of m k = Some v \<Longrightarrow> mget z m k = v"
  by (simp add: mget_def)

lemma subs_step:
  assumes "mget2 (dsSubs s) key i = Some b" and "i < nextSubID s" and "\<not> cancels key i e"
  shows "mget2 (dsSubs (store_step s e)) key i = Some (pending_step key i b e) \<and> i < nextSubID (store_step s e)"
proof (cases e)
  case (EvSet ns n d t)
  show ?thesis
  proof (cases "map_of (dsSubs s) (storeKey ns n)")
    case None
    then have "storeKey ns n \<noteq> key" using assms(1) by (auto simp: mget2_def mget_def)
    with None assms show ?thesis by (simp add: EvSet Store_Set_def pending_step_def Let_def)
  next
    case (Some subs)
    with assms show ?thesis
      by (auto simp: EvSet Store_Set_def pending_step_def Let_def mget2_def gomap_simps map_of_signal mget_map_of)
  qed
next
  case (EvSubscribe ns n)
  with assms show ?thesis by (simp add: Store_Subscribe_def pending_step_def Let_def gomap_simps)
next
  case (EvCancel ns n j)
  have "mget2 (mdel2 (storeKey ns n) j (dsSubs s)) key i = Some b"
    using assms(1,3) by (auto simp: EvCancel cancels_def gomap_simps)
  then show ?thesis
    using assms(2) by (auto simp: EvCancel Store_Cancel_def pending_step_def Let_def mget2_def gomap_simps)
      (auto simp: mget_def gomap_simps)
next
  case (EvReceive ns n j)
  with assms show ?thesis
    by (auto simp: Store_Receive_def pending_step_def Let_def gomap_simps)
qed

lemma subs_run:
  assumes "mget2 (dsSubs s) key i = Some b" and "i < nextSubID s" and "list_all (\<lambda>e. \<not> cancels key i e) es"
  shows "mget2 (dsSubs (store_run s es)) key i = Some (foldl (pending_step key i) b es)"
  using assms
proof (induction es arbitrary: s b)
  case Nil
  then show ?case by (simp add: store_run_def)
next
  case (Cons e es)
  then show ?case
    using subs_step [of s key i b e] by (simp add: store_run_def)
qed

subsection \<open>Properties\<close>

text \<open>
  C40. The four keyed stores (awake intents, pressure, serving counts, bridge supply) are
  registers with an age: after any sequence of publishes a read returns the value of the last
  publish under its own key if that is no older than the reader's \<open>maxAge\<close>, and nothing
  otherwise; an empty awake variant clears its key and zero is kept as a value.
\<close>

theorem fresh_stores_last_write:
  "Awake_Get ns k maxAge now (writes Awake_Publish [] ws1) =
     (case last_write ns k ws1 of None \<Rightarrow> None
      | Some (v, t) \<Rightarrow> if v \<noteq> [] \<and> \<not> too_old maxAge now t then Some v else None) \<and>
   Pressure_Get ns k maxAge now (writes (\<lambda>ns k p t. Pressure_Publish ns k (p\<lparr>prAt := t\<rparr>)) [] ws2) =
     (case last_write ns k ws2 of None \<Rightarrow> None
      | Some (p, t) \<Rightarrow> if too_old maxAge now t then None else Some (p\<lparr>prAt := t\<rparr>)) \<and>
   Serving_Get ns k maxAge now (writes Serving_Publish [] ws3) =
     (case last_write ns k ws3 of None \<Rightarrow> None | Some (n, t) \<Rightarrow> if too_old maxAge now t then None else Some n) \<and>
   map_option wsReplicas (Supply_Get ns k maxAge now (writes (\<lambda>ns k rc t. Supply_Publish ns k (fst rc) (snd rc) t) [] ws4)) =
     (case last_write ns k ws4 of None \<Rightarrow> None | Some (rc, t) \<Rightarrow> if too_old maxAge now t then None else Some (fst rc))"
  by (simp add: awake.get_last_write pressure.get_last_write serving.get_last_write pool_supply.get_last_write
      split: option.split)

text \<open>
  A wake is held for its retention and measured once. Over any history of marks, clears,
  retention queries and completions, \<open>WithinRetention\<close> holds a model exactly while its last
  mark since it was cleared is younger than the retention, provided the queries so far were
  not later than now and asked for no shorter retention; and \<open>CompleteWake\<close> reports the time
  since the FIRST mark of the episode it closes, and nothing when none is open.
\<close>

lemma activations_hold_and_measure:
  assumes "list_all (asked_ok (activationKey ns m) r now) es" and "0 < r"
  shows "(fst (WithinRetention ns m r now (act_run es)) \<longleftrightarrow>
      (\<exists>t. last_mark (activationKey ns m) es = Some t \<and> time_sub now t < r)) \<and>
    fst (CompleteWake ns m now (act_run es)) = map_option (time_sub now) (open_episode (activationKey ns m) es) \<and>
    fst (CompleteWake ns m now' (snd (CompleteWake ns m now (act_run es)))) = None"
proof -
  have "open_episode (activationKey ns m) (es @ [EvComplete ns m now]) = None"
    by (simp add: act_snoc episode_step_def)
  then have "map_of (firstAt (snd (CompleteWake ns m now (act_run es)))) (activationKey ns m) = None"
    using firstAt_history [of "es @ [EvComplete ns m now]" "activationKey ns m"] by (simp add: act_snoc)
  then have "fst (CompleteWake ns m now' (snd (CompleteWake ns m now (act_run es)))) = None"
    by (simp only: CompleteWake_def [of ns m now'] Let_def option.case fst_conv)
  then show ?thesis
    using WithinRetention_history [OF assms] firstAt_history [of es "activationKey ns m"]
    by (simp add: CompleteWake_def Let_def split: option.split)
qed

lemma activations_hold_and_measure_example:
  "fst (WithinRetention ''ns'' ''m'' 100 150 (act_run [EvMark ''ns'' ''m'' 10, EvMark ''ns'' ''m'' 60, EvWithin ''ns'' ''m'' 100 120])) \<and>
   fst (CompleteWake ''ns'' ''m'' 150 (act_run [EvMark ''ns'' ''m'' 10, EvMark ''ns'' ''m'' 60, EvWithin ''ns'' ''m'' 100 120])) = Some 140"
  using activations_hold_and_measure [of "''ns''" "''m''" 100 150 "[EvMark ''ns'' ''m'' 10, EvMark ''ns'' ''m'' 60, EvWithin ''ns'' ''m'' 100 120]"]
  by (simp add: asked_ok_def last_mark_def mark_step_def open_episode_def episode_step_def time_sub_def max_int_def min_int_def)

text \<open>
  No wake-up is lost. A subscriber that has not been cancelled finds a signal exactly
  when its target's decision has been written since its subscription or its last receive, however
  many writes there were and whatever others subscribe, cancel or receive; and a read after a
  write returns that write.
\<close>

lemma subscribers_see_writes:
  assumes "list_all (\<lambda>e. \<not> cancels (storeKey ns n) i e) es" and "Store_Subscribe ns n s = (i, s')"
  shows "(Store_Receive ns n i (store_run s' es) \<noteq> None \<longleftrightarrow> foldl (pending_step (storeKey ns n) i) False es) \<and>
    Store_Get ns n (Store_Set ns n d t (store_run s' es)) = Some \<lparr>DesiredReplicas = d, UpdatedAt = t\<rparr>"
proof -
  have "mget2 (dsSubs s') (storeKey ns n) i = Some False" "i < nextSubID s'"
    using assms(2) by (auto simp: Store_Subscribe_def Let_def gomap_simps)
  from subs_run [OF this assms(1)] show ?thesis
    by (auto simp: Store_Receive_def Store_Get_def Store_Set_def Let_def gomap_simps split: option.split)
qed

lemma subscribers_see_writes_example:
  "Store_Receive ''ns'' ''d'' 0 (store_run (snd (Store_Subscribe ''ns'' ''d'' NewStore))
     [EvSet ''ns'' ''d'' 3 1, EvSubscribe ''ns'' ''d'', EvCancel ''ns'' ''d'' 1]) \<noteq> None"
  using subscribers_see_writes [of "''ns''" "''d''" 0 "[EvSet ''ns'' ''d'' 3 1, EvSubscribe ''ns'' ''d'', EvCancel ''ns'' ''d'' 1]"
      NewStore "snd (Store_Subscribe ''ns'' ''d'' NewStore)" 0 0]
  by (simp add: cancels_def pending_step_def Store_Subscribe_def NewStore_def)

end
