(* ===== verification/ShareClaims.thy ===== *)
theory ShareClaims
  imports Prelude Complex_Main
begin

text \<open>
  Wakes that claim GPUs another variant is still releasing:
  \<open>internal/decision/share_claims.go\<close>. The recursive closure \<open>assign\<close> of
  \<open>ClaimSet\<close> is \<open>assign\<close> here, its backtracking loop over the preferred transfers
  \<open>tryEach\<close>. A score is a \<open>float64\<close> that is only compared: \<open>score\<close> has the
  infinities and NaN, \<open>score_lt\<close> is \<open><\<close> and \<open>score_cmp_lt\<close> the order of
  \<open>cmp.Compare\<close>, which puts NaN first.
\<close>

subsection \<open>Scores\<close>

datatype score = NaN | NegInf | Fin rat | PosInf

definition score_cmp_lt :: "score \<Rightarrow> score \<Rightarrow> bool" where
  "score_cmp_lt a b = (case a of
       NaN \<Rightarrow> b \<noteq> NaN
     | NegInf \<Rightarrow> b \<noteq> NaN \<and> b \<noteq> NegInf
     | Fin r \<Rightarrow> (case b of Fin q \<Rightarrow> r < q | PosInf \<Rightarrow> True | _ \<Rightarrow> False)
     | PosInf \<Rightarrow> False)"

definition score_lt :: "score \<Rightarrow> score \<Rightarrow> bool" where
  "score_lt a b \<longleftrightarrow> a \<noteq> NaN \<and> b \<noteq> NaN \<and> score_cmp_lt a b"

subsection \<open>Data\<close>

record shareClaimable =
  scID :: string
  ReceiverZ :: score
  DonorPodGPUs :: "int list"
  DonorGPUs :: int

record shareClaim =
  clScope :: string
  clAccelerator :: string
  clID :: string
  Wake :: string
  clModel :: string
  clAt :: gotime

datatype claimOutcome =
    ShareClaimRedirected | ShareClaimRefusedScore | ShareClaimRefusedFit | ShareClaimNoneReleasing | ShareClaimRefusedHeld

definition ShareClaimMaxAge :: duration where
  "ShareClaimMaxAge = 2 * 60 * 10 ^ 9"

definition ShareClaimModelHold :: duration where
  "ShareClaimModelHold = 2 * 60 * 10 ^ 9"

record shareClaimStore =
  claimable :: "(string, shareClaimable list) gomap option"
  claims :: "shareClaim list"
  stAt :: gotime
  lastClaim :: "(string, gotime) gomap"

definition emptyClaims :: shareClaimStore where
  "emptyClaims = \<lparr>claimable = None, claims = [], stAt = 0, lastClaim = []\<rparr>"

definition ShareGroupKey :: "string \<Rightarrow> string \<Rightarrow> string" where
  "ShareGroupKey scope acc = scope @ ''|'' @ acc"

record shareWake =
  swPods :: "int list"
  swGPUs :: int
  swVariant :: string

subsection \<open>Operations\<close>

definition PodsCover :: "int list \<Rightarrow> int \<Rightarrow> int list \<Rightarrow> int \<Rightarrow> bool" where
  "PodsCover donorPods donorGPUs receiverPods receiverGPUs =
     (if donorPods = [] \<or> receiverPods = [] then max receiverGPUs 1 \<le> max donorGPUs 1
      else if length donorPods < length receiverPods then False
      else let d = rev (sort donorPods); r = rev (sort receiverPods)
           in list_all (\<lambda>i. r ! i \<le> d ! i) [0..<length r])"

definition Claims_Publish :: "(string, shareClaimable list) gomap \<Rightarrow> gotime \<Rightarrow> shareClaimStore \<Rightarrow> shareClaimStore" where
  "Claims_Publish new now s =
     (let kept = filter (\<lambda>cl. \<not> ShareClaimMaxAge < time_sub now (clAt cl)) (claims s);
          c = map (\<lambda>(k, entries). (k, filter (\<lambda>e. \<not> list_ex (\<lambda>cl. clID cl = scID e) kept) entries)) new
      in s\<lparr>claimable := Some c, claims := kept, stAt := now\<rparr>)"

text \<open>
  A transfer qualifies for a replica: the wake scores lower than its receiver and its donor pods
  cover the replica's.
\<close>

definition qualifies :: "shareClaimable list \<Rightarrow> score \<Rightarrow> nat \<Rightarrow> shareWake \<Rightarrow> bool" where
  "qualifies entries z j w \<longleftrightarrow> score_lt z (ReceiverZ (entries ! j)) \<and>
     PodsCover (DonorPodGPUs (entries ! j)) (DonorGPUs (entries ! j)) (swPods w) (swGPUs w)"

function (sequential) assign :: "(nat \<Rightarrow> shareWake \<Rightarrow> bool) \<Rightarrow> nat list \<Rightarrow> nat list \<Rightarrow> shareWake list \<Rightarrow> nat list option"
  and tryEach :: "(nat \<Rightarrow> shareWake \<Rightarrow> bool) \<Rightarrow> nat list \<Rightarrow> nat list \<Rightarrow> shareWake \<Rightarrow> shareWake list \<Rightarrow> nat list \<Rightarrow> nat list option" where
  "assign ok pref used [] = Some []"
| "assign ok pref used (w # ws) = tryEach ok pref used w ws pref"
| "tryEach ok pref used w ws [] = None"
| "tryEach ok pref used w ws (j # js) =
     (if j \<in> set used \<or> \<not> ok j w then tryEach ok pref used w ws js
      else case assign ok pref (j # used) ws of
        Some picks \<Rightarrow> Some (j # picks)
      | None \<Rightarrow> tryEach ok pref used w ws js)"
  by pat_completeness auto
termination
  by (relation "measures [case_sum (\<lambda>(_, _, _, ws). length ws) (\<lambda>(_, _, _, _, ws, _). Suc (length ws)),
        case_sum (\<lambda>(_, pref, _, _). Suc (length pref)) (\<lambda>(_, _, _, _, _, js). length js)]") auto

definition wakeLess :: "shareWake \<Rightarrow> shareWake \<Rightarrow> bool" where
  "wakeLess a b \<longleftrightarrow> swGPUs b < swGPUs a"

definition prefLess :: "shareClaimable list \<Rightarrow> nat \<Rightarrow> nat \<Rightarrow> bool" where
  "prefLess entries a b =
     (let za = ReceiverZ (entries ! a); zb = ReceiverZ (entries ! b) in
      if score_cmp_lt zb za then True
      else if score_cmp_lt za zb then False
      else scID (entries ! a) < scID (entries ! b))"

definition ClaimSet :: "string \<Rightarrow> string \<Rightarrow> shareWake list \<Rightarrow> score \<Rightarrow> string \<Rightarrow> gotime \<Rightarrow> shareClaimStore
    \<Rightarrow> shareClaim list \<times> claimOutcome \<times> shareClaimStore" where
  "ClaimSet scope acc wakes z model now s =
     (case claimable s of None \<Rightarrow> ([], ShareClaimNoneReleasing, s)
      | Some groups \<Rightarrow>
          if wakes = [] \<or> ShareClaimMaxAge < time_sub now (stAt s) then ([], ShareClaimNoneReleasing, s)
          else if (case map_of (lastClaim s) model of None \<Rightarrow> False
                   | Some t \<Rightarrow> time_sub now t < ShareClaimModelHold) then ([], ShareClaimRefusedHeld, s)
          else let key = ShareGroupKey scope acc; entries = mget [] groups key in
            if entries = [] then ([], ShareClaimNoneReleasing, s)
            else if \<not> list_ex (\<lambda>e. score_lt z (ReceiverZ e)) entries then ([], ShareClaimRefusedScore, s)
            else let order = stable_sort wakeLess wakes;
                     pref = stable_sort (prefLess entries) [0..<length entries]
              in case assign (qualifies entries z) pref [] order of
                None \<Rightarrow> ([], ShareClaimRefusedFit, s)
              | Some pick \<Rightarrow>
                  let new = map (\<lambda>(j, w). \<lparr>clScope = scope, clAccelerator = acc, clID = scID (entries ! j),
                              Wake = swVariant w, clModel = model, clAt = now\<rparr>) (zip pick order);
                      rest = filter (\<lambda>e. \<not> list_ex (\<lambda>c. clID c = scID e) new) entries
                  in (new, ShareClaimRedirected,
                      s\<lparr>claimable := Some (mput key rest groups), claims := claims s @ new,
                        lastClaim := mput model now (lastClaim s)\<rparr>))"

definition Claims_Take :: "string \<Rightarrow> string \<Rightarrow> shareClaimStore \<Rightarrow> shareClaim list \<times> shareClaimStore" where
  "Claims_Take scope acc s =
     (let mine = (\<lambda>c. clScope c = scope \<and> clAccelerator c = acc)
      in (filter mine (claims s), s\<lparr>claims := filter (\<lambda>c. \<not> mine c) (claims s)\<rparr>))"

subsection \<open>The backtracking search\<close>

definition assignment :: "(nat \<Rightarrow> shareWake \<Rightarrow> bool) \<Rightarrow> nat list \<Rightarrow> nat list \<Rightarrow> shareWake list \<Rightarrow> nat list \<Rightarrow> bool" where
  "assignment ok pref used ws ps \<longleftrightarrow>
     list_all2 ok ps ws \<and> distinct ps \<and> set ps \<subseteq> set pref \<and> set ps \<inter> set used = {}"

lemma assign_sound:
  "assign ok pref used ws = Some ps \<Longrightarrow> assignment ok pref used ws ps"
  "set js \<subseteq> set pref \<Longrightarrow> tryEach ok pref used w ws js = Some ps \<Longrightarrow> assignment ok pref used (w # ws) ps"
proof (induction ok pref used ws and ok pref used w ws js arbitrary: ps and ps rule: assign_tryEach.induct)
  case (4 ok pref used w ws j js)
  show ?case
  proof (cases "j \<in> set used \<or> \<not> ok j w")
    case True
    then show ?thesis using 4 by simp
  next
    case False
    show ?thesis
    proof (cases "assign ok pref (j # used) ws")
      case None
      then show ?thesis using 4 False by simp
    next
      case (Some qs)
      then have "assignment ok pref (j # used) ws qs" using 4(2) False by simp
      then show ?thesis using 4(4,5) False Some by (auto simp: assignment_def)
    qed
  qed
qed (auto simp: assignment_def)

lemma assign_complete:
  "assignment ok pref used ws ps \<Longrightarrow> assign ok pref used ws \<noteq> None"
  "assignment ok pref used (w # ws) ps \<Longrightarrow> hd ps \<in> set js \<Longrightarrow> tryEach ok pref used w ws js \<noteq> None"
proof (induction ok pref used ws and ok pref used w ws js arbitrary: ps and ps rule: assign_tryEach.induct)
  case (2 ok pref used w ws)
  then have "hd ps \<in> set pref" by (cases ps) (auto simp: assignment_def)
  with 2 show ?case by simp
next
  case (4 ok pref used w ws j js)
  show ?case
  proof (cases "hd ps = j")
    case True
    then have "assignment ok pref (j # used) ws (tl ps)" "j \<notin> set used" "ok j w"
      using 4(4) by (cases ps; auto simp: assignment_def)+
    then show ?thesis using 4(2) [of "tl ps"] by auto
  next
    case False
    then show ?thesis using 4 by (auto split: option.split)
  qed
qed auto

lemma assign_iff: "(\<exists>ps. assign ok pref used ws = Some ps) \<longleftrightarrow> (\<exists>ps. assignment ok pref used ws ps)"
  using assign_sound(1) assign_complete(1) by blast

subsection \<open>Covering pods\<close>

abbreviation at_least :: "int \<Rightarrow> int list \<Rightarrow> nat" where
  "at_least x xs \<equiv> length (filter (\<lambda>y. x \<le> y) xs)"

lemma at_least_mset: "mset xs \<subseteq># mset ys \<Longrightarrow> at_least x xs \<le> at_least x ys"
  using size_mset_mono [OF multiset_filter_mono, of "mset xs" "mset ys" "\<lambda>y. x \<le> y"] by (simp flip: mset_filter)

lemma at_least_pairs: "list_all2 (\<le>) xs ys \<Longrightarrow> at_least x xs \<le> at_least x ys"
  by (induction rule: list_all2_induct) auto

lemma descending_at_least:
  assumes "sorted_wrt (\<ge>) xs" and "i < length xs"
  shows "x \<le> xs ! i \<longleftrightarrow> i < at_least x xs"
  using assms
proof (induction xs arbitrary: i)
  case Nil
  then show ?case by simp
next
  case (Cons y ys)
  show ?case
  proof (cases "x \<le> y")
    case True
    then show ?thesis using Cons by (cases i) auto
  next
    case False
    then have "filter (\<lambda>y. x \<le> y) ys = []" using Cons.prems(1) by (auto simp: filter_empty_conv)
    moreover have "(y # ys) ! i \<le> y" using Cons.prems by (cases i) auto
    ultimately show ?thesis using False by auto
  qed
qed

lemma sorted_rev_sort: "sorted_wrt (\<ge>) (rev (sort (xs :: int list)))"
  by (simp add: sorted_wrt_rev)

definition pods_matched :: "int list \<Rightarrow> int list \<Rightarrow> bool" where
  "pods_matched donorPods receiverPods \<longleftrightarrow>
     (\<exists>rs ds. mset rs = mset receiverPods \<and> mset ds \<subseteq># mset donorPods \<and> list_all2 (\<le>) rs ds)"

lemma pods_matched_sorted:
  assumes "pods_matched donorPods receiverPods"
  shows "length receiverPods \<le> length donorPods"
    and "i < length receiverPods \<Longrightarrow> rev (sort receiverPods) ! i \<le> rev (sort donorPods) ! i"
proof -
  obtain rs ds where m: "mset rs = mset receiverPods" "mset ds \<subseteq># mset donorPods" "list_all2 (\<le>) rs ds"
    using assms by (auto simp: pods_matched_def)
  have le: "at_least x (rev (sort receiverPods)) \<le> at_least x (rev (sort donorPods))" for x
    using at_least_mset [of "rev (sort receiverPods)" rs x] at_least_pairs [OF m(3), of x]
      at_least_mset [of ds "rev (sort donorPods)" x] m(1,2) by simp
  show len: "length receiverPods \<le> length donorPods"
    using m size_mset_mono [OF m(2)] by (metis list_all2_lengthD mset_eq_length size_mset)
  show "rev (sort receiverPods) ! i \<le> rev (sort donorPods) ! i" if "i < length receiverPods"
    using that len le [of "rev (sort receiverPods) ! i"]
      descending_at_least [OF sorted_rev_sort, of i receiverPods "rev (sort receiverPods) ! i"]
      descending_at_least [OF sorted_rev_sort, of i donorPods "rev (sort receiverPods) ! i"] by simp
qed

lemma sorted_pods_matched:
  assumes "length receiverPods \<le> length donorPods"
    and "\<And>i. i < length receiverPods \<Longrightarrow> rev (sort receiverPods) ! i \<le> rev (sort donorPods) ! i"
  shows "pods_matched donorPods receiverPods"
proof -
  let ?ds = "take (length receiverPods) (rev (sort donorPods))"
  have "mset ?ds \<subseteq># mset (rev (sort donorPods))"
    by (metis append_take_drop_id mset_append mset_subset_eq_add_left)
  moreover have "list_all2 (\<le>) (rev (sort receiverPods)) ?ds"
    using assms by (simp add: list_all2_conv_all_nth)
  ultimately show ?thesis unfolding pods_matched_def
    by (intro exI [of _ "rev (sort receiverPods)"] exI [of _ ?ds]) simp
qed

lemma PodsCover_known:
  "donorPods \<noteq> [] \<Longrightarrow> receiverPods \<noteq> [] \<Longrightarrow>
     PodsCover donorPods dg receiverPods rg \<longleftrightarrow> pods_matched donorPods receiverPods"
proof -
  assume "donorPods \<noteq> []" "receiverPods \<noteq> []"
  then have "PodsCover donorPods dg receiverPods rg \<longleftrightarrow> length receiverPods \<le> length donorPods \<and>
      (\<forall>i < length receiverPods. rev (sort receiverPods) ! i \<le> rev (sort donorPods) ! i)"
    by (simp add: PodsCover_def list_all_iff Let_def linorder_not_less Ball_def)
  then show ?thesis
    using pods_matched_sorted [of donorPods receiverPods] sorted_pods_matched [of receiverPods donorPods] by blast
qed

text \<open>
  The greedy pod comparison decides the matching problem: with both shapes known, it answers yes
  exactly when every receiver pod can be given a donor pod of its own, no smaller than it; with a
  shape unknown, exactly when the donor's GPUs are at least the receiver's, an unset count being one.
\<close>

lemma PodsCover_matches_pods:
  "PodsCover donorPods donorGPUs receiverPods receiverGPUs \<longleftrightarrow>
     (if donorPods = [] \<or> receiverPods = [] then max 1 receiverGPUs \<le> max 1 donorGPUs
      else \<exists>rs ds. mset rs = mset receiverPods \<and> mset ds \<subseteq># mset donorPods \<and>
             length rs = length ds \<and> list_all (\<lambda>(r, d). r \<le> d) (zip rs ds))"
proof (cases "donorPods = [] \<or> receiverPods = []")
  case True
  then show ?thesis by (simp add: PodsCover_def max.commute)
next
  case False
  then show ?thesis
    by (simp add: PodsCover_known pods_matched_def list_all2_iff list_all_iff case_prod_unfold)
qed

subsection \<open>Claims\<close>

text \<open>Each replica of a wake matched with a transfer of its own that qualifies for it.\<close>

definition matching :: "shareClaimable list \<Rightarrow> score \<Rightarrow> shareWake list \<Rightarrow> nat list \<Rightarrow> bool" where
  "matching entries z ws ps \<longleftrightarrow> distinct ps \<and> list_all2 (\<lambda>j w. j < length entries \<and> qualifies entries z j w) ps ws"

lemma list_all2_and_left: "list_all2 (\<lambda>x y. P x \<and> R x y) xs ys \<longleftrightarrow> (\<forall>x\<in>set xs. P x) \<and> list_all2 R xs ys"
  by (induction xs arbitrary: ys) (auto simp: list_all2_Cons1)

lemma assignment_matching:
  "set pref = {..<length entries} \<Longrightarrow> assignment (qualifies entries z) pref [] ws ps \<longleftrightarrow> matching entries z ws ps"
  by (auto simp: assignment_def matching_def list_all2_and_left)

lemma matching_perm:
  assumes "matching entries z ws ps" and "mset ws = mset ws'"
  shows "\<exists>ps'. matching entries z ws' ps'"
proof -
  obtain ps' where "list_all2 (\<lambda>j w. j < length entries \<and> qualifies entries z j w) ps' ws'" "mset ps' = mset ps"
    using list_all2_reorder_left_invariance [where R = "\<lambda>w j. j < length entries \<and> qualifies entries z j w" and xs' = ws']
      assms unfolding matching_def by (metis (no_types, lifting) list_all2_conv_all_nth)
  then show ?thesis using assms(1) mset_eq_imp_distinct_iff unfolding matching_def by blast
qed

lemma matching_outranks:
  assumes "matching entries z ws ps" and "ws \<noteq> []"
  shows "list_ex (\<lambda>e. score_lt z (ReceiverZ e)) entries"
proof -
  obtain j js w us where "ps = j # js" "ws = w # us"
    using assms by (cases ps; cases ws) (auto simp: matching_def)
  then have "j < length entries" "score_lt z (ReceiverZ (entries ! j))"
    using assms by (auto simp: matching_def qualifies_def)
  then show ?thesis unfolding list_ex_iff by (intro bexI [of _ "entries ! j"]) auto
qed

abbreviation order_of :: "shareWake list \<Rightarrow> shareWake list" where
  "order_of wakes \<equiv> stable_sort wakeLess wakes"

abbreviation search :: "shareClaimable list \<Rightarrow> score \<Rightarrow> shareWake list \<Rightarrow> nat list option" where
  "search entries z wakes \<equiv>
     assign (qualifies entries z) (stable_sort (prefLess entries) [0..<length entries]) [] (order_of wakes)"

lemma pref_set: "set (stable_sort lt [0..<n]) = {..<n}"
  by auto

lemma search_sound: "search entries z wakes = Some ps \<Longrightarrow> matching entries z (order_of wakes) ps"
  using assign_sound(1) assignment_matching [OF pref_set] by blast

lemma search_complete: "matching entries z wakes ps \<Longrightarrow> \<exists>qs. search entries z wakes = Some qs"
  using matching_perm [of entries z wakes ps "order_of wakes"] assign_complete(1) assignment_matching [OF pref_set]
  by fastforce

text \<open>When a wake may claim at all: the list is fresh and the model is not held.\<close>

definition may_claim :: "gotime \<Rightarrow> string \<Rightarrow> shareClaimStore \<Rightarrow> bool" where
  "may_claim now model s \<longleftrightarrow> claimable s \<noteq> None \<and> \<not> ShareClaimMaxAge < time_sub now (stAt s) \<and>
     (case map_of (lastClaim s) model of None \<Rightarrow> True | Some t \<Rightarrow> \<not> time_sub now t < ShareClaimModelHold)"

definition entries_of :: "string \<Rightarrow> string \<Rightarrow> shareClaimStore \<Rightarrow> shareClaimable list" where
  "entries_of scope acc s = (case claimable s of None \<Rightarrow> [] | Some g \<Rightarrow> mget [] g (ShareGroupKey scope acc))"

definition new_claims :: "string \<Rightarrow> string \<Rightarrow> string \<Rightarrow> gotime \<Rightarrow> shareClaimable list \<Rightarrow> nat list \<Rightarrow> shareWake list \<Rightarrow> shareClaim list" where
  "new_claims scope acc model now entries ps ws =
     map (\<lambda>(j, w). \<lparr>clScope = scope, clAccelerator = acc, clID = scID (entries ! j),
        Wake = swVariant w, clModel = model, clAt = now\<rparr>) (zip ps ws)"

definition claimed_store :: "string \<Rightarrow> string \<Rightarrow> string \<Rightarrow> gotime \<Rightarrow> shareClaim list \<Rightarrow> shareClaimStore \<Rightarrow> shareClaimStore" where
  "claimed_store scope acc model now new s =
     s\<lparr>claimable := Some (mput (ShareGroupKey scope acc)
         (filter (\<lambda>e. \<not> list_ex (\<lambda>c. clID c = scID e) new) (entries_of scope acc s)) (the (claimable s))),
       claims := claims s @ new, lastClaim := mput model now (lastClaim s)\<rparr>"

definition redirects :: "string \<Rightarrow> string \<Rightarrow> shareWake list \<Rightarrow> score \<Rightarrow> string \<Rightarrow> gotime \<Rightarrow> shareClaimStore \<Rightarrow> bool" where
  "redirects scope acc wakes z model now s \<longleftrightarrow>
     wakes \<noteq> [] \<and> may_claim now model s \<and> (\<exists>ps. matching (entries_of scope acc s) z wakes ps)"

lemma search_matching: "(\<exists>qs. search entries z wakes = Some qs) \<longleftrightarrow> (\<exists>ps. matching entries z wakes ps)"
  using search_sound search_complete matching_perm [of entries z "order_of wakes" _ wakes] by (metis mset_stable_sort)

lemma ClaimSet_refused:
  assumes "\<not> redirects scope acc wakes z model now s"
  shows "\<exists>out. ClaimSet scope acc wakes z model now s = ([], out, s) \<and> out \<noteq> ShareClaimRedirected"
proof -
  have "wakes = [] \<or> \<not> may_claim now model s \<or> search (entries_of scope acc s) z wakes = None"
    using assms search_matching [of "entries_of scope acc s" z wakes] by (auto simp: redirects_def)
  then show ?thesis
    by (elim disjE) (auto simp: ClaimSet_def may_claim_def entries_of_def Let_def split: option.splits)
qed

lemma ClaimSet_redirected:
  assumes "redirects scope acc wakes z model now s"
  obtains ps where "matching (entries_of scope acc s) z (order_of wakes) ps"
    and "ClaimSet scope acc wakes z model now s =
      (new_claims scope acc model now (entries_of scope acc s) ps (order_of wakes), ShareClaimRedirected,
       claimed_store scope acc model now (new_claims scope acc model now (entries_of scope acc s) ps (order_of wakes)) s)"
proof -
  have r: "wakes \<noteq> []" "may_claim now model s" and m: "\<exists>ps. matching (entries_of scope acc s) z wakes ps"
    using assms by (auto simp: redirects_def)
  obtain ps where ps: "search (entries_of scope acc s) z wakes = Some ps"
    using m search_matching by blast
  have "list_ex (\<lambda>e. score_lt z (ReceiverZ e)) (entries_of scope acc s)"
    using m r(1) matching_outranks by blast
  moreover from this have "entries_of scope acc s \<noteq> []" by auto
  ultimately have "ClaimSet scope acc wakes z model now s =
      (new_claims scope acc model now (entries_of scope acc s) ps (order_of wakes), ShareClaimRedirected,
       claimed_store scope acc model now (new_claims scope acc model now (entries_of scope acc s) ps (order_of wakes)) s)"
    using r ps
    by (auto simp: ClaimSet_def may_claim_def entries_of_def Let_def new_claims_def claimed_store_def split: option.splits)
  then show thesis using that search_sound [OF ps] by blast
qed

text \<open>
  C37. A wake is funded whole or not at all, and whenever it can be. \<open>ClaimSet\<close> redirects
  transfers exactly when the claimable list is fresh, the model is not within its hold, and the
  replicas can be matched with different transfers of the wake's own group that they outrank and
  that cover their pods: the search never misses a matching. It then returns one claim per replica,
  each on a transfer of its own; otherwise it returns no claim and leaves the store as it was.
\<close>

theorem ClaimSet_all_or_none:
  "case ClaimSet scope acc wakes z model now s of (new, out, s') \<Rightarrow>
     (out = ShareClaimRedirected \<longleftrightarrow> wakes \<noteq> [] \<and> may_claim now model s \<and>
        (\<exists>ps. matching (entries_of scope acc s) z wakes ps)) \<and>
     (if out = ShareClaimRedirected
      then (\<exists>ps order. mset order = mset wakes \<and> matching (entries_of scope acc s) z order ps \<and>
              map clID new = map (\<lambda>j. scID (entries_of scope acc s ! j)) ps \<and> map Wake new = map swVariant order)
        \<and> claims s' = claims s @ new \<and> map_of (lastClaim s') model = Some now
      else new = [] \<and> s' = s)"
proof (cases "redirects scope acc wakes z model now s")
  case True
  obtain ps where ps: "matching (entries_of scope acc s) z (order_of wakes) ps"
    and c: "ClaimSet scope acc wakes z model now s =
      (new_claims scope acc model now (entries_of scope acc s) ps (order_of wakes), ShareClaimRedirected,
       claimed_store scope acc model now (new_claims scope acc model now (entries_of scope acc s) ps (order_of wakes)) s)"
    using ClaimSet_redirected [OF True] .
  have "length ps = length (order_of wakes)" using ps by (auto simp: matching_def dest: list_all2_lengthD)
  then have "map clID (new_claims scope acc model now (entries_of scope acc s) ps (order_of wakes)) =
        map (\<lambda>j. scID (entries_of scope acc s ! j)) ps"
    and "map Wake (new_claims scope acc model now (entries_of scope acc s) ps (order_of wakes)) = map swVariant (order_of wakes)"
    by (auto simp: new_claims_def comp_def case_prod_unfold intro!: nth_equalityI)
  then show ?thesis using True ps unfolding c
    by (auto simp: redirects_def claimed_store_def gomap_simps intro!: exI [of _ "order_of wakes"] exI [of _ ps])
next
  case False
  then show ?thesis using ClaimSet_refused [OF False] by (auto simp: redirects_def)
qed

subsection \<open>No transfer is claimed twice\<close>

definition listed :: "(string, shareClaimable list) gomap \<Rightarrow> string list" where
  "listed g = concat (map (\<lambda>(_, es). map scID es) g)"

definition claims_ok :: "shareClaimStore \<Rightarrow> bool" where
  "claims_ok s \<longleftrightarrow> distinct (map clID (claims s)) \<and>
     (case claimable s of None \<Rightarrow> True
      | Some g \<Rightarrow> distinct (listed g) \<and> set (listed g) \<inter> clID ` set (claims s) = {})"

lemma listed_append: "listed (g1 @ (k, es) # g2) = listed g1 @ map scID es @ listed g2"
  by (simp add: listed_def)

lemma mput_at:
  "map_of g k = Some v \<Longrightarrow> \<exists>g1 g2. g = g1 @ (k, v) # g2 \<and> (\<forall>w. mput k w g = g1 @ (k, w) # g2)"
proof (induction g)
  case Nil
  then show ?case by simp
next
  case (Cons a g)
  show ?case
  proof (cases "fst a = k")
    case True
    then show ?thesis using Cons.prems by (intro exI [of _ "[]"] exI [of _ g]) (cases a, auto simp: mput_def)
  next
    case False
    then obtain g1 g2 where "g = g1 @ (k, v) # g2" "\<forall>w. mput k w g = g1 @ (k, w) # g2"
      using Cons by (cases a) auto
    then show ?thesis using False by (intro exI [of _ "a # g1"] exI [of _ g2]) (cases a, auto simp: mput_def)
  qed
qed

lemma distinct_filter_map: "distinct (map f xs) \<Longrightarrow> distinct (map f (filter P xs))"
  by (rule distinct_map_filter)

lemma in_listed: "x \<in> set (listed g) \<longleftrightarrow> (\<exists>p\<in>set g. \<exists>e\<in>set (snd p). x = scID e)"
  by (auto simp: listed_def case_prod_unfold)

lemma in_listed_filter:
  "x \<in> set (listed (map (\<lambda>(k, es). (k, filter P es)) g)) \<longleftrightarrow> (\<exists>p\<in>set g. \<exists>e\<in>set (snd p). P e \<and> x = scID e)"
  by (auto simp: listed_def case_prod_unfold)

lemma distinct_listed_filter:
  "distinct (listed g) \<Longrightarrow> distinct (listed (map (\<lambda>(k, es). (k, filter P es)) g))"
proof (induction g)
  case (Cons a g)
  obtain k es where a: "a = (k, es)" by (cases a)
  have "set (listed (map (\<lambda>(k, es). (k, filter P es)) g)) \<subseteq> set (listed g)"
    by (intro subsetI) (simp only: in_listed_filter, simp only: in_listed, blast)
  moreover have "scID ` set (filter P es) \<subseteq> scID ` set es" by auto
  moreover have "distinct (map scID es)" "distinct (listed g)" "scID ` set es \<inter> set (listed g) = {}"
    using Cons.prems listed_append [of "[]" k es g] a by (simp_all add: listed_def)
  moreover have "listed (map (\<lambda>(k, es). (k, filter P es)) (a # g)) =
      map scID (filter P es) @ listed (map (\<lambda>(k, es). (k, filter P es)) g)"
    by (simp add: listed_def a)
  ultimately show ?case
    using Cons.IH by (simp add: distinct_filter_map del: list.map) (meson disjoint_iff subset_iff)
qed (simp add: listed_def)

lemma Publish_claims_ok:
  assumes "claims_ok s" and "distinct (listed new)"
  shows "claims_ok (Claims_Publish new now s)"
proof -
  define kept where "kept = filter (\<lambda>cl. \<not> ShareClaimMaxAge < time_sub now (clAt cl)) (claims s)"
  let ?c = "map (\<lambda>(k, entries). (k, filter (\<lambda>e. \<not> list_ex (\<lambda>cl. clID cl = scID e) kept) entries)) new"
  have "distinct (map clID kept)"
    using assms(1) by (simp add: claims_ok_def kept_def distinct_filter_map)
  moreover have "set (listed ?c) \<inter> clID ` set kept = {}"
    unfolding disjoint_iff in_listed_filter by (auto simp: list_ex_iff)
  ultimately show ?thesis
    using distinct_listed_filter [OF assms(2)] by (simp add: claims_ok_def Claims_Publish_def Let_def flip: kept_def)
qed

lemma Take_claims_ok: "claims_ok s \<Longrightarrow> claims_ok (snd (Claims_Take scope acc s))"
  by (auto simp: claims_ok_def Claims_Take_def Let_def distinct_filter_map split: option.splits)

lemma claimed_ids:
  assumes "matching entries z ws ps" and "distinct (map scID entries)"
  shows "distinct (map clID (new_claims scope acc model now entries ps ws))"
    and "clID ` set (new_claims scope acc model now entries ps ws) \<subseteq> scID ` set entries"
proof -
  have len: "length ps = length ws" and ps: "distinct ps" "\<forall>j\<in>set ps. j < length entries"
    using assms(1) by (auto simp: matching_def list_all2_and_left dest: list_all2_lengthD)
  have ids: "map clID (new_claims scope acc model now entries ps ws) = map (\<lambda>j. scID (entries ! j)) ps"
    using len by (auto simp: new_claims_def comp_def case_prod_unfold intro!: nth_equalityI)
  have "inj_on (\<lambda>j. scID (entries ! j)) (set ps)"
    using ps(2) assms(2) by (intro inj_onI) (metis distinct_conv_nth length_map nth_map)
  then show "distinct (map clID (new_claims scope acc model now entries ps ws))"
    using ps(1) unfolding ids by (simp add: distinct_map)
  have "set (map clID (new_claims scope acc model now entries ps ws)) \<subseteq> scID ` set entries"
    unfolding ids using ps(2) by auto
  then show "clID ` set (new_claims scope acc model now entries ps ws) \<subseteq> scID ` set entries" by simp
qed

lemma ClaimSet_claims:
  assumes "ClaimSet scope acc wakes z model now s = (new, out, s')"
  shows "claims s' = claims s @ new"
proof (cases "redirects scope acc wakes z model now s")
  case True
  obtain ps where "ClaimSet scope acc wakes z model now s =
      (new_claims scope acc model now (entries_of scope acc s) ps (order_of wakes), ShareClaimRedirected,
       claimed_store scope acc model now (new_claims scope acc model now (entries_of scope acc s) ps (order_of wakes)) s)"
    using ClaimSet_redirected [OF True] .
  then show ?thesis using assms by (simp add: claimed_store_def)
next
  case False
  then show ?thesis using ClaimSet_refused [OF False] assms by auto
qed

lemma disjoint_sub: "A \<inter> B = {} \<Longrightarrow> N \<subseteq> B \<Longrightarrow> A \<inter> N = {}"
  by blast

lemma ClaimSet_claims_ok:
  assumes ok: "claims_ok s"
  shows "claims_ok (snd (snd (ClaimSet scope acc wakes z model now s)))"
proof (cases "redirects scope acc wakes z model now s")
  case False
  then show ?thesis using ClaimSet_refused [OF False] ok by auto
next
  case True
  let ?es = "entries_of scope acc s" and ?k = "ShareGroupKey scope acc"
  obtain ps where ps: "matching ?es z (order_of wakes) ps"
    and c: "ClaimSet scope acc wakes z model now s =
      (new_claims scope acc model now ?es ps (order_of wakes), ShareClaimRedirected,
       claimed_store scope acc model now (new_claims scope acc model now ?es ps (order_of wakes)) s)"
    using ClaimSet_redirected [OF True] .
  define new where "new = new_claims scope acc model now ?es ps (order_of wakes)"
  obtain g where g: "claimable s = Some g" using True by (auto simp: redirects_def may_claim_def)
  have "wakes \<noteq> []" using True by (simp add: redirects_def)
  then have "ps \<noteq> []" using ps by (auto simp: matching_def) (metis mset_stable_sort mset_zero_iff)
  then have "?es \<noteq> []" using ps by (cases ps) (auto simp: matching_def list_all2_Cons1)
  then have "map_of g ?k = Some ?es" using g by (auto simp: entries_of_def mget_def split: option.splits)
  from mput_at [OF this] obtain g1 g2 where
    split: "g = g1 @ (?k, ?es) # g2" "\<And>w. mput ?k w g = g1 @ (?k, w) # g2" by blast
  have d: "distinct (listed g1 @ map scID ?es @ listed g2)"
    and dis: "set (listed g1 @ map scID ?es @ listed g2) \<inter> clID ` set (claims s) = {}"
    using ok g split(1) by (simp_all add: claims_ok_def listed_append)
  have ids: "distinct (map clID new)" "clID ` set new \<subseteq> scID ` set ?es"
    using claimed_ids [OF ps] d unfolding new_def by simp_all
  have D: "set (listed g1) \<inter> scID ` set ?es = {}" "set (listed g2) \<inter> scID ` set ?es = {}"
      "set (listed g1) \<inter> set (listed g2) = {}" "distinct (listed g1)" "distinct (map scID ?es)" "distinct (listed g2)"
    using d by (auto simp only: distinct_append set_append set_map)
  have C: "set (listed g1) \<inter> clID ` set (claims s) = {}" "scID ` set ?es \<inter> clID ` set (claims s) = {}"
      "set (listed g2) \<inter> clID ` set (claims s) = {}"
    using dis by (auto simp only: set_append set_map)
  then have C': "clID ` set (claims s) \<inter> scID ` set ?es = {}" by (simp only: Int_commute)
  have apart: "set (listed g1) \<inter> clID ` set new = {}" "set (listed g2) \<inter> clID ` set new = {}"
      "clID ` set (claims s) \<inter> clID ` set new = {}"
    using disjoint_sub [OF D(1) ids(2)] disjoint_sub [OF D(2) ids(2)] disjoint_sub [OF C' ids(2)] by simp_all
  define rest where "rest = filter (\<lambda>e. \<not> list_ex (\<lambda>c. clID c = scID e) new) ?es"
  have rest: "distinct (map scID rest)" "scID ` set rest \<subseteq> scID ` set ?es" "scID ` set rest \<inter> clID ` set new = {}"
    using D(5) by (auto simp: rest_def distinct_filter_map list_ex_iff)
  have rest_apart: "set (listed g1) \<inter> scID ` set rest = {}" "set (listed g2) \<inter> scID ` set rest = {}"
      "scID ` set rest \<inter> clID ` set (claims s) = {}"
    using disjoint_sub [OF D(1) rest(2)] disjoint_sub [OF D(2) rest(2)] disjoint_sub [OF C' rest(2)]
    by (simp_all add: Int_commute)
  have "distinct (map clID (claims s @ new))"
    using ok ids(1) apart(3) by (simp add: claims_ok_def)
  moreover have "distinct (listed g1 @ map scID rest @ listed g2)"
    using D(3,4,6) rest(1) rest_apart by (simp add: Int_Un_distrib Int_commute)
  moreover have "set (listed g1 @ map scID rest @ listed g2) \<inter> clID ` set (claims s @ new) = {}"
    using C apart rest(3) rest_apart by (simp add: image_Un Int_Un_distrib Int_Un_distrib2)
  ultimately show ?thesis unfolding c
    by (simp add: claims_ok_def claimed_store_def g split(2) listed_append flip: new_def rest_def)
qed

text \<open>The calls the engine and the wake loop make on the store, in any order.\<close>

datatype claimCall =
    CallPublish "(string, shareClaimable list) gomap" gotime
  | CallClaimSet string string "shareWake list" score string gotime
  | CallTake string string

definition claimStep :: "shareClaimStore \<Rightarrow> claimCall \<Rightarrow> shareClaimStore" where
  "claimStep s c = (case c of
       CallPublish new now \<Rightarrow> Claims_Publish new now s
     | CallClaimSet scope acc wakes z model now \<Rightarrow> snd (snd (ClaimSet scope acc wakes z model now s))
     | CallTake scope acc \<Rightarrow> snd (Claims_Take scope acc s))"

definition publishes_once :: "claimCall \<Rightarrow> bool" where
  "publishes_once c = (case c of CallPublish new _ \<Rightarrow> distinct (listed new) | _ \<Rightarrow> True)"

lemma emptyClaims_ok: "claims_ok emptyClaims"
  by (simp add: claims_ok_def emptyClaims_def)

lemma claimSteps_ok: "claims_ok s \<Longrightarrow> list_all publishes_once cs \<Longrightarrow> claims_ok (foldl claimStep s cs)"
proof (induction cs arbitrary: s)
  case (Cons c cs)
  then have "claims_ok (claimStep s c)"
    by (cases c) (auto simp: claimStep_def publishes_once_def Publish_claims_ok ClaimSet_claims_ok Take_claims_ok)
  with Cons show ?case by simp
qed simp

text \<open>
  C38. Whatever the order in which the engine publishes and takes and wakes claim, as long as every
  published list names each transfer once, the claims the engine has yet to take are on different
  transfers and none of those transfers can be claimed again: two wakes never get the same hole.
\<close>

theorem no_transfer_claimed_twice:
  assumes "list_all publishes_once calls"
  shows "case foldl claimStep emptyClaims calls of s \<Rightarrow>
     distinct (map clID (claims s)) \<and>
     (case ClaimSet scope acc wakes z model now s of (new, _, s') \<Rightarrow>
        distinct (map clID (claims s @ new)) \<and>
        set (map scID (entries_of scope acc s')) \<inter> set (map clID (claims s @ new)) = {})"
proof -
  define s where "s = foldl claimStep emptyClaims calls"
  obtain new out s' where c: "ClaimSet scope acc wakes z model now s = (new, out, s')"
    by (cases "ClaimSet scope acc wakes z model now s") auto
  have ok: "claims_ok s" "claims_ok s'"
    using claimSteps_ok [OF emptyClaims_ok assms] ClaimSet_claims_ok [of s scope acc wakes z model now] c
    by (simp_all add: s_def)
  have cl: "claims s' = claims s @ new"
    using c by (rule ClaimSet_claims)
  have "set (map scID (entries_of scope acc s')) \<inter> clID ` set (claims s') = {}"
  proof (cases "claimable s'")
    case None
    then show ?thesis by (simp add: entries_of_def)
  next
    case (Some g)
    then have "set (map scID (entries_of scope acc s')) \<subseteq> set (listed g)"
      by (auto simp: entries_of_def mget_def listed_def split: option.splits dest: map_of_SomeD)
        (metis image_eqI map_of_SomeD)
    then show ?thesis using ok(2) Some unfolding claims_ok_def by auto
  qed
  then show ?thesis using ok c cl unfolding s_def [symmetric] by (simp add: claims_ok_def image_Un)
qed

definition exTransfers :: "(string, shareClaimable list) gomap" where
  "exTransfers = [(''|H100'', [\<lparr>scID = ''t1'', ReceiverZ = PosInf, DonorPodGPUs = [4, 4], DonorGPUs = 8\<rparr>,
     \<lparr>scID = ''t2'', ReceiverZ = PosInf, DonorPodGPUs = [], DonorGPUs = 1\<rparr>])]"

definition exWake :: "shareWake" where
  "exWake = \<lparr>swPods = [2], swGPUs = 2, swVariant = ''ns/v''\<rparr>"

definition exCalls :: "claimCall list" where
  "exCalls = [CallPublish exTransfers 0, CallClaimSet [] ''H100'' [exWake] NegInf ''ns/m'' 1, CallPublish exTransfers 2]"

text \<open>A wake gets the first transfer; the engine still lists it, and a second wake finds only the other.\<close>

theorem no_transfer_claimed_twice_witness:
  "list_all publishes_once exCalls \<and> map clID (claims (foldl claimStep emptyClaims exCalls)) = [''t1''] \<and>
   (case foldl claimStep emptyClaims exCalls of s \<Rightarrow>
     distinct (map clID (claims s)) \<and>
     (case ClaimSet [] ''H100'' [exWake] NegInf ''ns/n'' 3 s of (new, _, s') \<Rightarrow>
        distinct (map clID (claims s @ new)) \<and>
        set (map scID (entries_of [] ''H100'' s')) \<inter> set (map clID (claims s @ new)) = {}))"
proof -
  have "list_all publishes_once exCalls" by code_simp
  moreover have "map clID (claims (foldl claimStep emptyClaims exCalls)) = [''t1'']" by code_simp
  ultimately show ?thesis
    by (intro conjI no_transfer_claimed_twice)
qed

end
