(* ===== verification/Budget.thy ===== *)
theory Budget
  imports Accelerator
begin

text \<open>
  The GPU budget model every placement decision is judged by:
  \<open>internal/engines/allocation/budget_merge.go\<close>, \<open>gpu_budget.go\<close>, the constraint
  types of \<open>limiter_interfaces.go\<close> and the budget helpers of
  \<open>cost_aware_optimizer.go\<close> and \<open>greedy_score_optimizer.go\<close>.

  Cluster bounds are intersected into one budget (\<open>mergeConstraints\<close>), the allowlists that hold
  a namespace into another (\<open>mergeNamespaceConstraints\<close>), and every spend debits the key it is
  charged to and the family key above it (\<open>debitBudget\<close>). A nil budget, which is unbounded, is
  \<open>None\<close>. The fields of \<open>ResourceConstraints\<close> that cohort borrowing and Kueue read
  are in the extension \<open>borrowConstraints\<close> of theory \<open>Borrow\<close>.

  \<open>clampProducts\<close> and \<open>debitBudget\<close> write the map they range over; each writes only the
  key it visits, and the values it reads of other keys belong to family keys, which are not written.
\<close>

named_theorems budget_simps \<open>budgets after clamping and debits\<close>

type_synonym budgets = "(string, int) gomap"

subsection \<open>Pools and constraints\<close>

record resourcePool =
  Limit :: int
  Used :: int

definition ResourcePool_Available :: "resourcePool \<Rightarrow> int" where
  "ResourcePool_Available p = (let avail = Limit p - Used p in if avail < 0 then 0 else avail)"

record resourceConstraints =
  ProviderName :: string
  Pools :: "(string, resourcePool) gomap"
  NamespacePools :: "(string, (string, resourcePool) gomap) gomap option"
  NamespaceScoped :: bool
  TotalLimit :: int
  TotalUsed :: int
  TotalAvail :: int
  rcPoolsVersion :: nat

text \<open>\<open>None\<close> is the nil pointer a list of constraints may hold.\<close>

definition isClusterBound :: "resourceConstraints option \<Rightarrow> bool" where
  "isClusterBound c = (case c of None \<Rightarrow> False | Some c \<Rightarrow> \<not> NamespaceScoped c \<and> NamespacePools c = None)"

definition clusterBounds :: "resourceConstraints option list \<Rightarrow> resourceConstraints list" where
  "clusterBounds constraints = map the (filter isClusterBound constraints)"

definition poolBound :: "resourcePool \<Rightarrow> bound" where
  "poolBound p = \<lparr>bFree = ResourcePool_Available p, bUnlimited = Limit p < 0\<rparr>"

definition clusterBound :: "(string, resourcePool) gomap \<Rightarrow> string \<Rightarrow> int \<times> bool" where
  "clusterBound pools name =
     (let (avail, unlimited, bounds) = ClusterAllowlistBound poolBound pools name in
      if bounds \<and> unlimited then (max_int, True) else (avail, bounds))"

definition clusterBoundAll :: "(string, resourcePool) gomap list \<Rightarrow> string \<Rightarrow> int \<times> bool" where
  "clusterBoundAll allowlists name =
     (let (avail, unlimited, bounds) = ClusterAllowlistsBound poolBound allowlists name in
      if bounds \<and> unlimited then (max_int, True) else (avail, bounds))"

definition allowlistBound :: "(string, resourcePool) gomap \<Rightarrow> string \<Rightarrow> int \<times> bool \<times> bool" where
  "allowlistBound pools name = AllowlistBound poolBound pools name"

definition hasKey :: "(string, resourcePool) gomap list \<Rightarrow> string \<Rightarrow> bool" where
  "hasKey allowlists name = list_ex (\<lambda>pools. list_ex (\<lambda>key. equal_fold key name) (mkeys pools)) allowlists"

definition materialized :: "(string, resourcePool) gomap list \<Rightarrow> string \<Rightarrow> bool" where
  "materialized allowlists name =
     (if hasKey allowlists name then True
      else list_all (\<lambda>pools. snd (snd (allowlistBound pools name))) allowlists)"

definition resolvedNames :: "string list \<Rightarrow> string list" where
  "resolvedNames declared = filter IsAcceleratorResolved declared"

definition namespaceKeys :: "resourceConstraints option list \<Rightarrow> string list" where
  "namespaceKeys constraints =
     concat (map (\<lambda>c. case c of None \<Rightarrow> []
       | Some c \<Rightarrow> (case NamespacePools c of None \<Rightarrow> [] | Some m \<Rightarrow> concat (map (\<lambda>(ns, perType). mkeys perType) m)))
       constraints)"

definition clusterProducts :: "resourceConstraints option list \<Rightarrow> string list" where
  "clusterProducts constraints =
     concat (map (\<lambda>c. filter (\<lambda>key. \<not> IsFamily key) (mkeys (Pools c))) (clusterBounds constraints))"

definition distinctSpellings :: "string list \<Rightarrow> string list" where
  "distinctSpellings names =
     foldl (\<lambda>out n. if list_ex (\<lambda>p. equal_fold p n) out then out else out @ [n]) [] (sort names)"

subsection \<open>Budgets\<close>

definition isUnboundedBudget :: "int \<Rightarrow> bool" where
  "isUnboundedBudget v \<longleftrightarrow> v < 0 \<or> v = max_int"

definition clampProduct :: "budgets \<Rightarrow> string \<Rightarrow> int \<Rightarrow> int" where
  "clampProduct b p pv =
     (if IsFamily p then pv
      else foldl (\<lambda>pv (f, fv).
             if isUnboundedBudget fv \<or> \<not> IsProductOf p f then pv
             else if isUnboundedBudget pv \<or> fv < pv then fv else pv) pv b)"

definition clampProducts :: "budgets \<Rightarrow> budgets" where
  "clampProducts b = map (\<lambda>(p, pv). (p, clampProduct b p pv)) b"

definition debitBudget :: "budgets \<Rightarrow> string \<Rightarrow> int \<Rightarrow> budgets" where
  "debitBudget b key n =
     (if n \<le> 0 then b
      else clampProducts (map (\<lambda>(other, v).
             (other, if \<not> isUnboundedBudget v \<and> Covers other key then max 0 (v - n) else v)) b))"

definition mergeConstraints :: "resourceConstraints option list \<Rightarrow> string list \<Rightarrow> budgets option" where
  "mergeConstraints constraints declared =
     (let cluster = clusterBounds constraints in
      if cluster = [] then None
      else let keyed = map Pools cluster;
               names = resolvedNames declared @ concat (map mkeys keyed)
           in Some (clampProducts (concat (map (\<lambda>name.
                if \<not> materialized keyed name then []
                else let (budget, bounded) = clusterBoundAll keyed name in if bounded then [(name, budget)] else [])
                (distinctSpellings names)))))"

definition mergeWithAllowanceKeys :: "resourceConstraints option list \<Rightarrow> string list \<Rightarrow> budgets option" where
  "mergeWithAllowanceKeys constraints declared =
     mergeConstraints constraints (declared @ namespaceKeys constraints)"

definition saturatingAdd :: "int \<Rightarrow> int \<Rightarrow> int" where
  "saturatingAdd a b = (if a = max_int \<or> b = max_int \<or> max_int - b < a then max_int else a + b)"

text \<open>The struct \<open>family\<close> local to \<open>budgetTotal\<close>.\<close>

record family =
  fmFamily :: int
  fmHasFamily :: bool
  fmProducts :: budgets

definition addToFamily :: "(string, family) gomap \<Rightarrow> string \<times> int \<Rightarrow> (string, family) gomap" where
  "addToFamily fs kv =
     (let (key, v0) = kv;
          v = (if isUnboundedBudget v0 then max_int else v0);
          name = to_lower (Family key);
          f = mget \<lparr>fmFamily = 0, fmHasFamily = False, fmProducts = []\<rparr> fs name
      in mput name
           (if IsFamily key then f\<lparr>fmFamily := max (fmFamily f) v, fmHasFamily := True\<rparr>
            else let p = to_lower key in f\<lparr>fmProducts := mput p (max (mget 0 (fmProducts f) p) v) (fmProducts f)\<rparr>) fs)"

definition familyHeld :: "family \<Rightarrow> int" where
  "familyHeld f =
     (if \<not> fmHasFamily f then foldl (\<lambda>held (p, v). saturatingAdd held v) 0 (fmProducts f) else fmFamily f)"

fun sumFamilies :: "int \<Rightarrow> (string \<times> family) list \<Rightarrow> int" where
  "sumFamilies tot [] = tot"
| "sumFamilies tot ((name, f) # fs) =
     (let tot' = saturatingAdd tot (familyHeld f) in if tot' = max_int then tot' else sumFamilies tot' fs)"

definition budgetTotal :: "budgets option \<Rightarrow> int" where
  "budgetTotal b = (case b of None \<Rightarrow> max_int | Some b \<Rightarrow> sumFamilies 0 (foldl addToFamily [] b))"

definition budgetKey :: "budgets \<Rightarrow> string \<Rightarrow> string" where
  "budgetKey b declared = (case FindBudgetKey b declared of Some key \<Rightarrow> key | None \<Rightarrow> declared)"

definition budgetOf :: "budgets option \<Rightarrow> string \<Rightarrow> int" where
  "budgetOf b name =
     (case b of None \<Rightarrow> max_int
      | Some b \<Rightarrow> (case FindBudgetKey b name of Some key \<Rightarrow> mget 0 b key | None \<Rightarrow> 0))"

definition clusterBudgetFor :: "budgets option \<Rightarrow> string \<Rightarrow> int \<times> bool" where
  "clusterBudgetFor available name =
     (case available of None \<Rightarrow> (0, False)
      | Some b \<Rightarrow> (case FindBudgetKey b name of
            Some key \<Rightarrow> (mget 0 b key, True)
          | None \<Rightarrow> if name = DefaultAcceleratorName then (0, False) else (0, True)))"

definition nsPoolBudget :: "resourcePool \<Rightarrow> int" where
  "nsPoolBudget p = (if Limit p < 0 then - 1 else ResourcePool_Available p)"

definition tighterBudget :: "int \<Rightarrow> int \<Rightarrow> int" where
  "tighterBudget a b = (if a < 0 then b else if b < 0 then a else if b < a then b else a)"

subsection \<open>Namespaces\<close>

definition namespaceHolders :: "resourceConstraints option list \<Rightarrow> (string, (string, resourcePool) gomap list) gomap" where
  "namespaceHolders constraints =
     foldl (\<lambda>holders c. case c of None \<Rightarrow> holders
       | Some c \<Rightarrow> (case NamespacePools c of None \<Rightarrow> holders
           | Some m \<Rightarrow> foldl (\<lambda>holders (ns, perType). mput ns (mget [] holders ns @ [perType]) holders) holders m))
       [] constraints"

definition closedFamilyBudget :: "(string, resourcePool) gomap list \<Rightarrow> string \<Rightarrow> int" where
  "closedFamilyBudget allowlists name =
     (let (avail, unlimited, _) = ClusterAllowlistsBound poolBound allowlists name in if unlimited then - 1 else avail)"

text \<open>What one holder allows on a name, and the fold over the holders.\<close>

definition holderBudget :: "string \<Rightarrow> (string, resourcePool) gomap \<Rightarrow> int" where
  "holderBudget name perType =
     (let (avail, unlimited, listed) = allowlistBound perType name in
      if \<not> listed then 0 else if unlimited then - 1 else avail)"

fun holdersBudget :: "string \<Rightarrow> (string, resourcePool) gomap list \<Rightarrow> int" where
  "holdersBudget name [] = 0"
| "holdersBudget name (p # ps) = foldl (\<lambda>v perType. tighterBudget v (holderBudget name perType)) (holderBudget name p) ps"

definition namespaceBudget :: "(string, resourcePool) gomap list \<Rightarrow> (string, resourcePool) gomap list \<Rightarrow> string \<Rightarrow> int" where
  "namespaceBudget pools cluster name =
     (if ClosesFamily pools name then closedFamilyBudget (pools @ cluster) name
      else if ClosesFamily cluster name \<and> ListsProduct pools name then closedFamilyBudget (pools @ cluster) name
      else holdersBudget name pools)"

definition mergeNamespaceConstraints :: "resourceConstraints option list \<Rightarrow> string list \<Rightarrow> (string, budgets) gomap option" where
  "mergeNamespaceConstraints constraints declared =
     (let holders = namespaceHolders constraints in
      if holders = [] then None
      else let cluster = map Pools (clusterBounds constraints)
           in Some (map (\<lambda>(ns, pools).
                (ns, clampProducts (concat (map (\<lambda>name.
                       if \<not> materialized pools name then [] else [(name, namespaceBudget pools cluster name)])
                     (distinctSpellings (resolvedNames declared @ concat (map mkeys pools))))))) holders))"

definition effectiveAvailable :: "budgets option \<Rightarrow> budgets option \<Rightarrow> budgets option" where
  "effectiveAvailable available nsBudget =
     (case nsBudget of None \<Rightarrow> available
      | Some ns \<Rightarrow> Some (map (\<lambda>(accType, nsAvail).
          (accType,
           let (cv, clusterCapped) = clusterBudgetFor available accType in
           if nsAvail < 0 then (if clusterCapped then cv else max_int)
           else if clusterCapped \<and> cv < nsAvail then cv else nsAvail)) ns))"

subsection \<open>The placement check\<close>

definition gpuBudgets :: "resourceConstraints option list \<Rightarrow> string \<Rightarrow> string list \<Rightarrow> budgets option \<times> bool" where
  "gpuBudgets constraints namespace declared =
     (if constraints = [] then (None, False)
      else case (case mergeNamespaceConstraints constraints declared of None \<Rightarrow> None | Some m \<Rightarrow> map_of m namespace) of
        None \<Rightarrow> (mergeConstraints constraints declared, False)
      | Some nsBudgets \<Rightarrow>
          (let perType = mergeWithAllowanceKeys constraints declared in
           (Some (map (\<lambda>(accType, budget).
              (accType,
               let (cv, bounded) = clusterBudgetFor perType accType in
               if bounded \<and> cv \<noteq> max_int then tighterBudget budget cv else budget)) nsBudgets), True)))"

definition anyPoolFits :: "budgets \<Rightarrow> int \<Rightarrow> bool" where
  "anyPoolFits b need = list_ex (\<lambda>(_, budget). budget < 0 \<or> need \<le> budget) b"

text \<open>
  The first loop of \<open>FitsGPUBudget\<close>: the demand by the key it is drawn from, \<open>None\<close> when a
  type is denied. A nil map of budgets reads as an empty one.
\<close>

definition drawStep :: "budgets \<Rightarrow> bool \<Rightarrow> budgets option \<Rightarrow> string \<times> int \<Rightarrow> budgets option" where
  "drawStep b nsScoped acc tn =
     (case acc of None \<Rightarrow> None
      | Some spent \<Rightarrow>
          (let (rawType, need) = tn; found = FindBudgetKey b rawType in
           if need \<le> 0 then Some spent
           else if rawType = DefaultAcceleratorName \<and> found = None then
             (if \<not> nsScoped then (if anyPoolFits b need then Some spent else None)
              else case b of [(key, _)] \<Rightarrow> Some (madd key need spent) | _ \<Rightarrow> None)
           else case found of None \<Rightarrow> None | Some key \<Rightarrow> Some (madd key need spent)))"

definition coveredSum :: "string \<Rightarrow> budgets \<Rightarrow> int" where
  "coveredSum key spent = msum_where (Covers key) spent"

definition withinBudgets :: "budgets \<Rightarrow> budgets \<Rightarrow> bool" where
  "withinBudgets b spent = list_all (\<lambda>(key, budget). isUnboundedBudget budget \<or> coveredSum key spent \<le> budget) b"

definition fitsBudgets :: "budgets \<Rightarrow> bool \<Rightarrow> (string, int) gomap \<Rightarrow> bool" where
  "fitsBudgets b nsScoped demand =
     (case foldl (drawStep b nsScoped) (Some []) demand of None \<Rightarrow> False | Some spent \<Rightarrow> withinBudgets b spent)"

definition FitsGPUBudget :: "resourceConstraints option list \<Rightarrow> string \<Rightarrow> (string, int) gomap \<Rightarrow> bool" where
  "FitsGPUBudget constraints namespace demand =
     (if constraints = [] then True
      else let (b, nsScoped) = gpuBudgets constraints namespace (mkeys demand) in
        if b = None \<and> \<not> nsScoped then True
        else fitsBudgets (case b of None \<Rightarrow> [] | Some b \<Rightarrow> b) nsScoped demand)"

definition GPUBudgets :: "resourceConstraints option list \<Rightarrow> string \<Rightarrow> budgets option \<times> bool" where
  "GPUBudgets constraints namespace = gpuBudgets constraints namespace []"

end
