(* ===== verification/BudgetSpend.thy ===== *)
theory BudgetSpend
  imports Budget
begin

text \<open>
  What holds of the budgets of \<open>Budget\<close>: a merged budget intersects the bounds it was merged
  from, spends that stay within it never exceed any of them, and the placement check agrees with
  spending one type after the other.
\<close>

subsection \<open>Budgets as numbers of GPUs\<close>

definition budget_gpus :: "int \<Rightarrow> enat" where
  "budget_gpus v = (if isUnboundedBudget v then \<infinity> else enat (nat v))"

lemma budget_gpus_le:
  "\<not> isUnboundedBudget w \<Longrightarrow> budget_gpus v \<le> budget_gpus w \<longleftrightarrow> \<not> isUnboundedBudget v \<and> v \<le> w"
  by (auto simp: budget_gpus_def isUnboundedBudget_def)

lemma budget_gpus_min:
  "budget_gpus (if isUnboundedBudget pv \<or> fv < pv then fv else pv) = min (budget_gpus pv) (budget_gpus fv)"
  if "\<not> isUnboundedBudget fv"
  using that by (auto simp: budget_gpus_def min_def isUnboundedBudget_def)

lemma clamp_fold_gpus:
  "budget_gpus (foldl (\<lambda>pv (f, fv). if isUnboundedBudget fv \<or> \<not> IsProductOf p f then pv
      else if isUnboundedBudget pv \<or> fv < pv then fv else pv) pv b)
   = min (budget_gpus pv) (INF kv \<in> {kv \<in> set b. IsProductOf p (fst kv)}. budget_gpus (snd kv))"
proof (induction b arbitrary: pv)
  case Nil
  then show ?case by (simp add: top_enat_def)
next
  case (Cons kv b)
  obtain f fv where kv: "kv = (f, fv)" by (cases kv)
  have split: "{x \<in> set (kv # b). IsProductOf p (fst x)} =
      (if IsProductOf p f then insert kv {x \<in> set b. IsProductOf p (fst x)} else {x \<in> set b. IsProductOf p (fst x)})"
    using kv by auto
  have inf: "(INF x \<in> {x \<in> set (kv # b). IsProductOf p (fst x)}. budget_gpus (snd x)) =
      (if IsProductOf p f then min (budget_gpus fv) (INF x \<in> {x \<in> set b. IsProductOf p (fst x)}. budget_gpus (snd x))
       else (INF x \<in> {x \<in> set b. IsProductOf p (fst x)}. budget_gpus (snd x)))"
    unfolding split using kv by (simp add: inf_min)
  show ?case
  proof (cases "isUnboundedBudget fv \<or> \<not> IsProductOf p f")
    case True
    then show ?thesis using Cons kv inf by (auto simp: budget_gpus_def)
  next
    case False
    then show ?thesis using Cons kv inf budget_gpus_min [of fv pv] by (simp add: min.assoc)
  qed
qed

lemma clampProduct_gpus:
  "budget_gpus (clampProduct b p pv) =
     min (budget_gpus pv) (INF kv \<in> {kv \<in> set b. IsProductOf p (fst kv)}. budget_gpus (snd kv))"
proof (cases "IsFamily p")
  case True
  then have "{kv \<in> set b. IsProductOf p (fst kv)} = {}" by (simp add: IsProductOf_def)
  then show ?thesis using True by (simp only: clampProduct_def) (simp add: top_enat_def)
next
  case False
  then show ?thesis by (simp add: clampProduct_def clamp_fold_gpus)
qed

lemma clampProduct_family: "IsFamily p \<Longrightarrow> clampProduct b p pv = pv"
  by (simp add: clampProduct_def)

lemma clampProduct_le: "budget_gpus (clampProduct b p pv) \<le> budget_gpus pv"
  by (simp add: clampProduct_gpus)

lemma clampProduct_le_family:
  assumes "(f, fv) \<in> set b" and "IsProductOf p f"
  shows "budget_gpus (clampProduct b p pv) \<le> budget_gpus fv"
proof -
  have "(INF kv \<in> {kv \<in> set b. IsProductOf p (fst kv)}. budget_gpus (snd kv)) \<le> budget_gpus (snd (f, fv))"
    using assms by (intro INF_lower) simp
  then show ?thesis by (simp add: clampProduct_gpus min.coboundedI2)
qed

subsection \<open>Well-formed budgets\<close>

text \<open>One key per spelling, and no product holds more than its family.\<close>

definition one_key :: "budgets \<Rightarrow> bool" where
  "one_key b = distinct (map to_lower (mkeys b))"

definition clamped :: "budgets \<Rightarrow> bool" where
  "clamped b = list_all (\<lambda>(p, pv). list_all (\<lambda>(f, fv).
     if IsProductOf p f \<and> \<not> isUnboundedBudget fv then \<not> isUnboundedBudget pv \<and> pv \<le> fv else True) b) b"

text \<open>The values are Go ints.\<close>

definition int_range :: "budgets \<Rightarrow> bool" where
  "int_range b = list_all (\<lambda>(_, v). v \<le> max_int) b"

lemma clampedD:
  "clamped b \<Longrightarrow> (p, pv) \<in> set b \<Longrightarrow> (f, fv) \<in> set b \<Longrightarrow> IsProductOf p f \<Longrightarrow> \<not> isUnboundedBudget fv \<Longrightarrow>
     \<not> isUnboundedBudget pv \<and> pv \<le> fv"
  unfolding clamped_def list_all_iff by fastforce

lemma mkeys_clampProducts [budget_simps]: "mkeys (clampProducts b) = mkeys b"
  by (simp add: clampProducts_def)

lemma one_key_cong: "mkeys b = mkeys b' \<Longrightarrow> one_key b = one_key b'"
  by (simp add: one_key_def)

lemma in_clampProducts:
  "(p, v) \<in> set (clampProducts b) \<longleftrightarrow> (\<exists>pv. (p, pv) \<in> set b \<and> v = clampProduct b p pv)"
  by (auto simp: clampProducts_def)

lemma clamped_clampProducts: "clamped (clampProducts b)"
  unfolding clamped_def list_all_iff
proof (intro ballI, clarify)
  fix p v f fv
  assume "(p, v) \<in> set (clampProducts b)" "(f, fv) \<in> set (clampProducts b)"
  then obtain pv fv' where p: "(p, pv) \<in> set b" "v = clampProduct b p pv"
    and f: "(f, fv') \<in> set b" "fv = clampProduct b f fv'" by (auto simp: in_clampProducts)
  show "if IsProductOf p f \<and> \<not> isUnboundedBudget fv then \<not> isUnboundedBudget v \<and> v \<le> fv else True"
  proof (cases "IsProductOf p f \<and> \<not> isUnboundedBudget fv")
    case True
    then have "fv = fv'" using f(2) by (simp add: clampProduct_family IsProductOf_def)
    then have "budget_gpus v \<le> budget_gpus fv"
      using clampProduct_le_family [OF f(1)] True p(2) by simp
    then show ?thesis using True by (simp add: budget_gpus_le)
  qed auto
qed

lemma one_key_inj:
  assumes "one_key b" and "(k, v) \<in> set b" and "(k', v') \<in> set b" and "equal_fold k k'"
  shows "k = k' \<and> v = v'"
proof -
  have "distinct (map (to_lower \<circ> fst) b)" using assms(1) by (simp add: one_key_def mkeys_def)
  then have "(k, v) = (k', v')"
    using assms(2,3,4) distinct_map_eq [of "to_lower \<circ> fst" b "(k, v)" "(k', v')"] by (simp add: equal_fold_def)
  then show ?thesis by simp
qed

lemma one_key_ok: "one_key b \<Longrightarrow> gomap_ok b"
  by (simp add: one_key_def gomap_ok_def distinct_map)

lemma one_key_mget: "one_key b \<Longrightarrow> (k, v) \<in> set b \<Longrightarrow> mget 0 b k = v"
  by (simp add: one_key_ok mget_in)

subsection \<open>Debits\<close>

lemma mkeys_debitBudget [budget_simps]: "mkeys (debitBudget b key n) = mkeys b"
  by (simp add: debitBudget_def budget_simps)

lemma FindBudgetKey_debit [budget_simps]: "FindBudgetKey (debitBudget b key n) name = FindBudgetKey b name"
  by (simp add: FindBudgetKey_def budget_simps)

lemma budgetKey_debit [budget_simps]: "budgetKey (debitBudget b key n) name = budgetKey b name"
  by (simp add: budgetKey_def budget_simps)

lemma clamped_debit: "clamped b \<Longrightarrow> clamped (debitBudget b key n)"
  by (simp add: debitBudget_def clamped_clampProducts)

lemma foldl_picks_where:
  assumes "\<And>x y. f x y = x \<or> P y \<and> f x y = g y"
  shows "foldl f x ys = x \<or> (\<exists>y \<in> set ys. P y \<and> foldl f x ys = g y)"
proof (induction ys arbitrary: x)
  case (Cons y ys)
  have "foldl f (f x y) ys = f x y \<or> (\<exists>y' \<in> set ys. P y' \<and> foldl f (f x y) ys = g y')" by (rule Cons.IH)
  then show ?case using assms [of x y] by auto
qed simp

lemma clampProduct_cases: "clampProduct b p pv = pv \<or> (\<exists>f. (f, clampProduct b p pv) \<in> set b \<and> IsProductOf p f)"
proof (cases "IsFamily p")
  case False
  have "foldl (\<lambda>pv (f, fv). if isUnboundedBudget fv \<or> \<not> IsProductOf p f then pv
        else if isUnboundedBudget pv \<or> fv < pv then fv else pv) pv b = pv \<or>
      (\<exists>kv \<in> set b. IsProductOf p (fst kv) \<and> foldl (\<lambda>pv (f, fv). if isUnboundedBudget fv \<or> \<not> IsProductOf p f then pv
        else if isUnboundedBudget pv \<or> fv < pv then fv else pv) pv b = snd kv)"
    by (rule foldl_picks_where) (auto split: prod.split)
  then show ?thesis using False unfolding clampProduct_def by auto
qed (simp add: clampProduct_def)

lemma int_range_iff: "int_range b \<longleftrightarrow> (\<forall>v \<in> snd ` set b. v \<le> max_int)"
  by (auto simp: int_range_def list_all_iff)

lemma int_range_clamp:
  assumes "int_range b"
  shows "int_range (clampProducts b)"
  unfolding int_range_iff
proof
  fix v
  assume "v \<in> snd ` set (clampProducts b)"
  then obtain p pv where "(p, pv) \<in> set b" "v = clampProduct b p pv" by (auto simp: clampProducts_def)
  then have "v \<in> snd ` set b" using clampProduct_cases [of b p pv] by (metis image_eqI snd_conv)
  then show "v \<le> max_int" using assms unfolding int_range_iff by blast
qed

lemma int_range_debit:
  assumes "int_range b"
  shows "int_range (debitBudget b key n)"
proof (cases "n \<le> 0")
  case True
  then show ?thesis using assms by (simp add: debitBudget_def)
next
  case False
  have "int_range (map (\<lambda>(other, v). (other, if \<not> isUnboundedBudget v \<and> Covers other key then max 0 (v - n) else v)) b)"
    using assms False by (auto simp: int_range_def list_all_iff)
  then show ?thesis using False by (simp add: debitBudget_def int_range_clamp)
qed

lemma one_key_debit: "one_key b \<Longrightarrow> one_key (debitBudget b key n)"
  by (simp add: one_key_cong [OF mkeys_debitBudget])

text \<open>A spend the key can afford takes at least its amount off every finite key that covers it.\<close>

lemma debit_takes:
  assumes ok: "one_key b" "clamped b" "int_range b" and key: "(key, kv) \<in> set b" "0 < n" "isUnboundedBudget kv \<or> n \<le> kv"
    and k: "(k, v) \<in> set b" "\<not> isUnboundedBudget v"
  shows "\<exists>v'. (k, v') \<in> set (debitBudget b key n) \<and> \<not> isUnboundedBudget v' \<and> v' + (if Covers k key then n else 0) \<le> v"
proof -
  let ?d = "map (\<lambda>(other, v). (other, if \<not> isUnboundedBudget v \<and> Covers other key then max 0 (v - n) else v)) b"
  define w where "w = (if Covers k key then max 0 (v - n) else v)"
  have in_d: "(k, w) \<in> set ?d" using k by (force simp: w_def)
  have le: "n \<le> v" if "Covers k key"
  proof (cases "equal_fold k key")
    case True
    then have "v = kv" using one_key_inj [OF ok(1) k(1) key(1)] by simp
    then show ?thesis using key(3) k(2) by simp
  next
    case False
    then have "IsProductOf key k" using that by (simp add: Covers_def)
    then have "\<not> isUnboundedBudget kv \<and> kv \<le> v" using clampedD [OF ok(2) key(1) k(1)] k(2) by simp
    then show ?thesis using key(3) by simp
  qed
  have w: "\<not> isUnboundedBudget w" "w + (if Covers k key then n else 0) = v"
    using le k key(2) ok(3) by (auto simp: w_def isUnboundedBudget_def int_range_def list_all_iff)
  have "(k, clampProduct ?d k w) \<in> set (debitBudget b key n)"
    using in_d key(2) by (auto simp: debitBudget_def in_clampProducts)
  moreover have "\<not> isUnboundedBudget (clampProduct ?d k w) \<and> clampProduct ?d k w \<le> w"
    using clampProduct_le [of ?d k w] w(1) by (simp add: budget_gpus_le)
  ultimately show ?thesis using w(2) by (intro exI [of _ "clampProduct ?d k w"]) auto
qed

text \<open>Spends one after the other, as the optimizers make them: \<open>None\<close> when one is not affordable.\<close>

fun spendAll :: "budgets \<Rightarrow> (string \<times> int) list \<Rightarrow> budgets option" where
  "spendAll b [] = Some b"
| "spendAll b ((name, n) # spends) =
     (let v = budgetOf (Some b) name in
      if 0 < n \<and> (isUnboundedBudget v \<or> n \<le> v) then spendAll (debitBudget b (budgetKey b name) n) spends else None)"

definition spentUnder :: "string \<Rightarrow> budgets \<Rightarrow> (string \<times> int) list \<Rightarrow> int" where
  "spentUnder k b spends = sum_list (map (\<lambda>(name, n). if Covers k (budgetKey b name) then n else 0) spends)"

lemma affordable_key:
  assumes "0 < n" and "isUnboundedBudget (budgetOf (Some b) name) \<or> n \<le> budgetOf (Some b) name" and "one_key b"
  obtains kv where "FindBudgetKey b name = Some (budgetKey b name)" and "(budgetKey b name, kv) \<in> set b"
    and "isUnboundedBudget kv \<or> n \<le> kv"
proof (cases "FindBudgetKey b name")
  case None
  then show thesis using assms max_int_pos by (simp add: budgetOf_def isUnboundedBudget_def)
next
  case (Some key)
  then have "key \<in> set (mkeys b)" using FindBudgetKey_sound by blast
  then obtain kv where kv: "(key, kv) \<in> set b" by (auto simp: mkeys_def)
  then have "mget 0 b key = kv" using one_key_mget [OF assms(3)] by simp
  then show thesis using that [of kv] kv Some assms(2) by (simp add: budgetKey_def budgetOf_def)
qed

lemma spendAll_within:
  assumes "one_key b" and "clamped b" and "int_range b" and "spendAll b spends = Some b'" and "(k, v) \<in> set b" and "\<not> isUnboundedBudget v"
  shows "0 \<le> v - spentUnder k b spends"
  using assms
proof (induction spends arbitrary: b v)
  case Nil
  then show ?case by (simp add: spentUnder_def isUnboundedBudget_def)
next
  case (Cons s spends)
  obtain name n where s: "s = (name, n)" by (cases s)
  have n: "0 < n" "isUnboundedBudget (budgetOf (Some b) name) \<or> n \<le> budgetOf (Some b) name"
    and rest: "spendAll (debitBudget b (budgetKey b name) n) spends = Some b'"
    using Cons.prems(4) s by (auto simp: Let_def split: if_splits)
  obtain kv where kv: "(budgetKey b name, kv) \<in> set b" "isUnboundedBudget kv \<or> n \<le> kv"
    using affordable_key [OF n Cons.prems(1)] by metis
  obtain v' where v': "(k, v') \<in> set (debitBudget b (budgetKey b name) n)" "\<not> isUnboundedBudget v'"
      "v' + (if Covers k (budgetKey b name) then n else 0) \<le> v"
    using debit_takes [OF Cons.prems(1,2,3) kv(1) n(1) kv(2) Cons.prems(5,6)] by blast
  have "0 \<le> v' - spentUnder k (debitBudget b (budgetKey b name) n) spends"
    using Cons.IH [OF one_key_debit clamped_debit int_range_debit rest v'(1,2)] Cons.prems(1,2,3) by simp
  then show ?case using v'(3) s by (simp add: spentUnder_def budget_simps split: if_splits)
qed

subsection \<open>Merged budgets\<close>

definition dedup_step :: "string list \<Rightarrow> string \<Rightarrow> string list" where
  "dedup_step out n = (if list_ex (\<lambda>p. equal_fold p n) out then out else out @ [n])"

lemma dedup_step:
  "set out \<subseteq> set (dedup_step out n)" "set (dedup_step out n) \<subseteq> insert n (set out)" "\<exists>p \<in> set (dedup_step out n). equal_fold p n"
  by (auto simp: dedup_step_def list_ex_iff)

lemma dedup_step_distinct:
  assumes "distinct (map to_lower out)"
  shows "distinct (map to_lower (dedup_step out n))"
proof (cases "list_ex (\<lambda>p. equal_fold p n) out")
  case False
  then have "to_lower n \<notin> to_lower ` set out" unfolding list_ex_iff equal_fold_def by (metis imageE)
  then show ?thesis using assms False by (simp add: dedup_step_def)
qed (simp add: assms dedup_step_def)

lemma dedup_fold:
  "distinct (map to_lower out) \<Longrightarrow> distinct (map to_lower (foldl dedup_step out ns))"
  "set out \<subseteq> set (foldl dedup_step out ns)"
  "set (foldl dedup_step out ns) \<subseteq> set out \<union> set ns"
  by (induction ns arbitrary: out)
    (simp_all add: dedup_step_distinct, use dedup_step(1) in blast, use dedup_step(2) in blast)

lemma dedup_fold_finds: "n \<in> set ns \<Longrightarrow> \<exists>n' \<in> set (foldl dedup_step out ns). equal_fold n' n"
proof (induction ns arbitrary: out)
  case (Cons m ns)
  show ?case
  proof (cases "n = m")
    case True
    then show ?thesis using dedup_step(3) [of out m] dedup_fold(2) [of "dedup_step out m" ns] by auto
  next
    case False
    then show ?thesis using Cons by simp
  qed
qed simp

lemma distinctSpellings_fold: "distinctSpellings names = foldl dedup_step [] (sort names)"
  by (simp add: distinctSpellings_def dedup_step_def [abs_def])

lemma distinctSpellings:
  "distinct (map to_lower (distinctSpellings names))"
  "set (distinctSpellings names) \<subseteq> set names"
  "n \<in> set names \<Longrightarrow> \<exists>n' \<in> set (distinctSpellings names). equal_fold n' n"
  using dedup_fold(1,3) [of "[]" "sort names"] dedup_fold_finds [of n "sort names" "[]"]
  by (simp_all add: distinctSpellings_fold)

abbreviation merged_names :: "resourceConstraints list \<Rightarrow> string list \<Rightarrow> string list" where
  "merged_names cluster declared \<equiv> resolvedNames declared @ concat (map (mkeys \<circ> Pools) cluster)"

lemma merge_entries:
  "concat (map (\<lambda>name. if \<not> P name then [] else case f name of (budget, bounded) \<Rightarrow> if bounded then [(name, budget)] else []) ns) =
     map (\<lambda>n. (n, fst (f n))) (filter (\<lambda>n. P n \<and> snd (f n)) ns)"
  by (induction ns) (auto split: prod.splits)

lemma mergeConstraints_raw:
  assumes "mergeConstraints constraints declared = Some b"
  defines "keyed \<equiv> map Pools (clusterBounds constraints)"
  shows "b = clampProducts (map (\<lambda>n. (n, fst (clusterBoundAll keyed n)))
      (filter (\<lambda>n. materialized keyed n \<and> snd (clusterBoundAll keyed n))
        (distinctSpellings (merged_names (clusterBounds constraints) declared))))"
  using assms(1) unfolding mergeConstraints_def Let_def merge_entries keyed_def by (simp split: if_splits)

lemma mkeys_map_pairs: "mkeys (map (\<lambda>n. (n, f n)) ns) = ns"
  by (induction ns) (simp_all add: mkeys_def)

lemma merge_ok:
  assumes "mergeConstraints constraints declared = Some b"
  shows "one_key b" and "clamped b"
proof -
  note raw = mergeConstraints_raw [OF assms]
  show "clamped b" by (subst raw) (rule clamped_clampProducts)
  show "one_key b"
    unfolding one_key_def by (subst raw, subst mkeys_clampProducts, subst mkeys_map_pairs)
      (rule distinct_map_filter, rule distinctSpellings(1))
qed

lemma Covers_fold: "equal_fold k k' \<Longrightarrow> Covers k name = Covers k' name"
  using IsProductOf_fold [of name name k k'] by (simp add: Covers_def equal_fold_def)

lemma own_bound:
  assumes "(k, pool) \<in> set pools" and "equal_fold k name"
  shows "snd (snd (AllowlistBound poolBound pools name))"
    and "listed_gpus (AllowlistBound poolBound pools name) \<le> bound_gpus (poolBound pool)"
proof -
  let ?own = "bounds_at poolBound pools (\<lambda>key. equal_fold key name)"
  let ?fam = "bounds_at poolBound pools
    (\<lambda>key. \<not> equal_fold key name \<and> \<not> IsProductOf key name \<and> IsProductOf name key)"
  define X where "X = (if ?fam \<noteq> [] then tighter (tightest ?own) (tightest ?fam) else tightest ?own)"
  have own: "poolBound pool \<in> set ?own" using assms by (force simp: bounds_at_def)
  then have ne: "?own \<noteq> []" by auto
  have eq: "AllowlistBound poolBound pools name = (fst X, snd X, True)"
    unfolding AllowlistBound_def Let_def X_def using ne by (simp add: case_prod_unfold)
  then show "snd (snd (AllowlistBound poolBound pools name))" by simp
  have "gpus X \<le> gpus (tightest ?own)" by (simp add: X_def gpus_tighter)
  also have "\<dots> \<le> bound_gpus (poolBound pool)"
    unfolding gpus_tightest by (rule INF_lower) (rule own)
  finally show "listed_gpus (AllowlistBound poolBound pools name) \<le> bound_gpus (poolBound pool)"
    by (simp add: eq listed_gpus_def)
qed

lemma own_cluster_bound:
  assumes "(k, pool) \<in> set pools" and "equal_fold k name"
  shows "bounds_name poolBound name pools"
    and "listed_gpus (ClusterAllowlistBound poolBound pools name) \<le> bound_gpus (poolBound pool)"
proof -
  obtain free unlimited listed where a: "AllowlistBound poolBound pools name = (free, unlimited, listed)"
    by (cases "AllowlistBound poolBound pools name") auto
  then have "ClusterAllowlistBound poolBound pools name = (free, unlimited, True)"
    using own_bound(1) [OF assms] by (simp add: ClusterAllowlistBound_def)
  then show "bounds_name poolBound name pools"
    and "listed_gpus (ClusterAllowlistBound poolBound pools name) \<le> bound_gpus (poolBound pool)"
    using own_bound(2) [OF assms] a by (simp_all add: listed_gpus_def)
qed

lemma poolBound_nonneg: "0 \<le> bFree (poolBound p)"
  by (simp add: poolBound_def ResourcePool_Available_def Let_def)

lemma ClusterAllowlistsBound_bounds:
  "snd (snd (ClusterAllowlistsBound bd as name)) \<longleftrightarrow> (\<exists>a \<in> set as. bounds_name bd name a)"
  using tightestOf_bounds [of bd as name] by (auto simp: ClusterAllowlistsBound_def Let_def split: prod.splits)

lemma productSum_nonneg:
  "(\<And>p. 0 \<le> fst (tof p)) \<Longrightarrow> 0 \<le> s \<Longrightarrow> 0 \<le> fst (productSum tof ps s)"
proof (induction ps arbitrary: s)
  case (Cons p ps)
  have "0 \<le> fst (tof p)" by (rule Cons.prems(1))
  then show ?case using Cons by (simp add: case_prod_unfold Let_def)
qed simp

lemma ClusterAllowlistsBound_nonneg: "0 \<le> fst (ClusterAllowlistsBound poolBound as name)"
proof -
  have t: "0 \<le> fst (tightestOf poolBound as n)" for n by (rule tightestOf_nonneg) (rule poolBound_nonneg)
  have s: "0 \<le> fst (productSum (tightestOf poolBound as) ps 0)" for ps by (rule productSum_nonneg) (simp_all add: t)
  show ?thesis
    using t [of name] s [of "familyProducts as name"]
      tighter_nonneg [of "(fst (tightestOf poolBound as name), fst (snd (tightestOf poolBound as name)))"
        "productSum (tightestOf poolBound as) (familyProducts as name) 0"]
    by (simp add: ClusterAllowlistsBound_def Let_def case_prod_unfold)
qed

lemma ClusterAllowlistsBound_le:
  assumes "a \<in> set as" and "bounds_name poolBound name a"
  shows "listed_gpus (ClusterAllowlistsBound poolBound as name) \<le> listed_gpus (ClusterAllowlistBound poolBound a name)"
proof -
  have "(INF a \<in> {a \<in> set as. bounds_name poolBound name a}. listed_gpus (ClusterAllowlistBound poolBound a name))
      \<le> listed_gpus (ClusterAllowlistBound poolBound a name)"
    using assms by (intro INF_lower) simp
  moreover have "\<exists>a \<in> set as. bounds_name poolBound name a" using assms by blast
  ultimately show ?thesis
    using ClusterAllowlistsBound_gpus [where bd = poolBound and as = as and name = name, OF poolBound_nonneg]
    by (simp add: Let_def min_le_iff_disj)
qed

text \<open>A joint bound no larger than a finite pool is a finite number no larger than it.\<close>

lemma joint_bound_finite:
  assumes "a \<in> set as" and "(k, pool) \<in> set a" and "equal_fold k name" and "0 \<le> Limit pool"
    and r: "ClusterAllowlistsBound poolBound as name = (avail, unlimited, bounds)"
  shows "bounds" and "\<not> unlimited" and "0 \<le> avail" and "avail \<le> ResourcePool_Available pool"
proof -
  note own = own_cluster_bound [OF assms(2,3)]
  show "bounds" using ClusterAllowlistsBound_bounds [of poolBound as name] own(1) assms(1) r by auto
  show nn: "0 \<le> avail" using ClusterAllowlistsBound_nonneg [of as name] r by simp
  have "listed_gpus (avail, unlimited, bounds) \<le> bound_gpus (poolBound pool)"
    using order_trans [OF ClusterAllowlistsBound_le [OF assms(1) own(1)] own(2)] r by simp
  then have le: "gpus (avail, unlimited) \<le> enat (nat (ResourcePool_Available pool))"
    using assms(4) by (simp add: listed_gpus_def bound_gpus_def gpus_def poolBound_def)
  then show "\<not> unlimited" by (auto simp: gpus_def)
  with le nn show "avail \<le> ResourcePool_Available pool"
    by (simp add: gpus_def) (simp add: ResourcePool_Available_def Let_def split: if_splits)
qed

lemma merge_le:
  assumes "mergeConstraints constraints declared = Some b" and "c \<in> set (clusterBounds constraints)"
    and "(k, pool) \<in> set (Pools c)" and "0 \<le> Limit pool" and "ResourcePool_Available pool < max_int"
  shows "\<exists>k' v. (k', v) \<in> set b \<and> equal_fold k' k \<and> \<not> isUnboundedBudget v \<and> v \<le> ResourcePool_Available pool"
proof -
  let ?keyed = "map Pools (clusterBounds constraints)"
  have "k \<in> set (merged_names (clusterBounds constraints) declared)"
    using assms(2,3) by (force simp: mkeys_def)
  then obtain k' where k': "k' \<in> set (distinctSpellings (merged_names (clusterBounds constraints) declared))" "equal_fold k' k"
    using distinctSpellings(3) by blast
  then have fold: "equal_fold k k'" by (simp add: equal_fold_sym)
  have pools: "Pools c \<in> set ?keyed" using assms(2) by simp
  have mat: "materialized ?keyed k'"
    using assms(2,3) fold unfolding materialized_def hasKey_def list_ex_iff mkeys_def by force
  obtain avail unlimited bounds where r: "ClusterAllowlistsBound poolBound ?keyed k' = (avail, unlimited, bounds)"
    by (cases "ClusterAllowlistsBound poolBound ?keyed k'") auto
  note j = joint_bound_finite [OF pools assms(3) fold assms(4) r]
  then have fin: "\<not> isUnboundedBudget avail" using assms(5) by (auto simp: isUnboundedBudget_def)
  from j have bound: "clusterBoundAll ?keyed k' = (avail, True)" by (simp add: clusterBoundAll_def r)
  let ?raw = "map (\<lambda>n. (n, fst (clusterBoundAll ?keyed n)))
      (filter (\<lambda>n. materialized ?keyed n \<and> snd (clusterBoundAll ?keyed n))
        (distinctSpellings (merged_names (clusterBounds constraints) declared)))"
  have "(k', avail) \<in> set ?raw" using k'(1) mat bound by (force simp: image_iff)
  then have "(k', clampProduct ?raw k' avail) \<in> set b"
    using mergeConstraints_raw [OF assms(1)] in_clampProducts [of k' _ ?raw] by blast
  moreover have "\<not> isUnboundedBudget (clampProduct ?raw k' avail) \<and> clampProduct ?raw k' avail \<le> avail"
    using clampProduct_le [of ?raw k' avail] budget_gpus_le [of avail] fin by blast
  ultimately show ?thesis
    using k'(2) j(4) by (intro exI [of _ k'] exI [of _ "clampProduct ?raw k' avail"]) simp
qed

subsection \<open>Names and the keys they are charged to\<close>

lemma FindBudgetKey_case:
  assumes "FindBudgetKey b name = Some key" and "k \<in> set (mkeys b)" and "equal_fold k name"
  shows "equal_fold key name"
proof (cases "name \<in> set (mkeys b)")
  case True
  then show ?thesis using assms(1) by (simp add: FindBudgetKey_exact)
next
  case False
  let ?c = "filter (\<lambda>k. keyClass name k = CaseEqual) (mkeys b)"
  have "?c \<noteq> []" using assms(2,3) by (auto simp: filter_empty_conv keyClass_simps)
  then have "slices_Min ?c = Some key" using assms(1) False by (simp add: FindBudgetKey_def)
  then have "key \<in> set ?c" by (rule slices_Min_in)
  then show ?thesis by (simp add: keyClass_simps)
qed

text \<open>A key of the budget that covers a name covers the key the name is charged to.\<close>

lemma covers_charged:
  assumes "FindBudgetKey b name = Some key" and "k \<in> set (mkeys b)" and "Covers k name"
  shows "Covers k key"
proof (cases "equal_fold k name")
  case True
  then have "equal_fold key name" using FindBudgetKey_case [OF assms(1,2)] by simp
  then show ?thesis using True by (simp add: Covers_def equal_fold_def)
next
  case False
  then have prod: "IsProductOf name k" using assms(3) by (simp add: Covers_def)
  consider "equal_fold key name" | "IsProductOf name key" | "IsProductOf key name"
    using FindBudgetKey_sound [OF assms(1)] by (auto simp: Covers_def)
  then show ?thesis
  proof cases
    case 1
    then show ?thesis using prod IsProductOf_fold [of key name k k] by (simp add: Covers_def)
  next
    case 2
    then show ?thesis using prod by (simp add: Covers_def IsProductOf_def equal_fold_def)
  next
    case 3
    then show ?thesis using prod by (simp add: IsProductOf_def)
  qed
qed

definition spentOn :: "string \<Rightarrow> (string \<times> int) list \<Rightarrow> int" where
  "spentOn k spends = sum_list (map (\<lambda>(name, n). if Covers k name then n else 0) spends)"

lemma spendAll_names:
  assumes "one_key b" and "spendAll b spends = Some b'" and "(name, n) \<in> set spends"
  shows "0 < n \<and> FindBudgetKey b name = Some (budgetKey b name)"
  using assms
proof (induction spends arbitrary: b)
  case (Cons s spends)
  obtain m g where s: "s = (m, g)" by (cases s)
  have g: "0 < g" "isUnboundedBudget (budgetOf (Some b) m) \<or> g \<le> budgetOf (Some b) m"
    and rest: "spendAll (debitBudget b (budgetKey b m) g) spends = Some b'"
    using Cons.prems(2) s by (auto simp: Let_def split: if_splits)
  have m: "FindBudgetKey b m = Some (budgetKey b m)" using affordable_key [OF g Cons.prems(1)] by metis
  show ?case
  proof (cases "(name, n) = (m, g)")
    case True
    then show ?thesis using g m by simp
  next
    case False
    then show ?thesis using Cons.IH [OF one_key_debit rest] Cons.prems s by (auto simp: budget_simps)
  qed
qed simp

lemma spentOn_le:
  assumes "k \<in> set (mkeys b)" and "\<And>name n. (name, n) \<in> set spends \<Longrightarrow> 0 < n \<and> FindBudgetKey b name = Some (budgetKey b name)"
  shows "spentOn k spends \<le> spentUnder k b spends"
  unfolding spentOn_def spentUnder_def
proof (rule sum_list_mono, clarify)
  fix name n
  assume "(name, n) \<in> set spends"
  then show "(if Covers k name then n else 0) \<le> (if Covers k (budgetKey b name) then n else 0)"
    using covers_charged [of b name "budgetKey b name" k] assms(1) assms(2) [of name n] by auto
qed

lemma spentOn_fold: "equal_fold k k' \<Longrightarrow> spentOn k spends = spentOn k' spends"
  by (simp add: spentOn_def Covers_fold)

text \<open>
  C9. The optimizers never overspend a bound: whatever GPUs are spent one after the other within the
  merged cluster budget, each debited as it is made, together stay within the free GPUs of every key
  of every cluster bound the budget was merged from: a product key bounds that product, a family key
  the sum over its products and itself.
\<close>

theorem spends_respect_cluster_bounds:
  assumes "mergeConstraints constraints declared = Some b" and "int_range b" and "spendAll b spends = Some b'"
    and "c \<in> set (clusterBounds constraints)" and "(k, pool) \<in> set (Pools c)"
    and "0 \<le> Limit pool" and "ResourcePool_Available pool < max_int"
  shows "spentOn k spends \<le> ResourcePool_Available pool"
proof -
  note ok = merge_ok [OF assms(1)]
  obtain k' v where k': "(k', v) \<in> set b" "equal_fold k' k" "\<not> isUnboundedBudget v" "v \<le> ResourcePool_Available pool"
    using merge_le [OF assms(1,4,5,6,7)] by blast
  then have "k' \<in> set (mkeys b)" by (force simp: mkeys_def)
  then have "spentOn k' spends \<le> spentUnder k' b spends"
    using spentOn_le [of k' b spends] spendAll_names [OF ok(1) assms(3)] by blast
  also have "\<dots> \<le> v" using spendAll_within [OF ok assms(2,3) k'(1,3)] by simp
  also have "\<dots> \<le> ResourcePool_Available pool" by (rule k'(4))
  finally show ?thesis using spentOn_fold [OF k'(2)] by simp
qed

subsection \<open>An example\<close>

definition exHBM3 :: string where "exHBM3 = ''NVIDIA-H100-80GB-HBM3''"
definition exPCIE :: string where "exPCIE = ''NVIDIA-H100-PCIE-80GB''"

definition exConstraints :: "(string, resourcePool) gomap \<Rightarrow> resourceConstraints" where
  "exConstraints pools = \<lparr>ProviderName = ''gpu'', Pools = pools, NamespacePools = None, NamespaceScoped = False,
     TotalLimit = 0, TotalUsed = 0, TotalAvail = 0, rcPoolsVersion = 0\<rparr>"

text \<open>A physical inventory by product and a quota on the family.\<close>

definition exPhysical :: resourceConstraints where
  "exPhysical = exConstraints [(exHBM3, \<lparr>Limit = 16, Used = 4\<rparr>), (exPCIE, \<lparr>Limit = 8, Used = 0\<rparr>)]"

definition exQuota :: resourceConstraints where
  "exQuota = exConstraints [(''H100'', \<lparr>Limit = 14, Used = 2\<rparr>)]"

definition exSpends :: "(string \<times> int) list" where
  "exSpends = [(exHBM3, 4), (exPCIE, 8)]"

definition exBudget :: budgets where
  "exBudget = [(''H100'', 12), (exHBM3, 12), (exPCIE, 8)]"

lemma exBudget_merged: "mergeConstraints [Some exPhysical, None, Some exQuota] [exHBM3, exPCIE] = Some exBudget"
  by code_simp

theorem spends_respect_cluster_bounds_witness:
  "spendAll exBudget exSpends \<noteq> None \<and> spentOn ''H100'' exSpends \<le> ResourcePool_Available \<lparr>Limit = 14, Used = 2\<rparr>"
proof -
  have "spendAll exBudget exSpends \<noteq> None" by code_simp
  then obtain b' where s: "spendAll exBudget exSpends = Some b'" by blast
  have r: "int_range exBudget" by code_simp
  have c: "exQuota \<in> set (clusterBounds [Some exPhysical, None, Some exQuota])"
    by (simp add: clusterBounds_def isClusterBound_def exPhysical_def exQuota_def exConstraints_def)
  have k: "(''H100'', \<lparr>Limit = 14, Used = 2\<rparr>) \<in> set (Pools exQuota)" by (simp add: exQuota_def exConstraints_def)
  have l: "0 \<le> Limit \<lparr>Limit = 14, Used = 2\<rparr>" "ResourcePool_Available \<lparr>Limit = 14, Used = 2\<rparr> < max_int"
    by (simp_all add: ResourcePool_Available_def max_int_def)
  show ?thesis using spends_respect_cluster_bounds [OF exBudget_merged r s c k l] s by simp
qed

end
