(* ===== verification/BudgetFits.thy ===== *)
theory BudgetFits
  imports BudgetSpend
begin

text \<open>
  The placement check \<open>FitsGPUBudget\<close> against the budgets of \<open>Budget\<close>: it agrees with
  spending the demand type by type, it keeps every allowance of a namespace a quota holds, and what
  it does not see of the cluster bounds there.
\<close>

subsection \<open>What the check compares\<close>

abbreviation asked :: "(string, int) gomap \<Rightarrow> (string \<times> int) list" where
  "asked demand \<equiv> filter (\<lambda>(_, n). 0 < n) demand"

lemma draw_step:
  "t \<noteq> DefaultAcceleratorName \<Longrightarrow> drawStep b nsScoped (Some spent) (t, n) =
     (if n \<le> 0 then Some spent
      else if FindBudgetKey b t = None then None else Some (madd (budgetKey b t) n spent))"
  by (auto simp: drawStep_def budgetKey_def)

lemma draw_none: "foldl (drawStep b nsScoped) None ds = None"
  by (induction ds) (simp_all add: drawStep_def)

lemma draw_fold:
  assumes "\<forall>(t, n) \<in> set demand. IsAcceleratorResolved t"
  shows "foldl (drawStep b nsScoped) (Some spent) demand =
    (if list_all (\<lambda>(t, n). FindBudgetKey b t \<noteq> None) (asked demand)
     then Some (foldl (\<lambda>s (t, n). madd (budgetKey b t) n s) spent (asked demand)) else None)"
  using assms
proof (induction demand arbitrary: spent)
  case (Cons d demand)
  obtain t n where d: "d = (t, n)" by (cases d)
  have t: "t \<noteq> DefaultAcceleratorName" using Cons.prems d by (auto simp: IsAcceleratorResolved_def)
  have "\<forall>(t, n) \<in> set demand. IsAcceleratorResolved t" using Cons.prems by simp
  note IH = Cons.IH [OF this]
  show ?case by (simp add: d draw_step [OF t] draw_none IH)
qed simp

lemma coveredSum_fold:
  "gomap_ok s \<Longrightarrow> coveredSum k (foldl (\<lambda>s (t, n). madd (budgetKey b t) n s) s ds) = coveredSum k s + spentUnder k b ds"
proof (induction ds arbitrary: s)
  case (Cons d ds)
  obtain t n where d: "d = (t, n)" by (cases d)
  show ?case using Cons d by (simp add: coveredSum_def spentUnder_def gomap_ok_madd msum_where_madd)
qed (simp add: spentUnder_def)

lemma fitsBudgets_iff:
  assumes "\<forall>(t, n) \<in> set demand. IsAcceleratorResolved t"
  shows "fitsBudgets b nsScoped demand \<longleftrightarrow>
    list_all (\<lambda>(t, n). FindBudgetKey b t \<noteq> None) (asked demand) \<and>
    (\<forall>(k, v) \<in> set b. isUnboundedBudget v \<or> spentUnder k b (asked demand) \<le> v)"
proof -
  have "coveredSum k (foldl (\<lambda>s (t, n). madd (budgetKey b t) n s) [] (asked demand)) = spentUnder k b (asked demand)" for k
    using coveredSum_fold [of "[]" k b "asked demand"] by (simp add: coveredSum_def)
  then show ?thesis
    unfolding fitsBudgets_def draw_fold [OF assms] withinBudgets_def by (simp add: list_all_iff [of _ b] del: filter_filter)
qed

lemma spentUnder_mset: "mset ds = mset ds' \<Longrightarrow> spentUnder k b ds = spentUnder k b ds'"
  unfolding spentUnder_def by (simp flip: sum_mset_sum_list)

subsection \<open>Spending in sequence succeeds exactly when everything fits\<close>

definition debit_raw :: "budgets \<Rightarrow> string \<Rightarrow> int \<Rightarrow> budgets" where
  "debit_raw b key n = map (\<lambda>(other, v). (other, if \<not> isUnboundedBudget v \<and> Covers other key then max 0 (v - n) else v)) b"

lemma debitBudget_raw: "0 < n \<Longrightarrow> debitBudget b key n = clampProducts (debit_raw b key n)"
  by (simp add: debitBudget_def debit_raw_def)

lemma in_debit_raw:
  assumes "(k, w) \<in> set (debit_raw b key n)"
  obtains v where "(k, v) \<in> set b" and "w = (if \<not> isUnboundedBudget v \<and> Covers k key then max 0 (v - n) else v)"
proof -
  obtain kv where "kv \<in> set b"
      "(k, w) = (case kv of (other, v) \<Rightarrow> (other, if \<not> isUnboundedBudget v \<and> Covers other key then max 0 (v - n) else v))"
    using assms unfolding debit_raw_def set_map by (rule imageE)
  then have "(k, snd kv) \<in> set b" "w = (if \<not> isUnboundedBudget (snd kv) \<and> Covers k key then max 0 (snd kv - n) else snd kv)"
    by (simp_all add: case_prod_unfold split del: if_split)
  then show thesis by (rule that)
qed

lemma debit_keeps:
  assumes key: "0 < n"
    and fit: "\<And>k v. (k, v) \<in> set b \<Longrightarrow> \<not> isUnboundedBudget v \<Longrightarrow> (if Covers k key then n else 0) + g k \<le> v"
    and mono: "\<And>p f. IsProductOf p f \<Longrightarrow> g p \<le> g f" and pos: "\<And>k. 0 \<le> g k"
    and k: "(k, v') \<in> set (debitBudget b key n)" "\<not> isUnboundedBudget v'"
  shows "g k \<le> v'"
proof -
  have raw: "g k \<le> w" if in_d: "(k, w) \<in> set (debit_raw b key n)" and fin_w: "\<not> isUnboundedBudget w" for k w
  proof -
    obtain v where v: "(k, v) \<in> set b" "w = (if \<not> isUnboundedBudget v \<and> Covers k key then max 0 (v - n) else v)"
      using in_debit_raw [OF in_d] by blast
    then have fin: "\<not> isUnboundedBudget v" using fin_w by (auto split: if_splits)
    show ?thesis using fit [OF v(1) fin] v(2) fin key pos [of k] by (cases "Covers k key") simp_all
  qed
  obtain w where w: "(k, w) \<in> set (debit_raw b key n)" "v' = clampProduct (debit_raw b key n) k w"
    using k(1) unfolding debitBudget_raw [OF key] in_clampProducts by blast
  show ?thesis
  proof (cases "v' = w")
    case True
    then show ?thesis using raw w(1) k(2) by simp
  next
    case False
    then obtain f where "(f, v') \<in> set (debit_raw b key n)" "IsProductOf k f"
      using clampProduct_cases [of "debit_raw b key n" k w] w(2) by metis
    then show ?thesis using raw [of f v'] k(2) mono [of k f] by simp
  qed
qed

lemma spentUnder_nonneg: "list_all (\<lambda>(t, n). 0 < n) ds \<Longrightarrow> 0 \<le> spentUnder k b ds"
  unfolding spentUnder_def by (rule sum_list_nonneg) (auto simp: list_all_iff)

lemma spentUnder_family:
  assumes "list_all (\<lambda>(t, n). 0 < n) ds" and "IsProductOf p f"
  shows "spentUnder p b ds \<le> spentUnder f b ds"
  unfolding spentUnder_def
proof (rule sum_list_mono, clarify)
  fix t n
  assume "(t, n) \<in> set ds"
  then have "0 < n" using assms(1) by (auto simp: list_all_iff)
  moreover have "Covers p (budgetKey b t) \<Longrightarrow> Covers f (budgetKey b t)"
    using Covers_trans [of f p] assms(2) by (simp add: Covers_def)
  ultimately show "(if Covers p (budgetKey b t) then n else 0) \<le> (if Covers f (budgetKey b t) then n else 0)" by auto
qed

lemma spendAll_complete:
  assumes "one_key b" and "clamped b" and "int_range b"
    and "list_all (\<lambda>(t, n). 0 < n) ds" and "list_all (\<lambda>(t, n). FindBudgetKey b t \<noteq> None) ds"
    and "\<And>k v. (k, v) \<in> set b \<Longrightarrow> \<not> isUnboundedBudget v \<Longrightarrow> spentUnder k b ds \<le> v"
  shows "\<exists>b'. spendAll b ds = Some b'"
  using assms
proof (induction ds arbitrary: b)
  case (Cons d ds)
  obtain t n where d: "d = (t, n)" by (cases d)
  have n: "0 < n" and pos: "list_all (\<lambda>(t, n). 0 < n) ds" using Cons.prems(4) d by simp_all
  obtain key where find: "FindBudgetKey b t = Some key" using Cons.prems(5) d by auto
  then have key: "budgetKey b t = key" by (simp add: budgetKey_def)
  obtain kv where kv: "(key, kv) \<in> set b" using FindBudgetKey_sound [OF find] by (auto simp: mkeys_def)
  have sum: "spentUnder k b (d # ds) = (if Covers k key then n else 0) + spentUnder k b ds" for k
    by (simp add: spentUnder_def d key)
  have "isUnboundedBudget kv \<or> n \<le> kv"
  proof (cases "isUnboundedBudget kv")
    case False
    from Cons.prems(6) [OF kv this] have "n \<le> kv"
      unfolding sum using spentUnder_nonneg [OF pos, of key b] by simp
    then show ?thesis by (rule disjI2)
  qed simp
  moreover have "budgetOf (Some b) t = kv" using one_key_mget [OF Cons.prems(1) kv] find by (simp add: budgetOf_def)
  ultimately have step: "spendAll b (d # ds) = spendAll (debitBudget b key n) ds" using d n key by simp
  have "spentUnder k (debitBudget b key n) ds \<le> v'"
    if "(k, v') \<in> set (debitBudget b key n)" "\<not> isUnboundedBudget v'" for k v'
  proof -
    have "spentUnder k b ds \<le> v'"
    proof (rule debit_keeps [where g = "\<lambda>k. spentUnder k b ds", OF n _ _ _ that])
      show "(if Covers k key then n else 0) + spentUnder k b ds \<le> v" if "(k, v) \<in> set b" "\<not> isUnboundedBudget v" for k v
        using Cons.prems(6) [OF that] sum [of k] by simp
    qed (simp_all add: spentUnder_family [OF pos] spentUnder_nonneg [OF pos])
    then show ?thesis by (simp add: spentUnder_def budget_simps)
  qed
  moreover have "list_all (\<lambda>(t, n). FindBudgetKey (debitBudget b key n') t \<noteq> None) ds" for n'
    using Cons.prems(5) by (simp add: budget_simps)
  ultimately show ?case
    using Cons.IH [OF one_key_debit clamped_debit int_range_debit pos] Cons.prems(1-3) step by simp
qed simp

lemma spendAll_iff:
  assumes "one_key b" and "clamped b" and "int_range b" and "list_all (\<lambda>(t, n). 0 < n) ds"
  shows "spendAll b ds \<noteq> None \<longleftrightarrow> list_all (\<lambda>(t, n). FindBudgetKey b t \<noteq> None) ds \<and>
    (\<forall>(k, v) \<in> set b. isUnboundedBudget v \<or> spentUnder k b ds \<le> v)" (is "?lhs \<longleftrightarrow> ?rhs")
proof
  assume ?lhs
  then obtain b' where b': "spendAll b ds = Some b'" by auto
  have "list_all (\<lambda>(t, n). FindBudgetKey b t \<noteq> None) ds"
    using spendAll_names [OF assms(1) b'] by (auto simp: list_all_iff)
  moreover have "isUnboundedBudget v \<or> spentUnder k b ds \<le> v" if "(k, v) \<in> set b" for k v
    using spendAll_within [OF assms(1-3) b' that] by auto
  ultimately show ?rhs by blast
next
  assume ?rhs
  then show ?lhs using spendAll_complete [OF assms] by blast
qed

subsection \<open>Namespaces the quotas hold\<close>

definition held :: "string \<Rightarrow> resourceConstraints option list \<Rightarrow> (string, resourcePool) gomap list" where
  "held ns constraints = concat (map (\<lambda>c. case c of None \<Rightarrow> []
     | Some c \<Rightarrow> (case NamespacePools c of None \<Rightarrow> []
         | Some m \<Rightarrow> map snd (filter (\<lambda>(ns', _). ns' = ns) m))) constraints)"

lemma holders_inner:
  "mget [] (foldl (\<lambda>holders (ns, perType). mput ns (mget [] holders ns @ [perType]) holders) h m) ns =
     mget [] h ns @ map snd (filter (\<lambda>(ns', _). ns' = ns) m)"
  "set (mkeys (foldl (\<lambda>holders (ns, perType). mput ns (mget [] holders ns @ [perType]) holders) h m)) = set (mkeys h) \<union> fst ` set m"
  by (induction m arbitrary: h) (auto simp: gomap_simps)

definition holders_step :: "(string, (string, resourcePool) gomap list) gomap \<Rightarrow> resourceConstraints option \<Rightarrow> (string, (string, resourcePool) gomap list) gomap" where
  "holders_step holders c = (case c of None \<Rightarrow> holders
     | Some c \<Rightarrow> (case NamespacePools c of None \<Rightarrow> holders
         | Some m \<Rightarrow> foldl (\<lambda>holders (ns, perType). mput ns (mget [] holders ns @ [perType]) holders) holders m))"

lemma namespaceHolders_step: "namespaceHolders constraints = foldl holders_step [] constraints"
  by (simp add: namespaceHolders_def holders_step_def [abs_def])

lemma holders_fold:
  "mget [] (foldl holders_step h cs) ns = mget [] h ns @ held ns cs"
  "ns \<in> set (mkeys (foldl holders_step h cs)) \<longleftrightarrow> ns \<in> set (mkeys h) \<or> held ns cs \<noteq> []"
proof (induction cs arbitrary: h)
  case (Cons c cs)
  have one: "mget [] (holders_step h c) ns = mget [] h ns @ held ns [c]" for h
    by (simp add: holders_step_def held_def holders_inner split: option.split)
  have keys: "ns \<in> set (mkeys (holders_step h c)) \<longleftrightarrow> ns \<in> set (mkeys h) \<or> held ns [c] \<noteq> []" for h
    by (auto simp: holders_step_def held_def holders_inner filter_empty_conv split: option.split) force+
  have app: "held ns (c # cs) = held ns [c] @ held ns cs" by (simp add: held_def)
  { case 1 show ?case unfolding foldl.simps Cons.IH(1) one app by simp
  next
    case 2 show ?case unfolding foldl.simps Cons.IH(2) keys app by auto }
qed (simp_all add: held_def)

lemma namespaceHolders_held:
  "held ns constraints = [] \<Longrightarrow> map_of (namespaceHolders constraints) ns = None"
  "held ns constraints \<noteq> [] \<Longrightarrow> map_of (namespaceHolders constraints) ns = Some (held ns constraints)"
proof -
  have keys: "ns \<in> set (mkeys (namespaceHolders constraints)) \<longleftrightarrow> held ns constraints \<noteq> []"
    and get: "mget [] (namespaceHolders constraints) ns = held ns constraints"
    using holders_fold [where h = "[]" and cs = constraints and ns = ns] by (simp_all add: namespaceHolders_step mkeys_def mget_def)
  show "map_of (namespaceHolders constraints) ns = None" if "held ns constraints = []"
    using keys that map_of_in_mkeys [of "namespaceHolders constraints" ns]
    by (cases "map_of (namespaceHolders constraints) ns") simp_all
  show "map_of (namespaceHolders constraints) ns = Some (held ns constraints)" if "held ns constraints \<noteq> []"
    using get that unfolding mget_def by (cases "map_of (namespaceHolders constraints) ns") simp_all
qed

definition ns_raw :: "(string, resourcePool) gomap list \<Rightarrow> (string, resourcePool) gomap list \<Rightarrow> string list \<Rightarrow> budgets" where
  "ns_raw pools cluster declared = concat (map (\<lambda>name.
     if \<not> materialized pools name then [] else [(name, namespaceBudget pools cluster name)])
       (distinctSpellings (resolvedNames declared @ concat (map mkeys pools))))"

lemma mergeNamespace_at:
  "(case mergeNamespaceConstraints constraints declared of None \<Rightarrow> None | Some m \<Rightarrow> map_of m ns) =
     (if held ns constraints = [] then None
      else Some (clampProducts (ns_raw (held ns constraints) (map Pools (clusterBounds constraints)) declared)))"
proof -
  let ?f = "\<lambda>_ pools. clampProducts (ns_raw pools (map Pools (clusterBounds constraints)) declared)"
  have eq: "mergeNamespaceConstraints constraints declared = (if namespaceHolders constraints = [] then None
      else Some (map (\<lambda>(ns, pools). (ns, ?f ns pools)) (namespaceHolders constraints)))"
    by (simp add: mergeNamespaceConstraints_def ns_raw_def Let_def)
  show ?thesis
  proof (cases "held ns constraints = []")
    case True
    then show ?thesis using namespaceHolders_held(1) [OF True] unfolding eq by (simp add: map_of_map_values [of ?f])
  next
    case False
    note at = namespaceHolders_held(2) [OF False]
    then have "namespaceHolders constraints \<noteq> []" by auto
    then show ?thesis using False at unfolding eq by (simp add: map_of_map_values [of ?f])
  qed
qed

lemma tighter_within: "0 \<le> a \<Longrightarrow> a \<le> A \<Longrightarrow> 0 \<le> tighterBudget a b \<and> tighterBudget a b \<le> A"
  "0 \<le> b \<Longrightarrow> b \<le> A \<Longrightarrow> 0 \<le> tighterBudget a b \<and> tighterBudget a b \<le> A"
  by (simp_all add: tighterBudget_def)

lemma tighter_fold_within:
  "0 \<le> v \<and> v \<le> A \<or> (\<exists>p \<in> set ps. 0 \<le> h p \<and> h p \<le> A) \<Longrightarrow>
     0 \<le> foldl (\<lambda>v p. tighterBudget v (h p)) v ps \<and> foldl (\<lambda>v p. tighterBudget v (h p)) v ps \<le> A"
proof (induction ps arbitrary: v)
  case (Cons p ps)
  then show ?case using tighter_within [of v A "h p"] tighter_within(2) [of "h p" A v] by auto
qed simp

lemma holdersBudget_le:
  assumes "pools \<in> set hs" and "(k, pool) \<in> set pools" and "equal_fold k name" and "0 \<le> Limit pool"
  shows "0 \<le> holdersBudget name hs \<and> holdersBudget name hs \<le> ResourcePool_Available pool"
proof -
  obtain avail unlimited listed where a: "AllowlistBound poolBound pools name = (avail, unlimited, listed)"
    by (cases "AllowlistBound poolBound pools name") auto
  have nn: "0 \<le> avail" using AllowlistBound_nonneg [of poolBound pools name] poolBound_nonneg a by simp
  have le: "gpus (avail, unlimited) \<le> enat (nat (ResourcePool_Available pool))" and l: "listed"
    using own_bound [OF assms(2,3)] assms(4) a by (simp_all add: listed_gpus_def bound_gpus_def gpus_def poolBound_def)
  then have u: "\<not> unlimited" by (auto simp: gpus_def)
  with le nn have "avail \<le> ResourcePool_Available pool"
    by (simp add: gpus_def) (simp add: ResourcePool_Available_def Let_def split: if_splits)
  moreover have "holderBudget name pools = avail" using a l u by (simp add: holderBudget_def allowlistBound_def)
  ultimately have h: "0 \<le> holderBudget name pools \<and> holderBudget name pools \<le> ResourcePool_Available pool"
    using nn by simp
  obtain p ps where hs: "hs = p # ps" using assms(1) by (cases hs) auto
  show ?thesis unfolding hs holdersBudget.simps
    by (rule tighter_fold_within) (use assms(1) h hs in auto)
qed

lemma namespaceBudget_le:
  assumes "pools \<in> set hs" and "(k, pool) \<in> set pools" and "equal_fold k name" and "0 \<le> Limit pool"
  shows "0 \<le> namespaceBudget hs cluster name \<and> namespaceBudget hs cluster name \<le> ResourcePool_Available pool"
proof -
  obtain avail unlimited bounds where r: "ClusterAllowlistsBound poolBound (hs @ cluster) name = (avail, unlimited, bounds)"
    by (cases "ClusterAllowlistsBound poolBound (hs @ cluster) name") auto
  have "pools \<in> set (hs @ cluster)" using assms(1) by simp
  note j = joint_bound_finite [OF this assms(2-4) r]
  then have "closedFamilyBudget (hs @ cluster) name = avail" by (simp add: closedFamilyBudget_def r)
  then show ?thesis using j holdersBudget_le [OF assms] by (simp add: namespaceBudget_def)
qed

lemma clamp_within:
  assumes "(k, v) \<in> set raw" and "0 \<le> v" and "v < max_int"
  shows "\<exists>v'. (k, v') \<in> set (clampProducts raw) \<and> 0 \<le> v' \<and> v' \<le> v"
proof -
  have fin: "\<not> isUnboundedBudget v" using assms(2,3) by (simp add: isUnboundedBudget_def)
  have "\<not> isUnboundedBudget (clampProduct raw k v) \<and> clampProduct raw k v \<le> v"
    using clampProduct_le [of raw k v] budget_gpus_le [OF fin] by blast
  moreover have "(k, clampProduct raw k v) \<in> set (clampProducts raw)"
    using assms(1) in_clampProducts [of k _ raw] by blast
  ultimately show ?thesis by (intro exI [of _ "clampProduct raw k v"]) (simp add: isUnboundedBudget_def)
qed

lemma ns_raw_le:
  assumes "pools \<in> set hs" and "(k, pool) \<in> set pools" and "0 \<le> Limit pool"
  shows "\<exists>k' v. (k', v) \<in> set (ns_raw hs cluster declared) \<and> equal_fold k' k \<and> 0 \<le> v \<and> v \<le> ResourcePool_Available pool"
proof -
  have "k \<in> set (resolvedNames declared @ concat (map mkeys hs))" using assms(1,2) by (force simp: mkeys_def)
  then obtain k' where k': "k' \<in> set (distinctSpellings (resolvedNames declared @ concat (map mkeys hs)))" "equal_fold k' k"
    using distinctSpellings(3) by blast
  then have fold: "equal_fold k k'" by (simp add: equal_fold_sym)
  have "materialized hs k'"
    using assms(1,2) fold unfolding materialized_def hasKey_def list_ex_iff mkeys_def by force
  then have "(k', namespaceBudget hs cluster k') \<in> set (ns_raw hs cluster declared)"
    using k'(1) unfolding ns_raw_def by force
  then show ?thesis using k'(2) namespaceBudget_le [OF assms(1,2) fold assms(3)] by blast
qed

lemma gpuBudgets_unheld:
  "held ns constraints = [] \<Longrightarrow> constraints \<noteq> [] \<Longrightarrow> gpuBudgets constraints ns declared = (mergeConstraints constraints declared, False)"
  unfolding gpuBudgets_def mergeNamespace_at by simp

lemma gpuBudgets_held:
  assumes "pools \<in> set (held ns constraints)" and "(k, pool) \<in> set pools" and "0 \<le> Limit pool"
    and "ResourcePool_Available pool < max_int"
  shows "\<exists>b k' v. gpuBudgets constraints ns declared = (Some b, True) \<and> (k', v) \<in> set b \<and> equal_fold k' k \<and>
    0 \<le> v \<and> v \<le> ResourcePool_Available pool"
proof -
  let ?raw = "ns_raw (held ns constraints) (map Pools (clusterBounds constraints)) declared"
  let ?per = "mergeWithAllowanceKeys constraints declared"
  let ?f = "\<lambda>accType budget. case clusterBudgetFor ?per accType of (cv, bounded) \<Rightarrow>
    if bounded \<and> cv \<noteq> max_int then tighterBudget budget cv else budget"
  have ne: "held ns constraints \<noteq> []" using assms(1) by auto
  then have "constraints \<noteq> []" by (auto simp: held_def)
  then have g: "gpuBudgets constraints ns declared = (Some (map (\<lambda>(t, b). (t, ?f t b)) (clampProducts ?raw)), True)"
    unfolding gpuBudgets_def mergeNamespace_at using ne by (simp add: Let_def)
  obtain k' v where k': "(k', v) \<in> set ?raw" "equal_fold k' k" "0 \<le> v" "v \<le> ResourcePool_Available pool"
    using ns_raw_le [OF assms(1-3)] by blast
  then obtain v' where v': "(k', v') \<in> set (clampProducts ?raw)" "0 \<le> v'" "v' \<le> ResourcePool_Available pool"
    using clamp_within [OF k'(1)] assms(4) by fastforce
  have "(k', ?f k' v') \<in> set (map (\<lambda>(t, b). (t, ?f t b)) (clampProducts ?raw))" using v'(1) by force
  moreover have "0 \<le> ?f k' v' \<and> ?f k' v' \<le> ResourcePool_Available pool"
    using v'(2,3) tighter_within(1) by (simp split: prod.split)
  ultimately show ?thesis using g k'(2) by blast
qed

lemma held_in:
  assumes "Some c \<in> set constraints" and "NamespacePools c = Some m" and "(ns, pools) \<in> set m"
  shows "pools \<in> set (held ns constraints)"
  using assms unfolding held_def by force

lemma held_none:
  assumes "list_all (\<lambda>c. case c of None \<Rightarrow> True | Some c \<Rightarrow>
    (case NamespacePools c of None \<Rightarrow> True | Some m \<Rightarrow> ns \<notin> set (mkeys m))) constraints"
  shows "held ns constraints = []"
  using assms by (induction constraints) (force simp: held_def mkeys_def filter_empty_conv split: option.splits)+

lemma FitsGPUBudget_budgets:
  "constraints \<noteq> [] \<Longrightarrow> gpuBudgets constraints ns (mkeys demand) = (Some b, nsScoped) \<Longrightarrow>
     FitsGPUBudget constraints ns demand = fitsBudgets b nsScoped demand"
  by (simp add: FitsGPUBudget_def)

lemma gpuBudgets_cluster:
  "gpuBudgets constraints namespace declared = (Some b, nsScoped) \<Longrightarrow> \<not> nsScoped \<Longrightarrow>
     mergeConstraints constraints declared = Some b"
  by (cases nsScoped) (simp_all add: gpuBudgets_def Let_def split: if_splits option.splits)

text \<open>
  C10. The placement check is exact, for a demand whose accelerators are all named. In any
  namespace, whatever budgets \<open>gpuBudgets\<close> resolves for it, \<open>FitsGPUBudget\<close> admits the demand
  exactly when every type asked for has a budget key and no finite key is overdrawn by the types it
  covers together. In a namespace no quota holds this is what the optimizer can place: the demand is
  admitted exactly when its types, in any order, can be spent one after the other from the merged
  cluster budget, each debited before the next.
\<close>

theorem FitsGPUBudget_iff_spendable:
  assumes "gpuBudgets constraints namespace (mkeys demand) = (Some b, nsScoped)"
    and "\<forall>(t, n) \<in> set demand. IsAcceleratorResolved t"
  shows "(FitsGPUBudget constraints namespace demand \<longleftrightarrow>
      list_all (\<lambda>(t, n). FindBudgetKey b t \<noteq> None) (asked demand) \<and>
      (\<forall>(k, v) \<in> set b. isUnboundedBudget v \<or> spentUnder k b (asked demand) \<le> v)) \<and>
    (\<not> nsScoped \<and> int_range b \<and> mset spends = mset (asked demand) \<longrightarrow>
      (FitsGPUBudget constraints namespace demand \<longleftrightarrow> spendAll b spends \<noteq> None))"
proof (intro conjI impI)
  have ne: "constraints \<noteq> []" using assms(1) by (auto simp: gpuBudgets_def)
  note fits = FitsGPUBudget_budgets [OF ne assms(1)]
  show "FitsGPUBudget constraints namespace demand \<longleftrightarrow>
      list_all (\<lambda>(t, n). FindBudgetKey b t \<noteq> None) (asked demand) \<and>
      (\<forall>(k, v) \<in> set b. isUnboundedBudget v \<or> spentUnder k b (asked demand) \<le> v)"
    unfolding fits by (rule fitsBudgets_iff [OF assms(2)])
  assume h: "\<not> nsScoped \<and> int_range b \<and> mset spends = mset (asked demand)"
  have m: "mergeConstraints constraints (mkeys demand) = Some b"
    using gpuBudgets_cluster [OF assms(1)] h by blast
  have perm: "mset spends = mset (asked demand)" using h by blast
  have "set spends = set (asked demand)" using mset_eq_setD [OF perm] .
  then have all: "list_all P spends = list_all P (asked demand)" for P unfolding list_all_iff by (rule arg_cong)
  have "list_all (\<lambda>(t, n). 0 < n) (asked demand)" by (auto simp: list_all_iff)
  then have "list_all (\<lambda>(t, n). 0 < n) spends" unfolding all .
  from spendAll_iff [OF merge_ok [OF m] _ this] h
  have "spendAll b spends \<noteq> None \<longleftrightarrow> fitsBudgets b nsScoped demand"
    unfolding fitsBudgets_iff [OF assms(2)] all spentUnder_mset [OF perm] by blast
  then show "FitsGPUBudget constraints namespace demand \<longleftrightarrow> spendAll b spends \<noteq> None" unfolding fits by blast
qed

text \<open>
  A namespace never gets past its own allowance: a demand \<open>FitsGPUBudget\<close> admits for a
  namespace stays, for every key of every quota that holds the namespace, within the GPUs that key
  has free, a family key over all the products and the family name together.
\<close>

lemma FitsGPUBudget_respects_allowance:
  assumes "FitsGPUBudget constraints namespace demand" and "\<forall>(t, n) \<in> set demand. IsAcceleratorResolved t"
    and "Some c \<in> set constraints" and "NamespacePools c = Some m" and "(namespace, pools) \<in> set m"
    and "(k, pool) \<in> set pools" and "0 \<le> Limit pool" and "ResourcePool_Available pool < max_int"
  shows "spentOn k (asked demand) \<le> ResourcePool_Available pool"
proof -
  have ne: "constraints \<noteq> []" using assms(3) by auto
  obtain b k' v where g: "gpuBudgets constraints namespace (mkeys demand) = (Some b, True)"
    and k': "(k', v) \<in> set b" "equal_fold k' k" "0 \<le> v" "v \<le> ResourcePool_Available pool"
    using gpuBudgets_held [OF held_in [OF assms(3-5)] assms(6-8)] by blast
  have fits: "list_all (\<lambda>(t, n). FindBudgetKey b t \<noteq> None) (asked demand)"
    "\<forall>(k, v) \<in> set b. isUnboundedBudget v \<or> spentUnder k b (asked demand) \<le> v"
    using assms(1) unfolding FitsGPUBudget_budgets [OF ne g] fitsBudgets_iff [OF assms(2)] by simp_all
  have "0 < n \<and> FindBudgetKey b t = Some (budgetKey b t)" if "(t, n) \<in> set (asked demand)" for t n
    using fits(1) that by (auto simp: list_all_iff budgetKey_def)
  moreover have "k' \<in> set (mkeys b)" using k'(1) by (force simp: mkeys_def)
  ultimately have "spentOn k' (asked demand) \<le> spentUnder k' b (asked demand)" by (rule spentOn_le [rotated])
  also have "\<dots> \<le> v" using fits(2) k' assms(8) by (fastforce simp: isUnboundedBudget_def)
  also have "\<dots> \<le> ResourcePool_Available pool" by (rule k'(4))
  finally show ?thesis using spentOn_fold [OF k'(2)] by simp
qed

text \<open>The launcher's demand of 12 H100 GPUs fits; one more PCIe GPU would not.\<close>

theorem FitsGPUBudget_iff_spendable_witness:
  "(FitsGPUBudget [Some exPhysical, None, Some exQuota] ''team'' [(exHBM3, 4), (exPCIE, 8)]
      \<longleftrightarrow> spendAll exBudget [(exPCIE, 8), (exHBM3, 4)] \<noteq> None) \<and>
   spendAll exBudget [(exPCIE, 8), (exHBM3, 4)] \<noteq> None \<and> spendAll exBudget [(exPCIE, 8), (exHBM3, 5)] = None"
proof -
  have m: "mergeConstraints [Some exPhysical, None, Some exQuota] (mkeys [(exHBM3, 4 :: int), (exPCIE, 8)]) = Some exBudget"
    using exBudget_merged by (simp add: mkeys_def)
  have h: "list_all (\<lambda>c. case c of None \<Rightarrow> True | Some c \<Rightarrow>
      (case NamespacePools c of None \<Rightarrow> True | Some m \<Rightarrow> ''team'' \<notin> set (mkeys m))) [Some exPhysical, None, Some exQuota]"
    by (simp add: exPhysical_def exQuota_def exConstraints_def)
  have g: "gpuBudgets [Some exPhysical, None, Some exQuota] ''team'' (mkeys [(exHBM3, 4 :: int), (exPCIE, 8)]) = (Some exBudget, False)"
    using gpuBudgets_unheld [OF held_none [OF h]] m by simp
  have r: "int_range exBudget" by code_simp
  have t: "\<forall>(t, n) \<in> set [(exHBM3, 4 :: int), (exPCIE, 8)]. IsAcceleratorResolved t" by code_simp
  have a: "mset [(exPCIE, 8), (exHBM3, 4)] = mset (asked [(exHBM3, 4), (exPCIE, 8)])" by simp
  have "spendAll exBudget [(exPCIE, 8), (exHBM3, 4)] \<noteq> None" by code_simp
  moreover have "spendAll exBudget [(exPCIE, 8), (exHBM3, 5)] = None" by code_simp
  ultimately show ?thesis
    using FitsGPUBudget_iff_spendable [OF g t, of "[(exPCIE, 8), (exHBM3, 4)]"] r a by blast
qed

definition exTeam :: resourceConstraints where
  "exTeam = (exConstraints [])\<lparr>NamespacePools := Some [(''team'', [(exHBM3, \<lparr>Limit = 8, Used = 0\<rparr>), (exPCIE, \<lparr>Limit = 8, Used = 0\<rparr>)])]\<rparr>"

lemma FitsGPUBudget_respects_allowance_example:
  "FitsGPUBudget [Some exTeam] ''team'' [(exHBM3, 6)] \<and> spentOn exHBM3 [(exHBM3, 6)] \<le> 8"
proof -
  have f: "FitsGPUBudget [Some exTeam] ''team'' [(exHBM3, 6)]" by code_simp
  have t: "\<forall>(t, n) \<in> set [(exHBM3, 6 :: int)]. IsAcceleratorResolved t" by code_simp
  have c: "Some exTeam \<in> set [Some exTeam]" by simp
  have m: "NamespacePools exTeam = Some [(''team'', [(exHBM3, \<lparr>Limit = 8, Used = 0\<rparr>), (exPCIE, \<lparr>Limit = 8, Used = 0\<rparr>)])]"
    by (simp add: exTeam_def)
  have p: "(''team'', [(exHBM3, \<lparr>Limit = 8, Used = 0\<rparr>), (exPCIE, \<lparr>Limit = 8, Used = 0\<rparr>)]) \<in>
      set [(''team'', [(exHBM3, \<lparr>Limit = 8, Used = 0\<rparr>), (exPCIE, \<lparr>Limit = 8, Used = 0\<rparr>)])]" by simp
  have k: "(exHBM3, \<lparr>Limit = 8, Used = 0\<rparr>) \<in> set [(exHBM3, \<lparr>Limit = 8, Used = 0\<rparr>), (exPCIE, \<lparr>Limit = 8, Used = 0\<rparr>)]" by simp
  have l: "0 \<le> Limit \<lparr>Limit = 8, Used = 0\<rparr>" "ResourcePool_Available \<lparr>Limit = 8, Used = 0\<rparr> < max_int"
    by (simp_all add: ResourcePool_Available_def max_int_def)
  from FitsGPUBudget_respects_allowance [OF f t c m p k l] f show ?thesis by (simp add: ResourcePool_Available_def)
qed

text \<open>The keys of a held namespace's budgets: names it lists, and demanded names.\<close>

lemma gpuBudgets_held_keys:
  assumes "gpuBudgets constraints ns declared = (Some b, True)" and "k \<in> set (mkeys b)"
  shows "k \<in> set declared \<or> (\<exists>pools \<in> set (held ns constraints). k \<in> set (mkeys pools))"
proof -
  let ?raw = "ns_raw (held ns constraints) (map Pools (clusterBounds constraints)) declared"
  have "held ns constraints \<noteq> []"
    using assms(1) unfolding gpuBudgets_def mergeNamespace_at by (auto split: if_splits)
  then have "mkeys b = mkeys (clampProducts ?raw)"
    using assms(1) unfolding gpuBudgets_def mergeNamespace_at
    by (auto simp: Let_def mkeys_def case_prod_beta' split: if_splits)
  then have "k \<in> set (mkeys ?raw)" using assms(2) by (simp add: mkeys_def clampProducts_def case_prod_beta' image_image)
  then have "k \<in> set (distinctSpellings (resolvedNames declared @ concat (map mkeys (held ns constraints))))"
    by (auto simp: ns_raw_def mkeys_def split: if_splits)
  then have "k \<in> set (resolvedNames declared @ concat (map mkeys (held ns constraints)))"
    using distinctSpellings(2) by blast
  then show ?thesis by (auto simp: resolvedNames_def)
qed

lemma spentUnder_apart:
  assumes "sorted_wrt (\<lambda>(t, _) (t', _). \<not> equal_fold t t') ds"
    and "\<forall>(t, n) \<in> set ds. (Covers k (budgetKey b t) \<longleftrightarrow> equal_fold k t)"
  shows "spentUnder k b ds = (case find (\<lambda>(t, _). equal_fold k t) ds of None \<Rightarrow> 0 | Some (t, n) \<Rightarrow> n)"
  using assms
proof (induction ds)
  case (Cons d ds)
  obtain t n where d: "d = (t, n)" by (cases d)
  have rest: "\<not> equal_fold k t'" if "equal_fold k t" "(t', n') \<in> set ds" for t' n'
    using Cons.prems(1) that unfolding d by (auto simp: equal_fold_def)
  have "spentUnder k b ds = (case find (\<lambda>(t, _). equal_fold k t) ds of None \<Rightarrow> 0 | Some (t, n) \<Rightarrow> n)"
    using Cons by simp
  moreover have "find (\<lambda>(t, _). equal_fold k t) ds = None" if "equal_fold k t"
    using rest [OF that] by (auto simp: find_None_iff)
  moreover have "Covers k (budgetKey b t) \<longleftrightarrow> equal_fold k t" using Cons.prems(2) d by simp
  ultimately show ?case by (simp add: d spentUnder_def)
qed (simp add: spentUnder_def)

lemma productKey_fold:
  assumes "FindBudgetKey b t \<noteq> None" and "\<not> IsFamily t" and "\<forall>k \<in> set (mkeys b). \<not> IsFamily k"
    and "k \<in> set (mkeys b)"
  shows "Covers k (budgetKey b t) \<longleftrightarrow> equal_fold k t"
proof -
  obtain key where key: "FindBudgetKey b t = Some key" using assms(1) by blast
  have "key \<in> set (mkeys b)" "equal_fold key t"
    using FindBudgetKey_sound [OF key] assms(2,3) by (auto simp: Covers_def IsProductOf_def)
  then show ?thesis using assms(3,4) key
    by (auto simp: budgetKey_def Covers_def IsProductOf_def equal_fold_def)
qed

lemma found_bound:
  assumes "sorted_wrt (\<lambda>(t, _) (t', _). \<not> equal_fold t t') xs"
  shows "(isUnboundedBudget v \<or> (case find (\<lambda>(t, _). equal_fold k t) xs of None \<Rightarrow> 0 | Some (t, n) \<Rightarrow> n) \<le> v) \<longleftrightarrow>
    (\<forall>(t, n) \<in> set xs. equal_fold k t \<longrightarrow> isUnboundedBudget v \<or> n \<le> v)"
  using assms
proof (induction xs)
  case Nil
  then show ?case by (auto simp: isUnboundedBudget_def)
next
  case (Cons x xs)
  obtain t n where x: "x = (t, n)" by (cases x)
  show ?case
  proof (cases "equal_fold k t")
    case True
    have "\<not> equal_fold k t'" if "(t', n') \<in> set xs" for t' n'
      using Cons.prems that True unfolding x by (auto simp: equal_fold_def)
    then show ?thesis using True x by auto
  next
    case False
    then show ?thesis using Cons x by simp
  qed
qed

text \<open>
  C11. In a namespace whose quotas list products only, the products of a demand are checked one by
  one. For a demand of products, no two the same up to case, \<open>FitsGPUBudget\<close> admits it exactly when
  each has a budget key and, alone, fits the budget of that key; no budget is compared with the sum
  of two products of a family, so a cluster bound on the family, which caps each of them, does not
  cap them together. In the witness 12 H100 GPUs are free in the cluster and a demand for 8 of each
  of two H100 products is admitted, though a namespace no quota holds is refused the same demand.
\<close>

theorem held_products_checked_apart:
  assumes "gpuBudgets constraints namespace (mkeys demand) = (Some b, True)"
    and "\<forall>(t, n) \<in> set demand. IsAcceleratorResolved t \<and> \<not> IsFamily t"
    and "\<forall>pools \<in> set (held namespace constraints). \<forall>k \<in> set (mkeys pools). \<not> IsFamily k"
    and "sorted_wrt (\<lambda>(t, _) (t', _). \<not> equal_fold t t') demand"
  shows "FitsGPUBudget constraints namespace demand \<longleftrightarrow>
    (\<forall>(t, n) \<in> set (asked demand). FindBudgetKey b t \<noteq> None \<and>
       (\<forall>(k, v) \<in> set b. equal_fold k t \<longrightarrow> isUnboundedBudget v \<or> n \<le> v))"
proof -
  have ne: "constraints \<noteq> []" using assms(1) by (auto simp: gpuBudgets_def)
  have res: "\<forall>(t, n) \<in> set demand. IsAcceleratorResolved t" using assms(2) by blast
  have fam: "\<forall>k \<in> set (mkeys b). \<not> IsFamily k"
    using gpuBudgets_held_keys [OF assms(1)] assms(2,3) by (fastforce simp: mkeys_def)
  have apart: "sorted_wrt (\<lambda>(t, _) (t', _). \<not> equal_fold t t') (asked demand)"
    using sorted_wrt_filter [OF assms(4)] .
  have sum: "spentUnder k b (asked demand) = (case find (\<lambda>(t, _). equal_fold k t) (asked demand) of None \<Rightarrow> 0 | Some (t, n) \<Rightarrow> n)"
    if "list_all (\<lambda>(t, n). FindBudgetKey b t \<noteq> None) (asked demand)" "(k, v) \<in> set b" for k v
  proof (rule spentUnder_apart [OF apart])
    have "k \<in> set (mkeys b)" using that(2) by (force simp: mkeys_def)
    then show "\<forall>(t, n) \<in> set (asked demand). (Covers k (budgetKey b t) \<longleftrightarrow> equal_fold k t)"
      using productKey_fold [OF _ _ fam] that(1) assms(2) by (fastforce simp: list_all_iff)
  qed
  have each: "(isUnboundedBudget v \<or> spentUnder k b (asked demand) \<le> v) \<longleftrightarrow>
      (\<forall>(t, n) \<in> set (asked demand). equal_fold k t \<longrightarrow> isUnboundedBudget v \<or> n \<le> v)"
    if "list_all (\<lambda>(t, n). FindBudgetKey b t \<noteq> None) (asked demand)" "(k, v) \<in> set b" for k v
    unfolding sum [OF that] by (rule found_bound [OF apart])
  show ?thesis
    unfolding FitsGPUBudget_budgets [OF ne assms(1)] fitsBudgets_iff [OF res]
    using each unfolding list_all_iff by blast
qed

theorem held_products_checked_apart_witness:
  "FitsGPUBudget [Some exQuota, Some exTeam] ''team'' [(exHBM3, 8), (exPCIE, 8)] \<and>
   \<not> FitsGPUBudget [Some exQuota, Some exTeam] ''other'' [(exHBM3, 8), (exPCIE, 8)] \<and>
   spentOn ''H100'' [(exHBM3, 8), (exPCIE, 8)] = 16 \<and>
   Pools exQuota = [(''H100'', \<lparr>Limit = 14, Used = 2\<rparr>)]"
proof -
  let ?b = "[(exHBM3, 8), (exPCIE, 8 :: int)]"
  have g: "gpuBudgets [Some exQuota, Some exTeam] ''team'' (mkeys [(exHBM3, 8), (exPCIE, 8 :: int)]) = (Some ?b, True)"
    by code_simp
  have h: "\<forall>(t, n) \<in> set [(exHBM3, 8), (exPCIE, 8 :: int)]. IsAcceleratorResolved t \<and> \<not> IsFamily t"
      "\<forall>pools \<in> set (held ''team'' [Some exQuota, Some exTeam]). \<forall>k \<in> set (mkeys pools). \<not> IsFamily k"
      "sorted_wrt (\<lambda>(t, _) (t', _). \<not> equal_fold t t') [(exHBM3, 8), (exPCIE, 8 :: int)]"
    by code_simp+
  have e: "\<forall>(t, n) \<in> set (asked [(exHBM3, 8), (exPCIE, 8)]). FindBudgetKey ?b t \<noteq> None \<and>
       (\<forall>(k, v) \<in> set ?b. equal_fold k t \<longrightarrow> isUnboundedBudget v \<or> n \<le> v)"
    by code_simp
  have "\<not> FitsGPUBudget [Some exQuota, Some exTeam] ''other'' [(exHBM3, 8), (exPCIE, 8)]" by code_simp
  moreover have "spentOn ''H100'' [(exHBM3, 8), (exPCIE, 8)] = 16" by code_simp
  moreover have "Pools exQuota = [(''H100'', \<lparr>Limit = 14, Used = 2\<rparr>)]" by (simp add: exQuota_def exConstraints_def)
  ultimately show ?thesis using held_products_checked_apart [OF g h] e by blast
qed

end
