(* ===== verification/NodeView.thy ===== *)
theory NodeView
  imports Budget Headroom
begin

text \<open>
  One cycle's picture of the free GPUs of every node, and the placement of replicas on it:
  \<open>internal/engines/allocation/node_view.go\<close>, the fit of a pod to a node of
  \<open>borrow_node_fit.go\<close>, and the node snapshot of \<open>internal/decision/node_gpus.go\<close>.

  A node is its position in the snapshot. A nil map of owners, which a clone has, is \<open>None\<close>;
  a nil view is \<open>None\<close> where a function is called on one. The caches of \<open>eligible\<close>,
  \<open>eligibleFor\<close>, \<open>largest\<close>, \<open>groupedDomains\<close> and \<open>slotOf\<close> hold what is
  computed from the nodes alone, which never change, and are left out, as is the log of unknown
  layouts. Whether a toleration tolerates a taint is decided by \<open>Toleration.ToleratesTaint\<close> of
  the Kubernetes API, the parameter \<open>tolerates\<close>.
\<close>

named_theorems view_simps \<open>fields of a node view after its operations\<close>

subsection \<open>The node snapshot\<close>

record taint =
  taintKey :: string
  taintValue :: string
  taintEffect :: string

record toleration =
  tolKey :: string
  tolOperator :: string
  tolValue :: string
  tolEffect :: string

record nodeGPU =
  ngAccelerator :: string
  ngCapacity :: int
  ngUsed :: int
  ngLabels :: "(string, string) gomap"
  ngUnschedulable :: bool
  ngTaints :: "taint list"
  ngLWSGroup :: bool
  ngLWSGroups :: "string list"

definition NodeGPU_Free :: "nodeGPU \<Rightarrow> int" where
  "NodeGPU_Free n = max 0 (ngCapacity n - ngUsed n)"

definition NodeGPUsMaxAge :: duration where
  "NodeGPUsMaxAge = 2 * 60 * 1000000000"

record nodeGPUStore =
  sNodes :: "(string, nodeGPU) gomap option"
  sAt :: gotime

text \<open>Publishing a nil map stores an empty one.\<close>

definition Nodes_Publish :: "(string, nodeGPU) gomap option \<Rightarrow> gotime \<Rightarrow> nodeGPUStore \<Rightarrow> nodeGPUStore" where
  "Nodes_Publish nodes now s = s\<lparr>sNodes := Some (case nodes of None \<Rightarrow> [] | Some m \<Rightarrow> m), sAt := now\<rparr>"

text \<open>\<open>Read\<close> hands the snapshot and its time to its argument; here it returns them.\<close>

definition Nodes_Read :: "duration \<Rightarrow> gotime \<Rightarrow> nodeGPUStore \<Rightarrow> ((string, nodeGPU) gomap \<times> gotime) option" where
  "Nodes_Read maxAge now s =
     (case sNodes s of None \<Rightarrow> None
      | Some nodes \<Rightarrow> if maxAge < time_sub now (sAt s) then None else Some (nodes, sAt s))"

definition Nodes_Latest :: "duration \<Rightarrow> gotime \<Rightarrow> nodeGPUStore \<Rightarrow> (string, nodeGPU) gomap option" where
  "Nodes_Latest maxAge now s =
     (case sNodes s of None \<Rightarrow> None
      | Some nodes \<Rightarrow> if maxAge < time_sub now (sAt s) then None else Some nodes)"

subsection \<open>The view\<close>

record nodeSlot =
  slName :: string
  slAccelerator :: string
  slCapacity :: int
  slUsed :: int
  slUnschedulable :: bool
  slTaints :: "taint list"
  slLabels :: "(string, string) gomap"
  slGroup :: bool

record nodeView =
  vSlots :: "nodeSlot list"
  vDebit :: "(nat, int) gomap"
  vOwner :: string
  vOwned :: "(string, (nat, int) gomap) gomap option"
  vTakenAt :: gotime
  vDomains :: "(string, string) gomap"

definition zeroNode :: nodeGPU where
  "zeroNode = \<lparr>ngAccelerator = [], ngCapacity = 0, ngUsed = 0, ngLabels = [], ngUnschedulable = False,
     ngTaints = [], ngLWSGroup = False, ngLWSGroups = []\<rparr>"

definition slotOfNode :: "string \<Rightarrow> nodeGPU \<Rightarrow> nodeSlot" where
  "slotOfNode name n = \<lparr>slName = name, slAccelerator = ngAccelerator n, slCapacity = ngCapacity n, slUsed = ngUsed n,
     slUnschedulable = ngUnschedulable n, slTaints = ngTaints n, slLabels = ngLabels n, slGroup = ngLWSGroup n\<rparr>"

definition newNodeViewAt :: "(string, nodeGPU) gomap option \<Rightarrow> gotime \<Rightarrow> nodeView option" where
  "newNodeViewAt snap takenAt =
     (case snap of None \<Rightarrow> None
      | Some snap \<Rightarrow> Some \<lparr>vSlots = map (\<lambda>name. slotOfNode name (mget zeroNode snap name)) (sort (mkeys snap)),
          vDebit = [], vOwner = [], vOwned = Some [], vTakenAt = takenAt, vDomains = []\<rparr>)"

definition slot :: "nodeView \<Rightarrow> nat \<Rightarrow> nodeSlot" where
  "slot v i = vSlots v ! i"

text \<open>\<open>n.labels[key]\<close>, the empty string when the label is absent.\<close>

definition label :: "nodeView \<Rightarrow> nat \<Rightarrow> string \<Rightarrow> string" where
  "label v i key = mget [] (slLabels (slot v i)) key"

definition free :: "nodeView \<Rightarrow> nat \<Rightarrow> int" where
  "free v i =
     (let f = slCapacity (slot v i) - slUsed (slot v i);
          f = (if vDebit v \<noteq> [] then f - mget 0 (vDebit v) i else f)
      in max 0 f)"

subsection \<open>Which nodes a pod may land on\<close>

definition eligibleNode :: "(toleration \<Rightarrow> taint \<Rightarrow> bool) \<Rightarrow> nodeSlot \<Rightarrow> string \<Rightarrow> toleration list \<Rightarrow> bool \<Rightarrow> bool" where
  "eligibleNode tolerates n acc tolerations anyTaint =
     (if slUnschedulable n then False
      else if IsAcceleratorResolved acc \<and> \<not> SameName (slAccelerator n) acc then False
      else if anyTaint then True
      else list_all (\<lambda>t. list_ex (\<lambda>tol. tolerates tol t) tolerations) (slTaints n))"

definition NodeAdmits :: "(toleration \<Rightarrow> taint \<Rightarrow> bool) \<Rightarrow> nodeGPU \<Rightarrow> string \<Rightarrow> toleration list \<Rightarrow> bool" where
  "NodeAdmits tolerates n acc tolerations =
     eligibleNode tolerates \<lparr>slName = [], slAccelerator = ngAccelerator n, slCapacity = 0, slUsed = 0,
       slUnschedulable = ngUnschedulable n, slTaints = ngTaints n, slLabels = [], slGroup = False\<rparr> acc tolerations False"

definition eligible :: "(toleration \<Rightarrow> taint \<Rightarrow> bool) \<Rightarrow> nodeView \<Rightarrow> string \<Rightarrow> toleration list \<Rightarrow> bool \<Rightarrow> nat list" where
  "eligible tolerates v acc tolerations anyTaint =
     filter (\<lambda>i. eligibleNode tolerates (slot v i) acc tolerations anyTaint) [0..<length (vSlots v)]"

definition largest :: "(toleration \<Rightarrow> taint \<Rightarrow> bool) \<Rightarrow> nodeView \<Rightarrow> string \<Rightarrow> int" where
  "largest tolerates v acc = foldl (\<lambda>most i. max most (slCapacity (slot v i))) 0 (eligible tolerates v acc [] True)"

text \<open>
  The parts of a pod template that pick nodes. \<open>OpOther\<close> is any operator the source does not
  name; of \<open>matchFields\<close> it reads only whether there are any.
\<close>

datatype nodeSelectorOperator = OpIn | OpNotIn | OpExists | OpDoesNotExist | OpGt | OpLt | OpOther

record nodeSelectorRequirement =
  rqKey :: string
  rqOperator :: nodeSelectorOperator
  rqValues :: "string list"

record nodeSelectorTerm =
  MatchExpressions :: "nodeSelectorRequirement list"
  MatchFields :: "nodeSelectorRequirement list"

record podPlacement =
  NodeSelector :: "(string, string) gomap"
  RequiredNodeAffinity :: "nodeSelectorTerm list option"

record flavorPlacement =
  flAcceleratorType :: string
  flNodeLabels :: "(string, string) gomap"
  flTolerations :: "toleration list"
  flTopologyName :: string

definition requirementHolds :: "nodeSelectorRequirement \<Rightarrow> (string, string) gomap \<Rightarrow> bool" where
  "requirementHolds r labels =
     (let val = map_of labels (rqKey r);
          compare = (\<lambda>cmp. case (rqValues r, val) of
              ([w], Some val) \<Rightarrow> (case (strconv_Atoi w, strconv_Atoi val) of
                  (Some want, Some got) \<Rightarrow> cmp got want | _ \<Rightarrow> False)
            | _ \<Rightarrow> False)
      in case rqOperator r of
        OpIn \<Rightarrow> (case val of None \<Rightarrow> False | Some x \<Rightarrow> x \<in> set (rqValues r))
      | OpNotIn \<Rightarrow> (case val of None \<Rightarrow> True | Some x \<Rightarrow> x \<notin> set (rqValues r))
      | OpExists \<Rightarrow> val \<noteq> None
      | OpDoesNotExist \<Rightarrow> val = None
      | OpGt \<Rightarrow> compare (\<lambda>got want. want < got)
      | OpLt \<Rightarrow> compare (\<lambda>got want. got < want)
      | OpOther \<Rightarrow> False)"

definition termAdmits :: "nodeSelectorRequirement list \<Rightarrow> (string, string) gomap \<Rightarrow> bool" where
  "termAdmits reqs labels = list_all (\<lambda>r. requirementHolds r labels) reqs"

definition templateAdmits :: "podPlacement \<Rightarrow> (string, string) gomap \<Rightarrow> bool" where
  "templateAdmits p labels =
     (if \<not> list_all (\<lambda>(k, val). map_of labels k = Some val) (NodeSelector p) then False
      else case RequiredNodeAffinity p of None \<Rightarrow> True
        | Some terms \<Rightarrow>
            if terms = [] then True
            else list_ex (\<lambda>term. \<not> (MatchExpressions term = [] \<and> MatchFields term = []) \<and>
                   termAdmits (MatchExpressions term) labels) terms)"

definition admitsPlacement :: "nodeSlot \<Rightarrow> podPlacement list \<Rightarrow> (string, string) gomap \<Rightarrow> bool" where
  "admitsPlacement n templates flavorLabels =
     (list_all (\<lambda>t. templateAdmits t (slLabels n)) templates \<and>
      list_all (\<lambda>(k, val). map_of (slLabels n) k = Some val) flavorLabels)"

subsection \<open>Replicas and their pods\<close>

record replicaShape =
  rsVariant :: string
  rsAccelerator :: string
  rsPodGPUs :: "int list"
  rsGPUs :: int
  rsTolerations :: "toleration list"
  rsDomainKey :: string
  rsPlacements :: "podPlacement list"
  rsFlavor :: "flavorPlacement option"

record replicaFit =
  rfAcc :: string
  rfPods :: "int list"
  rfTolerations :: "toleration list"
  rfDomain :: string
  rfTemplates :: "podPlacement list"
  rfFlavor :: "flavorPlacement option"

record podFit =
  pfGpus :: int
  pfNodes :: "nat list"

definition replicaPods :: "(toleration \<Rightarrow> taint \<Rightarrow> bool) \<Rightarrow> nodeView option \<Rightarrow> string \<Rightarrow> int list \<Rightarrow> int \<Rightarrow> int list" where
  "replicaPods tolerates v acc podGPUs gpusPerReplica =
     (if podGPUs \<noteq> [] \<and> sum_list podGPUs = gpusPerReplica then podGPUs
      else if (case v of None \<Rightarrow> False | Some v \<Rightarrow> largest tolerates v acc < gpusPerReplica) then []
      else [gpusPerReplica])"

definition fitOf :: "(toleration \<Rightarrow> taint \<Rightarrow> bool) \<Rightarrow> nodeView \<Rightarrow> replicaShape \<Rightarrow> replicaFit" where
  "fitOf tolerates v s = \<lparr>rfAcc = rsAccelerator s,
     rfPods = replicaPods tolerates (Some v) (rsAccelerator s) (rsPodGPUs s) (rsGPUs s),
     rfTolerations = rsTolerations s, rfDomain = rsDomainKey s, rfTemplates = rsPlacements s, rfFlavor = rsFlavor s\<rparr>"

definition podTemplates :: "replicaFit \<Rightarrow> nat \<Rightarrow> podPlacement list" where
  "podTemplates r i =
     (if length (rfTemplates r) \<le> 1 then rfTemplates r
      else if length (rfTemplates r) = 2 \<and> 1 < length (rfPods r) then
        (if i = 0 then take 1 (rfTemplates r) else drop 1 (rfTemplates r))
      else [])"

definition eligibleFor :: "(toleration \<Rightarrow> taint \<Rightarrow> bool) \<Rightarrow> nodeView \<Rightarrow> replicaFit \<Rightarrow> podPlacement list \<Rightarrow> nat list" where
  "eligibleFor tolerates v r templates =
     (if templates = [] \<and> rfFlavor r = None then eligible tolerates v (rfAcc r) (rfTolerations r) False
      else
        let tolerations = (case rfFlavor r of None \<Rightarrow> rfTolerations r | Some f \<Rightarrow> rfTolerations r @ flTolerations f);
            base = eligible tolerates v (rfAcc r) tolerations False;
            labels = (case rfFlavor r of None \<Rightarrow> [] | Some f \<Rightarrow> flNodeLabels f)
        in filter (\<lambda>i. admitsPlacement (slot v i) templates labels) base)"

definition eligibleFit :: "(toleration \<Rightarrow> taint \<Rightarrow> bool) \<Rightarrow> nodeView \<Rightarrow> replicaFit \<Rightarrow> nat list" where
  "eligibleFit tolerates v r =
     (if 1 < length (rfTemplates r) then eligibleFor tolerates v r [] else eligibleFor tolerates v r (rfTemplates r))"

definition podFits :: "(toleration \<Rightarrow> taint \<Rightarrow> bool) \<Rightarrow> nodeView \<Rightarrow> replicaFit \<Rightarrow> podFit list" where
  "podFits tolerates v r =
     stable_sort (\<lambda>a b. pfGpus b < pfGpus a)
       (concat (map (\<lambda>(i, g). if 0 < g then [\<lparr>pfGpus = g, pfNodes = eligibleFor tolerates v r (podTemplates r i)\<rparr>] else [])
         (zip [0..<length (rfPods r)] (rfPods r))))"

subsection \<open>Charging and adopting\<close>

definition Clone :: "nodeView \<Rightarrow> nodeView" where
  "Clone v = \<lparr>vSlots = vSlots v, vDebit = vDebit v, vOwner = [], vOwned = None, vTakenAt = vTakenAt v, vDomains = vDomains v\<rparr>"

definition record_debit :: "nat \<Rightarrow> int \<Rightarrow> nodeView \<Rightarrow> nodeView" where
  "record_debit i g v =
     (case vOwned v of None \<Rightarrow> v
      | Some owned \<Rightarrow> v\<lparr>vOwned := Some (mput (vOwner v) (madd i g (mget [] owned (vOwner v))) owned)\<rparr>)"

definition charge :: "nat \<Rightarrow> int \<Rightarrow> nodeView \<Rightarrow> nodeView" where
  "charge i g v = (let v = v\<lparr>vDebit := madd i g (vDebit v)\<rparr> in if vOwned v \<noteq> None then record_debit i g v else v)"

definition takeDomain :: "string \<Rightarrow> nodeView \<Rightarrow> nodeView" where
  "takeDomain d v = v\<lparr>vDomains := mput d (vOwner v) (vDomains v)\<rparr>"

definition adopt :: "nodeView \<Rightarrow> nodeView \<Rightarrow> nodeView" where
  "adopt v c =
     (let v1 = (if vOwned v = None then v
                else foldl (\<lambda>w (i, g). let d = g - mget 0 (vDebit v) i in if d \<noteq> 0 then record_debit i d w else w) v (vDebit c));
          v2 = v1\<lparr>vDebit := vDebit c\<rparr>
      in foldl (\<lambda>w d. if map_of (vDomains w) d = None then takeDomain d w else w) v2 (mkeys (vDomains c)))"

definition setOwner :: "string \<Rightarrow> nodeView \<Rightarrow> nodeView" where
  "setOwner owner v = v\<lparr>vOwner := owner\<rparr>"

subsection \<open>Placing one replica\<close>

definition domainID :: "string \<Rightarrow> string \<Rightarrow> string" where
  "domainID key d = key @ CHR 0x00 # d"

definition groupedDomains :: "nodeView \<Rightarrow> string \<Rightarrow> string list" where
  "groupedDomains v key =
     map (\<lambda>n. mget [] (slLabels n) key) (filter (\<lambda>n. slGroup n \<and> mget [] (slLabels n) key \<noteq> []) (vSlots v))"

definition domainTaken :: "nodeView \<Rightarrow> string \<Rightarrow> string \<Rightarrow> bool" where
  "domainTaken v key d = (map_of (vDomains v) (domainID key d) \<noteq> None \<or> d \<in> set (groupedDomains v key))"

definition domainsOf :: "nodeView \<Rightarrow> nat list \<Rightarrow> string \<Rightarrow> string list" where
  "domainsOf v nodes key =
     sort (foldl (\<lambda>out i. let d = label v i key in if d \<noteq> [] \<and> d \<notin> set out then out @ [d] else out) [] nodes)"

text \<open>
  The inner loop of \<open>bestFit\<close>: the node found so far and what is free on it, \<open>None\<close> for the
  index \<open>-1\<close>.
\<close>

fun bestNode :: "nodeView \<Rightarrow> string \<Rightarrow> string \<Rightarrow> (nat, int) gomap \<Rightarrow> int \<Rightarrow> (nat \<times> int) option \<Rightarrow> nat list \<Rightarrow> (nat \<times> int) option" where
  "bestNode v key domain taken need best [] = best"
| "bestNode v key domain taken need best (i # is) =
     (if domain \<noteq> [] \<and> label v i key \<noteq> domain then bestNode v key domain taken need best is
      else let f = free v i - mget 0 taken i in
        if f < need \<or> (case best of None \<Rightarrow> False | Some (_, bestFree) \<Rightarrow> bestFree \<le> f)
        then bestNode v key domain taken need best is
        else if f = need then Some (i, f)
        else bestNode v key domain taken need (Some (i, f)) is)"

fun bestFit :: "nodeView \<Rightarrow> string \<Rightarrow> string \<Rightarrow> (nat, int) gomap \<Rightarrow> podFit list \<Rightarrow> (nat, int) gomap option" where
  "bestFit v key domain taken [] = Some taken"
| "bestFit v key domain taken (p # ps) =
     (case bestNode v key domain taken (pfGpus p) None (pfNodes p) of None \<Rightarrow> None
      | Some (best, _) \<Rightarrow> bestFit v key domain (madd best (pfGpus p) taken) ps)"

definition chargeAll :: "(nat, int) gomap \<Rightarrow> nodeView \<Rightarrow> nodeView" where
  "chargeAll taken v = foldl (\<lambda>v i. charge i (mget 0 taken i) v) v (sort (mkeys taken))"

fun placeIn :: "nodeView \<Rightarrow> podFit list \<Rightarrow> string \<Rightarrow> bool \<Rightarrow> string list \<Rightarrow> bool \<times> nodeView" where
  "placeIn v pods key exclusive [] = (False, v)"
| "placeIn v pods key exclusive (d # ds) =
     (if exclusive \<and> domainTaken v key d then placeIn v pods key exclusive ds
      else case bestFit v key d [] pods of
        None \<Rightarrow> placeIn v pods key exclusive ds
      | Some taken \<Rightarrow>
          (let v = chargeAll taken v in (True, if exclusive then takeDomain (domainID key d) v else v)))"

definition place :: "(toleration \<Rightarrow> taint \<Rightarrow> bool) \<Rightarrow> nodeView \<Rightarrow> replicaFit \<Rightarrow> bool \<times> nodeView" where
  "place tolerates v r =
     (let pods = podFits tolerates v r;
          exclusive = (rfDomain r \<noteq> [] \<and> 1 < length pods);
          domains = (if exclusive then domainsOf v (concat (map pfNodes pods)) (rfDomain r) else [[]])
      in if pods = [] then (True, v) else placeIn v pods (rfDomain r) exclusive domains)"

subsection \<open>Placing several\<close>

text \<open>The loop of \<open>PlaceReplicas\<close>: the trial view with every replica placed, or \<open>None\<close>.\<close>

fun placeAll :: "(toleration \<Rightarrow> taint \<Rightarrow> bool) \<Rightarrow> nodeView \<Rightarrow> replicaShape list \<Rightarrow> nodeView option" where
  "placeAll tolerates trial [] = Some trial"
| "placeAll tolerates trial (r # rs) =
     (let (ok, trial) = place tolerates trial (fitOf tolerates trial r) in if ok then placeAll tolerates trial rs else None)"

definition PlaceReplicas :: "(toleration \<Rightarrow> taint \<Rightarrow> bool) \<Rightarrow> nodeView option \<Rightarrow> replicaShape list \<Rightarrow> bool \<Rightarrow> bool \<times> nodeView option" where
  "PlaceReplicas tolerates v reps commit =
     (case v of None \<Rightarrow> (True, None)
      | Some v \<Rightarrow> (case placeAll tolerates (Clone v) reps of None \<Rightarrow> (False, Some v)
          | Some trial \<Rightarrow> (True, Some (if commit then adopt v trial else v))))"

text \<open>How many of \<open>n\<close> copies the trial loop of \<open>fits\<close> places before one fails.\<close>

fun fitsTrial :: "(toleration \<Rightarrow> taint \<Rightarrow> bool) \<Rightarrow> nodeView \<Rightarrow> replicaFit \<Rightarrow> nat \<Rightarrow> nat" where
  "fitsTrial tolerates trial r 0 = 0"
| "fitsTrial tolerates trial r (Suc n) =
     (let (ok, trial) = place tolerates trial r in if ok then Suc (fitsTrial tolerates trial r n) else 0)"

fun fitsCount :: "nodeView \<Rightarrow> int \<Rightarrow> int \<Rightarrow> int \<Rightarrow> nat list \<Rightarrow> int" where
  "fitsCount v need n fit [] = fit"
| "fitsCount v need n fit (i # is) =
     (let fit = fit + godiv (free v i) need in if n \<le> fit then n else fitsCount v need n fit is)"

definition fits :: "(toleration \<Rightarrow> taint \<Rightarrow> bool) \<Rightarrow> nodeView option \<Rightarrow> replicaFit \<Rightarrow> int \<Rightarrow> int" where
  "fits tolerates v r n =
     (case v of None \<Rightarrow> n
      | Some v \<Rightarrow>
          if n \<le> 0 then n
          else case rfPods r of
            [need] \<Rightarrow> if need \<le> 0 then n else fitsCount v need n 0 (eligibleFor tolerates v r (podTemplates r 0))
          | _ \<Rightarrow> int (fitsTrial tolerates (Clone v) r (nat n)))"

subsection \<open>Reserving, and taking back\<close>

definition freest :: "nodeView \<Rightarrow> (nat \<times> int) option \<Rightarrow> nat \<Rightarrow> (nat \<times> int) option" where
  "freest v most i =
     (let f = free v i in if (case most of None \<Rightarrow> 0 | Some (_, mostFree) \<Rightarrow> mostFree) < f then Some (i, f) else most)"

definition mostFree :: "nodeView \<Rightarrow> nat list \<Rightarrow> (nat \<times> int) option" where
  "mostFree v nodes = foldl (freest v) None nodes"

lemma freest_fold:
  fixes v :: nodeView
  defines "val \<equiv> \<lambda>m :: (nat \<times> int) option. case m of None \<Rightarrow> 0 | Some (_, f) \<Rightarrow> f"
  shows "(foldl (freest v) m nodes = m \<or> (\<exists>i \<in> set nodes. foldl (freest v) m nodes = Some (i, free v i) \<and> val m < free v i)) \<and>
    val m \<le> val (foldl (freest v) m nodes) \<and> (\<forall>i \<in> set nodes. free v i \<le> val (foldl (freest v) m nodes))"
proof (induction nodes arbitrary: m)
  case (Cons i nodes)
  consider "freest v m i = m" "free v i \<le> val m" | "freest v m i = Some (i, free v i)" "val m < free v i" "val (freest v m i) = free v i"
    by (force simp: freest_def val_def Let_def)
  then show ?case using Cons.IH [of "freest v m i"] by cases (simp, force)+
qed simp

lemma mostFree_Some:
  "mostFree v nodes = Some (i, f) \<Longrightarrow> i \<in> set nodes \<and> f = free v i \<and> 0 < f \<and> (\<forall>j \<in> set nodes. free v j \<le> f)"
  using freest_fold [of v None nodes] by (auto simp: mostFree_def)

lemma mostFree_None: "mostFree v nodes = None \<Longrightarrow> i \<in> set nodes \<Longrightarrow> free v i \<le> 0"
  using freest_fold [of v None nodes] by (auto simp: mostFree_def)

function reserveLoop :: "nodeView \<Rightarrow> nat list \<Rightarrow> int \<Rightarrow> nodeView" where
  "reserveLoop v nodes n =
     (if n \<le> 0 then v
      else case mostFree v nodes of None \<Rightarrow> v
        | Some (most, f) \<Rightarrow>
            (let t = min f n in reserveLoop (charge most t v) nodes (n - t)))"
  by auto

termination
  by (relation "measure (\<lambda>(v, nodes, n). nat n)") (auto dest: mostFree_Some)

declare reserveLoop.simps [simp del]

definition Reserve :: "(toleration \<Rightarrow> taint \<Rightarrow> bool) \<Rightarrow> nodeView option \<Rightarrow> string \<Rightarrow> string \<Rightarrow> int \<Rightarrow> nodeView option" where
  "Reserve tolerates v owner acc n =
     (case v of None \<Rightarrow> None
      | Some v \<Rightarrow>
          if n \<le> 0 then Some v
          else let prev = vOwner v; w = setOwner owner v
               in Some (setOwner prev (reserveLoop w (eligible tolerates w acc [] True) n)))"

definition PromisedOwner :: string where
  "PromisedOwner = ''promised''"

definition ReservePromised :: "(toleration \<Rightarrow> taint \<Rightarrow> bool) \<Rightarrow> nodeView option \<Rightarrow> (string, (string, int) gomap) gomap \<Rightarrow> nodeView option" where
  "ReservePromised tolerates v promised =
     foldl (\<lambda>v scope. foldl (\<lambda>v acc. Reserve tolerates v PromisedOwner acc (mget 0 (mget [] promised scope) acc))
         v (sort (mkeys (mget [] promised scope))))
       v (sort (mkeys promised))"

definition Holes :: "nodeView option \<Rightarrow> (string, int list) gomap option" where
  "Holes v =
     (case v of None \<Rightarrow> None
      | Some v \<Rightarrow> Some (foldl (\<lambda>out i.
          if slUnschedulable (slot v i) then out
          else let acc = slAccelerator (slot v i); h = mget [] out acc; f = free v i
               in mput acc (if 0 < f then h @ [f] else h) out) [] [0..<length (vSlots v)]))"

definition DebitsExcept :: "nodeView option \<Rightarrow> (string \<Rightarrow> bool) option \<Rightarrow> (string, int) gomap option" where
  "DebitsExcept v exclude =
     (case v of None \<Rightarrow> None
      | Some v \<Rightarrow> Some (foldl (\<lambda>out (owner, perNode).
          if (case exclude of None \<Rightarrow> False | Some ex \<Rightarrow> ex owner) then out
          else foldl (\<lambda>out (i, g). madd (slName (slot v i)) g out) out perNode)
        [] (case vOwned v of None \<Rightarrow> [] | Some owned \<Rightarrow> owned)))"

definition takeBack :: "(nat, int) gomap \<Rightarrow> nat \<times> int \<Rightarrow> (nat, int) gomap" where
  "takeBack debit ig =
     (let (i, g) = ig; debit = madd i (- g) debit in if mget 0 debit i \<le> 0 then mdel i debit else debit)"

definition without :: "nodeView option \<Rightarrow> (string \<Rightarrow> bool) \<Rightarrow> nodeView option" where
  "without v exclude =
     (case v of None \<Rightarrow> None
      | Some v \<Rightarrow>
          (let c = Clone v;
               debit = foldl (\<lambda>debit (owner, perNode). if \<not> exclude owner then debit else foldl takeBack debit perNode)
                 (vDebit c) (case vOwned v of None \<Rightarrow> [] | Some owned \<Rightarrow> owned)
           in Some (c\<lparr>vDebit := debit, vDomains := filter (\<lambda>(_, owner). \<not> exclude owner) (vDomains c)\<rparr>)))"

definition slotOf :: "nodeView \<Rightarrow> string \<Rightarrow> nat option" where
  "slotOf v name = map_of (rev (zip (map slName (vSlots v)) [0..<length (vSlots v)])) name"

text \<open>The borrowing placer's tentative placements.\<close>

record viewDebits =
  vdDebit :: "(nat, int) gomap"
  vdOwned :: "(string, (nat, int) gomap) gomap option"

definition saveDebits :: "nodeView \<Rightarrow> viewDebits" where
  "saveDebits v = \<lparr>vdDebit = vDebit v, vdOwned = vOwned v\<rparr>"

definition restoreDebits :: "viewDebits \<Rightarrow> nodeView \<Rightarrow> nodeView" where
  "restoreDebits s v = v\<lparr>vDebit := vdDebit s, vOwned := vdOwned s\<rparr>"

subsection \<open>Growth Kueue reclaims\<close>

record reclaim =
  rcAfter :: int
  rcKept :: int
  rcGPUs :: int
  needsHole :: bool

definition zeroReclaim :: reclaim where
  "zeroReclaim = \<lparr>rcAfter = 0, rcKept = 0, rcGPUs = 0, needsHole = False\<rparr>"

definition Reclaim_sub :: "reclaim \<Rightarrow> reclaim \<Rightarrow> reclaim" where
  "Reclaim_sub r u =
     (let after = max 0 (rcAfter r - rcAfter u)
      in \<lparr>rcAfter = after, rcKept = min after (max 0 (rcKept r - rcKept u)), rcGPUs = max 0 (rcGPUs r - rcGPUs u),
          needsHole = needsHole r\<rparr>)"

definition Reclaim_add :: "reclaim \<Rightarrow> reclaim \<Rightarrow> reclaim" where
  "Reclaim_add r u = \<lparr>rcAfter = rcAfter r + rcAfter u, rcKept = rcKept r + rcKept u, rcGPUs = rcGPUs r + rcGPUs u, needsHole = False\<rparr>"

definition exempt :: "reclaim \<Rightarrow> int \<Rightarrow> bool" where
  "exempt r g = (\<not> needsHole r \<and> rcAfter r \<le> 0 \<and> g \<le> rcGPUs r)"

definition Reclaim_take :: "reclaim \<Rightarrow> int \<Rightarrow> reclaim" where
  "Reclaim_take r g =
     (let after = min g (max 0 (rcAfter r))
      in \<lparr>rcAfter = after, rcKept = min after (max 0 (rcKept r)), rcGPUs = min (g - after) (max 0 (rcGPUs r)), needsHole = False\<rparr>)"

definition RequireHoles :: "(string, reclaim) gomap \<Rightarrow> (string, reclaim) gomap" where
  "RequireHoles reclaimable =
     (if reclaimable = [] then reclaimable else map (\<lambda>(t, r). (t, r\<lparr>needsHole := True\<rparr>)) reclaimable)"

text \<open>
  The loop of \<open>PlaceReplicasReclaiming\<close> over the trial view, what is left of the reclaimable
  figures, and what the placement took.
\<close>

fun reclaimAll :: "(toleration \<Rightarrow> taint \<Rightarrow> bool) \<Rightarrow> nodeView \<Rightarrow> (string, reclaim) gomap \<Rightarrow> (string, reclaim) gomap \<Rightarrow> replicaShape list
    \<Rightarrow> (nodeView \<times> (string, reclaim) gomap) option" where
  "reclaimAll tolerates trial left took [] = Some (trial, took)"
| "reclaimAll tolerates trial left took (r # rs) =
     (let (onNode, trial) = place tolerates trial (fitOf tolerates trial r) in
      case FindKey left (rsAccelerator r) of
        None \<Rightarrow> if onNode then reclaimAll tolerates trial left took rs else None
      | Some k \<Rightarrow>
          (let g = max (rsGPUs r) 1; lk = mget zeroReclaim left k; t = Reclaim_take lk g in
           if \<not> onNode \<and> \<not> exempt lk g then None
           else reclaimAll tolerates trial (mput k (Reclaim_sub lk t) left)
                  (mput k (Reclaim_add (mget zeroReclaim took k) t) took) rs))"

definition PlaceReplicasReclaiming :: "(toleration \<Rightarrow> taint \<Rightarrow> bool) \<Rightarrow> nodeView option \<Rightarrow> replicaShape list \<Rightarrow> bool
    \<Rightarrow> (string, reclaim) gomap \<Rightarrow> bool \<times> (string, reclaim) gomap \<times> nodeView option" where
  "PlaceReplicasReclaiming tolerates v reps commit reclaimable =
     (case v of None \<Rightarrow> (True, [], None)
      | Some v \<Rightarrow> (case reclaimAll tolerates (Clone v) reclaimable [] reps of None \<Rightarrow> (False, [], Some v)
          | Some (trial, took) \<Rightarrow> (True, took, Some (if commit then adopt v trial else v))))"

end
