(* ===== verification/NodeFit.thy ===== *)
theory NodeFit
  imports NodeView
begin

text \<open>
  What holds of the node view: no operation takes more GPUs of a node than are free on it, a placed
  replica's pods each land on a node they may use, and what an owner was charged can be taken back
  exactly.
\<close>

subsection \<open>What is debited and what is free\<close>

definition debited :: "nodeView \<Rightarrow> nat \<Rightarrow> int" where
  "debited v i = mget 0 (vDebit v) i"

definition spare :: "nodeView \<Rightarrow> nat \<Rightarrow> int" where
  "spare v i = slCapacity (slot v i) - slUsed (slot v i)"

lemma free_eq: "free v i = max 0 (spare v i - debited v i)"
  by (auto simp: free_def spare_def debited_def mget_def Let_def)

lemma free_nonneg [simp]: "0 \<le> free v i"
  by (simp add: free_eq)

text \<open>A node is charged what is not negative and at most what its snapshot leaves spare.\<close>

definition view_ok :: "nodeView \<Rightarrow> bool" where
  "view_ok v \<longleftrightarrow> gomap_ok (vDebit v) \<and> list_all (\<lambda>(i, g). 0 \<le> g \<and> g \<le> max 0 (spare v i) \<and> i < length (vSlots v)) (vDebit v)"

lemma view_ok_debited: "view_ok v \<Longrightarrow> 0 \<le> debited v i \<and> debited v i \<le> max 0 (spare v i)"
  unfolding debited_def
  by (cases "map_of (vDebit v) i") (auto simp: view_ok_def list_all_iff mget_def dest!: map_of_SomeD)

lemma view_ok_iff:
  "view_ok v \<longleftrightarrow> gomap_ok (vDebit v) \<and> (\<forall>i \<in> set (mkeys (vDebit v)). 0 \<le> debited v i \<and> debited v i \<le> max 0 (spare v i) \<and> i < length (vSlots v))"
proof (cases "gomap_ok (vDebit v)")
  case True
  then have "mget 0 (vDebit v) i = g" if "(i, g) \<in> set (vDebit v)" for i g using that by (rule mget_in)
  then show ?thesis unfolding view_ok_def list_all_iff mkeys_def debited_def by force
qed (simp add: view_ok_def)

lemma slot_cong: "vSlots v' = vSlots v \<Longrightarrow> slot v' = slot v" "vSlots v' = vSlots v \<Longrightarrow> spare v' = spare v"
    "vSlots v' = vSlots v \<Longrightarrow> label v' = label v"
  by (simp_all add: fun_eq_iff slot_def spare_def label_def)

text \<open>
  What every operation that places GPUs does to a view: the nodes stay, no debit shrinks, and none
  grows by more than was free.
\<close>

definition extends :: "nodeView \<Rightarrow> nodeView \<Rightarrow> bool" where
  "extends v v' \<longleftrightarrow> vSlots v' = vSlots v \<and> gomap_ok (vDebit v') \<and>
     (\<forall>i. debited v i \<le> debited v' i \<and> debited v' i \<le> debited v i + free v i) \<and>
     (\<forall>i \<in> set (mkeys (vDebit v')). i \<in> set (mkeys (vDebit v)) \<or> i < length (vSlots v))"

lemma extends_refl: "gomap_ok (vDebit v) \<Longrightarrow> extends v v"
  by (simp add: extends_def)

lemma extendsD:
  assumes "extends v v'"
  shows "vSlots v' = vSlots v" and "gomap_ok (vDebit v')" and "debited v i \<le> debited v' i"
    and "debited v' i \<le> debited v i + free v i" and "spare v' = spare v"
    and "i \<in> set (mkeys (vDebit v')) \<Longrightarrow> i \<in> set (mkeys (vDebit v)) \<or> i < length (vSlots v)"
  using assms slot_cong(2) [of v' v] by (simp_all add: extends_def)

lemma extends_trans:
  assumes "extends a b" and "extends b c"
  shows "extends a c"
proof -
  note a = extendsD [OF assms(1)] and b = extendsD [OF assms(2)]
  have "debited a i \<le> debited c i \<and> debited c i \<le> debited a i + free a i" for i
    using a(3,4) [of i] b(3,4) [of i] by (simp add: free_eq a(5) max_def split: if_splits)
  moreover have "i \<in> set (mkeys (vDebit a)) \<or> i < length (vSlots a)" if "i \<in> set (mkeys (vDebit c))" for i
    using a(1) a(6) [of i] b(6) [OF that] by auto
  ultimately show ?thesis using a(1) b(1,2) by (simp add: extends_def)
qed

lemma extends_ok:
  assumes "extends v v'" and "view_ok v"
  shows "view_ok v'"
proof -
  have e: "vSlots v' = vSlots v" "gomap_ok (vDebit v')" using assms(1) by (simp_all add: extends_def)
  have "0 \<le> debited v' i \<and> debited v' i \<le> max 0 (spare v i)" for i
  proof -
    have "debited v i \<le> debited v' i" "debited v' i \<le> debited v i + free v i" using assms(1) by (simp_all add: extends_def)
    then show ?thesis using view_ok_debited [OF assms(2), of i] by (auto simp: free_eq max_def split: if_splits)
  qed
  moreover have "i < length (vSlots v)" if "i \<in> set (mkeys (vDebit v'))" for i
    using assms that unfolding extends_def view_ok_iff by blast
  ultimately show ?thesis unfolding view_ok_iff using e slot_cong(2) [OF e(1)] by simp
qed

lemma extends_free:
  assumes "extends v v'"
  shows "free v' i = free v i - (debited v' i - debited v i)"
proof -
  note e = extendsD [OF assms]
  show ?thesis using e(3,4) [of i] by (simp add: free_eq e(5) max_def split: if_splits)
qed

subsection \<open>Charging\<close>

lemma record_debit_fields [view_simps]:
  "vSlots (record_debit i g v) = vSlots v" "vDebit (record_debit i g v) = vDebit v" "vOwner (record_debit i g v) = vOwner v"
  "vDomains (record_debit i g v) = vDomains v" "vTakenAt (record_debit i g v) = vTakenAt v"
  by (simp_all add: record_debit_def split: option.split)

lemma charge_fields [view_simps]:
  "vSlots (charge i g v) = vSlots v" "vDebit (charge i g v) = madd i g (vDebit v)" "vOwner (charge i g v) = vOwner v"
  "vDomains (charge i g v) = vDomains v" "vTakenAt (charge i g v) = vTakenAt v"
  by (simp_all add: charge_def Let_def view_simps)

lemma debited_charge [view_simps]: "debited (charge i g v) j = (if j = i then debited v i + g else debited v j)"
  by (simp add: debited_def view_simps gomap_simps)

lemma extends_charge:
  assumes "gomap_ok (vDebit v)" and "i < length (vSlots v)" and "0 \<le> g" and "g \<le> free v i"
  shows "extends v (charge i g v)"
  using assms by (auto simp: extends_def view_simps gomap_simps intro: gomap_ok_madd)

lemma takeDomain_fields [view_simps]:
  "vSlots (takeDomain d v) = vSlots v" "vDebit (takeDomain d v) = vDebit v" "vOwner (takeDomain d v) = vOwner v"
  "vOwned (takeDomain d v) = vOwned v" "vDomains (takeDomain d v) = mput d (vOwner v) (vDomains v)"
  by (simp_all add: takeDomain_def)

lemma setOwner_fields [view_simps]:
  "vSlots (setOwner d v) = vSlots v" "vDebit (setOwner d v) = vDebit v" "vOwner (setOwner d v) = d"
  "vOwned (setOwner d v) = vOwned v" "vDomains (setOwner d v) = vDomains v"
  by (simp_all add: setOwner_def)

lemma Clone_fields [view_simps]:
  "vSlots (Clone v) = vSlots v" "vDebit (Clone v) = vDebit v" "vOwned (Clone v) = None" "vDomains (Clone v) = vDomains v"
  by (simp_all add: Clone_def)

lemma free_Clone [view_simps]: "free (Clone v) = free v"
  by (simp add: fun_eq_iff free_def Let_def slot_def Clone_def)

text \<open>Only the nodes and the debits count.\<close>

lemma extends_cong:
  "vSlots a = vSlots a' \<Longrightarrow> vDebit a = vDebit a' \<Longrightarrow> vSlots b = vSlots b' \<Longrightarrow> vDebit b = vDebit b' \<Longrightarrow> extends a b = extends a' b'"
  by (simp add: extends_def debited_def free_eq spare_def slot_def)

subsection \<open>Best fit\<close>

lemma bestNode_found:
  "bestNode v key d taken need best nodes = Some (i, f) \<Longrightarrow>
     best = Some (i, f) \<or> i \<in> set nodes \<and> (d = [] \<or> label v i key = d) \<and> f = free v i - mget 0 taken i \<and> need \<le> f"
proof (induction nodes arbitrary: best)
  case (Cons n nodes)
  then show ?case
    using Cons.IH [of best] Cons.IH [of "Some (n, free v n - mget 0 taken n)"] unfolding bestNode.simps Let_def
    by (auto split: if_splits)
qed simp

lemma bestNode_least:
  "bestNode v key d taken need best nodes = Some (i, f) \<Longrightarrow> (\<And>j g. best = Some (j, g) \<Longrightarrow> need \<le> g) \<Longrightarrow>
     (\<forall>j g. best = Some (j, g) \<longrightarrow> f \<le> g) \<and>
     (\<forall>j \<in> set nodes. (d = [] \<or> label v j key = d) \<and> need \<le> free v j - mget 0 taken j \<longrightarrow> f \<le> free v j - mget 0 taken j)"
proof (induction nodes arbitrary: best)
  case (Cons n nodes)
  let ?f = "free v n - mget 0 taken n"
  consider (other) "d \<noteq> []" "label v n key \<noteq> d" | (small) "d = [] \<or> label v n key = d" "?f < need"
    | (worse) j g where "d = [] \<or> label v n key = d" "best = Some (j, g)" "need \<le> ?f" "g \<le> ?f"
    | (exact) "d = [] \<or> label v n key = d" "\<forall>j g. best = Some (j, g) \<longrightarrow> ?f < g" "?f = need"
    | (better) "d = [] \<or> label v n key = d" "\<forall>j g. best = Some (j, g) \<longrightarrow> ?f < g" "need < ?f"
    by (cases best) (force, force)
  then show ?case
  proof cases
    case other
    then show ?thesis using Cons.IH [of best] Cons.prems by auto
  next
    case small
    then show ?thesis using Cons.IH [of best] Cons.prems by (auto simp: Let_def split: if_splits)
  next
    case worse
    then have b: "bestNode v key d taken need best nodes = Some (i, f)" using Cons.prems(1) by auto
    then show ?thesis using Cons.IH [OF b] Cons.prems(2) worse by force
  next
    case exact
    then have "i = n \<and> f = ?f" using Cons.prems(1) by (auto simp: Let_def split: if_splits option.splits)
    then show ?thesis using exact by auto
  next
    case better
    then have b: "bestNode v key d taken need (Some (n, ?f)) nodes = Some (i, f)"
      using Cons.prems(1) by (auto simp: Let_def split: if_splits option.splits)
    then show ?thesis using Cons.IH [OF b] better by force
  qed
qed auto

lemma bestNode_none:
  "bestNode v key d taken need best nodes = None \<longleftrightarrow>
     best = None \<and> (\<forall>i \<in> set nodes. \<not> ((d = [] \<or> label v i key = d) \<and> need \<le> free v i - mget 0 taken i))"
proof (induction nodes arbitrary: best)
  case (Cons n nodes)
  show ?case unfolding bestNode.simps Let_def Cons.IH [of best] Cons.IH [of "Some (n, free v n - mget 0 taken n)"] if_distrib [of "\<lambda>x. x = None"]
    by (cases best) auto
qed simp

text \<open>
  Pods put into holes one after the other, each into a smallest hole that holds it among the nodes
  it may land on.
\<close>

fun best_fitted :: "(nat \<Rightarrow> int) \<Rightarrow> (nat \<Rightarrow> bool) \<Rightarrow> podFit list \<Rightarrow> nat list \<Rightarrow> bool" where
  "best_fitted hole P [] ns = (ns = [])"
| "best_fitted hole P (p # ps) ns =
     (case ns of [] \<Rightarrow> False
      | i # is \<Rightarrow> i \<in> set (pfNodes p) \<and> P i \<and> pfGpus p \<le> hole i \<and>
          (\<forall>j \<in> set (pfNodes p). P j \<and> pfGpus p \<le> hole j \<longrightarrow> hole i \<le> hole j) \<and>
          best_fitted (hole(i := hole i - pfGpus p)) P ps is)"

definition load :: "podFit list \<Rightarrow> nat list \<Rightarrow> nat \<Rightarrow> int" where
  "load pods nodes i = (\<Sum>(p, j) \<leftarrow> zip pods nodes. if j = i then pfGpus p else 0)"

lemma load_Cons: "load (p # ps) (j # js) i = (if j = i then pfGpus p else 0) + load ps js i"
  by (simp add: load_def)

lemma bestFit_fitted:
  "bestFit v key d taken pods = Some taken' \<Longrightarrow>
     \<exists>ns. best_fitted (\<lambda>i. free v i - mget 0 taken i) (\<lambda>i. d = [] \<or> label v i key = d) pods ns \<and>
       (\<forall>i. mget 0 taken' i = mget 0 taken i + load pods ns i)"
proof (induction pods arbitrary: taken)
  case Nil
  then show ?case by (intro exI [of _ "[]"]) (simp add: load_def)
next
  case (Cons p ps)
  obtain i f where i: "bestNode v key d taken (pfGpus p) None (pfNodes p) = Some (i, f)"
    and rest: "bestFit v key d (madd i (pfGpus p) taken) ps = Some taken'"
    using Cons.prems by (auto split: option.splits)
  obtain ns where ns: "best_fitted (\<lambda>j. free v j - mget 0 (madd i (pfGpus p) taken) j) (\<lambda>i. d = [] \<or> label v i key = d) ps ns"
    "\<forall>j. mget 0 taken' j = mget 0 (madd i (pfGpus p) taken) j + load ps ns j"
    using Cons.IH [OF rest] by blast
  have hole: "(\<lambda>j. free v j - mget 0 (madd i (pfGpus p) taken) j) = (\<lambda>j. free v j - mget 0 taken j)(i := free v i - mget 0 taken i - pfGpus p)"
    by (simp add: fun_eq_iff gomap_simps)
  have "best_fitted (\<lambda>i. free v i - mget 0 taken i) (\<lambda>i. d = [] \<or> label v i key = d) (p # ps) (i # ns)"
    using bestNode_found [OF i] bestNode_least [OF i] ns(1) unfolding hole by auto
  moreover have "\<forall>j. mget 0 taken' j = mget 0 taken j + load (p # ps) (i # ns) j"
    using ns(2) by (simp add: load_Cons gomap_simps)
  ultimately show ?case by blast
qed

lemma best_fitted_load:
  assumes "best_fitted hole P pods ns" and "\<And>p. p \<in> set pods \<Longrightarrow> 0 \<le> pfGpus p"
  shows "0 \<le> load pods ns i \<and> (load pods ns i \<le> hole i \<or> load pods ns i = 0) \<and> length ns = length pods"
  using assms
proof (induction hole P pods ns rule: best_fitted.induct)
  case (1 hole P ns)
  then show ?case by (simp add: load_def)
next
  case (2 hole P p ps ns)
  obtain j js where ns: "ns = j # js" using "2.prems"(1) by (cases ns) auto
  have fit: "pfGpus p \<le> hole j" "best_fitted (hole(j := hole j - pfGpus p)) P ps js" using "2.prems"(1) ns by simp_all
  have "0 \<le> load ps js i \<and> (load ps js i \<le> (hole(j := hole j - pfGpus p)) i \<or> load ps js i = 0) \<and> length js = length ps"
    using "2.IH" [OF ns fit(2)] "2.prems"(2) by simp
  then show ?case using fit(1) "2.prems"(2) [of p] by (auto simp: ns load_Cons)
qed

lemma best_fitted_nodes: "best_fitted hole P pods ns \<Longrightarrow> list_all2 (\<lambda>p i. i \<in> set (pfNodes p) \<and> P i) pods ns"
proof (induction hole P pods ns rule: best_fitted.induct)
  case (2 hole P p ps ns)
  obtain j js where ns: "ns = j # js" using "2.prems" by (cases ns) auto
  have rest: "best_fitted (hole(j := hole j - pfGpus p)) P ps js" using "2.prems" ns by simp
  show ?case using "2.IH" [OF ns rest] "2.prems" by (simp add: ns)
qed simp

subsection \<open>Charging what was fitted\<close>

lemma chargeAll_fold:
  assumes "distinct is" and "\<And>i. i \<in> set is \<Longrightarrow> i < length (vSlots v) \<and> 0 \<le> t i \<and> t i \<le> free v i" and "gomap_ok (vDebit v)"
  shows "extends v (foldl (\<lambda>v i. charge i (t i) v) v is) \<and>
    (\<forall>i. debited (foldl (\<lambda>v i. charge i (t i) v) v is) i = debited v i + (if i \<in> set is then t i else 0))"
  using assms
proof (induction "is" arbitrary: v)
  case (Cons i "is")
  let ?w = "charge i (t i) v"
  have e: "extends v ?w" using Cons.prems by (intro extends_charge) auto
  have h: "free ?w j = free v j" if "j \<noteq> i" for j using extends_free [OF e, of j] that by (simp add: view_simps)
  have "j < length (vSlots ?w) \<and> 0 \<le> t j \<and> t j \<le> free ?w j" if "j \<in> set is" for j
  proof -
    have "j \<noteq> i" using Cons.prems(1) that by auto
    then show ?thesis using Cons.prems(2) [of j] that by (simp add: view_simps h)
  qed
  from Cons.IH [OF _ this] have "extends ?w (foldl (\<lambda>v i. charge i (t i) v) ?w is) \<and>
    (\<forall>j. debited (foldl (\<lambda>v i. charge i (t i) v) ?w is) j = debited ?w j + (if j \<in> set is then t j else 0))"
    using Cons.prems(1) extendsD(2) [OF e] by simp
  then show ?case using extends_trans [OF e] Cons.prems(1) by (simp add: view_simps)
qed (simp add: extends_refl)

lemma foldl_charge_fields [view_simps]:
  "vSlots (foldl (\<lambda>v i. charge i (t i) v) v is) = vSlots v" "vOwner (foldl (\<lambda>v i. charge i (t i) v) v is) = vOwner v"
  "vDomains (foldl (\<lambda>v i. charge i (t i) v) v is) = vDomains v"
  by (induction "is" arbitrary: v) (simp_all add: view_simps)

lemma chargeAll_fields [view_simps]:
  "vSlots (chargeAll taken v) = vSlots v" "vOwner (chargeAll taken v) = vOwner v" "vDomains (chargeAll taken v) = vDomains v"
  by (simp_all add: chargeAll_def view_simps)

lemma chargeAll_effect:
  assumes "gomap_ok taken" and "\<And>i. i \<in> set (mkeys taken) \<Longrightarrow> i < length (vSlots v)"
    and "\<And>i. 0 \<le> mget 0 taken i \<and> mget 0 taken i \<le> free v i" and "gomap_ok (vDebit v)"
  shows "extends v (chargeAll taken v) \<and> (\<forall>i. debited (chargeAll taken v) i = debited v i + mget 0 taken i)"
proof -
  have d: "distinct (sort (mkeys taken))" using assms(1) by (simp add: gomap_ok_def)
  have "i < length (vSlots v) \<and> 0 \<le> mget 0 taken i \<and> mget 0 taken i \<le> free v i" if "i \<in> set (sort (mkeys taken))" for i
    using assms(2,3) that by simp
  from chargeAll_fold [OF d this assms(4)] show ?thesis
    unfolding chargeAll_def using mget_not_key [of _ taken 0] by auto
qed

lemma bestFit_keys:
  "bestFit v key d taken pods = Some taken' \<Longrightarrow> gomap_ok taken \<Longrightarrow>
     gomap_ok taken' \<and> set (mkeys taken') \<subseteq> set (mkeys taken) \<union> (\<Union>p \<in> set pods. set (pfNodes p))"
proof (induction pods arbitrary: taken)
  case (Cons p ps)
  obtain i f where i: "bestNode v key d taken (pfGpus p) None (pfNodes p) = Some (i, f)"
    and rest: "bestFit v key d (madd i (pfGpus p) taken) ps = Some taken'"
    using Cons.prems by (auto split: option.splits)
  have "i \<in> set (pfNodes p)" using bestNode_found [OF i] by simp
  then show ?case using Cons.IH [OF rest] Cons.prems(2) by (auto simp: gomap_simps)
qed simp

subsection \<open>Placing\<close>

lemma eligible_nodes: "i \<in> set (eligible tol v acc ts any) \<Longrightarrow> i < length (vSlots v)" "distinct (eligible tol v acc ts any)"
  by (simp_all add: eligible_def)

lemma eligibleFor_nodes: "i \<in> set (eligibleFor tol v r ts) \<Longrightarrow> i < length (vSlots v)" "distinct (eligibleFor tol v r ts)"
  by (auto simp: eligibleFor_def Let_def eligible_nodes split: if_splits)

lemma podFits_in:
  "p \<in> set (podFits tol v r) \<Longrightarrow> 0 < pfGpus p \<and> (\<exists>i < length (rfPods r). pfGpus p = rfPods r ! i \<and> pfNodes p = eligibleFor tol v r (podTemplates r i))"
  by (auto simp: podFits_def set_zip split: if_splits)

lemma podFits_nodes: "p \<in> set (podFits tol v r) \<Longrightarrow> i \<in> set (pfNodes p) \<Longrightarrow> i < length (vSlots v)"
  using podFits_in eligibleFor_nodes(1) by metis

lemma eligible_slots: "vSlots v' = vSlots v \<Longrightarrow> eligible tol v' = eligible tol v"
  by (simp add: fun_eq_iff eligible_def slot_def)

lemma eligibleFor_slots: "vSlots v' = vSlots v \<Longrightarrow> eligibleFor tol v' = eligibleFor tol v"
  using eligible_slots [of v' v tol] by (simp add: fun_eq_iff eligibleFor_def slot_def)

lemma podFits_slots: "vSlots v' = vSlots v \<Longrightarrow> podFits tol v' = podFits tol v"
  unfolding podFits_def [abs_def] by (drule eligibleFor_slots [where tol = tol]) (simp only:)

lemma fitOf_slots: "vSlots v' = vSlots v \<Longrightarrow> fitOf tol v' = fitOf tol v"
  using eligible_slots [of v' v tol] by (simp add: fun_eq_iff fitOf_def replicaPods_def largest_def slot_def)

text \<open>One replica placed in domain \<open>d\<close>, or anywhere when \<open>d\<close> is empty.\<close>

definition placed :: "nodeView \<Rightarrow> podFit list \<Rightarrow> string \<Rightarrow> bool \<Rightarrow> string \<Rightarrow> nodeView \<Rightarrow> nat list \<Rightarrow> bool" where
  "placed v pods key exclusive d v' ns \<longleftrightarrow>
     best_fitted (free v) (\<lambda>i. d = [] \<or> label v i key = d) pods ns \<and>
     (\<forall>i. debited v' i = debited v i + load pods ns i) \<and> extends v v' \<and> vOwner v' = vOwner v \<and>
     (if exclusive then \<not> domainTaken v key d \<and> vDomains v' = mput (domainID key d) (vOwner v) (vDomains v)
      else vDomains v' = vDomains v)"

lemma placeIn_True:
  assumes "placeIn v pods key exclusive ds = (True, v')" and "gomap_ok (vDebit v)"
    and "\<And>p. p \<in> set pods \<Longrightarrow> 0 < pfGpus p" and "\<And>p i. p \<in> set pods \<Longrightarrow> i \<in> set (pfNodes p) \<Longrightarrow> i < length (vSlots v)"
  shows "\<exists>d \<in> set ds. \<exists>ns. placed v pods key exclusive d v' ns"
  using assms(1)
proof (induction ds)
  case (Cons d ds)
  show ?case
  proof (cases "exclusive \<and> domainTaken v key d \<or> bestFit v key d [] pods = None")
    case True
    then have "placeIn v pods key exclusive ds = (True, v')" using Cons.prems by (auto split: if_splits)
    then show ?thesis using Cons.IH by auto
  next
    case False
    then obtain taken where t: "bestFit v key d [] pods = Some taken"
      and v': "v' = (if exclusive then takeDomain (domainID key d) (chargeAll taken v) else chargeAll taken v)"
      using Cons.prems by (auto simp: Let_def)
    obtain ns where fit: "best_fitted (free v) (\<lambda>i. d = [] \<or> label v i key = d) pods ns" "\<And>i. mget 0 taken i = load pods ns i"
      using bestFit_fitted [OF t] by (auto simp: mget_def)
    have tk: "gomap_ok taken" "\<And>i. i \<in> set (mkeys taken) \<Longrightarrow> i < length (vSlots v)"
      using bestFit_keys [OF t] assms(4) by (auto simp: mkeys_def)
    have "0 \<le> mget 0 taken i \<and> mget 0 taken i \<le> free v i" for i
      using best_fitted_load [OF fit(1), of i] assms(3) fit(2) [of i] free_nonneg [of v i] by fastforce
    from chargeAll_effect [OF tk this assms(2)]
    have e: "extends v (chargeAll taken v)" "\<And>i. debited (chargeAll taken v) i = debited v i + load pods ns i"
      using fit(2) by simp_all
    have "vDebit v' = vDebit (chargeAll taken v)" "vSlots v' = vSlots (chargeAll taken v)" by (simp_all add: v' view_simps)
    then have "extends v v'" "\<And>i. debited v' i = debited v i + load pods ns i"
      using e extends_cong [of v v "chargeAll taken v" v'] by (simp_all add: debited_def)
    then have "placed v pods key exclusive d v' ns"
      using fit(1) False unfolding placed_def by (simp add: v' view_simps)
    then show ?thesis by auto
  qed
qed simp

lemma placeIn_False: "placeIn v pods key exclusive ds = (False, v') \<Longrightarrow> v' = v"
  by (induction ds) (auto simp: Let_def split: if_splits option.splits)

lemma place_False: "place tol v r = (False, v') \<Longrightarrow> v' = v"
  by (auto simp: place_def Let_def placeIn_False split: if_splits)

lemma domainsOf_ne: "d \<in> set (domainsOf v nodes key) \<Longrightarrow> d \<noteq> []"
proof -
  have "d \<in> set (foldl (\<lambda>out i. let d = label v i key in if d \<noteq> [] \<and> d \<notin> set out then out @ [d] else out) out nodes) \<Longrightarrow>
      d \<in> set out \<or> d \<noteq> []" for out
    by (induction nodes arbitrary: out) (force simp: Let_def split: if_splits)+
  from this [of "[]"] show "d \<in> set (domainsOf v nodes key) \<Longrightarrow> d \<noteq> []" by (simp add: domainsOf_def)
qed

abbreviation exclusively :: "(toleration \<Rightarrow> taint \<Rightarrow> bool) \<Rightarrow> nodeView \<Rightarrow> replicaFit \<Rightarrow> bool" where
  "exclusively tol v r \<equiv> rfDomain r \<noteq> [] \<and> 1 < length (podFits tol v r)"

lemma place_True:
  assumes "place tol v r = (True, v')" and "gomap_ok (vDebit v)"
  shows "\<exists>d ns. (exclusively tol v r \<longleftrightarrow> d \<noteq> []) \<and> placed v (podFits tol v r) (rfDomain r) (exclusively tol v r) d v' ns"
proof (cases "podFits tol v r = []")
  case True
  then have "v' = v" using assms(1) by (simp add: place_def)
  then show ?thesis using True assms(2) by (intro exI [of _ "[]"]) (simp add: placed_def load_def extends_refl)
next
  case False
  let ?ds = "if exclusively tol v r then domainsOf v (concat (map pfNodes (podFits tol v r))) (rfDomain r) else [[]]"
  have "placeIn v (podFits tol v r) (rfDomain r) (exclusively tol v r) ?ds = (True, v')"
    using assms(1) False by (simp add: place_def Let_def)
  from placeIn_True [OF this assms(2)] obtain d ns where d: "d \<in> set ?ds"
    "placed v (podFits tol v r) (rfDomain r) (exclusively tol v r) d v' ns"
    using podFits_in podFits_nodes by metis
  then show ?thesis using domainsOf_ne [of d v] by (intro exI [of _ d] exI [of _ ns]) (auto split: if_splits)
qed

subsection \<open>Whole pods per node\<close>

definition room :: "nodeView \<Rightarrow> int \<Rightarrow> nat list \<Rightarrow> int" where
  "room v need nodes = (\<Sum>i \<leftarrow> nodes. free v i div need)"

lemma room_nonneg: "0 < need \<Longrightarrow> 0 \<le> room v need nodes"
  unfolding room_def by (rule sum_list_nonneg) (auto simp: pos_imp_zdiv_nonneg_iff)

lemma room_zero: "0 < need \<Longrightarrow> room v need nodes = 0 \<longleftrightarrow> (\<forall>i \<in> set nodes. free v i < need)"
proof (induction nodes)
  case (Cons i nodes)
  have "0 \<le> free v i div need" "0 \<le> room v need nodes"
    using Cons.prems room_nonneg by (simp_all add: pos_imp_zdiv_nonneg_iff)
  moreover have "free v i div need = 0 \<longleftrightarrow> free v i < need"
    using Cons.prems div_pos_pos_trivial [of "free v i" need] pos_imp_zdiv_pos_iff [of need "free v i"] by fastforce
  ultimately show ?case using Cons by (auto simp: room_def)
qed (simp add: room_def)

lemma room_charge:
  assumes "0 < need" and "distinct nodes" and "i \<in> set nodes" and "need \<le> free v i"
  shows "room (charge i need v) need nodes = room v need nodes - 1"
proof -
  have f: "free (charge i need v) j = (if j = i then free v i - need else free v j)" for j
    using assms(1,4) slot_cong(2) [of "charge i need v" v] by (simp add: free_eq view_simps max_def split: if_splits)
  have "(free v i - need) div need = free v i div need - 1"
    using assms(1) div_add_self2 [of need "free v i - need"] by simp
  then have "(\<Sum>j \<leftarrow> nodes. free (charge i need v) j div need) = (\<Sum>j \<leftarrow> nodes. free v j div need) - (if i \<in> set nodes then 1 else 0)"
    using assms(2) unfolding f by (induction nodes) auto
  then show ?thesis using assms(3) by (simp add: room_def)
qed

lemma podFits_single:
  "rfPods r = [need] \<Longrightarrow> 0 < need \<Longrightarrow> podFits tol v r = [\<lparr>pfGpus = need, pfNodes = eligibleFor tol v r (podTemplates r 0)\<rparr>]"
  by (simp add: podFits_def stable_sort_def)

lemma place_single:
  fixes v :: nodeView and tol :: "toleration \<Rightarrow> taint \<Rightarrow> bool"
  assumes "rfPods r = [need]" and "0 < need"
  defines "E \<equiv> eligibleFor tol v r (podTemplates r 0)"
  shows "place tol v r = (False, v) \<and> room v need E = 0 \<or>
    (\<exists>i \<in> set E. place tol v r = (True, charge i need v) \<and> need \<le> free v i)"
proof (cases "bestNode v (rfDomain r) [] [] need None E")
  case None
  then have "place tol v r = (False, v)" unfolding place_def podFits_single [OF assms(1,2)] by (simp add: E_def)
  moreover have "room v need E = 0" unfolding room_zero [OF assms(2)] using None by (auto simp: bestNode_none mget_def)
  ultimately show ?thesis by simp
next
  case (Some b)
  obtain i f where b: "b = (i, f)" by (cases b)
  have "i \<in> set E \<and> need \<le> free v i" using bestNode_found [of v _ _ "[]" need None E i f] Some b by (auto simp: mget_def)
  moreover have "chargeAll (madd i need []) v = charge i need v"
    by (simp add: chargeAll_def madd_def mput_def mkeys_def mget_def)
  then have "place tol v r = (True, charge i need v)"
    unfolding place_def podFits_single [OF assms(1,2)] using Some b by (simp add: E_def Let_def)
  ultimately show ?thesis by blast
qed

lemma fitsTrial_single:
  fixes v :: nodeView and tol :: "toleration \<Rightarrow> taint \<Rightarrow> bool"
  assumes "rfPods r = [need]" and "0 < need" and "vSlots w = vSlots v"
  defines "E \<equiv> eligibleFor tol v r (podTemplates r 0)"
  shows "int (fitsTrial tol w r n) = min (int n) (room w need E)"
  using assms(3)
proof (induction n arbitrary: w)
  case 0
  then show ?case using room_nonneg [OF assms(2), of w E] by simp
next
  case (Suc n)
  have E: "eligibleFor tol w r (podTemplates r 0) = E" using eligibleFor_slots [OF Suc.prems] by (simp add: E_def)
  consider "place tol w r = (False, w)" "room w need E = 0"
    | i where "i \<in> set E" "place tol w r = (True, charge i need w)" "need \<le> free w i"
    using place_single [OF assms(1,2), of tol w] unfolding E by blast
  then show ?case
  proof cases
    case 1
    then show ?thesis by simp
  next
    case 2
    have d: "distinct E" by (simp add: E_def eligibleFor_nodes)
    have "int (fitsTrial tol (charge i need w) r n) = min (int n) (room w need E - 1)"
      using Suc.IH [of "charge i need w"] Suc.prems room_charge [OF assms(2) d 2(1,3)] by (simp add: view_simps)
    then show ?thesis using 2(2) by (simp add: min_def)
  qed
qed

lemma fitsCount_eq:
  "0 < need \<Longrightarrow> fit < n \<Longrightarrow> fitsCount v need n fit nodes = min n (fit + room v need nodes)"
proof (induction nodes arbitrary: fit)
  case (Cons i nodes)
  have q: "godiv (free v i) need = free v i div need" using Cons.prems by (simp add: godiv_pos)
  have "0 \<le> room v need nodes" using room_nonneg [OF Cons.prems(1)] .
  then show ?case using Cons.IH [of "fit + free v i div need"] Cons.prems by (simp add: q room_def Let_def add.assoc)
qed (simp add: room_def)

text \<open>
  Counting replicas of one pod by whole pods per node is exact: for a replica of a single pod
  \<open>fits\<close> returns what placing copies one after the other on a copy of the view gives, best-fit
  included, so the shortcut and the placement never disagree about how many fit.
\<close>

lemma fits_one_pod_exact:
  assumes "rfPods r = [need]" and "0 < n"
  shows "fits tolerates (Some v) r n = int (fitsTrial tolerates (Clone v) r (nat n))"
proof (cases "0 < need")
  case True
  let ?E = "eligibleFor tolerates v r (podTemplates r 0)"
  have "room (Clone v) need ?E = room v need ?E" by (simp add: room_def view_simps)
  then have "int (fitsTrial tolerates (Clone v) r (nat n)) = min n (room v need ?E)"
    using fitsTrial_single [OF assms(1) True, of "Clone v" v tolerates "nat n"] assms(2) by (simp add: view_simps)
  moreover have "fits tolerates (Some v) r n = min n (room v need ?E)"
    using assms fitsCount_eq [OF True, of 0 n v ?E] True by (simp add: fits_def)
  ultimately show ?thesis by simp
next
  case False
  then have "podFits tolerates w r = []" for w using assms(1) by (simp add: podFits_def stable_sort_def)
  then have "place tolerates w r = (True, w)" for w by (simp add: place_def)
  then have "fitsTrial tolerates w r m = m" for w m by (induction m) simp_all
  then show ?thesis using assms False by (simp add: fits_def)
qed

text \<open>An example: three nodes of one rack, one of them half used, and a replica of two pods.\<close>

definition exTolerates :: "toleration \<Rightarrow> taint \<Rightarrow> bool" where
  "exTolerates tol t = (tolKey tol = taintKey t)"

definition exNode :: "string \<Rightarrow> int \<Rightarrow> nodeGPU" where
  "exNode rack used = \<lparr>ngAccelerator = ''H100'', ngCapacity = 8, ngUsed = used, ngLabels = [(''rack'', rack)], ngUnschedulable = False,
     ngTaints = [], ngLWSGroup = False, ngLWSGroups = []\<rparr>"

definition exSnap :: "(string, nodeGPU) gomap" where
  "exSnap = [(''n2'', exNode ''a'' 0), (''n1'', exNode ''a'' 4), (''n3'', exNode ''a'' 0)]"

definition exView :: nodeView where
  "exView = the (newNodeViewAt (Some exSnap) 0)"

definition exShape :: replicaShape where
  "exShape = \<lparr>rsVariant = ''ns/v'', rsAccelerator = ''H100'', rsPodGPUs = [8, 4], rsGPUs = 12, rsTolerations = [], rsDomainKey = ''rack'',
     rsPlacements = [], rsFlavor = None\<rparr>"

abbreviation exFit :: replicaFit where
  "exFit \<equiv> fitOf exTolerates exView exShape"

definition exPod :: replicaFit where
  "exPod = \<lparr>rfAcc = ''H100'', rfPods = [3], rfTolerations = [], rfDomain = [], rfTemplates = [], rfFlavor = None\<rparr>"

lemma fits_one_pod_exact_example:
  "fits exTolerates (Some exView) exPod 9 = int (fitsTrial exTolerates (Clone exView) exPod (nat 9)) \<and>
   fits exTolerates (Some exView) exPod 9 = 5"
proof -
  have "fits exTolerates (Some exView) exPod 9 = 5" by code_simp
  moreover have "rfPods exPod = [3]" by (simp add: exPod_def)
  ultimately show ?thesis using fits_one_pod_exact [of exPod 3 9 exTolerates exView] by simp
qed

end
