(* ===== verification/NodeOwners.thy ===== *)
theory NodeOwners
  imports NodeFit
begin

text \<open>
  Who the GPUs of a node view are charged to. Every debit belongs to an owner, every operation that
  places GPUs keeps it so, and what some owners were charged can be taken back exactly.
\<close>

subsection \<open>Charges by owner\<close>

definition charges :: "(string \<Rightarrow> bool) \<Rightarrow> (string, (nat, int) gomap) gomap \<Rightarrow> nat \<Rightarrow> int" where
  "charges P owned i = (\<Sum>(owner, perNode) \<leftarrow> owned. if P owner then mget 0 perNode i else 0)"

definition charged :: "(string \<Rightarrow> bool) \<Rightarrow> nodeView \<Rightarrow> nat \<Rightarrow> int" where
  "charged P v i = charges P (case vOwned v of None \<Rightarrow> [] | Some owned \<Rightarrow> owned) i"

lemma charges_mput:
  "gomap_ok owned \<Longrightarrow> charges P (mput w pn owned) i =
     charges P owned i + (if P w then mget 0 pn i - mget 0 (mget [] owned w) i else 0)"
  unfolding mput_def
proof (induction owned)
  case (Cons e owned)
  obtain w' pn' where e: "e = (w', pn')" by (cases e)
  have ok: "gomap_ok owned" and new: "w' \<notin> set (mkeys owned)" using Cons.prems e by (simp_all add: gomap_ok_def mkeys_def)
  show ?case
  proof (cases "w' = w")
    case True
    then show ?thesis by (simp add: e charges_def mget_def)
  next
    case False
    then show ?thesis using Cons.IH [OF ok] by (simp add: e charges_def mget_def)
  qed
qed (simp add: charges_def mget_def)

lemma list_all_mput: "list_all P m \<Longrightarrow> P (k, v) \<Longrightarrow> list_all P (mput k v m)"
  unfolding mput_def by (induction m) auto

definition entries_ok :: "(string, (nat, int) gomap) gomap \<Rightarrow> bool" where
  "entries_ok owned \<longleftrightarrow> gomap_ok owned \<and> list_all (\<lambda>(_, pn). gomap_ok pn \<and> list_all (\<lambda>(_, g). 0 \<le> g) pn) owned"

text \<open>Every debit of a view that records owners is charged to one of them.\<close>

definition owners_ok :: "nodeView \<Rightarrow> bool" where
  "owners_ok v \<longleftrightarrow> (case vOwned v of None \<Rightarrow> True
     | Some owned \<Rightarrow> entries_ok owned \<and> (\<forall>i. charges (\<lambda>_. True) owned i = debited v i))"

lemma entries_ok_get:
  assumes "entries_ok owned"
  shows "gomap_ok (mget [] owned w) \<and> list_all (\<lambda>(_, g). 0 \<le> g) (mget [] owned w)"
  using assms by (cases "map_of owned w") (auto simp: entries_ok_def mget_def list_all_iff dest!: map_of_SomeD)

lemma entries_ok_record:
  assumes "entries_ok owned" and "0 \<le> d"
  shows "entries_ok (mput w (madd i d (mget [] owned w)) owned)"
    and "charges P (mput w (madd i d (mget [] owned w)) owned) j = charges P owned j + (if P w \<and> j = i then d else 0)"
proof -
  let ?pn = "mget [] owned w"
  have pn: "gomap_ok ?pn" "list_all (\<lambda>(_, g). 0 \<le> g) ?pn" using entries_ok_get [OF assms(1)] by simp_all
  then have "0 \<le> mget 0 ?pn i" by (cases "map_of ?pn i") (auto simp: mget_def list_all_iff dest!: map_of_SomeD)
  then have "list_all (\<lambda>(_, g). 0 \<le> g) (madd i d ?pn)" unfolding madd_def using pn(2) assms(2) by (intro list_all_mput) auto
  then show "entries_ok (mput w (madd i d ?pn) owned)"
    using assms(1) gomap_ok_madd [OF pn(1)] unfolding entries_ok_def by (auto intro: list_all_mput)
  show "charges P (mput w (madd i d ?pn) owned) j = charges P owned j + (if P w \<and> j = i then d else 0)"
    using charges_mput [of owned P w "madd i d ?pn" j] assms(1) by (simp add: entries_ok_def gomap_simps)
qed

lemma record_debit_effect:
  assumes "case vOwned v of None \<Rightarrow> True | Some owned \<Rightarrow> entries_ok owned" and "0 \<le> d"
  shows "(case vOwned (record_debit i d v) of None \<Rightarrow> True | Some owned \<Rightarrow> entries_ok owned)"
    and "charged P (record_debit i d v) j = charged P v j + (if vOwned v \<noteq> None \<and> P (vOwner v) \<and> j = i then d else 0)"
    and "vOwned (record_debit i d v) = None \<longleftrightarrow> vOwned v = None"
  using assms entries_ok_record [where d = d and w = "vOwner v" and i = i] by (auto simp: record_debit_def charged_def split: option.splits)

abbreviation owners_entries :: "nodeView \<Rightarrow> bool" where
  "owners_entries v \<equiv> (case vOwned v of None \<Rightarrow> True | Some owned \<Rightarrow> entries_ok owned)"

lemma owners_ok_iff:
  "owners_ok v \<longleftrightarrow> owners_entries v \<and> (vOwned v \<noteq> None \<longrightarrow> (\<forall>i. charged (\<lambda>_. True) v i = debited v i))"
  by (auto simp: owners_ok_def charged_def split: option.split)

lemma vOwned_charge: "vOwned (charge i g v) = vOwned (record_debit i g v)"
  by (auto simp: charge_def Let_def record_debit_def split: option.split)

lemma charge_effect:
  assumes "owners_entries v" and "0 \<le> g"
  shows "owners_entries (charge i g v)"
    and "charged P (charge i g v) j = charged P v j + (if vOwned v \<noteq> None \<and> P (vOwner v) \<and> j = i then g else 0)"
    and "vOwned (charge i g v) = None \<longleftrightarrow> vOwned v = None"
  using record_debit_effect [OF assms, where i = i] unfolding charged_def vOwned_charge by auto

lemma owners_ok_charge: "owners_ok v \<Longrightarrow> 0 \<le> g \<Longrightarrow> owners_ok (charge i g v)"
  unfolding owners_ok_iff using charge_effect [where v = v and g = g and i = i] by (auto simp: view_simps)

subsection \<open>Adopting a trial\<close>

definition adopt_step :: "nodeView \<Rightarrow> nodeView \<Rightarrow> nat \<times> int \<Rightarrow> nodeView" where
  "adopt_step v w ig = (let (i, g) = ig; d = g - mget 0 (vDebit v) i in if d \<noteq> 0 then record_debit i d w else w)"

lemma adopt_step_fold:
  assumes "owners_entries w" and "distinct (map fst igs)" and "\<And>i g. (i, g) \<in> set igs \<Longrightarrow> debited v i \<le> g"
  shows "owners_entries (foldl (adopt_step v) w igs) \<and> vOwner (foldl (adopt_step v) w igs) = vOwner w \<and>
    vSlots (foldl (adopt_step v) w igs) = vSlots w \<and> vDomains (foldl (adopt_step v) w igs) = vDomains w \<and>
    vDebit (foldl (adopt_step v) w igs) = vDebit w \<and> (vOwned (foldl (adopt_step v) w igs) = None \<longleftrightarrow> vOwned w = None) \<and>
    (\<forall>P i. charged P (foldl (adopt_step v) w igs) i = charged P w i +
      (if vOwned w \<noteq> None \<and> P (vOwner w) \<and> i \<in> fst ` set igs then mget 0 igs i - debited v i else 0))"
  using assms
proof (induction igs arbitrary: w)
  case (Cons ig igs)
  obtain i g where ig: "ig = (i, g)" by (cases ig)
  have le: "debited v i \<le> g" using Cons.prems(3) ig by auto
  let ?w = "adopt_step v w ig"
  have step: "owners_entries ?w \<and> vOwner ?w = vOwner w \<and> vSlots ?w = vSlots w \<and> vDomains ?w = vDomains w \<and> vDebit ?w = vDebit w \<and>
      (vOwned ?w = None \<longleftrightarrow> vOwned w = None) \<and>
      (\<forall>P j. charged P ?w j = charged P w j + (if vOwned w \<noteq> None \<and> P (vOwner w) \<and> j = i then g - debited v i else 0))"
    using le record_debit_effect [OF Cons.prems(1), where d = "g - debited v i" and i = i] Cons.prems(1)
    by (auto simp: adopt_step_def ig debited_def [symmetric] Let_def view_simps)
  have "mget 0 ((i, g) # igs) j = (if j = i then g else mget 0 igs j)" for j by (simp add: mget_def)
  then show ?case using Cons.IH [of ?w] step Cons.prems(2,3) by (auto simp: ig)
qed simp

definition adopt_domain :: "nodeView \<Rightarrow> string \<Rightarrow> nodeView" where
  "adopt_domain w d = (if map_of (vDomains w) d = None then takeDomain d w else w)"

lemma adopt_folds:
  "adopt v c = foldl adopt_domain ((if vOwned v = None then v else foldl (adopt_step v) v (vDebit c))\<lparr>vDebit := vDebit c\<rparr>) (mkeys (vDomains c))"
  by (simp add: adopt_def adopt_step_def [abs_def] adopt_domain_def [abs_def] Let_def case_prod_unfold)

lemma mput_new: "k \<notin> set (mkeys m) \<Longrightarrow> mput k x m = m @ [(k, x)]"
  unfolding mput_def by (induction m) (auto simp: mkeys_def)

lemma adopt_domain_fold:
  assumes "distinct ds"
  shows "vDomains (foldl adopt_domain w ds) = vDomains w @ map (\<lambda>d. (d, vOwner w)) (filter (\<lambda>d. d \<notin> set (mkeys (vDomains w))) ds) \<and>
    vOwner (foldl adopt_domain w ds) = vOwner w \<and> vSlots (foldl adopt_domain w ds) = vSlots w \<and>
    vDebit (foldl adopt_domain w ds) = vDebit w \<and> vOwned (foldl adopt_domain w ds) = vOwned w"
  using assms
proof (induction ds arbitrary: w)
  case (Cons d ds)
  let ?w = "adopt_domain w d"
  have new: "map_of (vDomains w) d = None \<longleftrightarrow> d \<notin> set (mkeys (vDomains w))" by (simp add: map_of_eq_None_iff mkeys_def)
  have w: "vDomains ?w = vDomains w @ (if d \<notin> set (mkeys (vDomains w)) then [(d, vOwner w)] else [])"
    "vOwner ?w = vOwner w" "vSlots ?w = vSlots w" "vDebit ?w = vDebit w" "vOwned ?w = vOwned w"
    using mput_new [of d "vDomains w" "vOwner w"] by (simp_all add: adopt_domain_def new view_simps)
  have "filter (\<lambda>e. e \<notin> set (mkeys (vDomains ?w))) ds = filter (\<lambda>e. e \<notin> set (mkeys (vDomains w))) ds"
    using Cons.prems by (intro filter_cong) (auto simp: w(1) mkeys_def)
  then show ?case using Cons.IH [of ?w] Cons.prems w by simp
qed simp

lemma adopt_effect:
  assumes "view_ok v" and "owners_ok v" and "extends v c" and "gomap_ok (vDomains c)"
  shows "extends v (adopt v c)" and "owners_ok (adopt v c)" and "debited (adopt v c) i = debited c i"
    and "charged P (adopt v c) i = charged P v i + (if vOwned v \<noteq> None \<and> P (vOwner v) then debited c i - debited v i else 0)"
    and "vDomains (adopt v c) = vDomains v @ map (\<lambda>d. (d, vOwner v)) (filter (\<lambda>d. d \<notin> set (mkeys (vDomains v))) (mkeys (vDomains c)))"
    and "vOwner (adopt v c) = vOwner v" and "vOwned (adopt v c) = None \<longleftrightarrow> vOwned v = None" and "vSlots (adopt v c) = vSlots v"
proof -
  note e = extendsD [OF assms(3)]
  have entries: "owners_entries v" using assms(2) by (simp add: owners_ok_iff)
  have d: "distinct (map fst (vDebit c))" using e(2) by (simp add: gomap_ok_def mkeys_def)
  have "debited v i \<le> g" if "(i, g) \<in> set (vDebit c)" for i g using mget_in [OF e(2) that, of 0] e(3) [of i] by (simp add: debited_def)
  note f = adopt_step_fold [OF entries d this]
  define w where "w = (if vOwned v = None then v else foldl (adopt_step v) v (vDebit c))"
  have w: "owners_entries w" "vOwner w = vOwner v" "vSlots w = vSlots v" "vDomains w = vDomains v" "vOwned w = None \<longleftrightarrow> vOwned v = None"
    using f entries by (simp_all add: w_def)
  have key: "i \<in> fst ` set (vDebit c) \<or> debited c i = 0 \<and> debited v i = 0" for i
    using mget_not_key [of i "vDebit c" 0] e(3) [of i] view_ok_debited [OF assms(1), of i] by (auto simp: debited_def mkeys_def)
  have ch: "charged P w i = charged P v i + (if vOwned v \<noteq> None \<and> P (vOwner v) then debited c i - debited v i else 0)" for P i
    using f key [of i] unfolding w_def debited_def by auto
  have dd: "distinct (mkeys (vDomains c))" using assms(4) by (simp add: gomap_ok_def)
  have eq: "adopt v c = foldl adopt_domain (w\<lparr>vDebit := vDebit c\<rparr>) (mkeys (vDomains c))" by (simp add: adopt_folds w_def)
  note a = adopt_domain_fold [OF dd, of "w\<lparr>vDebit := vDebit c\<rparr>"]
  have fields: "vDebit (adopt v c) = vDebit c" "vSlots (adopt v c) = vSlots v" "vOwned (adopt v c) = vOwned w"
    using a w unfolding eq by simp_all
  show "vDomains (adopt v c) = vDomains v @ map (\<lambda>d. (d, vOwner v)) (filter (\<lambda>d. d \<notin> set (mkeys (vDomains v))) (mkeys (vDomains c)))"
    "vOwner (adopt v c) = vOwner v" using a w unfolding eq by simp_all
  show "vOwned (adopt v c) = None \<longleftrightarrow> vOwned v = None" "vSlots (adopt v c) = vSlots v" using fields w(5) by simp_all
  show deb: "debited (adopt v c) i = debited c i" for i by (simp add: debited_def fields)
  show "extends v (adopt v c)" using assms(3) extends_cong [of v v "adopt v c" c] fields e(1) by simp
  show cha: "charged P (adopt v c) i = charged P v i + (if vOwned v \<noteq> None \<and> P (vOwner v) then debited c i - debited v i else 0)" for P i
    using ch [of P i] by (simp add: charged_def fields)
  show "owners_ok (adopt v c)"
    using assms(2) cha deb w(1,5) unfolding owners_ok_iff fields by auto
qed

subsection \<open>Trials and reservations\<close>

definition good :: "nodeView \<Rightarrow> bool" where
  "good v \<longleftrightarrow> view_ok v \<and> owners_ok v \<and> gomap_ok (vDomains v) \<and> vOwned v \<noteq> None"

lemma place_extends:
  assumes "place tol v r = (ok, v')" and "gomap_ok (vDebit v)" and "gomap_ok (vDomains v)"
  shows "extends v v' \<and> gomap_ok (vDomains v')"
proof (cases ok)
  case True
  then obtain d ns where "placed v (podFits tol v r) (rfDomain r) (exclusively tol v r) d v' ns"
    using place_True [OF _ assms(2), of tol r v'] assms(1) by auto
  then have p: "extends v v'" "vDomains v' = mput (domainID (rfDomain r) d) (vOwner v) (vDomains v) \<or> vDomains v' = vDomains v"
    unfolding placed_def by (simp, meson)
  then show ?thesis using assms(3) gomap_ok_mput by auto
next
  case False
  then show ?thesis using place_False [of tol v r v'] assms extends_refl by simp
qed

lemma placeAll_extends:
  "placeAll tol v reps = Some v' \<Longrightarrow> gomap_ok (vDebit v) \<Longrightarrow> gomap_ok (vDomains v) \<Longrightarrow> extends v v' \<and> gomap_ok (vDomains v')"
proof (induction reps arbitrary: v)
  case (Cons r reps)
  obtain w where w: "place tol v (fitOf tol v r) = (True, w)" and rest: "placeAll tol w reps = Some v'"
    using Cons.prems(1) by (auto split: prod.splits if_splits)
  have "extends v w" "gomap_ok (vDomains w)" using place_extends [OF w Cons.prems(2,3)] by simp_all
  then show ?case using Cons.IH [OF rest] extends_trans extendsD(2) by blast
qed (simp add: extends_refl)

lemma reclaimAll_extends:
  "reclaimAll tol v left took reps = Some (v', took') \<Longrightarrow> gomap_ok (vDebit v) \<Longrightarrow> gomap_ok (vDomains v) \<Longrightarrow>
     extends v v' \<and> gomap_ok (vDomains v')"
proof (induction reps arbitrary: v left took)
  case (Cons r reps)
  obtain ok w where w: "place tol v (fitOf tol v r) = (ok, w)" by (cases "place tol v (fitOf tol v r)")
  obtain left' took2 where rest: "reclaimAll tol w left' took2 reps = Some (v', took')"
    using Cons.prems(1) w by (auto simp: Let_def split: option.splits if_splits)
  have "extends v w" "gomap_ok (vDomains w)" using place_extends [OF w Cons.prems(2,3)] by simp_all
  then show ?case using Cons.IH [OF rest] extends_trans extendsD(2) by blast
qed (simp add: extends_refl)

lemma good_adopt:
  assumes "good v" and "extends (Clone v) c" and "gomap_ok (vDomains c)"
  shows "good (adopt v c)" and "extends v (adopt v c)"
proof -
  have e: "extends v c" using assms(2) extends_cong [of "Clone v" v c c] by (simp add: view_simps)
  have g: "view_ok v" "owners_ok v" "gomap_ok (vDomains v)" "vOwned v \<noteq> None" using assms(1) by (simp_all add: good_def)
  note a = adopt_effect [OF g(1,2) e assms(3)]
  have m: "mkeys (map (\<lambda>d. (d, vOwner v)) ds) = ds" for ds by (simp add: mkeys_def comp_def)
  have "mkeys (vDomains (adopt v c)) = mkeys (vDomains v) @ filter (\<lambda>d. d \<notin> set (mkeys (vDomains v))) (mkeys (vDomains c))"
    unfolding a(5) using m by (simp add: mkeys_def)
  then have "gomap_ok (vDomains (adopt v c))" using g(3) assms(3) by (auto simp: gomap_ok_def)
  then show "good (adopt v c)" using a(1,2,7) g(4) extends_ok [OF a(1) g(1)] by (simp add: good_def)
  show "extends v (adopt v c)" by (rule a(1))
qed

lemma reserve_sum:
  assumes "distinct nodes" and "i \<in> set nodes" and "0 \<le> t" and "t \<le> free v i"
  shows "(\<Sum>j \<leftarrow> nodes. free (charge i t v) j) = (\<Sum>j \<leftarrow> nodes. free v j) - t"
    and "(\<Sum>j \<leftarrow> nodes. debited (charge i t v) j) = (\<Sum>j \<leftarrow> nodes. debited v j) + t"
proof -
  have f: "free (charge i t v) j = (if j = i then free v i - t else free v j)" for j
    using assms(3,4) slot_cong(2) [of "charge i t v" v] by (simp add: free_eq view_simps max_def split: if_splits)
  have "(\<Sum>j \<leftarrow> nodes. free (charge i t v) j) = (\<Sum>j \<leftarrow> nodes. free v j) - (if i \<in> set nodes then t else 0)"
    using assms(1) unfolding f by (induction nodes) auto
  moreover have "(\<Sum>j \<leftarrow> nodes. debited (charge i t v) j) = (\<Sum>j \<leftarrow> nodes. debited v j) + (if i \<in> set nodes then t else 0)"
    using assms(1) by (induction nodes) (auto simp: view_simps)
  ultimately show "(\<Sum>j \<leftarrow> nodes. free (charge i t v) j) = (\<Sum>j \<leftarrow> nodes. free v j) - t"
    and "(\<Sum>j \<leftarrow> nodes. debited (charge i t v) j) = (\<Sum>j \<leftarrow> nodes. debited v j) + t" using assms(2) by simp_all
qed

text \<open>What a reservation on \<open>nodes\<close> did: \<open>t\<close> GPUs taken in all, each charged to the owner.\<close>

definition reserved :: "nodeView \<Rightarrow> nat list \<Rightarrow> int \<Rightarrow> nodeView \<Rightarrow> bool" where
  "reserved v nodes t w \<longleftrightarrow> extends v w \<and> owners_ok w \<and> vDomains w = vDomains v \<and> vOwner w = vOwner v \<and>
     (vOwned w = None \<longleftrightarrow> vOwned v = None) \<and>
     (\<Sum>i \<leftarrow> nodes. debited w i) = (\<Sum>i \<leftarrow> nodes. debited v i) + t \<and> (\<forall>i. i \<notin> set nodes \<longrightarrow> debited w i = debited v i) \<and>
     (\<forall>P i. charged P w i = charged P v i + (if vOwned v \<noteq> None \<and> P (vOwner v) then debited w i - debited v i else 0))"

lemma reserved_charge:
  assumes "extends v (charge i t v)" and "i \<in> set nodes" and "0 \<le> t" and "owners_ok v" and "distinct nodes"
    and "reserved (charge i t v) nodes (m - t) w"
  shows "reserved v nodes m w"
proof -
  have "t \<le> free v i" using extendsD(4) [OF assms(1), of i] by (simp add: view_simps)
  note sum = reserve_sum(2) [OF assms(5,2,3) this]
  have entries: "owners_entries v" using assms(4) by (simp add: owners_ok_iff)
  note c = charge_effect [OF entries assms(3), where i = i]
  have "i \<notin> set nodes \<Longrightarrow> False" using assms(2) by simp
  then show ?thesis
    using assms(2,6) extends_trans [OF assms(1)] sum c(2,3) unfolding reserved_def by (auto simp: view_simps)
qed

lemma reserveLoop_effect:
  assumes "gomap_ok (vDebit v)" and "owners_ok v" and "distinct nodes" and "\<And>i. i \<in> set nodes \<Longrightarrow> i < length (vSlots v)"
  shows "reserved v nodes (min (max 0 n) (\<Sum>i \<leftarrow> nodes. free v i)) (reserveLoop v nodes n)"
  using assms
proof (induction v nodes n rule: reserveLoop.induct)
  case (1 v nodes n)
  have nn: "0 \<le> (\<Sum>i \<leftarrow> nodes. free v i)" by (rule sum_list_nonneg) auto
  have self: "reserved v nodes 0 v" using "1.prems"(1,2) by (simp add: reserved_def extends_refl)
  show ?case
  proof (cases "n \<le> 0 \<or> mostFree v nodes = None")
    case True
    then have "reserveLoop v nodes n = v" by (subst reserveLoop.simps) auto
    moreover have "(\<Sum>i \<leftarrow> nodes. free v i) = 0" if "mostFree v nodes = None"
      by (rule sum_list_nonneg_eq_0_iff [THEN iffD2]) (use mostFree_None [OF that] free_nonneg [of v] in \<open>auto intro: order_antisym\<close>)
    ultimately show ?thesis using True self nn by auto
  next
    case False
    then obtain i f where m: "mostFree v nodes = Some (i, f)" by auto
    then have i: "i \<in> set nodes" "f = free v i" "0 < f" using mostFree_Some by auto
    define t where "t = min f n"
    define w where "w = charge i t v"
    have t: "0 \<le> t" "t \<le> free v i" "0 < n" using i False by (auto simp: t_def)
    have e: "extends v w" unfolding w_def using "1.prems" i t by (intro extends_charge) auto
    have "reserved w nodes (min (max 0 (n - t)) (\<Sum>j \<leftarrow> nodes. free w j)) (reserveLoop w nodes (n - t))"
      unfolding w_def t_def using "1.prems" False m i t(1) by (intro "1.IH") (auto simp: view_simps t_def intro: owners_ok_charge gomap_ok_madd)
    moreover have "reserveLoop v nodes n = reserveLoop w nodes (n - t)"
      using False m by (subst reserveLoop.simps) (simp add: w_def t_def Let_def)
    moreover have "min (max 0 (n - t)) (\<Sum>j \<leftarrow> nodes. free w j) = min (max 0 n) (\<Sum>j \<leftarrow> nodes. free v j) - t"
      using reserve_sum(1) [OF "1.prems"(3) i(1) t(1,2)] t by (simp add: w_def t_def)
    ultimately show ?thesis
      using reserved_charge [OF e [unfolded w_def] i(1) t(1) "1.prems"(2,3)] by (simp add: w_def)
  qed
qed

end
