(* ===== verification/NodePlacement.thy ===== *)
theory NodePlacement
  imports NodeOwners
begin

text \<open>
  The properties of the node view as its callers use it: any sequence of its operations keeps every
  node within its capacity, a placement is all or nothing, and an owner's placements can be taken
  back.
\<close>

subsection \<open>Sequences of operations\<close>

text \<open>The contract of an operation that places GPUs, and what it gives for a sequence of them.\<close>

locale view_operations =
  fixes run :: "nodeView \<Rightarrow> 'op \<Rightarrow> nodeView"
  assumes run_good: "good v \<Longrightarrow> good (run v x) \<and> extends v (run v x)"
begin

lemma runs_good: "good v \<Longrightarrow> good (foldl run v xs) \<and> extends v (foldl run v xs)"
proof (induction xs arbitrary: v)
  case Nil
  then show ?case by (simp add: extends_refl good_def view_ok_def)
next
  case (Cons x xs)
  have s: "good (run v x) \<and> extends v (run v x)" by (rule run_good) (rule Cons.prems)
  then show ?case using Cons.IH [of "run v x"] extends_trans [of v "run v x"] by simp
qed

lemma runs_within:
  assumes "good v"
  shows "0 \<le> debited (foldl run v xs) i \<and> debited (foldl run v xs) i \<le> max 0 (spare v i)"
proof -
  have g: "view_ok (foldl run v xs)" "extends v (foldl run v xs)" using runs_good [OF assms] by (simp_all add: good_def)
  show ?thesis using view_ok_debited [OF g(1), of i] extendsD(5) [OF g(2)] by simp
qed

end

datatype viewOp =
    OwnerOp string
  | PlaceOp "replicaShape list" bool
  | ReclaimOp "replicaShape list" bool "(string, reclaim) gomap"
  | ReserveOp string string int
  | PromisedOp "(string, (string, int) gomap) gomap"

fun runOp :: "(toleration \<Rightarrow> taint \<Rightarrow> bool) \<Rightarrow> nodeView \<Rightarrow> viewOp \<Rightarrow> nodeView" where
  "runOp tol v (OwnerOp w) = setOwner w v"
| "runOp tol v (PlaceOp reps commit) = the (snd (PlaceReplicas tol (Some v) reps commit))"
| "runOp tol v (ReclaimOp reps commit left) = the (snd (snd (PlaceReplicasReclaiming tol (Some v) reps commit left)))"
| "runOp tol v (ReserveOp w acc n) = the (Reserve tol (Some v) w acc n)"
| "runOp tol v (PromisedOp promised) = the (ReservePromised tol (Some v) promised)"

lemma setOwner_reads [view_simps]:
  "debited (setOwner w v) = debited v" "free (setOwner w v) = free v" "spare (setOwner w v) = spare v"
  by (simp_all add: fun_eq_iff debited_def free_eq spare_def slot_def view_simps)

lemma owners_ok_setOwner [view_simps]: "owners_ok (setOwner w v) = owners_ok v"
  by (simp add: owners_ok_def view_simps split: option.split)

lemma view_ok_setOwner [view_simps]: "view_ok (setOwner w v) = view_ok v"
  by (simp add: view_ok_def view_simps)

lemma good_setOwner: "good (setOwner w v) = good v" "extends (setOwner w v) u = extends v u" "extends v (setOwner w u) = extends v u"
  using extends_cong [of "setOwner w v" v u u] extends_cong [of v v "setOwner w u" u] by (simp_all add: good_def view_simps)

lemma good_refl: "good v \<Longrightarrow> extends v v"
  by (simp add: good_def view_ok_def extends_refl)

lemma Clone_ok: "good v \<Longrightarrow> gomap_ok (vDebit (Clone v)) \<and> gomap_ok (vDomains (Clone v))"
  by (simp add: good_def view_ok_def view_simps)

lemma PlaceReplicas_good:
  assumes "good v" and "PlaceReplicas tol (Some v) reps commit = (ok, v')"
  shows "\<exists>w. v' = Some w \<and> good w \<and> extends v w"
proof (cases "placeAll tol (Clone v) reps")
  case None
  then show ?thesis using assms good_refl [OF assms(1)] by (auto simp: PlaceReplicas_def)
next
  case (Some c)
  have c: "extends (Clone v) c" "gomap_ok (vDomains c)" using placeAll_extends [OF Some] Clone_ok [OF assms(1)] by simp_all
  show ?thesis using assms Some good_adopt [OF assms(1) c] good_refl [OF assms(1)] by (cases commit) (auto simp: PlaceReplicas_def)
qed

lemma PlaceReplicasReclaiming_good:
  assumes "good v" and "PlaceReplicasReclaiming tol (Some v) reps commit left = (ok, took, v')"
  shows "\<exists>w. v' = Some w \<and> good w \<and> extends v w"
proof (cases "reclaimAll tol (Clone v) left [] reps")
  case None
  then show ?thesis using assms good_refl [OF assms(1)] by (auto simp: PlaceReplicasReclaiming_def)
next
  case (Some ct)
  obtain c t where ct: "ct = (c, t)" by (cases ct)
  have c: "extends (Clone v) c" "gomap_ok (vDomains c)" using reclaimAll_extends [of tol "Clone v" left "[]" reps c t] Some ct Clone_ok [OF assms(1)] by simp_all
  show ?thesis using assms Some ct good_adopt [OF assms(1) c] good_refl [OF assms(1)] by (cases commit) (auto simp: PlaceReplicasReclaiming_def)
qed

lemma Reserve_reserved:
  fixes tol :: "toleration \<Rightarrow> taint \<Rightarrow> bool" and acc :: string
  assumes "good v"
  defines "nodes \<equiv> eligible tol v acc [] True"
  shows "\<exists>w. Reserve tol (Some v) x acc n = Some w \<and> good w \<and> vOwner w = vOwner v \<and> vDomains w = vDomains v \<and>
    reserved (setOwner x v) nodes (min (max 0 n) (\<Sum>i \<leftarrow> nodes. free v i)) (setOwner x w)"
proof -
  let ?v = "setOwner x v" and ?u = "reserveLoop (setOwner x v) nodes n"
  have g: "gomap_ok (vDebit ?v)" "owners_ok ?v" "good ?v" using assms(1) by (simp_all add: good_setOwner) (simp_all add: good_def view_ok_def view_simps)
  have n: "eligible tol ?v acc [] True = nodes" using eligible_slots [of ?v v tol] by (simp add: nodes_def view_simps)
  have f: "free ?v = free v" by (simp add: view_simps)
  have "i < length (vSlots ?v)" if "i \<in> set nodes" for i using that eligible_nodes(1) by (simp add: nodes_def view_simps)
  from reserveLoop_effect [OF g(1,2) _ this]
  have r: "reserved ?v nodes (min (max 0 n) (\<Sum>i \<leftarrow> nodes. free v i)) ?u" using eligible_nodes(2) by (simp add: nodes_def f)
  define w where "w = (if n \<le> 0 then v else setOwner (vOwner v) ?u)"
  have eq: "Reserve tol (Some v) x acc n = Some w" by (simp add: Reserve_def w_def n)
  have u: "n \<le> 0 \<Longrightarrow> ?u = ?v" by (subst reserveLoop.simps) simp
  have "setOwner x w = ?u" using u r by (auto simp: w_def setOwner_def reserved_def)
  then have "reserved ?v nodes (min (max 0 n) (\<Sum>i \<leftarrow> nodes. free v i)) (setOwner x w)" using r by simp
  moreover have "good ?u" using r g(3) extends_ok [of ?v ?u] by (simp add: good_def reserved_def view_simps)
  then have "good w" using assms(1) by (simp add: w_def good_setOwner)
  moreover have "vOwner w = vOwner v" "vDomains w = vDomains v" using r by (simp_all add: w_def view_simps reserved_def)
  ultimately show ?thesis using eq by blast
qed

lemma Reserve_good: "good v \<Longrightarrow> \<exists>w. Reserve tol (Some v) x acc n = Some w \<and> good w \<and> extends v w"
  using Reserve_reserved [of v tol x acc n] by (auto simp: reserved_def good_setOwner)

lemma fold_good:
  assumes "\<And>u x. good u \<Longrightarrow> \<exists>w. f (Some u) x = Some w \<and> good w \<and> extends u w" and "good v"
  shows "\<exists>w. foldl f (Some v) xs = Some w \<and> good w \<and> extends v w"
  using assms(2)
proof (induction xs arbitrary: v)
  case Nil
  then show ?case using good_refl by simp
next
  case (Cons x xs)
  obtain w where w: "f (Some v) x = Some w" "good w" "extends v w" using assms(1) [OF Cons.prems] by blast
  then show ?case using Cons.IH [OF w(2)] extends_trans [OF w(3)] by auto
qed

lemma ReservePromised_good: "good v \<Longrightarrow> \<exists>w. ReservePromised tol (Some v) promised = Some w \<and> good w \<and> extends v w"
  unfolding ReservePromised_def by (intro fold_good Reserve_good)

interpretation viewOps: view_operations "runOp tol" for tol
proof (unfold_locales)
  fix v x
  assume g: "good v"
  show "good (runOp tol v x) \<and> extends v (runOp tol v x)"
  proof (cases x)
    case (OwnerOp w)
    then show ?thesis using g good_refl by (simp add: good_setOwner)
  next
    case (PlaceOp reps commit)
    then show ?thesis using PlaceReplicas_good [OF g, of tol reps commit] by (cases "PlaceReplicas tol (Some v) reps commit") auto
  next
    case (ReclaimOp reps commit left)
    then show ?thesis using PlaceReplicasReclaiming_good [OF g, of tol reps commit left]
      by (cases "PlaceReplicasReclaiming tol (Some v) reps commit left") auto
  next
    case (ReserveOp w acc n)
    then show ?thesis using Reserve_good [OF g, of tol w acc n] by auto
  next
    case (PromisedOp promised)
    then show ?thesis using ReservePromised_good [OF g, of tol promised] by auto
  qed
qed

lemma newNodeViewAt_good:
  "newNodeViewAt (Some snap) takenAt = Some v \<Longrightarrow> good v \<and>
     vSlots v = map (\<lambda>name. slotOfNode name (mget zeroNode snap name)) (sort (mkeys snap))"
  by (auto simp: newNodeViewAt_def good_def view_ok_def owners_ok_def entries_ok_def charges_def debited_def mget_def)

definition total_debit :: "nodeView \<Rightarrow> int" where
  "total_debit v = (\<Sum>i \<leftarrow> [0..<length (vSlots v)]. debited v i)"

lemma load_sum:
  assumes "list_all2 (\<lambda>p i. i < n) pods ns"
  shows "(\<Sum>i \<leftarrow> [0..<n]. load pods ns i) = (\<Sum>p \<leftarrow> pods. pfGpus p)"
  using assms
proof (induction pods ns rule: list_all2_induct)
  case Nil
  then show ?case by (simp add: load_def)
next
  case (Cons p ps j js)
  have "(\<Sum>i \<leftarrow> [0..<n]. if j = i then pfGpus p else 0) = pfGpus p"
    using Cons(1) sum_list_distinct_conv_sum_set [of "[0..<n]" "\<lambda>i. if j = i then pfGpus p else 0"] by simp
  then show ?case using Cons(3) by (simp add: load_Cons sum_list_addf)
qed

lemma podFits_gpus: "(\<Sum>p \<leftarrow> podFits tol v r. pfGpus p) = (\<Sum>g \<leftarrow> rfPods r. max 0 g)"
proof -
  let ?mk = "\<lambda>(i, g). if 0 < g then [\<lparr>pfGpus = g, pfNodes = eligibleFor tol v r (podTemplates r i)\<rparr>] else []"
  have "(\<Sum>p \<leftarrow> concat (map ?mk igs). pfGpus p) = (\<Sum>g \<leftarrow> map snd igs. max 0 g)" for igs
    by (induction igs) (auto simp: max_def)
  from this [of "zip [0..<length (rfPods r)] (rfPods r)"]
  have "(\<Sum>p \<leftarrow> concat (map ?mk (zip [0..<length (rfPods r)] (rfPods r))). pfGpus p) = (\<Sum>g \<leftarrow> rfPods r. max 0 g)" by simp
  moreover have "mset (map pfGpus (podFits tol v r)) = mset (map pfGpus (concat (map ?mk (zip [0..<length (rfPods r)] (rfPods r)))))"
    by (simp add: podFits_def)
  from arg_cong [OF this, of sum_mset]
  have "(\<Sum>p \<leftarrow> podFits tol v r. pfGpus p) = (\<Sum>p \<leftarrow> concat (map ?mk (zip [0..<length (rfPods r)] (rfPods r))). pfGpus p)"
    unfolding sum_mset_sum_list .
  ultimately show ?thesis by simp
qed

lemma place_total:
  assumes "place tol v r = (True, v')" and "gomap_ok (vDebit v)"
  shows "total_debit v' = total_debit v + (\<Sum>g \<leftarrow> rfPods r. max 0 g)"
proof -
  obtain d ns where p: "placed v (podFits tol v r) (rfDomain r) (exclusively tol v r) d v' ns"
    using place_True [OF assms] by (elim exE conjE) (rule that)
  then have fit: "best_fitted (free v) (\<lambda>i. d = [] \<or> label v i (rfDomain r) = d) (podFits tol v r) ns"
    and deb: "\<And>i. debited v' i = debited v i + load (podFits tol v r) ns i" and e: "extends v v'" by (simp_all add: placed_def)
  have "list_all2 (\<lambda>p i. i < length (vSlots v)) (podFits tol v r) ns"
    unfolding list_all2_iff
  proof (intro conjI ballI)
    note nodes = best_fitted_nodes [OF fit, unfolded list_all2_iff]
    then show "length (podFits tol v r) = length ns" by (rule conjunct1)
    fix pi assume pi: "pi \<in> set (zip (podFits tol v r) ns)"
    obtain p i where p: "pi = (p, i)" by (cases pi)
    have "i \<in> set (pfNodes p)" using nodes pi p by auto
    then show "case pi of (p, i) \<Rightarrow> i < length (vSlots v)" using podFits_nodes [of p tol v r i] set_zip_leftD [of p i] pi p by simp
  qed
  then show ?thesis
    unfolding total_debit_def extendsD(1) [OF e] deb sum_list_addf using load_sum podFits_gpus by simp
qed

lemma placeAll_total:
  "placeAll tol w reps = Some w' \<Longrightarrow> gomap_ok (vDebit w) \<Longrightarrow> gomap_ok (vDomains w) \<Longrightarrow> vSlots w = vSlots v \<Longrightarrow>
     total_debit w' = total_debit w + (\<Sum>r \<leftarrow> reps. \<Sum>g \<leftarrow> rfPods (fitOf tol v r). max 0 g)"
proof (induction reps arbitrary: w)
  case (Cons r reps)
  obtain u where u: "place tol w (fitOf tol w r) = (True, u)" and rest: "placeAll tol u reps = Some w'"
    using Cons.prems(1) by (auto split: prod.splits if_splits)
  have "extends w u" "gomap_ok (vDomains u)" using place_extends [OF u Cons.prems(2,3)] by simp_all
  then show ?case
    using Cons.IH [OF rest] place_total [OF u Cons.prems(2)] fitOf_slots [OF Cons.prems(4), of tol] Cons.prems(4) extendsD(1,2) [of w u] by simp
qed simp

text \<open>
  C12. No node is ever over-committed: after any sequence of placements, reclaiming placements and
  reservations on a view of a snapshot, by any owners, what the view placed on a node beside what the
  snapshot says is in use stays within the node's capacity (or places nothing on a node the snapshot
  already shows over it), and every GPU it placed is charged to exactly one owner.
\<close>

theorem nodes_never_overcommitted:
  assumes "newNodeViewAt (Some snap) takenAt = Some v0" and "v = foldl (runOp tolerates) v0 ops"
    and "i < length (sort (mkeys snap))"
  shows "slot v i = slotOfNode (sort (mkeys snap) ! i) (mget zeroNode snap (sort (mkeys snap) ! i)) \<and>
    0 \<le> debited v i \<and> slUsed (slot v i) + debited v i \<le> max (slUsed (slot v i)) (slCapacity (slot v i)) \<and>
    charged (\<lambda>_. True) v i = debited v i"
proof -
  note new = newNodeViewAt_good [OF assms(1)]
  have g: "good v" and e: "extends v0 v" using viewOps.runs_good [of v0 tolerates ops] new by (simp_all add: assms(2))
  have "slot v i = slotOfNode (sort (mkeys snap) ! i) (mget zeroNode snap (sort (mkeys snap) ! i))"
    using extendsD(1) [OF e] new assms(3) by (simp add: slot_def)
  moreover have "0 \<le> debited v i \<and> debited v i \<le> max 0 (spare v i)" using g view_ok_debited by (simp add: good_def)
  moreover have "charged (\<lambda>_. True) v i = debited v i" using g by (simp add: good_def owners_ok_iff)
  ultimately show ?thesis by (simp add: spare_def max_def split: if_splits)
qed

lemma exView_good: "newNodeViewAt (Some exSnap) 0 = Some exView" "good exView" "view_ok exView"
proof -
  show n: "newNodeViewAt (Some exSnap) 0 = Some exView" by (simp add: exView_def newNodeViewAt_def)
  show "good exView" using newNodeViewAt_good [OF n] by simp
  then show "view_ok exView" by (simp add: good_def)
qed

definition exOps :: "viewOp list" where
  "exOps = [OwnerOp ''ns/m'', PlaceOp [exShape] True, ReserveOp ''promised'' ''H100'' 3, PlaceOp [exShape] True]"

theorem nodes_never_overcommitted_witness:
  "(let v = foldl (runOp exTolerates) exView exOps
    in slot v 0 = slotOfNode ''n1'' (exNode ''a'' 4) \<and> 0 \<le> debited v 0 \<and>
       slUsed (slot v 0) + debited v 0 \<le> max (slUsed (slot v 0)) (slCapacity (slot v 0)) \<and>
       charged (\<lambda>_. True) v 0 = debited v 0 \<and> map (debited v) [0, 1, 2] = [4, 8, 3])"
proof -
  define v where "v = foldl (runOp exTolerates) exView exOps"
  have n: "sort (mkeys exSnap) = [''n1'', ''n2'', ''n3'']" by code_simp
  then have "0 < length (sort (mkeys exSnap))" by simp
  note inst = nodes_never_overcommitted [OF exView_good(1) v_def this]
  have m: "mget zeroNode exSnap ''n1'' = exNode ''a'' 4" by (simp add: mget_def exSnap_def)
  have "map (debited v) [0, 1, 2] = [4, 8, 3]" unfolding v_def by code_simp
  with inst show ?thesis unfolding Let_def v_def [symmetric] n nth_Cons_0 m by blast
qed

text \<open>
  C13. A placement is all or nothing: when some replica does not fit, or nothing is to be committed,
  the view is as before; otherwise the GPUs debited grow by exactly those of every pod of every
  replica, all of them charged to the view's owner and nothing to anyone else.
\<close>

theorem PlaceReplicas_all_or_nothing:
  assumes "good v" and "PlaceReplicas tolerates (Some v) reps commit = (ok, Some v')"
  shows "if ok \<and> commit
    then total_debit v' = total_debit v + (\<Sum>r \<leftarrow> reps. \<Sum>g \<leftarrow> rfPods (fitOf tolerates v r). max 0 g) \<and>
      (\<forall>P i. charged P v' i = charged P v i + (if P (vOwner v) then debited v' i - debited v i else 0))
    else v' = v"
proof (cases "placeAll tolerates (Clone v) reps")
  case None
  then show ?thesis using assms(2) by (auto simp: PlaceReplicas_def)
next
  case (Some c)
  have g: "view_ok v" "owners_ok v" "vOwned v \<noteq> None" using assms(1) by (simp_all add: good_def)
  have c: "extends (Clone v) c" "gomap_ok (vDomains c)" using placeAll_extends [OF Some] Clone_ok [OF assms(1)] by simp_all
  have e: "extends v c" using c(1) extends_cong [of "Clone v" v c c] by (simp add: view_simps)
  note a = adopt_effect [OF g(1,2) e c(2)]
  have "total_debit (Clone v) = total_debit v" by (simp add: total_debit_def debited_def view_simps)
  moreover have "total_debit (adopt v c) = total_debit c" unfolding total_debit_def a(3,8) extendsD(1) [OF e] ..
  ultimately have "total_debit (adopt v c) = total_debit v + (\<Sum>r \<leftarrow> reps. \<Sum>g \<leftarrow> rfPods (fitOf tolerates v r). max 0 g)"
    using placeAll_total [OF Some, of v] Clone_ok [OF assms(1)] by (simp add: view_simps)
  moreover have "v' = (if commit then adopt v c else v)" "ok" using assms(2) Some by (auto simp: PlaceReplicas_def)
  ultimately show ?thesis using a(3,4) g(3) by simp
qed

theorem PlaceReplicas_all_or_nothing_witness:
  "(let (ok, v') = PlaceReplicas exTolerates (Some exView) [exShape] True
    in ok \<and> total_debit (the v') = total_debit exView + 12) \<and>
   snd (PlaceReplicas exTolerates (Some exView) [exShape, exShape] True) = Some exView"
proof -
  let ?p = "PlaceReplicas exTolerates (Some exView) [exShape] True"
  let ?q = "PlaceReplicas exTolerates (Some exView) [exShape, exShape] True"
  have p: "fst ?p" "\<not> fst ?q" by code_simp+
  obtain v' u where v': "?p = (True, Some v')" and u: "?q = (False, Some u)"
    using p PlaceReplicas_good [OF exView_good(2), of exTolerates "[exShape]" True "fst ?p" "snd ?p"]
      PlaceReplicas_good [OF exView_good(2), of exTolerates "[exShape, exShape]" True "fst ?q" "snd ?q"]
    by (auto simp: prod_eq_iff)
  have "rfPods exFit = [8, 4]" by code_simp
  then have "total_debit v' = total_debit exView + 12"
    using PlaceReplicas_all_or_nothing [OF exView_good(2) v'] by simp
  moreover have "u = exView" using PlaceReplicas_all_or_nothing [OF exView_good(2) u] by simp
  ultimately show ?thesis using v' u by simp
qed

text \<open>
  C14. What placing one replica does: either nothing is changed, or each of its pods, the largest
  first, is on a node it may land on, in a smallest hole that held it after the pods before it, the
  debits grow by exactly what landed on each node, and a replica that must share a topology domain
  lands in one that held no group and is then taken.
\<close>

theorem place_best_fit:
  assumes "place tolerates v r = (ok, v')" and "view_ok v"
  defines "pods \<equiv> podFits tolerates v r" and "exclusive \<equiv> rfDomain r \<noteq> [] \<and> 1 < length (podFits tolerates v r)"
  shows "if ok then \<exists>d ns. (exclusive \<longleftrightarrow> d \<noteq> []) \<and>
      best_fitted (free v) (\<lambda>i. d = [] \<or> label v i (rfDomain r) = d) pods ns \<and>
      list_all2 (\<lambda>p i. i \<in> set (pfNodes p)) pods ns \<and>
      (\<forall>i. debited v' i = debited v i + load pods ns i) \<and>
      (if exclusive then \<not> domainTaken v (rfDomain r) d \<and> domainTaken v' (rfDomain r) d else vDomains v' = vDomains v)
    else v' = v"
proof (cases ok)
  case True
  have p: "place tolerates v r = (True, v')" and g: "gomap_ok (vDebit v)" using assms(1,2) True by (simp_all add: view_ok_def)
  obtain d ns where d: "exclusive \<longleftrightarrow> d \<noteq> []" "placed v pods (rfDomain r) exclusive d v' ns"
    using place_True [OF p g, folded exclusive_def, folded pods_def] by (elim exE conjE) (rule that)
  from d(2) have fit: "best_fitted (free v) (\<lambda>i. d = [] \<or> label v i (rfDomain r) = d) pods ns"
    "\<forall>i. debited v' i = debited v i + load pods ns i"
    "if exclusive then \<not> domainTaken v (rfDomain r) d \<and> vDomains v' = mput (domainID (rfDomain r) d) (vOwner v) (vDomains v)
     else vDomains v' = vDomains v" by (simp_all add: placed_def)
  have "list_all2 (\<lambda>p i. i \<in> set (pfNodes p)) pods ns" using best_fitted_nodes [OF fit(1)] by (rule list_all2_mono) simp
  moreover have "if exclusive then \<not> domainTaken v (rfDomain r) d \<and> domainTaken v' (rfDomain r) d else vDomains v' = vDomains v"
    using fit(3) by (simp add: domainTaken_def gomap_simps split: if_splits)
  ultimately show ?thesis using True d(1) fit(1,2) by (simp only: if_True) (intro exI [of _ d] exI [of _ ns] conjI; simp)
next
  case False
  then show ?thesis using place_False assms(1) by simp
qed

theorem place_best_fit_witness:
  "(let v' = snd (place exTolerates exView exFit)
    in fst (place exTolerates exView exFit) \<and>
      (\<exists>d ns. d \<noteq> [] \<and> best_fitted (free exView) (\<lambda>i. d = [] \<or> label exView i ''rack'' = d) (podFits exTolerates exView exFit) ns \<and>
        (\<forall>i. debited v' i = debited exView i + load (podFits exTolerates exView exFit) ns i) \<and> domainTaken v' ''rack'' d))"
proof -
  let ?v' = "snd (place exTolerates exView exFit)"
  have f: "fst (place exTolerates exView exFit)" by code_simp
  then have p: "place exTolerates exView exFit = (True, ?v')" by (simp add: prod_eq_iff)
  have d: "rfDomain exFit = ''rack''" by (simp add: fitOf_def exShape_def)
  have l: "1 < length (podFits exTolerates exView exFit)" by code_simp
  have "\<exists>d ns. d \<noteq> [] \<and> best_fitted (free exView) (\<lambda>i. d = [] \<or> label exView i ''rack'' = d) (podFits exTolerates exView exFit) ns \<and>
        (\<forall>i. debited ?v' i = debited exView i + load (podFits exTolerates exView exFit) ns i) \<and> domainTaken ?v' ''rack'' d"
    using place_best_fit [OF p exView_good(3)] l unfolding d by (simp split: if_splits) blast
  then show ?thesis using f by (simp only: Let_def simp_thms)
qed

end
