(* ===== verification/NodeTakeBack.thy ===== *)
theory NodeTakeBack
  imports NodePlacement
begin

text \<open>
  Reservations, what an owner was charged taken back, the borrowing placer's rollback, and the units
  the warm pool reads off the view.
\<close>

text \<open>
  C16. A reservation always ends, takes exactly what was asked or all that is free on the schedulable
  nodes of the accelerator when that is less, charges it to the reservation's owner alone, and leaves
  the owner the view charges next as it was.
\<close>

theorem Reserve_takes_what_is_free:
  assumes "good v"
  shows "\<exists>w. Reserve tolerates (Some v) owner acc n = Some w \<and> vOwner w = vOwner v \<and> vDomains w = vDomains v \<and>
    (\<Sum>i \<leftarrow> eligible tolerates v acc [] True. debited w i) =
      (\<Sum>i \<leftarrow> eligible tolerates v acc [] True. debited v i) + min (max 0 n) (\<Sum>i \<leftarrow> eligible tolerates v acc [] True. free v i) \<and>
    (\<forall>i. i \<notin> set (eligible tolerates v acc [] True) \<longrightarrow> debited w i = debited v i) \<and>
    (\<forall>P i. charged P w i = charged P v i + (if P owner then debited w i - debited v i else 0))"
proof -
  obtain w where w: "Reserve tolerates (Some v) owner acc n = Some w" "vOwner w = vOwner v" "vDomains w = vDomains v"
    "reserved (setOwner owner v) (eligible tolerates v acc [] True)
       (min (max 0 n) (\<Sum>i \<leftarrow> eligible tolerates v acc [] True. free v i)) (setOwner owner w)"
    using Reserve_reserved [OF assms, of tolerates owner acc n] by (elim exE conjE) (rule that)
  have c: "charged P (setOwner owner u) = charged P u" for P u by (simp add: fun_eq_iff charged_def view_simps)
  have "vOwned v \<noteq> None" using assms by (simp add: good_def)
  then show ?thesis using w(4) unfolding reserved_def
    by (intro exI [of _ w] conjI) (simp_all add: w(1-3) view_simps c)
qed

theorem Reserve_takes_what_is_free_witness:
  "\<exists>w. Reserve exTolerates (Some exView) ''promised'' ''H100'' 11 = Some w \<and> vOwner w = vOwner exView \<and>
     (\<Sum>i \<leftarrow> [0, 1, 2]. debited w i) = 11 \<and> (\<forall>i. charged (\<lambda>x. x \<noteq> ''promised'') w i = charged (\<lambda>x. x \<noteq> ''promised'') exView i)"
proof -
  have e: "eligible exTolerates exView ''H100'' [] True = [0, 1, 2]" by code_simp
  have f: "(\<Sum>i \<leftarrow> [0, 1, 2]. free exView i) = 20" "(\<Sum>i \<leftarrow> [0, 1, 2]. debited exView i) = 0" by code_simp+
  show ?thesis using Reserve_takes_what_is_free [OF exView_good(2), of exTolerates "''promised''" "''H100''" 11]
    unfolding e f by (elim exE conjE) (rule exI, intro conjI, assumption, assumption, simp, simp)
qed

subsection \<open>Taking back\<close>

lemma mget_mdel: "mget z (mdel k m) k' = (if k' = k then z else mget z m k')"
  by (simp add: mget_def gomap_simps)

lemma takeBack_get: "mget 0 (takeBack debit (i, g)) j = (if j = i then max 0 (mget 0 debit i - g) else mget 0 debit j)"
  by (simp add: takeBack_def Let_def mget_mdel gomap_simps max_def)

lemma set_mkeys_mdel: "set (mkeys (mdel k m)) = set (mkeys m) - {k}"
  by (simp add: mkeys_def mdel_def AList.delete_eq image_iff) force

lemma takeBack_keys:
  "0 \<le> g \<Longrightarrow> gomap_ok debit \<Longrightarrow> gomap_ok (takeBack debit (i, g)) \<and> set (mkeys (takeBack debit (i, g))) \<subseteq> set (mkeys debit)"
  by (cases "i \<in> set (mkeys debit)")
    (auto simp: takeBack_def Let_def gomap_simps set_mkeys_mdel mget_not_key intro: gomap_ok_mdel gomap_ok_madd)

lemma takeBack_fold:
  assumes "list_all (\<lambda>(_, g). 0 \<le> g) pn" and "gomap_ok pn" and "gomap_ok debit" and "0 \<le> mget 0 debit j"
  shows "gomap_ok (foldl takeBack debit pn) \<and> set (mkeys (foldl takeBack debit pn)) \<subseteq> set (mkeys debit) \<and>
    mget 0 (foldl takeBack debit pn) j = max 0 (mget 0 debit j - mget 0 pn j)"
  using assms
proof (induction pn arbitrary: debit)
  case Nil
  then show ?case by (simp add: mget_def)
next
  case (Cons ig pn)
  obtain i g where ig: "ig = (i, g)" by (cases ig)
  have g: "0 \<le> g" and pn: "list_all (\<lambda>(_, g). 0 \<le> g) pn" "gomap_ok pn" "i \<notin> set (mkeys pn)"
    using Cons.prems(1,2) ig by (simp_all add: gomap_ok_def mkeys_def)
  note k = takeBack_keys [OF g Cons.prems(3), of i]
  have "0 \<le> mget 0 (takeBack debit (i, g)) j" using Cons.prems(4) by (simp add: takeBack_get)
  note IH = Cons.IH [OF pn(1,2) conjunct1 [OF k] this]
  have "mget 0 (ig # pn) j = (if j = i then g else mget 0 pn j)" by (simp add: ig mget_def)
  moreover have "mget 0 pn i = 0" using pn(3) by (rule mget_not_key)
  ultimately show ?case using IH k by (auto simp: ig takeBack_get)
qed

lemma entries_nonneg: "list_all (\<lambda>(_, g). 0 \<le> (g :: int)) pn \<Longrightarrow> 0 \<le> mget 0 pn i"
  by (cases "map_of pn i") (auto simp: mget_def list_all_iff dest!: map_of_SomeD)

lemma without_fold:
  fixes ex :: "string \<Rightarrow> bool"
  defines "step \<equiv> \<lambda>debit (owner, perNode). if \<not> ex owner then debit else foldl takeBack debit perNode"
  assumes "list_all (\<lambda>(_, pn). gomap_ok pn \<and> list_all (\<lambda>(_, g). 0 \<le> g) pn) owned" and "gomap_ok debit" and "\<And>j. 0 \<le> mget 0 debit j"
  shows "gomap_ok (foldl step debit owned) \<and> set (mkeys (foldl step debit owned)) \<subseteq> set (mkeys debit) \<and>
    (\<forall>j. mget 0 (foldl step debit owned) j = max 0 (mget 0 debit j - charges ex owned j))"
  using assms(2-4)
proof (induction owned arbitrary: debit)
  case Nil
  then show ?case by (simp add: charges_def)
next
  case (Cons e owned)
  obtain w pn where e: "e = (w, pn)" by (cases e)
  have pn: "gomap_ok pn" "list_all (\<lambda>(_, g). 0 \<le> g) pn" and rest: "list_all (\<lambda>(_, pn). gomap_ok pn \<and> list_all (\<lambda>(_, g). 0 \<le> g) pn) owned"
    using Cons.prems(1) e by simp_all
  let ?d = "step debit e"
  have d: "gomap_ok ?d" "set (mkeys ?d) \<subseteq> set (mkeys debit)" "\<And>j. mget 0 ?d j = max 0 (mget 0 debit j - (if ex w then mget 0 pn j else 0))"
    using takeBack_fold [OF pn(2,1) Cons.prems(2,3)] Cons.prems(2,3) by (auto simp: step_def e)
  have nn: "0 \<le> charges ex owned j" for j
    using rest by (induction owned) (auto simp: charges_def entries_nonneg)
  have "charges ex (e # owned) j = (if ex w then mget 0 pn j else 0) + charges ex owned j" for j by (simp add: e charges_def)
  moreover have "max 0 (max 0 x - charges ex owned j) = max 0 (x - charges ex owned j)" for x j using nn [of j] by (simp add: max_def)
  ultimately show ?case using Cons.IH [OF rest d(1)] d(2,3) by (auto simp: diff_diff_eq)
qed

lemma charges_split: "charges (\<lambda>_. True) owned i = charges ex owned i + charges (\<lambda>w. \<not> ex w) owned i"
  by (induction owned) (auto simp: charges_def)

lemma charges_nonneg: "entries_ok owned \<Longrightarrow> 0 \<le> charges P owned i"
  unfolding entries_ok_def charges_def by (rule sum_list_nonneg) (fastforce simp: list_all_iff [of _ owned] intro: entries_nonneg)

lemma charged_split:
  "owners_ok v \<Longrightarrow> vOwned v \<noteq> None \<Longrightarrow> debited v i = charged ex v i + charged (\<lambda>w. \<not> ex w) v i"
  by (cases "vOwned v") (simp_all add: owners_ok_def charged_def flip: charges_split)

text \<open>
  What some owners placed can be taken back exactly: on the copy \<open>without\<close> makes, every
  node is debited precisely what the owners that stay were charged there, so it is free as if the
  others had never placed anything; the topology domains the others took are free again, and the
  copy is within every node's capacity.
\<close>

lemma without_exact:
  assumes "good v" and "without (Some v) exclude = Some c"
  shows "vSlots c = vSlots v \<and> view_ok c \<and> (\<forall>i. debited c i = charged (\<lambda>w. \<not> exclude w) v i) \<and>
    (\<forall>d w. (d, w) \<in> set (vDomains c) \<longleftrightarrow> (d, w) \<in> set (vDomains v) \<and> \<not> exclude w)"
proof -
  let ?step = "\<lambda>debit (owner, perNode). if \<not> exclude owner then debit else foldl takeBack debit perNode"
  obtain owned where o: "vOwned v = Some owned" "entries_ok owned" "\<And>i. charges (\<lambda>_. True) owned i = debited v i"
    using assms(1) by (auto simp: good_def owners_ok_def)
  have v: "view_ok v" "gomap_ok (vDebit v)" using assms(1) by (simp_all add: good_def view_ok_def)
  have c: "vDebit c = foldl ?step (vDebit v) owned" "vDomains c = filter (\<lambda>(_, w). \<not> exclude w) (vDomains v)" "vSlots c = vSlots v"
    using assms(2) by (auto simp: without_def Let_def o(1) view_simps)
  have "list_all (\<lambda>(_, pn). gomap_ok pn \<and> list_all (\<lambda>(_, g). 0 \<le> g) pn) owned" using o(2) by (simp add: entries_ok_def)
  from without_fold [OF this v(2), of exclude] view_ok_debited [OF v(1)]
  have f: "gomap_ok (vDebit c)" "set (mkeys (vDebit c)) \<subseteq> set (mkeys (vDebit v))"
    "\<And>i. debited c i = max 0 (debited v i - charges exclude owned i)" unfolding c(1) [symmetric] by (simp_all add: debited_def)
  have deb: "debited c i = charged (\<lambda>w. \<not> exclude w) v i" for i
    using f(3) [of i] o(3) [of i] charges_split [of owned i exclude] charges_nonneg [OF o(2), of "\<lambda>w. \<not> exclude w" i]
    by (simp add: charged_def o(1))
  have "0 \<le> debited c i \<and> debited c i \<le> max 0 (spare c i)" for i
    using f(3) [of i] view_ok_debited [OF v(1), of i] charges_nonneg [OF o(2), of exclude i] slot_cong(2) [OF c(3)] by (simp add: max_def split: if_splits)
  then have "view_ok c" using f(1,2) v(1) c(3) unfolding view_ok_iff by (auto simp: subset_iff)
  then show ?thesis using deb c(2,3) by auto
qed

text \<open>
  C15. Committing and taking back is a round trip: when an owner that holds nothing yet places
  replicas, the view without that owner has the same GPUs free on every node, the same nodes and the
  same topology domains taken as before the placement.
\<close>

theorem without_undoes_placement:
  assumes "good v" and "PlaceReplicas tolerates (Some v) reps True = (True, Some v')"
    and "\<forall>i. charged (\<lambda>w. w = vOwner v) v i = 0" and "vOwner v \<notin> snd ` set (vDomains v)"
  shows "\<exists>c. without (Some v') (\<lambda>w. w = vOwner v) = Some c \<and> vSlots c = vSlots v \<and> vDomains c = vDomains v \<and> (\<forall>i. free c i = free v i)"
proof -
  let ?ex = "\<lambda>w. w = vOwner v"
  obtain c where w: "without (Some v') ?ex = Some c" by (simp add: without_def Let_def)
  obtain t where t: "placeAll tolerates (Clone v) reps = Some t" "v' = adopt v t"
    using assms(2) by (auto simp: PlaceReplicas_def split: option.splits)
  have g: "view_ok v" "owners_ok v" "vOwned v \<noteq> None" using assms(1) by (simp_all add: good_def)
  have e: "extends (Clone v) t" "gomap_ok (vDomains t)" using placeAll_extends [OF t(1)] Clone_ok [OF assms(1)] by simp_all
  then have e': "extends v t" using extends_cong [of "Clone v" v t t] by (simp add: view_simps)
  note a = adopt_effect [OF g(1,2) e' e(2), folded t(2)]
  have good': "good v'" using good_adopt(1) [OF assms(1) e] t(2) by simp
  note x = without_exact [OF good' w]
  have "charged (\<lambda>w. \<not> ?ex w) v' i = debited v i" for i
    using a(4) [of "\<lambda>w. \<not> ?ex w" i] assms(3) charged_split [OF g(2,3), of i ?ex] by simp
  then have "debited c i = debited v i" for i using x by simp
  then have "free c i = free v i" for i using x a(8) slot_cong(2) [of c v] by (simp add: free_eq)
  moreover have "filter (\<lambda>(_, w). w \<noteq> vOwner v) (vDomains v) = vDomains v"
    unfolding filter_id_conv using assms(4) by force
  then have "vDomains c = vDomains v" using w unfolding without_def by (auto simp: Let_def view_simps a(5))
  ultimately show ?thesis using w x a(8) by auto
qed

definition exOwned :: nodeView where
  "exOwned = setOwner ''ns/m'' exView"

definition exPlaced :: nodeView where
  "exPlaced = the (snd (PlaceReplicas exTolerates (Some exOwned) [exShape] True))"

lemma exPlaced: "PlaceReplicas exTolerates (Some exOwned) [exShape] True = (True, Some exPlaced)" "good exOwned" "good exPlaced"
proof -
  let ?p = "PlaceReplicas exTolerates (Some exOwned) [exShape] True"
  show g: "good exOwned" using exView_good(2) by (simp add: exOwned_def good_setOwner)
  have f: "fst ?p" by code_simp
  from PlaceReplicas_good [OF g, of exTolerates "[exShape]" True "fst ?p" "snd ?p"]
  obtain w where w: "snd ?p = Some w" "good w" by (simp add: prod_eq_iff) blast
  then show "?p = (True, Some exPlaced)" "good exPlaced" using f by (simp_all add: exPlaced_def prod_eq_iff)
qed

lemma without_exact_example:
  "\<exists>c. without (Some exPlaced) (\<lambda>w. w = ''ns/m'') = Some c \<and> vSlots c = vSlots exPlaced \<and> view_ok c \<and>
     (\<forall>i. debited c i = charged (\<lambda>w. w \<noteq> ''ns/m'') exPlaced i) \<and> vDomains exPlaced = [(domainID ''rack'' ''a'', ''ns/m'')] \<and> vDomains c = []"
proof -
  obtain c where c: "without (Some exPlaced) (\<lambda>w. w = ''ns/m'') = Some c" by (simp add: without_def Let_def)
  have d: "vDomains exPlaced = [(domainID ''rack'' ''a'', ''ns/m'')]" by code_simp
  note x = without_exact [OF exPlaced(3) c]
  then have "e \<notin> set (vDomains c)" for e using d by (cases e) simp
  then have "vDomains c = []" by (cases "vDomains c") auto
  then show ?thesis using c d x by (intro exI [of _ c]) simp
qed

theorem without_undoes_placement_witness:
  "\<exists>c. without (Some exPlaced) (\<lambda>w. w = ''ns/m'') = Some c \<and> (\<forall>i. free c i = free exOwned i) \<and> free exPlaced 1 \<noteq> free exOwned 1"
proof -
  have o: "vOwner exOwned = ''ns/m''" by (simp add: exOwned_def view_simps)
  have v: "vOwned exOwned = Some []" "vDomains exOwned = []" by code_simp+
  have h: "\<forall>i. charged (\<lambda>w. w = vOwner exOwned) exOwned i = 0" "vOwner exOwned \<notin> snd ` set (vDomains exOwned)"
    by (simp_all add: charged_def charges_def v)
  have "free exPlaced 1 \<noteq> free exOwned 1" by code_simp
  then show ?thesis using without_undoes_placement [OF exPlaced(2,1) h] unfolding o by blast
qed

subsection \<open>Rolling back\<close>

text \<open>
  C17. The borrowing placer's rollback gives back the GPUs of a tentative placement and not its
  topology domain: after a replica that must share a domain was placed and the saved debits are
  restored, every node is free as before, yet the domain the replica was put in counts as taken, so
  no other replica is placed there.
\<close>

theorem rollback_keeps_domain:
  assumes "view_ok v" and "place tolerates v r = (True, v')" and "rfDomain r \<noteq> []" and "1 < length (podFits tolerates v r)"
  defines "w \<equiv> restoreDebits (saveDebits v) v'"
  shows "(\<forall>i. free w i = free v i) \<and> (\<exists>d. \<not> domainTaken v (rfDomain r) d \<and> domainTaken w (rfDomain r) d)"
proof -
  have g: "gomap_ok (vDebit v)" using assms(1) by (simp add: view_ok_def)
  obtain d ns where p: "placed v (podFits tolerates v r) (rfDomain r) (exclusively tolerates v r) d v' ns"
    using place_True [OF assms(2) g] by (elim exE conjE) (rule that)
  then have d: "\<not> domainTaken v (rfDomain r) d" "vDomains v' = mput (domainID (rfDomain r) d) (vOwner v) (vDomains v)" "vSlots v' = vSlots v"
    using assms(3,4) extendsD(1) [of v v'] by (simp_all add: placed_def)
  have "free w i = free v i" for i by (simp add: w_def restoreDebits_def saveDebits_def free_def slot_def d(3) Let_def)
  moreover have "domainTaken w (rfDomain r) d" by (simp add: domainTaken_def w_def restoreDebits_def d(2) gomap_simps)
  ultimately show ?thesis using d(1) by blast
qed

theorem rollback_keeps_domain_witness:
  "(let v' = snd (place exTolerates exView exFit); w = restoreDebits (saveDebits exView) v'
    in fst (place exTolerates exView exFit) \<and> (\<forall>i. free w i = free exView i) \<and>
      (\<exists>d. \<not> domainTaken exView ''rack'' d \<and> domainTaken w ''rack'' d) \<and> \<not> fst (place exTolerates w exFit))"
proof -
  let ?v' = "snd (place exTolerates exView exFit)"
  let ?w = "restoreDebits (saveDebits exView) ?v'"
  have f: "fst (place exTolerates exView exFit)" by code_simp
  then have p: "place exTolerates exView exFit = (True, ?v')" by (simp add: prod_eq_iff)
  have d: "rfDomain exFit = ''rack''" by (simp add: fitOf_def exShape_def)
  have r: "rfDomain exFit \<noteq> []" "1 < length (podFits exTolerates exView exFit)" by code_simp+
  have n: "\<not> fst (place exTolerates ?w exFit)" by code_simp
  from rollback_keeps_domain [OF exView_good(3) p r] show ?thesis unfolding Let_def d using f n by simp
qed

subsection \<open>What the warm pool may place\<close>

lemma sum_mput:
  fixes g :: "'k \<Rightarrow> 'v \<Rightarrow> int"
  assumes "gomap_ok m" and "g w z = 0"
  shows "(\<Sum>(k, x) \<leftarrow> mput w y m. g k x) = (\<Sum>(k, x) \<leftarrow> m. g k x) + g w y - g w (mget z m w)"
  using assms(1) unfolding mput_def
proof (induction m)
  case (Cons e m)
  obtain k x where e: "e = (k, x)" by (cases e)
  have "gomap_ok m" using Cons.prems e by (simp add: gomap_ok_def mkeys_def)
  then show ?case using Cons.IH by (simp add: e mget_def)
qed (simp add: mget_def assms(2))

lemma sum_filter_pairs:
  fixes g :: "'a \<Rightarrow> 'b \<Rightarrow> int"
  shows "(\<Sum>(a, b) \<leftarrow> filter (\<lambda>(a, _). P a) xs. g a b) = (\<Sum>(a, b) \<leftarrow> xs. if P a then g a b else 0)"
  by (induction xs) (simp_all add: case_prod_unfold)

lemma Holes_fold:
  fixes v :: nodeView and u :: int and P :: "string \<Rightarrow> bool"
  defines "units \<equiv> \<lambda>out. \<Sum>(a, fs) \<leftarrow> out. if P a then \<Sum>f \<leftarrow> fs. godiv f u else 0"
    and "step \<equiv> \<lambda>out i. if slUnschedulable (slot v i) then out
          else let acc = slAccelerator (slot v i); h = mget [] out acc; f = free v i
               in mput acc (if 0 < f then h @ [f] else h) out"
  assumes "gomap_ok out"
  shows "gomap_ok (foldl step out ns) \<and>
    units (foldl step out ns) = units out + (\<Sum>i \<leftarrow> filter (\<lambda>i. \<not> slUnschedulable (slot v i) \<and> P (slAccelerator (slot v i))) ns. godiv (free v i) u)"
  using assms(3)
proof (induction ns arbitrary: out)
  case (Cons i ns)
  let ?g = "\<lambda>a fs. if P a then \<Sum>f \<leftarrow> fs. godiv f u else 0"
  have ok: "gomap_ok (step out i)" using Cons.prems by (auto simp: step_def Let_def intro: gomap_ok_mput)
  have z: "godiv (free v i) u = 0" if "\<not> 0 < free v i" using that free_nonneg [of v i] by (simp add: godiv_def)
  have "units (step out i) = units out + (if \<not> slUnschedulable (slot v i) \<and> P (slAccelerator (slot v i)) then godiv (free v i) u else 0)"
    using sum_mput [of out ?g "slAccelerator (slot v i)" "[]", OF Cons.prems] z by (auto simp: step_def units_def Let_def)
  then show ?case using Cons.IH [OF ok] by simp
qed simp

text \<open>
  What the warm pool is told it may place is what the node view would place: with the holes of
  the view published as the headroom's nodes, and no node tainted, the units of \<open>u\<close> GPUs that
  \<open>Units\<close> reports are exactly the replicas of one pod of \<open>u\<close> GPUs that \<open>fits\<close> counts.
\<close>

lemma Units_agree_with_fits:
  assumes "Units acc u version maxAge now (Some h) = Some n" and "hNodes h = Holes (Some v)"
    and "list_all (\<lambda>s. slTaints s = []) (vSlots v)" and "0 < m"
  shows "fits tolerates (Some v) \<lparr>rfAcc = acc, rfPods = [u], rfTolerations = ts, rfDomain = key, rfTemplates = [], rfFlavor = None\<rparr> m = min m n"
proof -
  let ?r = "\<lparr>rfAcc = acc, rfPods = [u], rfTolerations = ts, rfDomain = key, rfTemplates = [], rfFlavor = None\<rparr>"
  let ?P = "\<lambda>a. \<not> (IsAcceleratorResolved acc \<and> \<not> SameName a acc)"
  let ?nodes = "filter (\<lambda>i. \<not> slUnschedulable (slot v i) \<and> ?P (slAccelerator (slot v i))) [0..<length (vSlots v)]"
  have u: "0 < u" using assms(1,2) by (auto simp: Units_def split: if_splits)
  have "slTaints (slot v i) = []" if "i < length (vSlots v)" for i using assms(3) that by (simp add: list_all_length slot_def)
  then have "eligible tolerates v acc ts False = ?nodes" unfolding eligible_def by (intro filter_cong) (auto simp: eligibleNode_def)
  then have e: "eligibleFor tolerates v ?r (podTemplates ?r 0) = ?nodes" by (simp add: eligibleFor_def podTemplates_def)
  obtain out where out: "Holes (Some v) = Some out" by (simp add: Holes_def)
  have "n = (\<Sum>(a, fs) \<leftarrow> filter (\<lambda>(a, _). ?P a) out. \<Sum>f \<leftarrow> fs. godiv f u)"
    using assms(1,2) out by (auto simp: Units_def Units_fold split: if_splits)
  also have "\<dots> = (\<Sum>(a, fs) \<leftarrow> out. if ?P a then \<Sum>f \<leftarrow> fs. godiv f u else 0)"
    by (rule sum_filter_pairs)
  also have "\<dots> = (\<Sum>i \<leftarrow> ?nodes. godiv (free v i) u)"
    using out Holes_fold [where out = "[]" and v = v and P = ?P and u = u and ns = "[0..<length (vSlots v)]"] by (simp add: Holes_def)
  also have "\<dots> = room v u ?nodes" using u by (simp add: room_def godiv_pos)
  finally have n: "n = room v u ?nodes" .
  show ?thesis using fitsCount_eq [OF u assms(4), of v ?nodes] u assms(4) by (simp add: fits_def e n)
qed

lemma Units_agree_with_fits_example:
  "(let h = \<lparr>hFree = [], hCluster = None, hNodes = Holes (Some exView), hAt = 0, PoolsVersion = 0\<rparr>
    in Units ''H100'' 3 0 100 50 (Some h) = Some 5 \<and>
       fits exTolerates (Some exView) \<lparr>rfAcc = ''H100'', rfPods = [3], rfTolerations = [], rfDomain = [], rfTemplates = [], rfFlavor = None\<rparr> 9 = min 9 5)"
proof -
  let ?h = "\<lparr>hFree = [], hCluster = None, hNodes = Holes (Some exView), hAt = 0, PoolsVersion = 0\<rparr>"
  have u: "Units ''H100'' 3 0 100 50 (Some ?h) = Some 5" by code_simp
  have t: "list_all (\<lambda>s. slTaints s = []) (vSlots exView)" by code_simp
  show ?thesis using Units_agree_with_fits [OF u _ t, of 9 exTolerates "[]" "[]"] u by simp
qed

end
