(* ===== verification/InFlight.thy ===== *)
theory InFlight
  imports NodeTakeBack
begin

text \<open>
  The ledger of replicas admitted onto node holes whose pods hold no node yet:
  \<open>internal/engines/allocation/inflight.go\<close> and its persisted form,
  \<open>inflight_persist.go\<close>.

  An entry's \<open>placed\<close> function counts the variant's pods each time \<open>settle\<close> calls it;
  here \<open>settle\<close> takes what the calls return, \<open>None\<close> for a nil function or one that
  cannot tell, and the field is left out. The lock makes every method one step; \<open>settle\<close>
  releases it while it counts, so its second half takes the keys read before.

  The persisted ledger is a value; its encoding as JSON is the parameter \<open>rawLen\<close>, the length
  of an encoded entry, which bounds how many are written.
\<close>

subsection \<open>Entries\<close>

definition InFlightTTL :: duration where
  "InFlightTTL = 5 * 60 * 1000000000"

definition sightedFor :: duration where
  "sightedFor = 2 * InFlightTTL"

definition InFlightOwner :: string where
  "InFlightOwner = ''in-flight''"

record partialReplica =
  prNode :: string
  prPlacedGPUs :: "int list"

record partialSeen =
  psReplica :: partialReplica
  psAt :: "gotime list"

record placed_count =
  plWhole :: int
  plPartial :: "partialReplica list"

record inFlightEntry =
  ieShape :: replicaShape
  ieWant :: int
  ieBase :: int
  ieSeen :: "(int \<times> gotime) list"
  ieExpires :: gotime
  ieTTL :: duration
  iePartial :: "partialSeen list"

record ledger =
  lEntries :: "(string, inFlightEntry) gomap"
  lSighted :: "(string, gotime) gomap"
  lRestored :: "(string, bool) gomap"

definition NewInFlightLedger :: ledger where
  "NewInFlightLedger = \<lparr>lEntries = [], lSighted = [], lRestored = []\<rparr>"

text \<open>The first old group on the node is used up; each placed pod then keeps its time there.\<close>

fun takeGroup :: "string \<Rightarrow> partialSeen list \<Rightarrow> (int \<times> gotime) list \<times> partialSeen list" where
  "takeGroup node [] = ([], [])"
| "takeGroup node (s # old) =
     (if prNode (psReplica s) = node then (zip (prPlacedGPUs (psReplica s)) (psAt s), old)
      else let (g, rest) = takeGroup node old in (g, s # rest))"

fun seenTimes :: "gotime \<Rightarrow> (int \<times> gotime) list \<Rightarrow> int list \<Rightarrow> gotime list" where
  "seenTimes now known [] = []"
| "seenTimes now known (g # gs) =
     (case List.extract (\<lambda>(g', _). g' = g) known of
        None \<Rightarrow> now # seenTimes now known gs
      | Some (before, (_, t), after) \<Rightarrow> t # seenTimes now (before @ after) gs)"

fun mergeGroups :: "gotime \<Rightarrow> partialSeen list \<Rightarrow> partialReplica list \<Rightarrow> partialSeen list" where
  "mergeGroups now old [] = []"
| "mergeGroups now old (c # cur) =
     (let (known, old') = takeGroup (prNode c) old
      in \<lparr>psReplica = c, psAt = seenTimes now known (prPlacedGPUs c)\<rparr> # mergeGroups now old' cur)"

definition mergePartial :: "partialSeen list \<Rightarrow> partialReplica list \<Rightarrow> gotime \<Rightarrow> partialSeen list" where
  "mergePartial old cur now = mergeGroups now old cur"

subsection \<open>Admitting\<close>

record inFlightAdmission =
  iaKey :: string
  iaShape :: replicaShape
  iaWant :: int
  iaPlacedNow :: int
  iaTTL :: duration
  iaExistingOnly :: bool
  iaUnplaced :: bool

definition updateEntry :: "inFlightAdmission \<Rightarrow> gotime \<Rightarrow> inFlightEntry \<Rightarrow> inFlightEntry" where
  "updateEntry a now e =
     (let ttl0 = max (iaTTL a) InFlightTTL;
          keep = (rsFlavor (iaShape a) = None \<and> rsFlavor (ieShape e) \<noteq> None \<and> iaWant a \<le> ieWant e);
          shape = (if keep then (iaShape a)\<lparr>rsFlavor := rsFlavor (ieShape e), rsPlacements := rsPlacements (ieShape e)\<rparr> else iaShape a);
          ttl = (if keep then max ttl0 (ieTTL e) else ttl0);
          expires = (if ieWant e < iaWant a then now + ttl
                     else if ttl \<noteq> ieTTL e then ieExpires e + (ttl - ieTTL e) else ieExpires e)
      in e\<lparr>ieExpires := expires, ieTTL := ttl, ieShape := shape, ieWant := iaWant a, ieBase := max (ieBase e) (iaPlacedNow a)\<rparr>)"

definition newEntry :: "inFlightAdmission \<Rightarrow> gotime \<Rightarrow> inFlightEntry" where
  "newEntry a now =
     (let ttl = max (iaTTL a) InFlightTTL
      in \<lparr>ieShape = iaShape a, ieWant = iaWant a, ieBase = iaPlacedNow a, ieSeen = [], ieExpires = now + ttl, ieTTL = ttl, iePartial = []\<rparr>)"

definition admitLocked :: "inFlightAdmission \<Rightarrow> gotime \<Rightarrow> bool \<Rightarrow> ledger \<Rightarrow> ledger" where
  "admitLocked a now sight l =
     (let key = iaKey a;
          sighted = (map_of (lSighted l) key \<noteq> None);
          l = (if sight then l\<lparr>lSighted := mput key now (lSighted l), lRestored := mdel key (lRestored l)\<rparr> else l)
      in if iaWant a \<le> iaPlacedNow a then l\<lparr>lEntries := mdel key (lEntries l)\<rparr>
         else case map_of (lEntries l) key of
           None \<Rightarrow>
             if iaExistingOnly a \<and> (iaUnplaced a \<or> sighted) then l
             else l\<lparr>lEntries := mput key (newEntry a now) (lEntries l)\<rparr>
         | Some e \<Rightarrow> l\<lparr>lEntries := mput key (updateEntry a now e) (lEntries l)\<rparr>)"

definition Admit :: "string \<Rightarrow> replicaShape \<Rightarrow> int \<Rightarrow> int \<Rightarrow> gotime \<Rightarrow> ledger \<Rightarrow> ledger" where
  "Admit key shape want placedNow now l =
     admitLocked \<lparr>iaKey = key, iaShape = shape, iaWant = want, iaPlacedNow = placedNow, iaTTL = 0,
       iaExistingOnly = False, iaUnplaced = False\<rparr> now True l"

definition admitAll :: "inFlightAdmission list \<Rightarrow> gotime \<Rightarrow> bool \<Rightarrow> ledger \<Rightarrow> ledger" where
  "admitAll adms now sight l = foldl (\<lambda>l a. admitLocked a now sight l) l adms"

type_synonym inFlightMark = "(string, inFlightEntry option) gomap"

definition markOf :: "inFlightAdmission list \<Rightarrow> ledger \<Rightarrow> inFlightMark" where
  "markOf adms l =
     foldl (\<lambda>mark a. if map_of mark (iaKey a) \<noteq> None then mark
                      else mput (iaKey a) (map_of (lEntries l) (iaKey a)) mark) [] adms"

definition Provisional :: "inFlightAdmission list \<Rightarrow> gotime \<Rightarrow> ledger \<Rightarrow> inFlightMark \<times> ledger" where
  "Provisional adms now l = (markOf adms l, admitAll adms now False l)"

definition setBack :: "inFlightMark \<Rightarrow> (string, inFlightEntry) gomap \<Rightarrow> (string, inFlightEntry) gomap" where
  "setBack mark entries =
     foldl (\<lambda>entries (k, prev). case prev of None \<Rightarrow> mdel k entries | Some e \<Rightarrow> mput k e entries) entries mark"

definition Commit :: "inFlightMark \<Rightarrow> inFlightAdmission list \<Rightarrow> gotime \<Rightarrow> ledger \<Rightarrow> ledger" where
  "Commit mark adms now l =
     admitAll adms now True
       (l\<lparr>lEntries := setBack mark (lEntries l), lSighted := filter (\<lambda>(_, t). \<not> sightedFor < time_sub now t) (lSighted l)\<rparr>)"

definition Holds :: "string \<Rightarrow> gotime \<Rightarrow> ledger \<Rightarrow> bool" where
  "Holds key now l = (case map_of (lEntries l) key of None \<Rightarrow> False | Some e \<Rightarrow> now < ieExpires e)"

definition Forget :: "string \<Rightarrow> ledger \<Rightarrow> ledger" where
  "Forget key l = l\<lparr>lEntries := mdel key (lEntries l)\<rparr>"

subsection \<open>Counting what landed\<close>

text \<open>What the counts of the entries named by \<open>keys\<close> do, once the lock is taken again.\<close>

definition settleEntry :: "gotime \<Rightarrow> placed_count option \<Rightarrow> inFlightEntry \<Rightarrow> inFlightEntry option" where
  "settleEntry now observed e =
     (if max (ieTTL e) InFlightTTL < time_sub now (ieExpires e) then None
      else case observed of None \<Rightarrow> Some e
        | Some p \<Rightarrow>
            (let n = plWhole p in
             if ieWant e \<le> n then None
             else let seen = (if ieBase e < n \<and> (ieSeen e = [] \<or> fst (last (ieSeen e)) < n) then ieSeen e @ [(n, now)] else ieSeen e)
                  in Some (e\<lparr>ieSeen := seen, iePartial := mergePartial (iePartial e) (plPartial p) now\<rparr>)))"

definition settleKeys :: "string list \<Rightarrow> (string \<Rightarrow> placed_count option) \<Rightarrow> gotime \<Rightarrow> ledger \<Rightarrow> ledger" where
  "settleKeys keys observed now l =
     l\<lparr>lEntries := foldl (\<lambda>entries k. case map_of entries k of None \<Rightarrow> entries
         | Some e \<Rightarrow> (case settleEntry now (observed k) e of None \<Rightarrow> mdel k entries | Some e' \<Rightarrow> mput k e' entries)) (lEntries l) keys\<rparr>"

definition settle :: "(string \<Rightarrow> placed_count option) \<Rightarrow> gotime \<Rightarrow> ledger \<Rightarrow> ledger" where
  "settle observed now l = settleKeys (sort (mkeys (lEntries l))) observed now l"

subsection \<open>Holding holes on a view\<close>

text \<open>\<open>strconv.Itoa\<close>.\<close>

fun nat_string :: "nat \<Rightarrow> string" where
  "nat_string n = (if n < 10 then [char_of (48 + n)] else nat_string (n div 10) @ [char_of (48 + n mod 10)])"

declare nat_string.simps [simp del]

definition strconv_Itoa :: "int \<Rightarrow> string" where
  "strconv_Itoa n = (if n < 0 then CHR ''-'' # nat_string (nat (- n)) else nat_string (nat n))"

definition inFlightReplicaOwner :: "string \<Rightarrow> int \<Rightarrow> string" where
  "inFlightReplicaOwner key n = InFlightOwner @ CHR 0x00 # key @ CHR 0x00 # strconv_Itoa n"

definition largestFirst :: "int list \<Rightarrow> int list" where
  "largestFirst podGPUs = rev (sort podGPUs)"

definition restPods :: "int list \<Rightarrow> int list \<Rightarrow> int list" where
  "restPods pods placedGPUs = filter (\<lambda>g. \<not> g \<le> 0) (foldl (\<lambda>rest g. remove1 g rest) pods placedGPUs)"

definition chargePlaced :: "nat \<Rightarrow> nodeView \<Rightarrow> int \<times> gotime \<Rightarrow> nodeView" where
  "chargePlaced node v gt =
     (let (g, t) = gt in
      if t \<le> vTakenAt v then v
      else let f = free v node in if 0 < f \<and> 0 < g then charge node (min g f) v else v)"

definition holdPartial :: "(toleration \<Rightarrow> taint \<Rightarrow> bool) \<Rightarrow> nodeView \<Rightarrow> replicaFit \<Rightarrow> partialSeen \<Rightarrow> nodeView" where
  "holdPartial tolerates v r p =
     (if rfPods r = [] then v
      else let placedGPUs = prPlacedGPUs (psReplica p);
               rest = restPods (rfPods r) placedGPUs;
               node = slotOf v (prNode (psReplica p));
               v = (case node of None \<Rightarrow> v | Some i \<Rightarrow> foldl (chargePlaced i) v (zip placedGPUs (psAt p)))
           in if rest = [] then v
              else let d = (case node of None \<Rightarrow> [] | Some i \<Rightarrow> if rfDomain r \<noteq> [] then label v i (rfDomain r) else []);
                       key = (if d \<noteq> [] then rfDomain r else []);
                       nodes = eligibleFit tolerates v r;
                       pods = map (\<lambda>g. \<lparr>pfGpus = g, pfNodes = nodes\<rparr>) (largestFirst rest)
                   in case bestFit v key d [] pods of None \<Rightarrow> v
                      | Some taken \<Rightarrow> (let v = chargeAll taken v in if d \<noteq> [] then takeDomain (domainID key d) v else v))"

definition placedBy :: "inFlightEntry \<Rightarrow> gotime \<Rightarrow> int" where
  "placedBy e takenAt = foldl (\<lambda>landed (n, t). if t \<le> takenAt then max landed n else landed) (ieBase e) (ieSeen e)"

definition holdReplica :: "(toleration \<Rightarrow> taint \<Rightarrow> bool) \<Rightarrow> string \<Rightarrow> replicaFit \<Rightarrow> partialSeen list \<Rightarrow> int \<Rightarrow> nodeView \<Rightarrow> int \<Rightarrow> nodeView" where
  "holdReplica tolerates key r partial landed v n =
     (let v = setOwner (inFlightReplicaOwner key n) v; i = n - landed - 1
      in if i < int (length partial) then holdPartial tolerates v r (partial ! nat i) else snd (place tolerates v r))"

definition holdEntry :: "(toleration \<Rightarrow> taint \<Rightarrow> bool) \<Rightarrow> gotime \<Rightarrow> nodeView \<Rightarrow> string \<times> inFlightEntry \<Rightarrow> nodeView" where
  "holdEntry tolerates now v ke =
     (let (key, e) = ke in
      if \<not> now < ieExpires e then v
      else let landed = placedBy e (vTakenAt v); r = fitOf tolerates v (ieShape e)
           in foldl (holdReplica tolerates key r (iePartial e) landed) v [landed + 1 .. ieWant e])"

text \<open>The entries in key order; \<open>holdOn\<close> returns the settled ledger and the view.\<close>

definition entriesInOrder :: "ledger \<Rightarrow> (string \<times> inFlightEntry) list" where
  "entriesInOrder l = map (\<lambda>k. (k, the (map_of (lEntries l) k))) (sort (mkeys (lEntries l)))"

definition holdOn :: "(toleration \<Rightarrow> taint \<Rightarrow> bool) \<Rightarrow> (string \<Rightarrow> placed_count option) \<Rightarrow> gotime \<Rightarrow> ledger \<Rightarrow> nodeView \<Rightarrow> ledger \<times> nodeView" where
  "holdOn tolerates observed now l v =
     (let l = settle observed now l; prev = vOwner v
      in (l, setOwner prev (foldl (holdEntry tolerates now) (setOwner InFlightOwner v) (entriesInOrder l))))"

text \<open>\<open>strings.CutPrefix\<close>, and \<open>strings.Cut\<close> at a NUL.\<close>

fun cutPrefix :: "string \<Rightarrow> string \<Rightarrow> string option" where
  "cutPrefix s [] = Some s"
| "cutPrefix [] (_ # _) = None"
| "cutPrefix (c # cs) (p # ps) = (if c = p then cutPrefix cs ps else None)"

definition cutNul :: "string \<Rightarrow> (string \<times> string) option" where
  "cutNul s = (if CHR 0x00 \<in> set s then Some (takeWhile (\<lambda>c. c \<noteq> CHR 0x00) s, tl (dropWhile (\<lambda>c. c \<noteq> CHR 0x00) s)) else None)"

definition releases :: "(string, int) gomap \<Rightarrow> string \<Rightarrow> bool" where
  "releases created owner =
     (case cutPrefix owner (InFlightOwner @ [CHR 0x00]) of None \<Rightarrow> False
      | Some rest \<Rightarrow> (case cutNul rest of None \<Rightarrow> False
          | Some (key, num) \<Rightarrow> (case (map_of created key, strconv_Atoi num) of
                (Some have, Some n) \<Rightarrow> have < n | _ \<Rightarrow> False)))"

definition ReleaseUncreated :: "nodeView \<Rightarrow> (string, int) gomap \<Rightarrow> nodeView" where
  "ReleaseUncreated v created =
     (if created = [] then v
      else case vOwned v of None \<Rightarrow> v
        | Some owned \<Rightarrow>
            v\<lparr>vDebit := foldl (\<lambda>debit (_, perNode). foldl takeBack debit perNode) (vDebit v) (filter (\<lambda>(owner, _). releases created owner) owned),
              vOwned := Some (filter (\<lambda>(owner, _). \<not> releases created owner) owned),
              vDomains := filter (\<lambda>(_, owner). \<not> (owner \<in> set (mkeys owned) \<and> releases created owner)) (vDomains v)\<rparr>)"

subsection \<open>The view a decision is judged on\<close>

definition PhysicalLimiterName :: string where
  "PhysicalLimiterName = ''gpu-limiter''"

definition PhysicalBounds :: "resourceConstraints option list \<Rightarrow> bool" where
  "PhysicalBounds constraints =
     list_ex (\<lambda>c. case c of None \<Rightarrow> False | Some c \<Rightarrow> ProviderName c = PhysicalLimiterName) constraints"

text \<open>The second component is whether the caller reports that node fit was skipped.\<close>

definition NodeViewFor :: "(toleration \<Rightarrow> taint \<Rightarrow> bool) \<Rightarrow> (string \<Rightarrow> placed_count option) \<Rightarrow> resourceConstraints option list
    \<Rightarrow> nodeGPUStore \<Rightarrow> gotime \<Rightarrow> ledger \<Rightarrow> (nodeView option \<times> bool) \<times> ledger" where
  "NodeViewFor tolerates observed constraints store now l =
     (if \<not> PhysicalBounds constraints then ((None, False), l)
      else case Nodes_Read NodeGPUsMaxAge now store of
        None \<Rightarrow> ((None, True), l)
      | Some (snap, takenAt) \<Rightarrow>
          (case newNodeViewAt (Some snap) takenAt of None \<Rightarrow> ((None, False), l)
           | Some v \<Rightarrow> (let (l, v) = holdOn tolerates observed now l v in ((Some v, False), l))))"

subsection \<open>The persisted ledger\<close>

definition InFlightFormat :: int where
  "InFlightFormat = 1"

definition maxInFlightPersisted :: nat where
  "maxInFlightPersisted = 512"

definition maxInFlightBytes :: int where
  "maxInFlightBytes = 128 * 1024"

definition maxInFlightPods :: nat where
  "maxInFlightPods = 256"

definition maxLedgerReplicas :: int where
  "maxLedgerReplicas = 100000"

definition second :: duration where
  "second = 1000000000"

record persistedEntry =
  peAccelerator :: string
  pePodGPUs :: "int list"
  peGPUs :: int
  peTolerations :: "toleration list"
  peDomainKey :: string
  pePlacements :: "podPlacement list"
  peFlavor :: "flavorPlacement option"
  peWant :: int
  pePlaced :: int
  peExpires :: gotime
  peTTLSeconds :: int
  pePartial :: "partialReplica list"

record persistedLedger =
  piVersion :: int
  piEntries :: "(string, persistedEntry) gomap"

definition landedSoFar :: "inFlightEntry \<Rightarrow> int" where
  "landedSoFar e = foldl (\<lambda>landed (n, _). max landed n) (ieBase e) (ieSeen e)"

definition persistEntry :: "inFlightEntry \<Rightarrow> persistedEntry" where
  "persistEntry e = \<lparr>peAccelerator = rsAccelerator (ieShape e), pePodGPUs = rsPodGPUs (ieShape e), peGPUs = rsGPUs (ieShape e),
     peTolerations = rsTolerations (ieShape e), peDomainKey = rsDomainKey (ieShape e), pePlacements = rsPlacements (ieShape e),
     peFlavor = rsFlavor (ieShape e), peWant = ieWant e, pePlaced = landedSoFar e, peExpires = ieExpires e,
     peTTLSeconds = godiv (ieTTL e + second - 1) second, pePartial = map psReplica (iePartial e)\<rparr>"

definition live :: "gotime \<Rightarrow> inFlightEntry \<Rightarrow> bool" where
  "live now e = (now < ieExpires e \<and> landedSoFar e < ieWant e)"

definition lastsLonger :: "string \<times> persistedEntry \<Rightarrow> string \<times> persistedEntry \<Rightarrow> bool" where
  "lastsLonger a b = (peExpires (snd b) < peExpires (snd a) \<or> peExpires (snd a) = peExpires (snd b) \<and> fst a < fst b)"

fun keepEntries :: "(persistedEntry \<Rightarrow> int) \<Rightarrow> nat \<Rightarrow> int \<Rightarrow> (string \<times> persistedEntry) list \<Rightarrow> (string \<times> persistedEntry) list" where
  "keepEntries rawLen kept bytes [] = []"
| "keepEntries rawLen kept bytes ((k, pe) # rest) =
     (if maxInFlightPersisted \<le> kept then []
      else let bytes = bytes + int (length k) + rawLen pe in
        if maxInFlightBytes < bytes then [] else (k, pe) # keepEntries rawLen (Suc kept) bytes rest)"

definition MarshalInFlight :: "(persistedEntry \<Rightarrow> int) \<Rightarrow> gotime \<Rightarrow> ledger \<Rightarrow> persistedLedger" where
  "MarshalInFlight rawLen now l = \<lparr>piVersion = InFlightFormat,
     piEntries = keepEntries rawLen 0 0 (stable_sort lastsLonger
       (map (\<lambda>(k, e). (k, persistEntry e)) (filter (\<lambda>(_, e). live now e) (lEntries l))))\<rparr>"

definition persistedEntryOK :: "string \<Rightarrow> persistedEntry \<Rightarrow> bool" where
  "persistedEntryOK k pe =
     (if CHR ''/'' \<notin> set k \<or> pePlaced pe < 0 \<or> peWant pe \<le> pePlaced pe \<or> maxLedgerReplicas < peWant pe \<or> peGPUs pe < 0 then False
      else if peTTLSeconds pe < godiv InFlightTTL second \<or> maxInFlightPods < length (pePodGPUs pe) \<or>
              peWant pe - pePlaced pe < int (length (pePartial pe)) then False
      else \<not> list_ex (\<lambda>r. maxInFlightPods < length (prPlacedGPUs r)) (pePartial pe))"

text \<open>The zero time, which is before any snapshot, is a parameter of the model of time.\<close>

definition restoreEntry :: "gotime \<Rightarrow> gotime \<Rightarrow> int \<Rightarrow> string \<Rightarrow> persistedEntry \<Rightarrow> inFlightEntry" where
  "restoreEntry zeroTime now limit k pe =
     (let ttl = min (peTTLSeconds pe) limit * second in
      \<lparr>ieShape = \<lparr>rsVariant = k, rsAccelerator = peAccelerator pe, rsPodGPUs = pePodGPUs pe, rsGPUs = peGPUs pe, rsTolerations = peTolerations pe,
         rsDomainKey = peDomainKey pe, rsPlacements = pePlacements pe, rsFlavor = peFlavor pe\<rparr>,
       ieWant = peWant pe, ieBase = pePlaced pe, ieSeen = [], ieExpires = (if now + ttl < peExpires pe then now + ttl else peExpires pe), ieTTL = ttl,
       iePartial = map (\<lambda>r. \<lparr>psReplica = r, psAt = replicate (length (prPlacedGPUs r)) zeroTime\<rparr>) (pePartial pe)\<rparr>)"

definition RestoreInFlight :: "gotime \<Rightarrow> persistedLedger \<Rightarrow> gotime \<Rightarrow> duration \<Rightarrow> ledger \<Rightarrow> (nat \<times> nat) \<times> ledger" where
  "RestoreInFlight zeroTime p now maxTTL l =
     (let dropped = length (filter (\<lambda>(k, pe). \<not> persistedEntryOK k pe) (piEntries p));
          ok = stable_sort lastsLonger (filter (\<lambda>(k, pe). persistedEntryOK k pe \<and> now < peExpires pe) (piEntries p));
          dropped = dropped + (length ok - maxInFlightPersisted);
          limit = godiv (max maxTTL InFlightTTL) second;
          (restored, l) = foldl (\<lambda>(restored, l) (k, pe).
              if map_of (lEntries l) k \<noteq> None then (restored, l)
              else (Suc restored, l\<lparr>lEntries := mput k (restoreEntry zeroTime now limit k pe) (lEntries l), lRestored := mput k True (lRestored l)\<rparr>))
            (0, l) (take maxInFlightPersisted ok)
      in ((restored, dropped), l))"

definition DropRestoredExcept :: "(string, bool) gomap \<Rightarrow> ledger \<Rightarrow> ledger" where
  "DropRestoredExcept named l =
     l\<lparr>lEntries := foldl (\<lambda>entries k. if mget False named k then entries else mdel k entries) (lEntries l) (mkeys (lRestored l)), lRestored := []\<rparr>"

text \<open>\<open>decode\<close> is \<open>json.Unmarshal\<close> into the persisted ledger, \<open>None\<close> for its error.\<close>

datatype unmarshalError = NotJSON | OtherVersion int

definition UnmarshalInFlight :: "(string \<Rightarrow> persistedLedger option) \<Rightarrow> string \<Rightarrow> unmarshalError + persistedLedger" where
  "UnmarshalInFlight decode s =
     (if s = [] then Inr \<lparr>piVersion = InFlightFormat, piEntries = []\<rparr>
      else case decode s of None \<Rightarrow> Inl NotJSON
        | Some p \<Rightarrow> if piVersion p \<noteq> InFlightFormat then Inl (OtherVersion (piVersion p)) else Inr p)"

end
