(* ===== verification/InFlightHolds.thy ===== *)
theory InFlightHolds
  imports InFlight
begin

text \<open>
  What holds of the in-flight ledger: provisional admissions leave no trace, a hold is not renewed by
  asking again, a restart keeps it, and the holes it holds on a node view stay within every node.
\<close>

subsection \<open>Ledgers as maps\<close>

definition same_ledger :: "ledger \<Rightarrow> ledger \<Rightarrow> bool" where
  "same_ledger l l' \<longleftrightarrow> map_of (lEntries l) = map_of (lEntries l') \<and> lSighted l = lSighted l' \<and> lRestored l = lRestored l'"

lemma admitLocked_entries:
  "k \<noteq> iaKey a \<Longrightarrow> map_of (lEntries (admitLocked a now sight l)) k = map_of (lEntries l) k"
  by (simp add: admitLocked_def Let_def gomap_simps split: option.split)

lemma admitLocked_unsighted:
  "lSighted (admitLocked a now False l) = lSighted l \<and> lRestored (admitLocked a now False l) = lRestored l"
  by (simp add: admitLocked_def Let_def split: option.split)

lemma admitLocked_same: "same_ledger l l' \<Longrightarrow> same_ledger (admitLocked a now sight l) (admitLocked a now sight l')"
  unfolding same_ledger_def admitLocked_def by (cases "map_of (lEntries l') (iaKey a)") (auto simp: Let_def gomap_simps)

lemma admitAll_same: "same_ledger l l' \<Longrightarrow> same_ledger (admitAll adms now sight l) (admitAll adms now sight l')"
  unfolding admitAll_def by (induction adms arbitrary: l l') (simp_all add: admitLocked_same)

lemma admitAll_unsighted:
  "(\<forall>k. k \<notin> iaKey ` set adms \<longrightarrow> map_of (lEntries (admitAll adms now False l)) k = map_of (lEntries l) k) \<and>
   lSighted (admitAll adms now False l) = lSighted l \<and> lRestored (admitAll adms now False l) = lRestored l"
  unfolding admitAll_def
proof (induction adms arbitrary: l)
  case (Cons a adms)
  show ?case using Cons.IH [of "admitLocked a now False l"] admitLocked_entries [of _ a now False l] admitLocked_unsighted [of a now l] by simp
qed simp

subsection \<open>Marks\<close>

lemma mark_fold:
  fixes l :: ledger
  defines "step \<equiv> \<lambda>mark a. if map_of mark (iaKey a) \<noteq> None then mark else mput (iaKey a) (map_of (lEntries l) (iaKey a)) mark"
  assumes "gomap_ok mark" and "\<And>k p. map_of mark k = Some p \<Longrightarrow> p = map_of (lEntries l) k"
  shows "gomap_ok (foldl step mark adms) \<and>
    (\<forall>k. map_of (foldl step mark adms) k = (if map_of mark k \<noteq> None \<or> k \<in> iaKey ` set adms then Some (map_of (lEntries l) k) else None))"
  using assms(2,3)
proof (induction adms arbitrary: mark)
  case Nil
  then show ?case by (auto split: option.splits)
next
  case (Cons a adms)
  let ?m = "step mark a"
  have ok: "gomap_ok ?m" using Cons.prems(1) by (simp add: step_def gomap_ok_mput)
  have "p = map_of (lEntries l) k" if "map_of ?m k = Some p" for k p
    using that Cons.prems(2) by (auto simp: step_def gomap_simps split: if_splits)
  note IH = Cons.IH [OF ok this]
  have "map_of ?m k \<noteq> None \<longleftrightarrow> map_of mark k \<noteq> None \<or> k = iaKey a" for k by (auto simp: step_def gomap_simps)
  then show ?case using IH by auto
qed

lemma markOf_get:
  "gomap_ok (markOf adms l) \<and> (\<forall>k. map_of (markOf adms l) k = (if k \<in> iaKey ` set adms then Some (map_of (lEntries l) k) else None))"
  unfolding markOf_def using mark_fold [of "[]" l adms] by simp

lemma setBack_get:
  "gomap_ok mark \<Longrightarrow> map_of (setBack mark entries) k = (case map_of mark k of None \<Rightarrow> map_of entries k | Some prev \<Rightarrow> prev)"
  unfolding setBack_def
proof (induction mark arbitrary: entries)
  case (Cons e mark)
  obtain k' p where e: "e = (k', p)" by (cases e)
  have ok: "gomap_ok mark" and new: "map_of mark k' = None" using Cons.prems e by (simp_all add: gomap_ok_def mkeys_def map_of_eq_None_iff)
  show ?case using Cons.IH [OF ok] new by (cases p) (auto simp: e gomap_simps split: option.split)
qed simp

text \<open>
  C18. A provisional admission leaves no trace: admitting a pass's placements provisionally and then
  committing the cycle's final admissions gives the ledger that admitting the final ones directly
  would have given: the same entries, on the same clocks, the same sightings and restored entries.
\<close>

theorem Commit_replaces_Provisional:
  assumes "Provisional adms now l = (mark, l')"
  shows "same_ledger (Commit mark final later l') (Commit [] final later l)"
proof -
  have l': "l' = admitAll adms now False l" "mark = markOf adms l" using assms by (simp_all add: Provisional_def)
  note m = markOf_get [of adms l] and u = admitAll_unsighted [of adms now l]
  have "map_of (setBack mark (lEntries l')) k = map_of (lEntries l) k" for k
    using setBack_get [of mark "lEntries l'" k] m u by (simp add: l')
  then have "same_ledger (l'\<lparr>lEntries := setBack mark (lEntries l'), lSighted := s\<rparr>) (l\<lparr>lEntries := setBack [] (lEntries l), lSighted := s\<rparr>)" for s
    using u by (simp add: same_ledger_def l' setBack_def fun_eq_iff)
  moreover have "lSighted l' = lSighted l" using u by (simp add: l')
  ultimately show ?thesis unfolding Commit_def by (simp add: admitAll_same)
qed

definition exAdmission :: "string \<Rightarrow> int \<Rightarrow> inFlightAdmission" where
  "exAdmission key want = \<lparr>iaKey = key, iaShape = exShape, iaWant = want, iaPlacedNow = 1, iaTTL = 0, iaExistingOnly = False, iaUnplaced = False\<rparr>"

definition exLedger :: ledger where
  "exLedger = admitAll [exAdmission ''ns/v'' 3] 10 True NewInFlightLedger"

theorem Commit_replaces_Provisional_witness:
  "(let (mark, l') = Provisional [exAdmission ''ns/v'' 5, exAdmission ''ns/w'' 2] 20 exLedger; final = [exAdmission ''ns/w'' 3]
    in same_ledger (Commit mark final 30 l') (Commit [] final 30 exLedger) \<and> map_of (lEntries l') ''ns/v'' \<noteq> map_of (lEntries exLedger) ''ns/v'')"
proof -
  have c: "map_of (lEntries (snd (Provisional [exAdmission ''ns/v'' 5, exAdmission ''ns/w'' 2] 20 exLedger))) ''ns/v'' \<noteq> map_of (lEntries exLedger) ''ns/v''"
    by code_simp
  then show ?thesis
    using Commit_replaces_Provisional [where adms = "[exAdmission ''ns/v'' 5, exAdmission ''ns/w'' 2]" and now = 20 and l = exLedger, OF prod.collapse [symmetric]]
    by (simp add: case_prod_unfold Let_def)
qed

subsection \<open>Asking again\<close>

definition askAgain :: "ledger \<Rightarrow> gotime \<times> inFlightAdmission \<Rightarrow> ledger" where
  "askAgain l ta = admitLocked (snd ta) (fst ta) True l"

lemma updateEntry_start:
  "iaWant a \<le> ieWant e \<Longrightarrow> ieExpires (updateEntry a now e) - ieTTL (updateEntry a now e) = ieExpires e - ieTTL e"
  "ieWant (updateEntry a now e) = iaWant a" "InFlightTTL \<le> ieTTL (updateEntry a now e)"
  "ieTTL e \<le> T \<Longrightarrow> iaTTL a \<le> T \<Longrightarrow> InFlightTTL \<le> T \<Longrightarrow> ieTTL (updateEntry a now e) \<le> T"
  by (auto simp: updateEntry_def Let_def)

lemma askAgain_entry:
  assumes "map_of (lEntries l) (iaKey a) = Some e" and "iaPlacedNow a < iaWant a"
  shows "map_of (lEntries (askAgain l (t, a))) (iaKey a) = Some (updateEntry a t e)"
  using assms by (simp add: askAgain_def admitLocked_def Let_def gomap_simps)

text \<open>
  Asking again does not renew a hold: however often later cycles admit a variant with no more
  replicas than before, none of which landed, the entry stays and its hold ends a TTL after it
  started, where the TTL is at most the longest one asked for. A replica that cannot be scheduled is
  not kept a hole for ever.
\<close>

lemma hold_is_not_renewed:
  assumes "map_of (lEntries l) key = Some e" and "ieTTL e \<le> T" and "InFlightTTL \<le> T"
    and "list_all (\<lambda>(t, a). iaKey a = key \<and> iaPlacedNow a < iaWant a \<and> iaTTL a \<le> T) asks"
    and "sorted_wrt (\<lambda>x y. y \<le> x) (ieWant e # map (\<lambda>ta. iaWant (snd ta)) asks)"
  shows "\<exists>e'. map_of (lEntries (foldl askAgain l asks)) key = Some e' \<and>
    ieExpires e' - ieTTL e' = ieExpires e - ieTTL e \<and> ieTTL e' \<le> T \<and>
    (\<forall>t. Holds key t (foldl askAgain l asks) \<longrightarrow> t < ieExpires e - ieTTL e + T)"
  using assms
proof (induction asks arbitrary: l e)
  case Nil
  then show ?case by (auto simp: Holds_def)
next
  case (Cons ta asks)
  obtain t a where ta: "ta = (t, a)" by (cases ta)
  have a: "iaKey a = key" "iaPlacedNow a < iaWant a" "iaTTL a \<le> T" "iaWant a \<le> ieWant e" using Cons.prems(4,5) ta by simp_all
  let ?e = "updateEntry a t e"
  have "map_of (lEntries (askAgain l ta)) key = Some ?e" using askAgain_entry [of l a e t] Cons.prems(1) a ta by simp
  moreover have "ieTTL ?e \<le> T" using updateEntry_start(4) [OF Cons.prems(2) a(3) Cons.prems(3)] .
  moreover have "sorted_wrt (\<lambda>x y. y \<le> x) (ieWant ?e # map (\<lambda>ta. iaWant (snd ta)) asks)"
    using Cons.prems(5) by (simp add: updateEntry_start(2) ta)
  moreover have "list_all (\<lambda>(t, a). iaKey a = key \<and> iaPlacedNow a < iaWant a \<and> iaTTL a \<le> T) asks" using Cons.prems(4) by simp
  ultimately show ?case using Cons.IH [of "askAgain l ta" ?e] Cons.prems(3) updateEntry_start(1) [OF a(4)] by simp
qed

lemma hold_is_not_renewed_example:
  "(let l = foldl askAgain exLedger [(100, exAdmission ''ns/v'' 3), (200, exAdmission ''ns/v'' 2)]
    in Holds ''ns/v'' 200 l \<and> (\<forall>t. Holds ''ns/v'' t l \<longrightarrow> t < 10 + InFlightTTL))"
proof -
  let ?asks = "[(100, exAdmission ''ns/v'' 3), (200, exAdmission ''ns/v'' 2)]"
  have e: "map_of (lEntries exLedger) ''ns/v'' = Some (newEntry (exAdmission ''ns/v'' 3) 10)" by code_simp
  have "list_all (\<lambda>(t, a). iaKey a = ''ns/v'' \<and> iaPlacedNow a < iaWant a \<and> iaTTL a \<le> InFlightTTL) ?asks" by code_simp
  moreover have "sorted_wrt (\<lambda>x y. y \<le> x) (ieWant (newEntry (exAdmission ''ns/v'' 3) 10) # map (\<lambda>ta. iaWant (snd ta)) ?asks)" by code_simp
  moreover have "Holds ''ns/v'' 200 (foldl askAgain exLedger ?asks)" by code_simp
  moreover have "ieTTL (newEntry (exAdmission ''ns/v'' 3) 10) = InFlightTTL" and "ieExpires (newEntry (exAdmission ''ns/v'' 3) 10) = 10 + InFlightTTL"
    by code_simp+
  ultimately show ?thesis using hold_is_not_renewed [OF e, of InFlightTTL ?asks] by (auto simp: Let_def)
qed

subsection \<open>Decimal numbers\<close>

lemma nat_string_ne: "nat_string n \<noteq> []"
  by (subst nat_string.simps) simp

lemma digit_char: "d < 10 \<Longrightarrow> is_digit (char_of (48 + d)) \<and> digit_val (char_of (48 + d)) = d"
  by (simp add: is_digit_def digit_val_def of_char_of)

lemma nat_of_digits_snoc: "nat_of_digits (s @ [c]) = 10 * nat_of_digits s + digit_val c"
  by (simp add: nat_of_digits_def)

lemma nat_string_digits: "list_all is_digit (nat_string n) \<and> nat_of_digits (nat_string n) = n"
proof (induction n rule: less_induct)
  case (less n)
  show ?case
  proof (cases "n < 10")
    case True
    then show ?thesis using digit_char [of n] nat_of_digits_snoc [of "[]"] by (subst (1 2) nat_string.simps) (simp add: nat_of_digits_def)
  next
    case False
    then have "nat_string n = nat_string (n div 10) @ [char_of (48 + n mod 10)]" by (subst nat_string.simps) simp
    then show ?thesis using less.IH [of "n div 10"] False digit_char [of "n mod 10"] nat_of_digits_snoc [of "nat_string (n div 10)"] by simp
  qed
qed

lemma digit_not: "is_digit c \<Longrightarrow> c \<noteq> CHR ''-'' \<and> c \<noteq> CHR ''+'' \<and> c \<noteq> CHR 0x00"
  by (auto simp: is_digit_def)

lemma Atoi_Itoa:
  assumes "0 \<le> n" and "n \<le> max_int"
  shows "strconv_Atoi (strconv_Itoa n) = Some n" and "CHR 0x00 \<notin> set (strconv_Itoa n)"
proof -
  let ?s = "nat_string (nat n)"
  have s: "strconv_Itoa n = ?s" using assms(1) by (simp add: strconv_Itoa_def)
  have d: "list_all is_digit ?s" "nat_of_digits ?s = nat n" using nat_string_digits [of "nat n"] by simp_all
  then show "CHR 0x00 \<notin> set (strconv_Itoa n)" using digit_not unfolding s list_all_iff by blast
  obtain c cs where c: "?s = c # cs" using nat_string_ne by (cases ?s) auto
  then have "c \<noteq> CHR ''-'' \<and> c \<noteq> CHR ''+''" using d(1) digit_not [of c] by simp
  moreover have "\<not> n < min_int" using assms(1) min_int_neg by linarith
  ultimately show "strconv_Atoi (strconv_Itoa n) = Some n"
    using d assms unfolding s strconv_Atoi_def c by (simp add: Let_def)
qed

lemma cutPrefix_append: "cutPrefix (p @ s) p = Some s"
  by (induction p) (auto simp: neq_Nil_conv elim: cutPrefix.elims)

lemma cutNul_append: "CHR 0x00 \<notin> set k \<Longrightarrow> cutNul (k @ CHR 0x00 # s) = Some (k, s)"
  unfolding cutNul_def by (induction k) auto

lemma releases_owner:
  assumes "CHR 0x00 \<notin> set key" and "0 \<le> n" and "n \<le> max_int"
  shows "releases created (inFlightReplicaOwner key n) \<longleftrightarrow> (\<exists>have. map_of created key = Some have \<and> have < n)"
proof -
  have "inFlightReplicaOwner key n = (InFlightOwner @ [CHR 0x00]) @ key @ CHR 0x00 # strconv_Itoa n" by (simp add: inFlightReplicaOwner_def)
  then show ?thesis
    unfolding releases_def using cutPrefix_append [of "InFlightOwner @ [CHR 0x00]"] cutNul_append [OF assms(1)] Atoi_Itoa(1) [OF assms(2,3)]
    by (simp split: option.split)
qed

end
