(* ===== verification/InFlightView.thy ===== *)
theory InFlightView
  imports InFlightHolds
begin

text \<open>
  The holes the ledger holds on a node view: they are within every node, charged to owners of the
  ledger's own, and given back exactly for the replicas that do not exist yet.
\<close>

subsection \<open>Charges of one owner\<close>

text \<open>Nobody but the view's owner is charged, and the owner stays.\<close>

definition owner_only :: "nodeView \<Rightarrow> nodeView \<Rightarrow> bool" where
  "owner_only v v' \<longleftrightarrow> vOwner v' = vOwner v \<and> (vOwned v' = None \<longleftrightarrow> vOwned v = None) \<and>
     (\<forall>P i. \<not> P (vOwner v) \<longrightarrow> charged P v' i = charged P v i)"

lemma owner_only_refl: "owner_only v v"
  by (simp add: owner_only_def)

lemma owner_only_trans: "owner_only a b \<Longrightarrow> owner_only b c \<Longrightarrow> owner_only a c"
  by (simp add: owner_only_def)

lemma charge_owner:
  assumes "owners_ok v" and "0 \<le> g"
  shows "owners_ok (charge i g v) \<and> owner_only v (charge i g v)"
proof -
  have entries: "owners_entries v" using assms(1) by (simp add: owners_ok_iff)
  show ?thesis using owners_ok_charge [OF assms] charge_effect [OF entries assms(2), where i = i] by (simp add: owner_only_def view_simps)
qed

lemma foldl_charge_owner:
  "owners_ok v \<Longrightarrow> (\<And>i. 0 \<le> t i) \<Longrightarrow> owners_ok (foldl (\<lambda>v i. charge i (t i) v) v ns) \<and> owner_only v (foldl (\<lambda>v i. charge i (t i) v) v ns)"
proof (induction ns arbitrary: v)
  case (Cons i ns)
  have c: "owners_ok (charge i (t i) v)" "owner_only v (charge i (t i) v)" using charge_owner [OF Cons.prems(1), of "t i" i] Cons.prems(2) by simp_all
  show ?case using Cons.IH [OF c(1) Cons.prems(2)] owner_only_trans [OF c(2)] by simp
qed (simp add: owner_only_refl)

lemma bestFit_nonneg:
  "bestFit v key d taken pods = Some taken' \<Longrightarrow> (\<And>p. p \<in> set pods \<Longrightarrow> 0 \<le> pfGpus p) \<Longrightarrow> (\<And>i. 0 \<le> mget 0 taken i) \<Longrightarrow> 0 \<le> mget 0 taken' i"
proof (induction pods arbitrary: taken)
  case (Cons p ps)
  obtain j f where rest: "bestFit v key d (madd j (pfGpus p) taken) ps = Some taken'" using Cons.prems(1) by (auto split: option.splits)
  have "0 \<le> pfGpus p" using Cons.prems(2) by simp
  then have "0 \<le> mget 0 (madd j (pfGpus p) taken) i" for i using Cons.prems(3) by (simp add: gomap_simps add_nonneg_nonneg)
  then show ?case using Cons.IH [OF rest] Cons.prems(2) by simp
qed simp

lemma takeDomain_owner: "owners_ok (takeDomain d v) = owners_ok v" "owner_only v (takeDomain d v)"
  by (simp_all add: owners_ok_def owner_only_def charged_def view_simps debited_def split: option.split)

lemma fitted_owner:
  assumes "bestFit v key d [] pods = Some taken" and "\<And>p. p \<in> set pods \<Longrightarrow> 0 \<le> pfGpus p" and "owners_ok v"
  shows "owners_ok (chargeAll taken v) \<and> owner_only v (chargeAll taken v)"
proof -
  have "0 \<le> mget 0 taken i" for i using bestFit_nonneg [OF assms(1,2)] by (simp add: mget_def)
  from foldl_charge_owner [OF assms(3) this] show ?thesis by (simp add: chargeAll_def)
qed

lemma placeIn_owner:
  assumes "owners_ok v" and "\<And>p. p \<in> set pods \<Longrightarrow> 0 \<le> pfGpus p"
  shows "placeIn v pods key exclusive ds = (ok, v') \<Longrightarrow> owners_ok v' \<and> owner_only v v'"
proof (induction ds)
  case Nil
  then show ?case using assms(1) owner_only_refl by simp
next
  case (Cons d ds)
  show ?case
  proof (cases "exclusive \<and> domainTaken v key d \<or> bestFit v key d [] pods = None")
    case True
    then show ?thesis using Cons by (auto split: if_splits)
  next
    case False
    then obtain taken where t: "bestFit v key d [] pods = Some taken"
      and v': "v' = (if exclusive then takeDomain (domainID key d) (chargeAll taken v) else chargeAll taken v)"
      using Cons.prems by (auto simp: Let_def)
    note f = fitted_owner [OF t assms(2,1)]
    then show ?thesis using owner_only_trans [OF _ takeDomain_owner(2)] by (simp add: v' takeDomain_owner)
  qed
qed

lemma place_good:
  assumes "good v" and "place tol v r = (ok, v')"
  shows "good v' \<and> extends v v' \<and> owner_only v v'"
proof -
  have g: "view_ok v" "owners_ok v" "gomap_ok (vDomains v)" "vOwned v \<noteq> None" "gomap_ok (vDebit v)"
    using assms(1) by (simp_all add: good_def view_ok_def)
  have e: "extends v v'" "gomap_ok (vDomains v')" using place_extends [OF assms(2) g(5,3)] by simp_all
  have "0 \<le> pfGpus p" if "p \<in> set (podFits tol v r)" for p using podFits_in [OF that] by simp
  then have o: "owners_ok v' \<and> owner_only v v'"
    using placeIn_owner [OF g(2), of "podFits tol v r"] assms(2) g(2) owner_only_refl by (auto simp: place_def Let_def split: if_splits)
  moreover have "view_ok v'" using extends_ok [OF e(1) g(1)] .
  moreover have "vOwned v' \<noteq> None" using o g(4) by (simp add: owner_only_def)
  ultimately show ?thesis using e by (simp add: good_def)
qed

subsection \<open>Holding\<close>

abbreviation held_well :: "nodeView \<Rightarrow> nodeView \<Rightarrow> bool" where
  "held_well v v' \<equiv> good v' \<and> extends v v' \<and> owner_only v v'"

lemma held_well_trans: "held_well a b \<Longrightarrow> held_well b c \<Longrightarrow> held_well a c"
  using extends_trans owner_only_trans by blast

lemma held_well_refl: "good v \<Longrightarrow> held_well v v"
  using good_refl owner_only_refl by blast

lemma charge_held:
  assumes "good v" and "i < length (vSlots v)" and "0 \<le> g" and "g \<le> free v i"
  shows "held_well v (charge i g v)"
proof -
  have v: "view_ok v" "owners_ok v" "gomap_ok (vDomains v)" "vOwned v \<noteq> None" "gomap_ok (vDebit v)"
    using assms(1) by (simp_all add: good_def view_ok_def)
  have e: "extends v (charge i g v)" by (rule extends_charge [OF v(5) assms(2-4)])
  have c: "owners_ok (charge i g v) \<and> owner_only v (charge i g v)" by (rule charge_owner [OF v(2) assms(3)])
  show ?thesis using extends_ok [OF e v(1)] e c v(3,4) by (auto simp: good_def owner_only_def view_simps)
qed

lemma chargePlaced_held:
  assumes "good v" and "i < length (vSlots v)"
  shows "held_well v (chargePlaced i v gt)"
proof -
  obtain g t where gt: "gt = (g, t)" by (cases gt)
  show ?thesis
  proof (cases "t \<le> vTakenAt v \<or> \<not> (0 < free v i \<and> 0 < g)")
    case True
    then have "chargePlaced i v gt = v" by (auto simp: chargePlaced_def gt Let_def)
    then show ?thesis using held_well_refl [OF assms(1)] by simp
  next
    case False
    then have "chargePlaced i v gt = charge i (min g (free v i)) v" by (simp add: chargePlaced_def gt Let_def)
    then show ?thesis using charge_held [OF assms, of "min g (free v i)"] False by simp
  qed
qed

lemma chargePlaced_fold_held:
  "good v \<Longrightarrow> i < length (vSlots v) \<Longrightarrow> held_well v (foldl (chargePlaced i) v gts)"
proof (induction gts arbitrary: v)
  case Nil
  then show ?case using held_well_refl by simp
next
  case (Cons gt gts)
  have h: "held_well v (chargePlaced i v gt)" by (rule chargePlaced_held [OF Cons.prems])
  then have "i < length (vSlots (chargePlaced i v gt))" using extendsD(1) Cons.prems(2) by metis
  then show ?case using Cons.IH [of "chargePlaced i v gt"] h held_well_trans [OF h] by simp
qed

lemma takeDomain_held: "good v \<Longrightarrow> held_well v (takeDomain d v)"
  using extends_cong [of v v "takeDomain d v" v] good_refl [of v] takeDomain_owner [where d = d and v = v] gomap_ok_mput [of "vDomains v"]
  by (simp add: good_def view_simps view_ok_def debited_def spare_def slot_def)

lemma fitted_held:
  assumes "good v" and "bestFit v key d [] pods = Some taken" and "\<And>p. p \<in> set pods \<Longrightarrow> 0 < pfGpus p"
    and "\<And>p i. p \<in> set pods \<Longrightarrow> i \<in> set (pfNodes p) \<Longrightarrow> i < length (vSlots v)"
  shows "held_well v (chargeAll taken v)"
proof -
  have v: "view_ok v" "owners_ok v" "gomap_ok (vDomains v)" "vOwned v \<noteq> None" "gomap_ok (vDebit v)"
    using assms(1) by (simp_all add: good_def view_ok_def)
  have "placeIn v pods key False [d] = (True, chargeAll taken v)" by (simp add: assms(2) Let_def)
  then have "\<exists>d' \<in> set [d]. \<exists>ns. placed v pods key False d' (chargeAll taken v) ns"
    by (rule placeIn_True [OF _ v(5)]) (use assms(3,4) in auto)
  then have e: "extends v (chargeAll taken v)" by (auto simp: placed_def)
  have c: "owners_ok (chargeAll taken v) \<and> owner_only v (chargeAll taken v)"
    using fitted_owner [OF assms(2) _ v(2)] assms(3) by fastforce
  show ?thesis using extends_ok [OF e v(1)] e c v(3,4) by (auto simp: good_def owner_only_def view_simps)
qed

lemma slotOf_range: "slotOf v name = Some i \<Longrightarrow> i < length (vSlots v)"
  unfolding slotOf_def by (auto dest!: map_of_SomeD set_zip_rightD)

lemma eligibleFit_range: "i \<in> set (eligibleFit tol v r) \<Longrightarrow> i < length (vSlots v)"
  using eligibleFor_nodes(1) by (auto simp: eligibleFit_def split: if_splits)

lemma holdPartial_held:
  assumes "good v"
  shows "held_well v (holdPartial tol v r p)"
proof -
  define node where "node = slotOf v (prNode (psReplica p))"
  define w where "w = (case node of None \<Rightarrow> v | Some i \<Rightarrow> foldl (chargePlaced i) v (zip (prPlacedGPUs (psReplica p)) (psAt p)))"
  define rest where "rest = restPods (rfPods r) (prPlacedGPUs (psReplica p))"
  define d where "d = (case node of None \<Rightarrow> [] | Some i \<Rightarrow> if rfDomain r \<noteq> [] then label w i (rfDomain r) else [])"
  define key where "key = (if d \<noteq> [] then rfDomain r else [])"
  define pods where "pods = map (\<lambda>g. \<lparr>pfGpus = g, pfNodes = eligibleFit tol w r\<rparr>) (largestFirst rest)"
  have w: "held_well v w"
    using held_well_refl [OF assms] chargePlaced_fold_held [OF assms slotOf_range] by (auto simp: w_def node_def split: option.split)
  have pods: "0 < pfGpus q \<and> pfNodes q = eligibleFit tol w r" if "q \<in> set pods" for q
    using that by (auto simp: pods_def largestFirst_def rest_def restPods_def)
  have eq: "holdPartial tol v r p = (if rfPods r = [] then v else if rest = [] then w
      else case bestFit w key d [] pods of None \<Rightarrow> w
        | Some taken \<Rightarrow> if d \<noteq> [] then takeDomain (domainID key d) (chargeAll taken w) else chargeAll taken w)"
    unfolding holdPartial_def Let_def node_def [symmetric] rest_def [symmetric] w_def [symmetric] d_def [symmetric] key_def [symmetric] pods_def [symmetric] ..
  show ?thesis
  proof (cases "rfPods r = [] \<or> rest = [] \<or> bestFit w key d [] pods = None")
    case True
    then show ?thesis using held_well_refl [OF assms] w unfolding eq by auto
  next
    case False
    then obtain taken where t: "bestFit w key d [] pods = Some taken" by auto
    have f: "held_well w (chargeAll taken w)" using fitted_held [OF conjunct1 [OF w] t] pods eligibleFit_range by metis
    note f' = held_well_trans [OF w f]
    then show ?thesis using False t held_well_trans [OF f' takeDomain_held [OF conjunct1 [OF f]]] unfolding eq by simp
  qed
qed

text \<open>What holding does to the charges of everyone but the owners in \<open>P\<close>: nothing.\<close>

definition held_for :: "(string \<Rightarrow> bool) \<Rightarrow> nodeView \<Rightarrow> nodeView \<Rightarrow> bool" where
  "held_for P v v' \<longleftrightarrow> good v' \<and> extends v v' \<and> (\<forall>Q i. (\<forall>w. Q w \<longrightarrow> \<not> P w) \<longrightarrow> charged Q v' i = charged Q v i)"

lemma held_for_trans: "held_for P a b \<Longrightarrow> held_for P b c \<Longrightarrow> held_for P a c"
  unfolding held_for_def using extends_trans by auto

lemma held_for_setOwner: "good v \<Longrightarrow> held_for P v (setOwner w v)"
  unfolding held_for_def using good_setOwner extends_cong [of v v "setOwner w v" v] good_refl [of v]
  by (simp add: charged_def view_simps)

lemma held_well_for: "held_well v v' \<Longrightarrow> P (vOwner v) \<Longrightarrow> held_for P v v'"
  unfolding held_for_def owner_only_def by metis

lemma held_for_foldl:
  assumes "\<And>v x. good v \<Longrightarrow> x \<in> set xs \<Longrightarrow> held_for P v (f v x)" and "good v"
  shows "held_for P v (foldl f v xs)"
  using assms
proof (induction xs arbitrary: v)
  case Nil
  then show ?case using held_well_refl [of v] by (simp add: held_for_def)
next
  case (Cons x xs)
  have h: "held_for P v (f v x)" by (rule Cons.prems(1)) (use Cons.prems(2) in simp_all)
  then have "held_for P (f v x) (foldl f (f v x) xs)" using Cons.IH [of "f v x"] Cons.prems(1) by (simp add: held_for_def)
  then show ?case using held_for_trans [OF h] by simp
qed

definition heldOwner :: "string \<Rightarrow> bool" where
  "heldOwner w = (cutPrefix w (InFlightOwner @ [CHR 0x00]) \<noteq> None)"

lemma heldOwner_replica: "heldOwner (inFlightReplicaOwner key n)"
  using cutPrefix_append [of "InFlightOwner @ [CHR 0x00]" "key @ CHR 0x00 # strconv_Itoa n"]
  by (simp add: heldOwner_def inFlightReplicaOwner_def)

lemma releases_held: "releases created w \<Longrightarrow> heldOwner w"
  by (auto simp: releases_def heldOwner_def split: option.splits)

lemma holdReplica_held:
  assumes "good v"
  shows "held_for heldOwner v (holdReplica tol key r partial landed v n)"
proof -
  let ?w = "setOwner (inFlightReplicaOwner key n) v"
  have w: "held_for heldOwner v ?w" "good ?w" "heldOwner (vOwner ?w)"
    using held_for_setOwner [OF assms] good_setOwner assms heldOwner_replica by (simp_all add: view_simps)
  have p: "held_well ?w (snd (place tol ?w r))" using place_good [OF w(2), of tol r] by (metis prod.collapse)
  have "held_for heldOwner ?w (holdPartial tol ?w r q)" for q
    by (rule held_well_for [of _ _ heldOwner]) (use holdPartial_held [OF w(2)] w(3) in simp_all)
  moreover have "held_for heldOwner ?w (snd (place tol ?w r))" by (rule held_well_for [of _ _ heldOwner, OF p w(3)])
  ultimately show ?thesis unfolding holdReplica_def Let_def using held_for_trans [OF w(1)] by simp
qed

lemma holdEntry_held:
  assumes "good v"
  shows "held_for heldOwner v (holdEntry tol now v ke)"
proof -
  have "held_for heldOwner v (foldl (holdReplica tol key r partial landed) v ns)" for key r partial landed ns
    by (rule held_for_foldl [OF holdReplica_held assms])
  moreover have "held_for heldOwner v v" using held_well_refl [OF assms] by (simp add: held_for_def)
  ultimately show ?thesis unfolding holdEntry_def case_prod_unfold Let_def by simp
qed

lemma holdOn_held:
  assumes "good v" and "holdOn tol observed now l v = (l', v')"
  shows "held_for heldOwner v v' \<and> vOwner v' = vOwner v"
proof -
  let ?w = "setOwner InFlightOwner v" and ?es = "entriesInOrder (settle observed now l)"
  have v': "v' = setOwner (vOwner v) (foldl (holdEntry tol now) ?w ?es)" using assms(2) by (auto simp: holdOn_def Let_def)
  have a: "held_for heldOwner v ?w" and g: "good ?w" using held_for_setOwner [OF assms(1)] good_setOwner assms(1) by simp_all
  have b: "held_for heldOwner ?w (foldl (holdEntry tol now) ?w ?es)" by (rule held_for_foldl [OF holdEntry_held g])
  then have "good (foldl (holdEntry tol now) ?w ?es)" by (simp add: held_for_def)
  from held_for_setOwner [OF this] show ?thesis unfolding v' using held_for_trans [OF held_for_trans [OF a b]] by (simp add: view_simps)
qed

subsection \<open>Giving back what was not created\<close>

lemma charges_filter: "charges P (filter (\<lambda>(w, _). \<not> ex w) owned) i = charges (\<lambda>w. P w \<and> \<not> ex w) owned i"
  unfolding charges_def by (induction owned) (auto simp: case_prod_unfold)

lemma entries_ok_filter: "entries_ok owned \<Longrightarrow> entries_ok (filter Q owned)"
  unfolding entries_ok_def by (auto simp: gomap_ok_def mkeys_def list_all_iff distinct_map intro: inj_on_subset)

lemma foldl_filter: "foldl f a (filter (\<lambda>(w, _). ex w) xs) = foldl (\<lambda>a (w, y). if \<not> ex w then a else f a (w, y)) a xs"
  by (induction xs arbitrary: a) auto

lemma ReleaseUncreated_exact:
  fixes created :: "(string, int) gomap"
  assumes "good v"
  defines "w \<equiv> ReleaseUncreated v created"
  shows "good w \<and> vSlots w = vSlots v \<and> vOwner w = vOwner v \<and> (\<forall>P i. charged P w i = charged (\<lambda>x. P x \<and> \<not> releases created x) v i)"
proof (cases "created = []")
  case True
  have "\<not> releases [] x" for x by (auto simp: releases_def split: option.splits)
  then show ?thesis using assms(1) True by (simp add: w_def ReleaseUncreated_def)
next
  case False
  let ?ex = "releases created"
  let ?step = "\<lambda>debit (owner, perNode). if \<not> ?ex owner then debit else foldl takeBack debit perNode"
  obtain owned where o: "vOwned v = Some owned" "entries_ok owned" "\<And>i. charges (\<lambda>_. True) owned i = debited v i"
    using assms(1) by (auto simp: good_def owners_ok_def)
  have v: "view_ok v" "gomap_ok (vDebit v)" "gomap_ok (vDomains v)" using assms(1) by (simp_all add: good_def view_ok_def)
  have w: "vDebit w = foldl ?step (vDebit v) owned" "vOwned w = Some (filter (\<lambda>(x, _). \<not> ?ex x) owned)" "vSlots w = vSlots v" "vOwner w = vOwner v"
    "\<exists>Q. vDomains w = filter Q (vDomains v)"
    using False o(1) by (auto simp: w_def ReleaseUncreated_def foldl_filter intro!: arg_cong2 [where f = "\<lambda>f. foldl f (vDebit v)"])
  have "list_all (\<lambda>(_, pn). gomap_ok pn \<and> list_all (\<lambda>(_, g). 0 \<le> g) pn) owned" using o(2) by (simp add: entries_ok_def)
  from without_fold [OF this v(2), of ?ex] view_ok_debited [OF v(1)]
  have f: "gomap_ok (vDebit w)" "set (mkeys (vDebit w)) \<subseteq> set (mkeys (vDebit v))"
    "\<And>i. debited w i = max 0 (debited v i - charges ?ex owned i)" unfolding w(1) [symmetric] by (simp_all add: debited_def)
  have c: "charged P w i = charged (\<lambda>x. P x \<and> \<not> ?ex x) v i" for P i by (simp add: charged_def w(2) o(1) charges_filter)
  have deb: "debited w i = charges (\<lambda>x. \<not> ?ex x) owned i" for i
    using f(3) [of i] o(3) [of i] charges_split [of owned i ?ex] charges_nonneg [OF o(2), of "\<lambda>x. \<not> ?ex x" i] by simp
  have "0 \<le> debited w i \<and> debited w i \<le> max 0 (spare w i)" for i
    using f(3) [of i] view_ok_debited [OF v(1), of i] charges_nonneg [OF o(2), of ?ex i] slot_cong(2) [OF w(3)] by (simp add: max_def split: if_splits)
  then have "view_ok w" using f(1,2) v(1) w(3) unfolding view_ok_iff by (auto simp: subset_iff)
  moreover have "owners_ok w" using entries_ok_filter [OF o(2)] deb by (simp add: owners_ok_def w(2) charges_filter)
  moreover have "gomap_ok (vDomains w)" using w(5) v(3) by (auto simp: gomap_ok_def mkeys_def distinct_map intro: inj_on_subset)
  ultimately show ?thesis using w c by (simp add: good_def)
qed

lemma ReleaseUncreated_less:
  assumes "good v"
  shows "debited (ReleaseUncreated v created) i \<le> debited v i"
proof -
  note r = ReleaseUncreated_exact [OF assms, of created]
  have "owners_ok (ReleaseUncreated v created)" and "vOwned (ReleaseUncreated v created) \<noteq> None" using r by (simp_all add: good_def)
  then have "debited (ReleaseUncreated v created) i = charged (\<lambda>_. True) (ReleaseUncreated v created) i" unfolding owners_ok_iff by simp
  also have "\<dots> = charged (\<lambda>x. \<not> releases created x) v i" using r by simp
  moreover have "0 \<le> charged P v i" for P using assms charges_nonneg by (auto simp: good_def owners_ok_iff charged_def split: option.splits)
  ultimately show ?thesis using charged_split [of v i "releases created"] assms by (simp add: good_def)
qed

lemma released_replica:
  assumes "good v" and "CHR 0x00 \<notin> set k \<and> 0 \<le> n \<and> n \<le> max_int"
  shows "charged (\<lambda>x. x = inFlightReplicaOwner k n) (ReleaseUncreated v created) i =
    (if \<exists>have. map_of created k = Some have \<and> have < n then 0 else charged (\<lambda>x. x = inFlightReplicaOwner k n) v i)"
proof -
  have "(\<lambda>x. x = inFlightReplicaOwner k n \<and> \<not> releases created x) =
      (if \<exists>have. map_of created k = Some have \<and> have < n then \<lambda>_. False else (\<lambda>x. x = inFlightReplicaOwner k n))"
    using releases_owner [of k n created] assms(2) by (auto simp: fun_eq_iff)
  moreover have "charged (\<lambda>x. x = inFlightReplicaOwner k n) (ReleaseUncreated v created) i =
      charged (\<lambda>x. x = inFlightReplicaOwner k n \<and> \<not> releases created x) v i" using ReleaseUncreated_exact [OF assms(1), of created] by simp
  moreover have "charged (\<lambda>_. False) v i = 0" by (simp add: charged_def charges_def case_prod_unfold)
  ultimately show ?thesis by (simp only: if_distrib [of "\<lambda>P. charged P v i"])
qed

lemma NodeViewFor_view:
  assumes "NodeViewFor tol observed constraints store now l = ((Some h, skipped), l')"
  obtains snap takenAt v where "Nodes_Read NodeGPUsMaxAge now store = Some (snap, takenAt)" and "newNodeViewAt (Some snap) takenAt = Some v"
    and "holdOn tol observed now l v = (l', h)"
  using assms by (auto simp: NodeViewFor_def split: if_splits option.splits prod.splits)

text \<open>
  C20. The holes held for replicas in flight: on the view a decision is judged on, and after the holes
  of the replicas not created yet are given back, no node holds more than its snapshot left free, and
  everything debited is charged to an owner of the ledger's own. Of the replicas of a variant that
  \<open>created\<close> names, those numbered above the count are charged nothing any more; every other
  replica keeps exactly what it was charged.
\<close>

theorem in_flight_holes:
  fixes created :: "(string, int) gomap"
  assumes "NodeViewFor tol observed constraints store now l = ((Some h, skipped), l')"
  defines "w \<equiv> ReleaseUncreated h created"
  shows "(\<exists>snap takenAt v. Nodes_Read NodeGPUsMaxAge now store = Some (snap, takenAt) \<and> newNodeViewAt (Some snap) takenAt = Some v \<and>
      vSlots w = vSlots v \<and> (\<forall>i. 0 \<le> debited w i \<and> debited w i \<le> max 0 (spare v i) \<and> debited w i \<le> debited h i)) \<and>
    (\<forall>i. debited w i = charged heldOwner w i) \<and>
    (\<forall>k n i. CHR 0x00 \<notin> set k \<and> 0 \<le> n \<and> n \<le> max_int \<longrightarrow>
      charged (\<lambda>x. x = inFlightReplicaOwner k n) w i =
        (if \<exists>have. map_of created k = Some have \<and> have < n then 0 else charged (\<lambda>x. x = inFlightReplicaOwner k n) h i))"
proof -
  obtain snap takenAt v where v: "Nodes_Read NodeGPUsMaxAge now store = Some (snap, takenAt)" "newNodeViewAt (Some snap) takenAt = Some v"
    "holdOn tol observed now l v = (l', h)" by (rule NodeViewFor_view [OF assms(1)])
  have gv: "good v" using newNodeViewAt_good [OF v(2)] by simp
  have h: "good h" "extends v h" "\<And>i. charged (\<lambda>x. \<not> heldOwner x) h i = charged (\<lambda>x. \<not> heldOwner x) v i"
    using holdOn_held [OF gv v(3)] by (simp_all add: held_for_def)
  note r = ReleaseUncreated_exact [OF h(1), of created, folded w_def]
  have none: "charged P v i = 0" for P i using v(2) by (auto simp: newNodeViewAt_def charged_def charges_def)
  have own: "debited u i = charged heldOwner u i + charged (\<lambda>x. \<not> heldOwner x) u i" if "good u" for u i
    using that by (intro charged_split) (simp_all add: good_def)
  have "(\<lambda>x. \<not> heldOwner x \<and> \<not> releases created x) = (\<lambda>x. \<not> heldOwner x)" using releases_held by auto
  then have out: "charged (\<lambda>x. \<not> heldOwner x) w i = 0" for i using r h(3) [of i] none by simp
  have le: "debited w i \<le> debited h i" for i using ReleaseUncreated_less [OF h(1), of created i] by (simp add: w_def)
  have "0 \<le> debited w i \<and> debited w i \<le> max 0 (spare v i)" for i
    using r view_ok_debited [of w i] slot_cong(2) [of w v] extendsD(1) [OF h(2)] by (simp add: good_def)
  then have "\<exists>snap takenAt v. Nodes_Read NodeGPUsMaxAge now store = Some (snap, takenAt) \<and> newNodeViewAt (Some snap) takenAt = Some v \<and>
      vSlots w = vSlots v \<and> (\<forall>i. 0 \<le> debited w i \<and> debited w i \<le> max 0 (spare v i) \<and> debited w i \<le> debited h i)"
    using v(1,2) r extendsD(1) [OF h(2)] le by (intro exI [of _ snap] exI [of _ takenAt] exI [of _ v]) simp
  moreover have "debited w i = charged heldOwner w i" for i using own [of w i] out [of i] r by simp
  moreover note released_replica [OF h(1), of _ _ created, folded w_def]
  ultimately show ?thesis by blast
qed


definition exBounds :: "resourceConstraints option list" where
  "exBounds = [Some \<lparr>ProviderName = PhysicalLimiterName, Pools = [], NamespacePools = None, NamespaceScoped = False, TotalLimit = 0, TotalUsed = 0,
     TotalAvail = 0, rcPoolsVersion = 0\<rparr>]"

definition exHeldLedger :: ledger where
  "exHeldLedger = admitLocked ((exAdmission ''ns/v'' 4)\<lparr>iaShape := exShape\<lparr>rsPodGPUs := [4], rsGPUs := 4, rsDomainKey := []\<rparr>\<rparr>) 10 True NewInFlightLedger"

definition exHeld :: "(nodeView option \<times> bool) \<times> ledger" where
  "exHeld = NodeViewFor exTolerates (\<lambda>_. None) exBounds (Nodes_Publish (Some exSnap) 20 \<lparr>sNodes = None, sAt = 0\<rparr>) 30 exHeldLedger"

theorem in_flight_holes_witness:
  "\<exists>h l'. exHeld = ((Some h, False), l') \<and> map (debited h) [0, 1, 2] = [4, 8, 0] \<and>
    (let w = ReleaseUncreated h [(''ns/v'', 2)]
     in map (debited w) [0, 1, 2] = [4, 0, 0] \<and> debited w 0 = charged heldOwner w 0 \<and>
        charged (\<lambda>x. x = inFlightReplicaOwner ''ns/v'' 3) w 1 = 0)"
proof -
  obtain h l' where h: "exHeld = ((Some h, False), l')" and d: "map (debited h) [0, 1, 2] = [4, 8, 0]"
    and w: "map (debited (ReleaseUncreated h [(''ns/v'', 2)])) [0, 1, 2] = [4, 0, 0]"
  proof -
    let ?h = "the (fst (fst exHeld))"
    have "fst (fst exHeld) \<noteq> None \<and> \<not> snd (fst exHeld)" by code_simp
    then have e: "exHeld = ((Some ?h, False), snd exHeld)" by (simp add: prod_eq_iff)
    have "map (debited ?h) [0, 1, 2] = [4, 8, 0]" by code_simp
    moreover have "map (debited (ReleaseUncreated ?h [(''ns/v'', 2)])) [0, 1, 2] = [4, 0, 0]" by code_simp
    ultimately show thesis by (rule that [OF e])
  qed
  have "CHR 0x00 \<notin> set ''ns/v'' \<and> 0 \<le> (3::int) \<and> 3 \<le> max_int" by code_simp
  then show ?thesis using in_flight_holes [OF h [unfolded exHeld_def], of "[(''ns/v'', 2)]"] h d w
    by (intro exI [of _ h] exI [of _ l']) (simp add: Let_def)
qed

end
