(* ===== verification/InFlightKeep.thy ===== *)
theory InFlightKeep
  imports InFlightView
begin

text \<open>
  The well-formedness every operation of the in-flight ledger keeps, and what a restart of the
  controller does to the holds: written out and read back, they take the same holes on every node
  view taken from then on.
\<close>

subsection \<open>Well-formed ledgers\<close>

text \<open>
  A hold is never shorter than \<open>InFlightTTL\<close>, never ends later than a TTL from now, and remembers
  higher and higher counts, seen in the past. Each placed pod of a partial group has a time it was
  seen at, so \<open>holdPartial\<close> never reads one that is not there.
\<close>

definition partial_ok :: "gotime \<Rightarrow> partialSeen \<Rightarrow> bool" where
  "partial_ok now p \<longleftrightarrow> length (psAt p) = length (prPlacedGPUs (psReplica p)) \<and> list_all (\<lambda>t. t \<le> now) (psAt p)"

definition entry_ok :: "gotime \<Rightarrow> inFlightEntry \<Rightarrow> bool" where
  "entry_ok now e \<longleftrightarrow> InFlightTTL \<le> ieTTL e \<and> ieExpires e \<le> now + ieTTL e \<and> 0 \<le> ieBase e \<and>
     sorted_wrt (<) (map fst (ieSeen e)) \<and> list_all (\<lambda>(_, t). t \<le> now) (ieSeen e) \<and> list_all (partial_ok now) (iePartial e)"

definition ledger_ok :: "gotime \<Rightarrow> ledger \<Rightarrow> bool" where
  "ledger_ok now l \<longleftrightarrow> gomap_ok (lEntries l) \<and> gomap_ok (lSighted l) \<and> gomap_ok (lRestored l) \<and>
     list_all (\<lambda>(_, e). entry_ok now e) (lEntries l) \<and> list_all (\<lambda>(_, t). t \<le> now) (lSighted l)"

definition mark_ok :: "gotime \<Rightarrow> inFlightMark \<Rightarrow> bool" where
  "mark_ok now mark \<longleftrightarrow> list_all (\<lambda>(_, prev). case prev of None \<Rightarrow> True | Some e \<Rightarrow> entry_ok now e) mark"

lemma list_all_mdel: "list_all P m \<Longrightarrow> list_all P (mdel k m)"
  by (auto simp: mdel_def list_all_iff AList.delete_eq)

lemma list_all_get: "list_all (\<lambda>(_, e). P e) m \<Longrightarrow> map_of m k = Some e \<Longrightarrow> P e"
  by (auto simp: list_all_iff dest!: map_of_SomeD)

lemma entry_ok_later: "entry_ok now e \<Longrightarrow> now \<le> later \<Longrightarrow> entry_ok later e"
  by (fastforce simp: entry_ok_def partial_ok_def list_all_iff)

lemma ledger_ok_later: "ledger_ok now l \<Longrightarrow> now \<le> later \<Longrightarrow> ledger_ok later l"
  by (fastforce simp: ledger_ok_def list_all_iff intro: entry_ok_later)

lemma mark_ok_later: "mark_ok now mark \<Longrightarrow> now \<le> later \<Longrightarrow> mark_ok later mark"
  by (fastforce simp: mark_ok_def list_all_iff intro: entry_ok_later split: option.splits)

lemma ledger_ok_put: "ledger_ok now l \<Longrightarrow> entry_ok now e \<Longrightarrow> ledger_ok now (l\<lparr>lEntries := mput k e (lEntries l)\<rparr>)"
  by (simp add: ledger_ok_def gomap_ok_mput list_all_mput)

lemma ledger_ok_del: "ledger_ok now l \<Longrightarrow> ledger_ok now (l\<lparr>lEntries := mdel k (lEntries l)\<rparr>)"
  by (simp add: ledger_ok_def gomap_ok_mdel list_all_mdel)

lemma ledger_ok_sight: "ledger_ok now l \<Longrightarrow> ledger_ok now (l\<lparr>lSighted := mput k now (lSighted l), lRestored := mdel k (lRestored l)\<rparr>)"
  by (simp add: ledger_ok_def gomap_ok_mput gomap_ok_mdel list_all_mput)

lemma ledger_ok_get: "ledger_ok now l \<Longrightarrow> map_of (lEntries l) k = Some e \<Longrightarrow> entry_ok now e"
  by (auto simp: ledger_ok_def intro: list_all_get)

lemma updateEntry_ok: "entry_ok now e \<Longrightarrow> 0 \<le> iaPlacedNow a \<Longrightarrow> entry_ok now (updateEntry a now e)"
  by (auto simp: entry_ok_def updateEntry_def Let_def)

lemma newEntry_ok: "0 \<le> iaPlacedNow a \<Longrightarrow> entry_ok now (newEntry a now)"
  by (simp add: entry_ok_def newEntry_def Let_def)

lemma admitLocked_ok:
  assumes "ledger_ok now l" and "0 \<le> iaPlacedNow a"
  shows "ledger_ok now (admitLocked a now sight l)"
proof -
  define m where "m = (if sight then l\<lparr>lSighted := mput (iaKey a) now (lSighted l), lRestored := mdel (iaKey a) (lRestored l)\<rparr> else l)"
  have m: "ledger_ok now m" using assms(1) ledger_ok_sight by (simp add: m_def)
  show ?thesis unfolding admitLocked_def Let_def m_def [symmetric]
    using m ledger_ok_del [OF m] ledger_ok_put [OF m newEntry_ok [OF assms(2)]] ledger_ok_put [OF m updateEntry_ok [OF ledger_ok_get [OF m] assms(2)]]
    by (auto split: option.split)
qed

lemma admitAll_ok: "ledger_ok now l \<Longrightarrow> list_all (\<lambda>a. 0 \<le> iaPlacedNow a) adms \<Longrightarrow> ledger_ok now (admitAll adms now sight l)"
  unfolding admitAll_def by (induction adms arbitrary: l) (simp_all add: admitLocked_ok)

lemma markOf_ok:
  assumes "ledger_ok now l"
  shows "mark_ok now (markOf adms l)"
proof -
  note m = markOf_get [of adms l]
  have "case prev of None \<Rightarrow> True | Some e \<Rightarrow> entry_ok now e" if "(k, prev) \<in> set (markOf adms l)" for k prev
  proof -
    have "map_of (markOf adms l) k = Some prev" using conjunct1 [OF m] that unfolding gomap_ok_def mkeys_def by (rule map_of_is_SomeI)
    then have "prev = map_of (lEntries l) k" using m by (simp split: if_splits)
    then show ?thesis using ledger_ok_get [OF assms] by (simp split: option.split)
  qed
  then show ?thesis by (auto simp: mark_ok_def list_all_iff)
qed

lemma setBack_ok:
  "ledger_ok now l \<Longrightarrow> mark_ok now mark \<Longrightarrow> ledger_ok now (l\<lparr>lEntries := setBack mark (lEntries l)\<rparr>)"
  unfolding setBack_def
proof (induction mark arbitrary: l)
  case (Cons kp mark)
  obtain k prev where kp: "kp = (k, prev)" by (cases kp)
  let ?l = "l\<lparr>lEntries := (case prev of None \<Rightarrow> mdel k (lEntries l) | Some e \<Rightarrow> mput k e (lEntries l))\<rparr>"
  have "ledger_ok now ?l" using Cons.prems ledger_ok_del ledger_ok_put by (auto simp: kp mark_ok_def split: option.split)
  then show ?case using Cons.IH [of ?l] Cons.prems(2) by (simp add: kp mark_ok_def)
qed simp

lemma Commit_ok:
  assumes "ledger_ok now l" and "mark_ok now mark" and "list_all (\<lambda>a. 0 \<le> iaPlacedNow a) adms"
  shows "ledger_ok now (Commit mark adms now l)"
proof -
  let ?l = "l\<lparr>lEntries := setBack mark (lEntries l)\<rparr>"
  have "ledger_ok now (?l\<lparr>lSighted := filter P (lSighted ?l)\<rparr>)" for P
    using setBack_ok [OF assms(1,2)] by (auto simp: ledger_ok_def gomap_ok_def mkeys_def list_all_iff distinct_map intro: inj_on_subset)
  then show ?thesis unfolding Commit_def using admitAll_ok [OF _ assms(3)] by simp
qed


lemma takeGroup_ok:
  "list_all (partial_ok now) old \<Longrightarrow> takeGroup node old = (known, rest) \<Longrightarrow> list_all (\<lambda>(_, t). t \<le> now) known \<and> list_all (partial_ok now) rest"
proof (induction old arbitrary: known rest)
  case (Cons s old)
  obtain g r where gr: "takeGroup node old = (g, r)" by (cases "takeGroup node old")
  have s: "partial_ok now s" "list_all (partial_ok now) old" using Cons.prems(1) by simp_all
  then have "list_all (\<lambda>(_, t). t \<le> now) (zip gs (psAt s))" for gs by (auto simp: partial_ok_def list_all_iff dest: set_zip_rightD)
  then show ?case using Cons.IH [OF s(2) gr] Cons.prems(2) s gr by (auto split: if_splits)
qed simp

lemma seenTimes_ok:
  "list_all (\<lambda>(_, t). t \<le> now) known \<Longrightarrow> length (seenTimes now known gs) = length gs \<and> list_all (\<lambda>t. t \<le> now) (seenTimes now known gs)"
proof (induction gs arbitrary: known)
  case (Cons g gs)
  show ?case
  proof (cases "List.extract (\<lambda>(g', _). g' = g) known")
    case None
    then show ?thesis using Cons.IH [OF Cons.prems] by simp
  next
    case (Some x)
    obtain before g' t after where x: "x = (before, (g', t), after)" by (cases x) auto
    then have "known = before @ (g', t) # after" using extract_SomeE [OF Some [unfolded x]] by simp
    then show ?thesis using Cons.prems Cons.IH [of "before @ after"] Some x by simp
  qed
qed simp

lemma mergeGroups_ok: "list_all (partial_ok now) old \<Longrightarrow> list_all (partial_ok now) (mergeGroups now old cur)"
proof (induction cur arbitrary: old)
  case (Cons c cur)
  obtain known rest where t: "takeGroup (prNode c) old = (known, rest)" by (cases "takeGroup (prNode c) old")
  note ok = takeGroup_ok [OF Cons.prems t]
  have "partial_ok now \<lparr>psReplica = c, psAt = seenTimes now known (prPlacedGPUs c)\<rparr>"
    using ok seenTimes_ok [of now known "prPlacedGPUs c"] by (simp add: partial_ok_def)
  then show ?case using Cons.IH [of rest] ok t by simp
qed simp

lemma settleEntry_ok:
  assumes "entry_ok now e" and "settleEntry now observed e = Some e'"
  shows "entry_ok now e'"
proof (cases observed)
  case None
  then show ?thesis using assms by (auto simp: settleEntry_def split: if_splits)
next
  case (Some p)
  let ?n = "plWhole p"
  define seen where "seen = (if ieBase e < ?n \<and> (ieSeen e = [] \<or> fst (last (ieSeen e)) < ?n) then ieSeen e @ [(?n, now)] else ieSeen e)"
  have e': "e' = e\<lparr>ieSeen := seen, iePartial := mergePartial (iePartial e) (plPartial p) now\<rparr>"
    using assms(2) Some by (auto simp: settleEntry_def Let_def seen_def split: if_splits)
  have so: "sorted_wrt (<) (map fst (ieSeen e))" "list_all (\<lambda>(_, t). t \<le> now) (ieSeen e)" using assms(1) by (simp_all add: entry_ok_def)
  have "x \<le> fst (last (ieSeen e))" if "x \<in> fst ` set (ieSeen e)" for x
    using so(1) that by (cases "ieSeen e" rule: rev_cases) (auto simp: sorted_wrt_append less_imp_le)
  then have "sorted_wrt (<) (map fst seen)" "list_all (\<lambda>(_, t). t \<le> now) seen"
    using so unfolding seen_def by (force simp: sorted_wrt_append)+
  then show ?thesis using assms(1) mergeGroups_ok [of now "iePartial e" "plPartial p"] by (simp add: e' entry_ok_def mergePartial_def)
qed

lemma settleKeys_ok:
  "ledger_ok now l \<Longrightarrow> ledger_ok now (settleKeys keys observed now l)"
  unfolding settleKeys_def
proof (induction keys arbitrary: l)
  case (Cons k keys)
  let ?es = "case map_of (lEntries l) k of None \<Rightarrow> lEntries l
    | Some e \<Rightarrow> (case settleEntry now (observed k) e of None \<Rightarrow> mdel k (lEntries l) | Some e' \<Rightarrow> mput k e' (lEntries l))"
  have "ledger_ok now (l\<lparr>lEntries := ?es\<rparr>)"
  proof (cases "map_of (lEntries l) k")
    case None
    then show ?thesis using Cons.prems by simp
  next
    case (Some e)
    note e = settleEntry_ok [OF ledger_ok_get [OF Cons.prems Some], of "observed k"]
    show ?thesis using Some Cons.prems ledger_ok_del [OF Cons.prems] ledger_ok_put [OF Cons.prems e] by (simp split: option.split)
  qed
  then show ?case using Cons.IH [of "l\<lparr>lEntries := ?es\<rparr>"] by simp
qed simp


lemma restoreEntry_ok:
  assumes "persistedEntryOK k pe" and "zeroTime \<le> now" and "limit = godiv (max maxTTL InFlightTTL) second"
  shows "entry_ok now (restoreEntry zeroTime now limit k pe)"
proof -
  have q: "300 \<le> limit" unfolding assms(3) second_def InFlightTTL_def by (simp add: godiv_pos zdiv_mono1 [of 300000000000 _ 1000000000, simplified])
  have "godiv InFlightTTL second = 300" by code_simp
  then have "300 \<le> peTTLSeconds pe" "0 \<le> pePlaced pe" using assms(1) by (simp_all add: persistedEntryOK_def split: if_splits)
  moreover have "InFlightTTL = 300 * second" by code_simp
  ultimately show ?thesis using q assms(2)
    by (auto simp: entry_ok_def restoreEntry_def Let_def partial_ok_def list_all_iff second_def min_def)
qed

lemma RestoreInFlight_ok:
  assumes "ledger_ok now l" and "zeroTime \<le> now" and "RestoreInFlight zeroTime p now maxTTL l = (counts, l')"
  shows "ledger_ok now l'"
proof -
  define limit where "limit = godiv (max maxTTL InFlightTTL) second"
  define step where "step = (\<lambda>(restored :: nat, l :: ledger) (k, pe).
    if map_of (lEntries l) k \<noteq> None then (restored, l)
    else (Suc restored, l\<lparr>lEntries := mput k (restoreEntry zeroTime now limit k pe) (lEntries l), lRestored := mput k True (lRestored l)\<rparr>))"
  define ok where "ok = take maxInFlightPersisted (stable_sort lastsLonger (filter (\<lambda>(k, pe). persistedEntryOK k pe \<and> now < peExpires pe) (piEntries p)))"
  have "ledger_ok now (snd (foldl step (n, l) xs))" if "list_all (\<lambda>(k, pe). persistedEntryOK k pe) xs" for n xs
    using assms(1) that
  proof (induction xs arbitrary: n l)
    case (Cons x xs)
    obtain k pe where x: "x = (k, pe)" by (cases x)
    have "entry_ok now (restoreEntry zeroTime now limit k pe)" using restoreEntry_ok [OF _ assms(2) limit_def] Cons.prems(2) x by simp
    then have "ledger_ok now (snd (step (n, l) x))" using Cons.prems(1) by (simp add: step_def x ledger_ok_def gomap_ok_mput list_all_mput)
    then show ?case using Cons.IH [of "snd (step (n, l) x)" "fst (step (n, l) x)"] Cons.prems(2) by simp
  qed simp
  moreover have "list_all (\<lambda>(k, pe). persistedEntryOK k pe) ok" by (auto simp: ok_def list_all_iff dest!: in_set_takeD)
  moreover have "l' = snd (foldl step (0, l) ok)"
    using assms(3) unfolding RestoreInFlight_def Let_def limit_def [symmetric] ok_def [symmetric] step_def [symmetric] by (auto split: prod.splits)
  ultimately show ?thesis by simp
qed

lemma DropRestoredExcept_ok:
  assumes "ledger_ok now l"
  shows "ledger_ok now (DropRestoredExcept named l)"
proof -
  have "ledger_ok now (l\<lparr>lEntries := foldl (\<lambda>entries k. if mget False named k then entries else mdel k entries) (lEntries l) ks\<rparr>)" for ks
    using assms
  proof (induction ks arbitrary: l)
    case (Cons k ks)
    have "ledger_ok now (l\<lparr>lEntries := (if mget False named k then lEntries l else mdel k (lEntries l))\<rparr>)"
      using Cons.prems ledger_ok_del [OF Cons.prems] by simp
    from Cons.IH [OF this] show ?case by simp
  qed simp
  then show ?thesis by (simp add: DropRestoredExcept_def ledger_ok_def)
qed


text \<open>
  What can happen to the ledger, in any order: time passes; a wake or a cycle admits; a pass admits
  provisionally and is committed; an entry is forgotten; counts made without the lock are recorded, of
  whatever keys were there when counting began; a persisted ledger, edited by anyone, is restored; and
  restored entries are dropped. The state carries the time and the mark of the last provisional pass.
\<close>

inductive ledgerStep :: "gotime \<Rightarrow> gotime \<times> inFlightMark \<times> ledger \<Rightarrow> gotime \<times> inFlightMark \<times> ledger \<Rightarrow> bool" for zeroTime where
  Waits: "now \<le> later \<Longrightarrow> ledgerStep zeroTime (now, mark, l) (later, mark, l)"
| Admits: "0 \<le> placedNow \<Longrightarrow> ledgerStep zeroTime (now, mark, l) (now, mark, Admit key shape want placedNow now l)"
| Provisionally: "list_all (\<lambda>a. 0 \<le> iaPlacedNow a) adms \<Longrightarrow> Provisional adms now l = (mark', l') \<Longrightarrow>
    ledgerStep zeroTime (now, mark, l) (now, mark', l')"
| Commits: "list_all (\<lambda>a. 0 \<le> iaPlacedNow a) adms \<Longrightarrow> ledgerStep zeroTime (now, mark, l) (now, [], Commit mark adms now l)"
| Forgets: "ledgerStep zeroTime (now, mark, l) (now, mark, Forget key l)"
| Settles: "ledgerStep zeroTime (now, mark, l) (now, mark, settleKeys keys observed now l)"
| Restores: "RestoreInFlight zeroTime p now maxTTL l = (counts, l') \<Longrightarrow> ledgerStep zeroTime (now, mark, l) (now, mark, l')"
| Drops: "ledgerStep zeroTime (now, mark, l) (now, mark, DropRestoredExcept named l)"

lemma ledgerStep_ok:
  assumes "ledgerStep zeroTime s s'"
  shows "zeroTime \<le> fst s \<and> ledger_ok (fst s) (snd (snd s)) \<and> mark_ok (fst s) (fst (snd s)) \<Longrightarrow>
    zeroTime \<le> fst s' \<and> ledger_ok (fst s') (snd (snd s')) \<and> mark_ok (fst s') (fst (snd s')) \<and> fst s \<le> fst s'"
  using assms
proof cases
  case (Waits now later mark l)
  then show "zeroTime \<le> fst s \<and> ledger_ok (fst s) (snd (snd s)) \<and> mark_ok (fst s) (fst (snd s)) \<Longrightarrow> ?thesis"
    using ledger_ok_later mark_ok_later by auto
next
  case (Provisionally adms now l mark' l' mark)
  then have l': "l' = admitAll adms now False l" "mark' = markOf adms l" by (simp_all add: Provisional_def)
  show "zeroTime \<le> fst s \<and> ledger_ok (fst s) (snd (snd s)) \<and> mark_ok (fst s) (fst (snd s)) \<Longrightarrow> ?thesis"
    using admitAll_ok markOf_ok Provisionally by (simp add: l')
qed (auto simp: Admit_def Forget_def mark_ok_def intro: admitLocked_ok ledger_ok_del settleKeys_ok DropRestoredExcept_ok RestoreInFlight_ok Commit_ok)

text \<open>
  C21. The ledger stays well-formed: whatever happens to it after it is made, in whatever order, its
  maps have no key twice, no hold is shorter than \<open>InFlightTTL\<close> or ends more than its TTL from
  now, the counts remembered rise and were seen in the past, and every placed pod of a partial group
  has a time. A restored ledger is no exception, whoever edited it.
\<close>

theorem ledger_stays_well_formed:
  assumes "(ledgerStep zeroTime)\<^sup>*\<^sup>* (start, [], NewInFlightLedger) (now, mark, l)" and "zeroTime \<le> start"
  shows "ledger_ok now l \<and> mark_ok now mark \<and> start \<le> now"
proof -
  have "zeroTime \<le> fst s \<and> ledger_ok (fst s) (snd (snd s)) \<and> mark_ok (fst s) (fst (snd s)) \<and> start \<le> fst s"
    if "(ledgerStep zeroTime)\<^sup>*\<^sup>* (start, [], NewInFlightLedger) s" for s
    using that
  proof induction
    case base
    then show ?case using assms(2) by (simp add: ledger_ok_def NewInFlightLedger_def mark_ok_def gomap_ok_def mkeys_def)
  next
    case (step s s')
    then show ?case using ledgerStep_ok [OF step.hyps(2)] by simp
  qed
  from this [OF assms(1)] show ?thesis by simp
qed


text \<open>An example: two replicas of two pods each, of which one pod each was seen on a node.\<close>

definition exObserved :: "string \<Rightarrow> placed_count option" where
  "exObserved k = Some \<lparr>plWhole = 0, plPartial = [\<lparr>prNode = ''n2'', prPlacedGPUs = [8]\<rparr>, \<lparr>prNode = ''n3'', prPlacedGPUs = [8]\<rparr>]\<rparr>"

definition exPartialLedger :: ledger where
  "exPartialLedger = settleKeys [''ns/v''] exObserved 20 (Admit ''ns/v'' exShape 2 0 10 NewInFlightLedger)"

lemma exPartialLedger_reached: "(ledgerStep 0)\<^sup>*\<^sup>* (10, [], NewInFlightLedger) (20, [], exPartialLedger)"
proof -
  let ?l = "Admit ''ns/v'' exShape 2 0 10 NewInFlightLedger"
  have "ledgerStep 0 (10, [], NewInFlightLedger) (10, [], ?l)" by (rule Admits) simp
  moreover have "ledgerStep 0 (10, [], ?l) (20, [], ?l)" by (rule Waits) simp
  moreover have "ledgerStep 0 (20, [], ?l) (20, [], exPartialLedger)" unfolding exPartialLedger_def by (rule Settles)
  ultimately show ?thesis by (meson converse_rtranclp_into_rtranclp rtranclp.rtrancl_refl)
qed

theorem ledger_stays_well_formed_witness:
  "ledger_ok 20 exPartialLedger \<and> Holds ''ns/v'' 20 exPartialLedger"
proof -
  have "Holds ''ns/v'' 20 exPartialLedger" by code_simp
  then show ?thesis using ledger_stays_well_formed [OF exPartialLedger_reached] by simp
qed

subsection \<open>Holding the same\<close>

text \<open>The time of the snapshot a view shows is never changed.\<close>

lemma chargeAll_takenAt: "vTakenAt (chargeAll taken v) = vTakenAt v"
proof -
  have "vTakenAt (foldl (\<lambda>v i. charge i (t i) v) v ns) = vTakenAt v" for t ns by (induction ns arbitrary: v) (simp_all add: view_simps)
  then show ?thesis by (simp add: chargeAll_def)
qed

lemma placeIn_takenAt: "placeIn v pods key exclusive ds = (ok, v') \<Longrightarrow> vTakenAt v' = vTakenAt v"
  by (induction ds) (auto simp: chargeAll_takenAt view_simps takeDomain_def Let_def split: if_splits option.splits)

lemma place_takenAt: "vTakenAt (snd (place tol v r)) = vTakenAt v"
  unfolding place_def Let_def using placeIn_takenAt by (auto simp: prod_eq_iff)

lemma chargePlaced_takenAt: "vTakenAt (foldl (chargePlaced i) v gts) = vTakenAt v"
  by (induction gts arbitrary: v) (auto simp: chargePlaced_def Let_def view_simps split: prod.split)

lemma holdPartial_takenAt: "vTakenAt (holdPartial tol v r p) = vTakenAt v"
  by (simp add: holdPartial_def Let_def chargeAll_takenAt chargePlaced_takenAt view_simps takeDomain_def split: option.split)

lemma holdReplica_takenAt: "vTakenAt (holdReplica tol key r partial landed v n) = vTakenAt v"
  by (simp add: holdReplica_def Let_def holdPartial_takenAt place_takenAt setOwner_def)

lemma holdEntry_takenAt: "vTakenAt (holdEntry tol now v ke) = vTakenAt v"
proof -
  have "vTakenAt (foldl (holdReplica tol key r partial landed) v ns) = vTakenAt v" for key r partial landed ns
    by (induction ns arbitrary: v) (simp_all add: holdReplica_takenAt)
  then show ?thesis by (simp add: holdEntry_def Let_def case_prod_unfold)
qed

end
