(* ===== verification/InFlightRestart.thy ===== *)
theory InFlightRestart
  imports InFlightKeep
begin

text \<open>
  A restart: the ledger written out, read back later into an empty one, and the holes it then holds.
\<close>

subsection \<open>Entries that hold the same\<close>

text \<open>For a view of a snapshot taken at \<open>T\<close> only the times after \<open>T\<close> matter.\<close>

definition same_time :: "gotime \<Rightarrow> gotime \<Rightarrow> gotime \<Rightarrow> bool" where
  "same_time T t u \<longleftrightarrow> t = u \<or> t \<le> T \<and> u \<le> T"

definition same_group :: "gotime \<Rightarrow> partialSeen \<Rightarrow> partialSeen \<Rightarrow> bool" where
  "same_group T p q \<longleftrightarrow> psReplica p = psReplica q \<and> list_all2 (same_time T) (psAt p) (psAt q)"

lemma placedBy_seen:
  assumes "list_all (\<lambda>(_, t). t \<le> T) (ieSeen e)"
  shows "placedBy e T = landedSoFar e"
proof -
  have "foldl (\<lambda>landed (n, t). if t \<le> T then max landed n else landed) b seen = foldl (\<lambda>landed (n, _). max landed n) b seen"
    if "list_all (\<lambda>(_, t). t \<le> T) seen" for b :: int and seen
    using that by (induction seen arbitrary: b) auto
  then show ?thesis using assms by (simp add: placedBy_def landedSoFar_def)
qed

lemma chargePlaced1_takenAt [simp]: "vTakenAt (chargePlaced i v gt) = vTakenAt v"
  using chargePlaced_takenAt [of i v "[gt]"] by simp

lemma chargePlaced_same:
  "list_all2 (same_time (vTakenAt v)) ts us \<Longrightarrow> foldl (chargePlaced i) v (zip gs ts) = foldl (chargePlaced i) v (zip gs us)"
proof (induction gs arbitrary: v ts us)
  case (Cons g gs)
  show ?case
  proof (cases ts)
    case (Cons t ts')
    then obtain u us' where u: "us = u # us'" "same_time (vTakenAt v) t u" "list_all2 (same_time (vTakenAt v)) ts' us'"
      using Cons.prems by (auto simp: list_all2_Cons1)
    have "chargePlaced i v (g, t) = chargePlaced i v (g, u)" using u(2) by (auto simp: chargePlaced_def same_time_def)
    then show ?thesis using Cons.IH [of "chargePlaced i v (g, u)" ts' us'] u \<open>ts = t # ts'\<close> by simp
  qed (use Cons.prems in simp)
qed simp

lemma holdPartial_same:
  assumes "same_group (vTakenAt v) p q"
  shows "holdPartial tol v r p = holdPartial tol v r q"
proof -
  have "foldl (chargePlaced i) v (zip gs (psAt p)) = foldl (chargePlaced i) v (zip gs (psAt q))" for i gs
    using chargePlaced_same assms by (simp add: same_group_def)
  then show ?thesis using assms by (simp add: holdPartial_def same_group_def Let_def cong: option.case_cong)
qed

lemma holdReplica_same:
  assumes "list_all2 (same_group (vTakenAt v)) ps qs" and "landed < n"
  shows "holdReplica tol key r ps landed v n = holdReplica tol key r qs landed v n"
proof -
  let ?i = "nat (n - landed - 1)" and ?w = "setOwner (inFlightReplicaOwner key n) v"
  have "length ps = length qs" using assms(1) by (rule list_all2_lengthD)
  moreover have "holdPartial tol ?w r (ps ! ?i) = holdPartial tol ?w r (qs ! ?i)" if "?i < length ps"
    by (rule holdPartial_same) (use list_all2_nthD [OF assms(1) that] in \<open>simp add: setOwner_def\<close>)
  ultimately show ?thesis using assms(2) by (simp add: holdReplica_def Let_def nat_less_iff)
qed

lemma holdReplicas_same:
  assumes "list_all2 (same_group T) ps qs" and "vTakenAt v = T" and "list_all (\<lambda>n. landed < n) ns"
  shows "foldl (holdReplica tol key r ps landed) v ns = foldl (holdReplica tol key r qs landed) v ns"
  using assms(2,3)
proof (induction ns arbitrary: v)
  case (Cons n ns)
  then show ?case using holdReplica_same [of v ps qs landed n tol key r] assms(1) by (simp add: holdReplica_takenAt)
qed simp

text \<open>Two entries a view of a snapshot taken at \<open>T\<close> cannot tell apart, now or after the next count.\<close>

definition same_entry :: "gotime \<Rightarrow> inFlightEntry \<Rightarrow> inFlightEntry \<Rightarrow> bool" where
  "same_entry T e e' \<longleftrightarrow> placedBy e T = placedBy e' T \<and> landedSoFar e = landedSoFar e' \<and> ieWant e = ieWant e' \<and>
     ieExpires e = ieExpires e' \<and> (\<exists>x. ieShape e' = (ieShape e)\<lparr>rsVariant := x\<rparr>) \<and>
     list_all2 (same_group T) (iePartial e) (iePartial e') \<and>
     sorted_wrt (<) (map fst (ieSeen e)) \<and> sorted_wrt (<) (map fst (ieSeen e'))"

lemma holdEntry_same:
  assumes "same_entry (vTakenAt v) e e'"
  shows "holdEntry tol now v (k, e) = holdEntry tol now v (k, e')"
proof -
  let ?landed = "placedBy e (vTakenAt v)"
  have "fitOf tol v (ieShape e') = fitOf tol v (ieShape e)" using assms by (auto simp: same_entry_def fitOf_def)
  moreover have "list_all (\<lambda>n. ?landed < n) [?landed + 1 .. ieWant e]" by (simp add: list_all_iff)
  moreover have "list_all2 (same_group (vTakenAt v)) (iePartial e) (iePartial e')" using assms by (simp add: same_entry_def)
  note holdReplicas_same [OF this refl]
  ultimately show ?thesis using assms by (simp add: holdEntry_def same_entry_def Let_def)
qed

subsection \<open>Counting keeps them the same\<close>

definition same_pod :: "gotime \<Rightarrow> int \<times> gotime \<Rightarrow> int \<times> gotime \<Rightarrow> bool" where
  "same_pod T a b \<longleftrightarrow> fst a = fst b \<and> same_time T (snd a) (snd b)"

lemma takeGroup_same:
  assumes "list_all2 (same_group T) old old'"
  shows "list_all2 (same_pod T) (fst (takeGroup node old)) (fst (takeGroup node old')) \<and>
    list_all2 (same_group T) (snd (takeGroup node old)) (snd (takeGroup node old'))"
  using assms
proof (induction old old' rule: list_all2_induct)
  case (Cons s old s' old')
  have "list_all2 (same_pod T) (zip gs (psAt s)) (zip gs (psAt s'))" for gs
    using Cons(1) by (auto simp: same_group_def same_pod_def list_all2_conv_all_nth)
  moreover have "psReplica s = psReplica s'" using Cons(1) by (simp add: same_group_def)
  ultimately show ?case using Cons by (simp add: case_prod_unfold Let_def)
qed simp

definition same_extract :: "gotime \<Rightarrow> (int \<times> gotime) list \<times> (int \<times> gotime) \<times> (int \<times> gotime) list
    \<Rightarrow> (int \<times> gotime) list \<times> (int \<times> gotime) \<times> (int \<times> gotime) list \<Rightarrow> bool" where
  "same_extract T z z' \<longleftrightarrow> list_all2 (same_pod T) (fst z) (fst z') \<and> same_pod T (fst (snd z)) (fst (snd z')) \<and>
     list_all2 (same_pod T) (snd (snd z)) (snd (snd z'))"

lemma extract_same:
  assumes "list_all2 (same_pod T) xs ys"
  shows "rel_option (same_extract T) (List.extract (\<lambda>(g', _). g' = g) xs) (List.extract (\<lambda>(g', _). g' = g) ys)"
  using assms
proof (induction xs ys rule: list_all2_induct)
  case (Cons x xs y ys)
  show ?case
  proof (cases "fst x = g")
    case True
    then show ?thesis using Cons by (simp add: extract_Cons_code case_prod_unfold same_pod_def same_extract_def)
  next
    case False
    then have "fst y \<noteq> g" using Cons(1) by (simp add: same_pod_def)
    with False Cons show ?thesis
      by (auto simp: extract_Cons_code case_prod_unfold same_extract_def elim!: option.rel_cases)
  qed
qed (simp add: extract_Nil_code)

lemma seenTimes_same:
  "list_all2 (same_pod T) xs ys \<Longrightarrow> list_all2 (same_time T) (seenTimes now xs gs) (seenTimes now ys gs)"
proof (induction gs arbitrary: xs ys)
  case (Cons g gs)
  from extract_same [OF Cons.prems, of g] show ?case
  proof (cases rule: option.rel_cases)
    case None
    then show ?thesis using Cons.IH [OF Cons.prems] by (simp add: same_time_def)
  next
    case (Some z z')
    have "list_all2 (same_pod T) (fst z @ snd (snd z)) (fst z' @ snd (snd z'))"
      using Some(3) by (simp add: same_extract_def list_all2_appendI)
    from Cons.IH [OF this] show ?thesis
      using Some by (simp add: case_prod_unfold same_extract_def same_pod_def)
  qed
qed simp

lemma mergeGroups_same:
  "list_all2 (same_group T) old old' \<Longrightarrow> list_all2 (same_group T) (mergeGroups now old cur) (mergeGroups now old' cur)"
proof (induction cur arbitrary: old old')
  case (Cons c cur)
  note t = takeGroup_same [OF Cons.prems, of "prNode c"]
  show ?case
    using t Cons.IH [OF conjunct2 [OF t]] seenTimes_same [OF conjunct1 [OF t]]
    by (simp add: case_prod_unfold Let_def same_group_def)
qed simp

lemma landedSoFar_less:
  assumes "sorted_wrt (<) (map fst (ieSeen e))"
  shows "ieBase e < n \<and> (ieSeen e = [] \<or> fst (last (ieSeen e)) < n) \<longleftrightarrow> landedSoFar e < n"
proof -
  have m: "foldl (\<lambda>landed (n, _). max landed n) b seen < n \<longleftrightarrow> b < n \<and> (\<forall>x \<in> fst ` set seen. x < n)" for b and seen :: "(int \<times> gotime) list"
    by (induction seen arbitrary: b) auto
  have "x \<le> fst (last (ieSeen e))" if "x \<in> fst ` set (ieSeen e)" for x
    using assms that by (cases "ieSeen e" rule: rev_cases) (auto simp: sorted_wrt_append less_imp_le)
  then have "(\<forall>x \<in> fst ` set (ieSeen e). x < n) \<longleftrightarrow> ieSeen e = [] \<or> fst (last (ieSeen e)) < n"
    using last_in_set [of "ieSeen e"] by (cases "ieSeen e = []") force+
  then show ?thesis by (simp add: landedSoFar_def m)
qed

definition counted :: "gotime \<Rightarrow> placed_count \<Rightarrow> inFlightEntry \<Rightarrow> inFlightEntry" where
  "counted now p e =
     e\<lparr>ieSeen := (if landedSoFar e < plWhole p then ieSeen e @ [(plWhole p, now)] else ieSeen e),
       iePartial := mergePartial (iePartial e) (plPartial p) now\<rparr>"

lemma settleEntry_counted:
  assumes "sorted_wrt (<) (map fst (ieSeen e))"
  shows "settleEntry now observed e =
    (if max (ieTTL e) InFlightTTL < time_sub now (ieExpires e) then None
     else case observed of None \<Rightarrow> Some e
       | Some p \<Rightarrow> if ieWant e \<le> plWhole p then None else Some (counted now p e))"
  unfolding settleEntry_def counted_def landedSoFar_less [OF assms, symmetric] Let_def ..

lemma counted_figures:
  "placedBy (counted now p e) T =
     (if landedSoFar e < plWhole p \<and> now \<le> T then max (placedBy e T) (plWhole p) else placedBy e T)"
  "landedSoFar (counted now p e) = max (landedSoFar e) (plWhole p)"
  "ieWant (counted now p e) = ieWant e" "ieExpires (counted now p e) = ieExpires e" "ieShape (counted now p e) = ieShape e"
  by (simp_all add: counted_def placedBy_def landedSoFar_def)

lemma counted_sorted:
  assumes "sorted_wrt (<) (map fst (ieSeen e))"
  shows "sorted_wrt (<) (map fst (ieSeen (counted now p e)))"
proof -
  have "x < plWhole p" if "landedSoFar e < plWhole p" "x \<in> fst ` set (ieSeen e)" for x
  proof -
    have "x \<le> fst (last (ieSeen e))"
      using assms that(2) by (cases "ieSeen e" rule: rev_cases) (auto simp: sorted_wrt_append less_imp_le)
    moreover have "ieSeen e \<noteq> []" using that(2) by auto
    ultimately show ?thesis using that(1) landedSoFar_less [OF assms, of "plWhole p"] by simp
  qed
  then show ?thesis using assms by (auto simp: counted_def sorted_wrt_append)
qed

lemma counted_same:
  assumes "same_entry T e e'"
  shows "same_entry T (counted now p e) (counted now p e')"
proof -
  have "list_all2 (same_group T) (iePartial (counted now p e)) (iePartial (counted now p e'))"
    using assms mergeGroups_same by (simp add: same_entry_def counted_def mergePartial_def)
  moreover have "sorted_wrt (<) (map fst (ieSeen (counted now p e)))" "sorted_wrt (<) (map fst (ieSeen (counted now p e')))"
    using assms counted_sorted by (simp_all add: same_entry_def)
  ultimately show ?thesis using assms by (simp add: same_entry_def counted_figures)
qed

text \<open>What an entry holds once it is settled.\<close>

definition settledHold :: "(toleration \<Rightarrow> taint \<Rightarrow> bool) \<Rightarrow> gotime \<Rightarrow> nodeView \<Rightarrow> string \<Rightarrow> inFlightEntry option \<Rightarrow> nodeView" where
  "settledHold tol now v k r = (case r of None \<Rightarrow> v | Some e \<Rightarrow> holdEntry tol now v (k, e))"

lemma settledHold_expired:
  assumes "\<not> now < ieExpires e"
  shows "settledHold tol now v k (settleEntry now observed e) = v"
proof -
  have "ieExpires e' = ieExpires e" if "settleEntry now observed e = Some e'" for e'
    using that by (auto simp: settleEntry_def Let_def split: if_splits option.splits)
  then show ?thesis using assms by (auto simp: settledHold_def holdEntry_def split: option.split)
qed

lemma settledHold_done:
  assumes "sorted_wrt (<) (map fst (ieSeen e))" and "list_all (\<lambda>(_, t). t \<le> vTakenAt v) (ieSeen e)" and "ieWant e \<le> landedSoFar e"
  shows "settledHold tol now v k (settleEntry now observed e) = v"
proof -
  have "ieWant e \<le> placedBy e (vTakenAt v)" using assms(3) placedBy_seen [OF assms(2)] by simp
  then have "holdEntry tol now v (k, e) = v" "holdEntry tol now v (k, counted now p e) = v" for p
    by (auto simp: holdEntry_def Let_def counted_figures)
  then show ?thesis by (simp add: settledHold_def settleEntry_counted [OF assms(1)] split: option.split)
qed

lemma settledHold_same:
  assumes "same_entry (vTakenAt v) e e'"
  shows "settledHold tol now v k (settleEntry now observed e) = settledHold tol now v k (settleEntry now observed e')"
proof (cases "now < ieExpires e")
  case True
  have live: "\<not> max ttl InFlightTTL < time_sub now x" if "now < x" for x ttl :: int
    using that by (auto simp: time_sub_def InFlightTTL_def min_int_def)
  have so: "sorted_wrt (<) (map fst (ieSeen e))" "sorted_wrt (<) (map fst (ieSeen e'))" "ieWant e' = ieWant e" "now < ieExpires e'"
    using assms True by (simp_all add: same_entry_def)
  show ?thesis
    unfolding settleEntry_counted [OF so(1)] settleEntry_counted [OF so(2)] settledHold_def
    using live [OF True, of "ieTTL e"] live [OF so(4), of "ieTTL e'"] so(3) holdEntry_same [OF assms]
      holdEntry_same [OF counted_same [OF assms]]
    by (simp del: max_less_iff_conj split: option.split)
next
  case False
  then have "\<not> now < ieExpires e'" using assms by (simp add: same_entry_def)
  then show ?thesis using False by (simp add: settledHold_expired)
qed

subsection \<open>Ledgers that hold the same\<close>

definition holdKey :: "(toleration \<Rightarrow> taint \<Rightarrow> bool) \<Rightarrow> gotime \<Rightarrow> ledger \<Rightarrow> nodeView \<Rightarrow> string \<Rightarrow> nodeView" where
  "holdKey tol now l v k = (case map_of (lEntries l) k of None \<Rightarrow> v | Some e \<Rightarrow> holdEntry tol now v (k, e))"

lemma holdKey_takenAt: "vTakenAt (holdKey tol now l v k) = vTakenAt v"
  by (simp add: holdKey_def holdEntry_takenAt split: option.split)

lemma holds_by_key:
  assumes "gomap_ok (lEntries l)" and "sorted ks" and "distinct ks" and "set (mkeys (lEntries l)) \<subseteq> set ks"
  shows "foldl (holdEntry tol now) v (entriesInOrder l) = foldl (holdKey tol now l) v ks"
proof -
  let ?K = "set (mkeys (lEntries l))"
  have a: "foldl (holdKey tol now l) v ks = foldl (holdKey tol now l) v (filter (\<lambda>k. k \<in> ?K) ks)" for v ks
  proof (induction ks arbitrary: v)
    case (Cons k ks)
    have "holdKey tol now l v k = v" if "k \<notin> ?K" using that by (simp add: holdKey_def mkeys_def map_of_eq_None_iff [THEN iffD2])
    then show ?case using Cons.IH by simp
  qed simp
  have b: "sort (mkeys (lEntries l)) = filter (\<lambda>k. k \<in> ?K) ks"
    using assms by (intro sorted_distinct_set_unique) (auto simp: gomap_ok_def intro: sorted_wrt_filter)
  have c: "foldl (holdEntry tol now) v (map (\<lambda>k. (k, the (map_of (lEntries l) k))) xs) = foldl (holdKey tol now l) v xs"
    if "set xs \<subseteq> ?K" for xs
    using that
  proof (induction xs arbitrary: v)
    case (Cons k xs)
    then obtain e where "map_of (lEntries l) k = Some e" by (auto simp: mkeys_def dest!: weak_map_of_SomeI)
    then show ?case using Cons by (simp add: holdKey_def)
  qed simp
  show ?thesis unfolding entriesInOrder_def b using c [of "filter (\<lambda>k. k \<in> ?K) ks"] a [of v ks] by auto
qed

lemma holds_same:
  assumes "gomap_ok (lEntries l)" and "gomap_ok (lEntries l')"
    and "\<And>w k. vTakenAt w = vTakenAt v \<Longrightarrow> holdKey tol now l' w k = holdKey tol now l w k"
  shows "foldl (holdEntry tol now) v (entriesInOrder l') = foldl (holdEntry tol now) v (entriesInOrder l)"
proof -
  define ks where "ks = sort (remdups (mkeys (lEntries l) @ mkeys (lEntries l')))"
  have ks: "sorted ks" "distinct ks" "set ks = set (mkeys (lEntries l)) \<union> set (mkeys (lEntries l'))" by (auto simp: ks_def)
  have "foldl (holdKey tol now l') w xs = foldl (holdKey tol now l) w xs" if "vTakenAt w = vTakenAt v" for w xs
    using that by (induction xs arbitrary: w) (simp_all add: assms(3) holdKey_takenAt)
  then show ?thesis using holds_by_key [OF assms(1) ks(1,2), of tol now v] holds_by_key [OF assms(2) ks(1,2), of tol now v] ks(3) by simp
qed


subsection \<open>Writing and reading back\<close>

text \<open>What is live fits the bounds of the persisted ledger: at most so many entries, of so many bytes.\<close>

definition writable :: "(persistedEntry \<Rightarrow> int) \<Rightarrow> gotime \<Rightarrow> ledger \<Rightarrow> bool" where
  "writable rawLen now l \<longleftrightarrow>
     (let es = filter (\<lambda>(_, e). live now e) (lEntries l)
      in length es \<le> maxInFlightPersisted \<and> (\<Sum>(k, e) \<leftarrow> es. int (length k) + rawLen (persistEntry e)) \<le> maxInFlightBytes)"

text \<open>
  The entries reading back refuses: a key with no slash, more replicas or pods than the bounds, a
  negative figure, or more partial groups than replicas still wanted.
\<close>

definition refused :: "string \<Rightarrow> inFlightEntry \<Rightarrow> bool" where
  "refused k e \<longleftrightarrow> CHR ''/'' \<notin> set k \<or> maxLedgerReplicas < ieWant e \<or> rsGPUs (ieShape e) < 0 \<or>
     maxInFlightPods < length (rsPodGPUs (ieShape e)) \<or> ieWant e - landedSoFar e < int (length (iePartial e)) \<or>
     list_ex (\<lambda>p. maxInFlightPods < length (prPlacedGPUs (psReplica p))) (iePartial e)"

definition accepted :: "gotime \<Rightarrow> ledger \<Rightarrow> ledger" where
  "accepted now l = l\<lparr>lEntries := filter (\<lambda>(k, e). \<not> (live now e \<and> refused k e)) (lEntries l)\<rparr>"

lemma base_landed: "ieBase e \<le> landedSoFar e"
proof -
  have "b \<le> foldl (\<lambda>landed (n, _). max landed n) b seen" for b :: int and seen :: "(int \<times> gotime) list"
  proof (induction seen arbitrary: b)
    case (Cons s seen)
    show ?case using order_trans [OF max.cobounded1 [of b "fst s"] Cons.IH [of "max b (fst s)"]] by (simp add: case_prod_unfold)
  qed simp
  then show ?thesis by (simp add: landedSoFar_def)
qed

lemma written_refused:
  assumes "entry_ok now' e" and "live now e"
  shows "persistedEntryOK k (persistEntry e) \<longleftrightarrow> \<not> refused k e"
proof -
  have e: "InFlightTTL \<le> ieTTL e" "0 \<le> ieBase e" using assms(1) by (simp_all add: entry_ok_def)
  have "0 \<le> landedSoFar e" using e(2) base_landed [of e] by simp
  moreover have "godiv InFlightTTL second \<le> godiv (ieTTL e + second - 1) second"
    using e(1) by (simp add: godiv_pos InFlightTTL_def second_def)
  ultimately show ?thesis
    using assms(2) by (auto simp: persistedEntryOK_def refused_def persistEntry_def live_def list_ex_iff)
qed

lemma keepEntries_all:
  assumes "\<And>pe. 0 \<le> rawLen pe"
  shows "kept + length xs \<le> maxInFlightPersisted \<Longrightarrow> bytes + (\<Sum>(k, pe) \<leftarrow> xs. int (length k) + rawLen pe) \<le> maxInFlightBytes \<Longrightarrow>
    keepEntries rawLen kept bytes xs = xs"
proof (induction xs arbitrary: kept bytes)
  case (Cons x xs)
  obtain k pe where x: "x = (k, pe)" by (cases x)
  have "0 \<le> (\<Sum>(k, pe) \<leftarrow> xs. int (length k) + rawLen pe)" using assms by (intro sum_list_nonneg) (auto intro: add_nonneg_nonneg)
  then show ?case using Cons.IH [of "Suc kept" "bytes + int (length k) + rawLen pe"] Cons.prems by (simp add: x Let_def add.assoc)
qed simp

lemma written:
  assumes "writable rawLen now l" and "\<And>pe. 0 \<le> rawLen pe"
  shows "piEntries (MarshalInFlight rawLen now l) =
    stable_sort lastsLonger (map (\<lambda>(k, e). (k, persistEntry e)) (filter (\<lambda>(_, e). live now e) (lEntries l)))"
proof -
  define es where "es = filter (\<lambda>(_, e). live now e) (lEntries l)"
  define xs where "xs = stable_sort lastsLonger (map (\<lambda>(k, e). (k, persistEntry e)) es)"
  have m: "mset xs = mset (map (\<lambda>(k, e). (k, persistEntry e)) es)" by (simp add: xs_def)
  have "length xs = length es" using arg_cong [OF m, of size] by simp
  moreover have "(\<Sum>(k, pe) \<leftarrow> xs. int (length k) + rawLen pe) = (\<Sum>(k, e) \<leftarrow> es. int (length k) + rawLen (persistEntry e))"
    using arg_cong [OF m, of "\<lambda>M. \<Sum>(k, pe) \<in># M. int (length k) + rawLen pe"]
    by (simp flip: sum_mset_sum_list mset_map add: comp_def case_prod_unfold image_mset.compositionality)
  ultimately show ?thesis using keepEntries_all [of rawLen 0 xs 0] assms
    by (simp add: MarshalInFlight_def writable_def Let_def flip: es_def xs_def)
qed

text \<open>Reading entries of different keys into an empty ledger.\<close>

lemma restore_fold:
  fixes zeroTime now limit
  defines "step \<equiv> \<lambda>(restored :: nat, l :: ledger) (k, pe).
    if map_of (lEntries l) k \<noteq> None then (restored, l)
    else (Suc restored, l\<lparr>lEntries := mput k (restoreEntry zeroTime now limit k pe) (lEntries l), lRestored := mput k True (lRestored l)\<rparr>)"
  assumes "distinct (map fst xs)" and "\<And>k. k \<in> fst ` set xs \<Longrightarrow> map_of (lEntries l) k = None"
  shows "fst (foldl step (n, l) xs) = n + length xs \<and>
    (\<forall>k. map_of (lEntries (snd (foldl step (n, l) xs))) k = (case map_of xs k of None \<Rightarrow> map_of (lEntries l) k | Some pe \<Rightarrow> Some (restoreEntry zeroTime now limit k pe)))"
  using assms(2,3)
proof (induction xs arbitrary: n l)
  case (Cons x xs)
  obtain k pe where x: "x = (k, pe)" by (cases x)
  let ?l = "l\<lparr>lEntries := mput k (restoreEntry zeroTime now limit k pe) (lEntries l), lRestored := mput k True (lRestored l)\<rparr>"
  have new: "k \<notin> fst ` set xs" using Cons.prems(1) x by simp
  have s: "step (n, l) x = (Suc n, ?l)" using Cons.prems(2) [of k] by (simp add: step_def x)
  have "map_of (lEntries ?l) k' = None" if "k' \<in> fst ` set xs" for k'
    using Cons.prems(2) [of k'] that new x by (auto simp: gomap_simps)
  note IH = Cons.IH [OF _ this, of "Suc n"]
  have "map_of xs k = None" using new by (simp add: map_of_eq_None_iff)
  then show ?case using IH Cons.prems(1) unfolding foldl_Cons s by (auto simp: x gomap_simps split: option.split)
qed simp


lemma map_of_filter_pairs:
  "gomap_ok m \<Longrightarrow> map_of (filter (\<lambda>(k, v). P k v) m) k = (case map_of m k of None \<Rightarrow> None | Some v \<Rightarrow> if P k v then Some v else None)"
proof (induction m)
  case (Cons e m)
  obtain k' v where e: "e = (k', v)" by (cases e)
  have "gomap_ok m" and "map_of m k' = None" using Cons.prems e by (simp_all add: gomap_ok_def mkeys_def map_of_eq_None_iff)
  then show ?case using Cons.IH by (auto simp: e split: option.split)
qed simp

lemma written_entries:
  assumes "writable rawLen now l" and "\<And>pe. 0 \<le> rawLen pe"
  shows "mset (piEntries (MarshalInFlight rawLen now l)) =
      mset (map (\<lambda>(k, e). (k, persistEntry e)) (filter (\<lambda>(_, e). live now e) (lEntries l)))"
    and "gomap_ok (lEntries l) \<Longrightarrow> distinct (map fst (piEntries (MarshalInFlight rawLen now l)))"
proof -
  show m: "mset (piEntries (MarshalInFlight rawLen now l)) =
      mset (map (\<lambda>(k, e). (k, persistEntry e)) (filter (\<lambda>(_, e). live now e) (lEntries l)))"
    by (simp add: written [OF assms])
  assume "gomap_ok (lEntries l)"
  then have "distinct (map fst (filter P (lEntries l)))" for P
    unfolding gomap_ok_def mkeys_def by (simp add: distinct_map_filter)
  then show "distinct (map fst (piEntries (MarshalInFlight rawLen now l)))"
    using mset_eq_imp_distinct_iff [OF arg_cong [OF m, of "image_mset fst", simplified mset_map [symmetric]]]
    by (simp add: comp_def case_prod_unfold)
qed

lemma length_filter_mset: "mset xs = mset ys \<Longrightarrow> length (filter P xs) = length (filter P ys)"
  by (metis mset_eq_length mset_filter)

lemma restored_entries:
  assumes "ledger_ok now l" and "writable rawLen now l" and "\<And>pe. 0 \<le> rawLen pe"
    and "RestoreInFlight zeroTime (MarshalInFlight rawLen now l) later maxTTL NewInFlightLedger = ((restored, dropped), l')"
  shows "dropped = length (filter (\<lambda>(k, e). live now e \<and> refused k e) (lEntries l)) \<and>
    (\<forall>k. map_of (lEntries l') k = (case map_of (lEntries l) k of None \<Rightarrow> None
    | Some e \<Rightarrow> if live now e \<and> \<not> refused k e \<and> later < ieExpires e
        then Some (restoreEntry zeroTime later (godiv (max maxTTL InFlightTTL) second) k (persistEntry e)) else None))"
proof -
  define limit where "limit = godiv (max maxTTL InFlightTTL) second"
  define xs where "xs = piEntries (MarshalInFlight rawLen now l)"
  define ok where "ok = stable_sort lastsLonger (filter (\<lambda>(k, pe). persistedEntryOK k pe \<and> later < peExpires pe) xs)"
  define ys where "ys = map (\<lambda>(k, e). (k, persistEntry e)) (filter (\<lambda>(k, e). live now e \<and> \<not> refused k e \<and> later < ieExpires e) (lEntries l))"
  have gm: "gomap_ok (lEntries l)" using assms(1) by (simp add: ledger_ok_def)
  note m = written_entries(1) [OF assms(2,3), folded xs_def] and dx = written_entries(2) [OF assms(2,3) gm, folded xs_def]
  have sx: "set xs = (\<lambda>(k, e). (k, persistEntry e)) ` set (filter (\<lambda>(_, e). live now e) (lEntries l))" using mset_eq_setD [OF m] by simp
  have good: "persistedEntryOK k (persistEntry e) \<longleftrightarrow> \<not> refused k e" if "(k, e) \<in> set (lEntries l)" "live now e" for k e
    using written_refused [OF _ that(2)] assms(1) that(1) by (fastforce simp: ledger_ok_def list_all_iff)
  have len: "length ok \<le> maxInFlightPersisted"
  proof -
    have "length xs \<le> maxInFlightPersisted" using mset_eq_length [OF m] assms(2) by (simp add: writable_def Let_def)
    moreover have "length ok \<le> length xs" unfolding ok_def using mset_eq_length [OF mset_stable_sort] length_filter_le by metis
    ultimately show ?thesis by simp
  qed
  have bad: "length (filter (\<lambda>(k, pe). \<not> persistedEntryOK k pe) xs) = length (filter (\<lambda>(k, e). live now e \<and> refused k e) (lEntries l))"
    unfolding length_filter_mset [OF m] filter_map length_map filter_filter
    using good by (intro arg_cong [of _ _ length] filter_cong) auto
  have d: "distinct (map fst ok)"
    using mset_eq_imp_distinct_iff [of "map fst ok" "map fst (filter (\<lambda>(k, pe). persistedEntryOK k pe \<and> later < peExpires pe) xs)"] dx
    by (simp add: ok_def distinct_map_filter)
  have "distinct (map fst ys)" using gm unfolding gomap_ok_def mkeys_def ys_def by (simp add: comp_def case_prod_unfold distinct_map_filter)
  moreover have pe: "peExpires (persistEntry e) = ieExpires e" for e by (simp add: persistEntry_def)
  have "set ok = set ys"
    unfolding ok_def ys_def set_stable_sort set_filter set_map sx by (auto simp: good pe intro: rev_image_eqI)
  ultimately have my: "map_of ok = map_of ys" using map_of_inject_set [OF d] by simp
  have new: "map_of (lEntries NewInFlightLedger) = Map.empty" by (simp add: NewInFlightLedger_def)
  have "dropped = length (filter (\<lambda>(k, e). live now e \<and> refused k e) (lEntries l)) \<and>
      map_of (lEntries l') k = (case map_of ok k of None \<Rightarrow> None | Some pe \<Rightarrow> Some (restoreEntry zeroTime later limit k pe))" for k
    using assms(4) restore_fold [OF d, where l = NewInFlightLedger and zeroTime = zeroTime and now = later and limit = limit and n = 0] len
    unfolding RestoreInFlight_def xs_def [symmetric] Let_def ok_def [symmetric] limit_def [symmetric] bad
    by (auto simp: new split: prod.splits option.split)
  then show ?thesis using map_of_filter_pairs [OF gm, of "\<lambda>k e. live now e \<and> \<not> refused k e \<and> later < ieExpires e"]
    by (auto simp: my ys_def map_of_map limit_def split: option.split)
qed

subsection \<open>What a settled ledger holds\<close>

lemma settleKeys_get:
  "distinct ks \<Longrightarrow> map_of (lEntries (settleKeys ks observed now l)) k =
     (case map_of (lEntries l) k of None \<Rightarrow> None | Some e \<Rightarrow> if k \<in> set ks then settleEntry now (observed k) e else Some e)"
  unfolding settleKeys_def
proof (induction ks arbitrary: l)
  case (Cons k' ks)
  let ?es = "case map_of (lEntries l) k' of None \<Rightarrow> lEntries l
    | Some e \<Rightarrow> (case settleEntry now (observed k') e of None \<Rightarrow> mdel k' (lEntries l) | Some e' \<Rightarrow> mput k' e' (lEntries l))"
  show ?case using Cons.IH [of "l\<lparr>lEntries := ?es\<rparr>"] Cons.prems by (auto simp: gomap_simps split: option.splits if_splits)
qed (simp split: option.split)

lemma settled_holds:
  assumes "ledger_ok now l" and "now \<le> later"
  shows "gomap_ok (lEntries (settle observed later l)) \<and>
    holdKey tol later (settle observed later l) v k =
      (case map_of (lEntries l) k of None \<Rightarrow> v | Some e \<Rightarrow> settledHold tol later v k (settleEntry later (observed k) e))"
proof -
  have "gomap_ok (lEntries l)" using assms(1) by (simp add: ledger_ok_def)
  then have d: "distinct (sort (mkeys (lEntries l)))" by (simp add: gomap_ok_def)
  have "k \<in> set (sort (mkeys (lEntries l)))" if "map_of (lEntries l) k = Some e" for e
    using that by (force simp: mkeys_def dest!: map_of_SomeD)
  moreover have "gomap_ok (lEntries (settle observed later l))"
    using settleKeys_ok [OF ledger_ok_later [OF assms]] by (simp add: settle_def ledger_ok_def)
  ultimately show ?thesis
    by (auto simp: holdKey_def settle_def settleKeys_get [OF d] settledHold_def split: option.split)
qed

lemma restored_same:
  assumes "entry_ok now e" and "now \<le> later" and "ieTTL e \<le> limit * second" and "zeroTime \<le> T" and "now \<le> T"
  shows "same_entry T e (restoreEntry zeroTime later limit k (persistEntry e))"
proof -
  let ?r = "restoreEntry zeroTime later limit k (persistEntry e)"
  have e: "ieExpires e \<le> now + ieTTL e" "list_all (\<lambda>(_, t). t \<le> now) (ieSeen e)" "list_all (partial_ok now) (iePartial e)" "0 < ieTTL e"
      "sorted_wrt (<) (map fst (ieSeen e))"
    using assms(1) by (simp_all add: entry_ok_def InFlightTTL_def)
  have "ieTTL e \<le> godiv (ieTTL e + second - 1) second * second" using e(4) by (simp add: godiv_pos second_def)
  then have "ieTTL e \<le> min (godiv (ieTTL e + second - 1) second) limit * second" using assms(3) by (simp add: min_def)
  then have x: "ieExpires ?r = ieExpires e" using e(1) assms(2) by (simp add: restoreEntry_def persistEntry_def Let_def)
  have "same_group T p \<lparr>psReplica = psReplica p, psAt = replicate (length (prPlacedGPUs (psReplica p))) zeroTime\<rparr>"
    if "partial_ok now p" for p
    using that assms(4,5) by (fastforce simp: same_group_def same_time_def partial_ok_def list_all2_conv_all_nth list_all_length)
  then have "list_all2 (same_group T) (iePartial e) (iePartial ?r)"
    using e(3) by (auto simp: restoreEntry_def persistEntry_def Let_def list_all2_map2 list_all2_same list_all_iff)
  moreover have "placedBy e T = landedSoFar e"
    by (rule placedBy_seen) (use e(2) assms(5) in \<open>fastforce simp: list_all_iff\<close>)
  moreover have "\<exists>x. ieShape ?r = (ieShape e)\<lparr>rsVariant := x\<rparr>"
    by (intro exI [of _ k]) (simp add: restoreEntry_def persistEntry_def Let_def)
  ultimately show ?thesis using x e(5)
    by (simp add: same_entry_def) (simp add: restoreEntry_def persistEntry_def landedSoFar_def placedBy_def Let_def)
qed

lemma accepted_ok: "ledger_ok now l \<Longrightarrow> ledger_ok now (accepted now l)"
  by (auto simp: ledger_ok_def accepted_def gomap_ok_def mkeys_def distinct_map_filter list_all_iff)

lemma idle_holds:
  assumes "entry_ok now e" and "now \<le> vTakenAt v" and "\<not> t < ieExpires e \<or> \<not> landedSoFar e < ieWant e"
  shows "settledHold tol t v k (settleEntry t observed e) = v"
proof (cases "t < ieExpires e")
  case True
  have "list_all (\<lambda>(_, t). t \<le> vTakenAt v) (ieSeen e)" using assms(1,2) by (fastforce simp: entry_ok_def list_all_iff)
  then show ?thesis using settledHold_done [of e v] assms(1,3) True by (simp add: entry_ok_def)
qed (rule settledHold_expired)

text \<open>
  C19. A restart neither extends a hold nor ends it, but for the entries reading back refuses. When
  what is live fits the entry and byte bounds of the persisted ledger and no hold outlasts the
  longest the engine starts, the live entries that are \<open>refused\<close> are exactly those counted as
  dropped. From then on, on every view of a snapshot taken since the ledger was written, with the
  same counts of placed pods supplied to both (or none), the restored ledger holds exactly the holes
  the old ledger without the refused entries would have held at that time, each on the same node
  and charged to the same replica. Holds that ended while the controller was down stay ended.
\<close>

theorem restart_keeps_holds:
  assumes "ledger_ok now l" and "now \<le> later" and "\<And>pe. 0 \<le> rawLen pe" and "writable rawLen now l"
    and "list_all (\<lambda>(_, e). ieTTL e \<le> godiv (max maxTTL InFlightTTL) second * second) (lEntries l)"
    and "RestoreInFlight zeroTime (MarshalInFlight rawLen now l) later maxTTL NewInFlightLedger = ((restored, dropped), l')"
    and "later \<le> t" and "now \<le> vTakenAt v" and "zeroTime \<le> vTakenAt v" and "zeroTime \<le> later"
  shows "dropped = length (filter (\<lambda>(k, e). live now e \<and> refused k e) (lEntries l)) \<and>
    snd (holdOn tol observed t l' v) = snd (holdOn tol observed t (accepted now l) v)"
proof -
  let ?w = "setOwner InFlightOwner v" and ?l = "accepted now l"
  note r = restored_entries [OF assms(1,4,3,6)]
  have gm: "gomap_ok (lEntries l)" using assms(1) by (simp add: ledger_ok_def)
  have ok: "ledger_ok now ?l" by (rule accepted_ok [OF assms(1)])
  have ok': "ledger_ok later l'"
    by (rule RestoreInFlight_ok [OF _ assms(10,6)]) (simp add: NewInFlightLedger_def ledger_ok_def gomap_ok_def mkeys_def)
  note s = settled_holds [OF ok, of t observed tol] and s' = settled_holds [OF ok' assms(7), of observed tol]
  have get: "map_of (lEntries ?l) k = (case map_of (lEntries l) k of None \<Rightarrow> None
      | Some e \<Rightarrow> if live now e \<and> refused k e then None else Some e)" for k
    using map_of_filter_pairs [OF gm, of "\<lambda>k e. \<not> (live now e \<and> refused k e)" k] by (simp add: accepted_def split: option.split)
  have same: "holdKey tol t (settle observed t l') w k = holdKey tol t (settle observed t ?l) w k"
    if "vTakenAt w = vTakenAt ?w" for w k
  proof (cases "map_of (lEntries l) k")
    case None
    then show ?thesis using r s s' get assms(2,7) by simp
  next
    case (Some e)
    have e: "entry_ok now e" by (rule ledger_ok_get [OF assms(1) Some])
    have T: "now \<le> vTakenAt w" "zeroTime \<le> vTakenAt w" using that assms(8,9) by (simp_all add: setOwner_def)
    have lim: "ieTTL e \<le> godiv (max maxTTL InFlightTTL) second * second" using list_all_get [OF assms(5) Some] .
    note settledHold_same [OF restored_same [OF e assms(2) lim T(2,1)], of tol t k]
    moreover have "settledHold tol t w k (settleEntry t (observed k) e) = w" if "\<not> (live now e \<and> later < ieExpires e)"
      by (rule idle_holds [OF e T(1)]) (use that assms(2,7) in \<open>auto simp: live_def\<close>)
    ultimately show ?thesis using r s s' get [of k] Some assms(2,7) by simp
  qed
  have "foldl (holdEntry tol t) ?w (entriesInOrder (settle observed t l')) = foldl (holdEntry tol t) ?w (entriesInOrder (settle observed t ?l))"
    by (rule holds_same) (use s s' same assms(2,7) in auto)
  then show ?thesis using r by (simp add: holdOn_def Let_def)
qed

text \<open>Four replicas were wanted; after the restart one of them is counted placed, by both.\<close>

theorem restart_keeps_holds_witness:
  "\<exists>restored l'. RestoreInFlight 0 (MarshalInFlight (\<lambda>_. 100) 20 exHeldLedger) 30 0 NewInFlightLedger = ((restored, 0), l') \<and>
    (let v = the (newNodeViewAt (Some exSnap) 35); one = (\<lambda>_. Some \<lparr>plWhole = 1, plPartial = []\<rparr>); h = snd (holdOn exTolerates one 34 l' v)
     in h = snd (holdOn exTolerates one 34 exHeldLedger v) \<and> map (debited h) [0, 1, 2] = [4, 8, 0])"
proof -
  let ?v = "the (newNodeViewAt (Some exSnap) 35)" and ?one = "\<lambda>_. Some \<lparr>plWhole = 1, plPartial = []\<rparr>"
  obtain restored dropped l' where r: "RestoreInFlight 0 (MarshalInFlight (\<lambda>_. 100) 20 exHeldLedger) 30 0 NewInFlightLedger = ((restored, dropped), l')"
    by (metis prod.exhaust)
  have "ledger_ok 20 exHeldLedger" by code_simp
  moreover have "writable (\<lambda>_. 100) 20 exHeldLedger" by code_simp
  moreover have "list_all (\<lambda>(_, e). ieTTL e \<le> godiv (max 0 InFlightTTL) second * second) (lEntries exHeldLedger)" by code_simp
  moreover have "vTakenAt ?v = 35" by (simp add: newNodeViewAt_def)
  moreover have d: "map (debited (snd (holdOn exTolerates ?one 34 exHeldLedger ?v))) [0, 1, 2] = [4, 8, 0]" by code_simp
  moreover have "length (filter (\<lambda>(k, e). live 20 e \<and> refused k e) (lEntries exHeldLedger)) = 0" by code_simp
  moreover have "accepted 20 exHeldLedger = exHeldLedger" by code_simp
  ultimately show ?thesis using restart_keeps_holds [OF _ _ _ _ _ r, of 34 ?v exTolerates ?one] r
    by (intro exI [of _ restored] exI [of _ l']) (simp add: Let_def)
qed

lemma restore_other:
  fixes zeroTime now limit
  defines "step \<equiv> \<lambda>(restored :: nat, l :: ledger) (k, pe).
    if map_of (lEntries l) k \<noteq> None then (restored, l)
    else (Suc restored, l\<lparr>lEntries := mput k (restoreEntry zeroTime now limit k pe) (lEntries l), lRestored := mput k True (lRestored l)\<rparr>)"
  shows "k \<notin> fst ` set xs \<Longrightarrow> map_of (lEntries (snd (foldl step s xs))) k = map_of (lEntries (snd s)) k"
proof (induction xs arbitrary: s)
  case (Cons x xs)
  have "map_of (lEntries (snd (step s x))) k = map_of (lEntries (snd s)) k"
    using Cons.prems by (cases s; cases x) (auto simp: step_def gomap_simps)
  then show ?case using Cons by simp
qed simp

text \<open>
  More partial groups than replicas still wanted end the hold at a restart. An entry that is live
  and has more groups with some but not all of their pods placed than replicas still wanted (the
  target of its variant was lowered) is written out, but reading it back drops it as a figure the
  controller does not write: whatever the ledger it is read into held, if it held nothing for that
  key it holds nothing for it afterwards, although the old ledger holds until the entry expires.
\<close>

lemma restart_drops_partial_groups:
  assumes "gomap_ok (lEntries l)" and "writable rawLen now l" and "\<And>pe. 0 \<le> rawLen pe"
    and "map_of (lEntries l) k = Some e" and "live now e" and "ieWant e - landedSoFar e < int (length (iePartial e))"
    and "RestoreInFlight zeroTime (MarshalInFlight rawLen now l) later maxTTL l0 = ((restored, dropped), l')"
    and "map_of (lEntries l0) k = None"
  shows "k \<in> set (mkeys (piEntries (MarshalInFlight rawLen now l))) \<and> 0 < dropped \<and>
    \<not> Holds k t l' \<and> (Holds k t l \<longleftrightarrow> t < ieExpires e)"
proof -
  define xs where "xs = piEntries (MarshalInFlight rawLen now l)"
  define ok where "ok = stable_sort lastsLonger (filter (\<lambda>(k, pe). persistedEntryOK k pe \<and> later < peExpires pe) xs)"
  note m = written_entries(1) [OF assms(2,3), folded xs_def]
  have "(k, e) \<in> set (filter (\<lambda>(_, e). live now e) (lEntries l))" using map_of_SomeD [OF assms(4)] assms(5) by simp
  then have x: "(k, persistEntry e) \<in> set xs" unfolding mset_eq_setD [OF m] by force
  have bad: "\<not> persistedEntryOK k (persistEntry e)" using assms(6) by (simp add: persistedEntryOK_def persistEntry_def)
  have "pe = persistEntry e" if "(k, pe) \<in> set xs" for pe
    using x that written_entries(2) [OF assms(2,3,1), folded xs_def] by (metis eq_key_imp_eq_value)
  then have "k \<notin> fst ` set ok" using bad by (force simp: ok_def)
  then have other: "k \<notin> fst ` set (take maxInFlightPersisted ok)" using set_take_subset by fastforce
  have "map_of (lEntries l') k = None" "0 < dropped"
  proof -
    have "filter (\<lambda>(k, pe). \<not> persistedEntryOK k pe) xs \<noteq> []" using x bad by (force simp: filter_empty_conv)
    then show "0 < dropped"
      using assms(7) unfolding RestoreInFlight_def xs_def [symmetric] Let_def by (auto split: prod.splits)
    show "map_of (lEntries l') k = None"
      using assms(7,8) restore_other [OF other, of zeroTime later "godiv (max maxTTL InFlightTTL) second" "(0, l0)"]
      unfolding RestoreInFlight_def xs_def [symmetric] ok_def [symmetric] Let_def by (auto split: prod.splits)
  qed
  moreover have "k \<in> set (mkeys xs)" using x by (force simp: mkeys_def)
  ultimately show ?thesis using assms(4) by (simp add: Holds_def xs_def)
qed

text \<open>Two groups had a pod each on a node when the target was lowered from two replicas to one.\<close>

lemma restart_drops_partial_groups_example:
  "let l = Admit ''ns/v'' exShape 1 0 30 exPartialLedger; r = RestoreInFlight 0 (MarshalInFlight (\<lambda>_. 100) 40 l) 45 0 NewInFlightLedger
   in Holds ''ns/v'' 50 l \<and> \<not> Holds ''ns/v'' 50 (snd r) \<and> 0 < snd (fst r)"
proof -
  let ?l = "Admit ''ns/v'' exShape 1 0 30 exPartialLedger"
  obtain restored dropped l' where r: "RestoreInFlight 0 (MarshalInFlight (\<lambda>_. 100) 40 ?l) 45 0 NewInFlightLedger = ((restored, dropped), l')"
    by (metis prod.exhaust)
  have h: "gomap_ok (lEntries ?l)" "writable (\<lambda>_. 100) 40 ?l" "map_of (lEntries ?l) ''ns/v'' \<noteq> None"
      "live 40 (the (map_of (lEntries ?l) ''ns/v''))" "50 < ieExpires (the (map_of (lEntries ?l) ''ns/v''))"
      "ieWant (the (map_of (lEntries ?l) ''ns/v'')) - landedSoFar (the (map_of (lEntries ?l) ''ns/v''))
         < int (length (iePartial (the (map_of (lEntries ?l) ''ns/v''))))"
    by code_simp+
  then obtain e where e: "map_of (lEntries ?l) ''ns/v'' = Some e" by blast
  have "map_of (lEntries NewInFlightLedger) ''ns/v'' = None" by (simp add: NewInFlightLedger_def)
  from restart_drops_partial_groups [OF h(1,2) _ e _ _ r this, of 50] h(4-6) e r show ?thesis by (simp add: Let_def)
qed

end
