(* ===== verification/Borrow.thy ===== *)
theory Borrow
  imports InFlight
begin

text \<open>
  Cohort borrowing as the constraints carry it: \<open>borrow_constraints.go\<close>, \<open>borrow_gated.go\<close>,
  the aggregates of \<open>default_limiter.go\<close> and \<open>Reclaims\<close> of \<open>internal/kueue/borrow.go\<close>,
  all under \<open>internal/engines/allocation\<close> but the last.

  \<open>borrowConstraints\<close> extends the record of the budgets by the fields borrowing reads. A nil
  \<open>NamespaceBorrow\<close>, which the code tells from an empty one, is \<open>None\<close>, and so is a zero
  time: every time the code sets is after it.
\<close>

subsection \<open>Lending and borrowing figures\<close>

record namespaceBorrow =
  nbCap :: int
  nbWithinNominal :: int
  nbLentOut :: int
  nbPreemptAfter :: int
  nbPreemptKept :: int
  nbNominalLentOut :: int
  nbFrozen :: bool
  nbWithheld :: string
  nbPinRequired :: bool
  nbPinLabels :: "(string, string) gomap list"
  nbCoHeadroom :: "(string, int) gomap"
  nbCoKept :: "(string, int) gomap"
  nbHighestPriority :: "int option"
  nbFlavors :: "string list"

record nominalFigures =
  nfLentOut :: int
  nfPreemptAfter :: int
  nfPreemptKept :: int
  nfWithinNominal :: int
  nfGuaranteed :: int
  nfNominalLentOut :: int
  nfFlavors :: "string list"
  nfCoHeadroom :: "(string, int) gomap"

record priorityLend =
  lendQueue :: string
  lendBelow :: int
  lendGPUs :: int

record lenderState =
  lnQueue :: string
  lnWaiting :: bool
  lnReclaim :: string
  lnUnused :: int
  lnPriority :: "int option"
  lnKept :: int
  lnPendingGPUs :: int
  lnPendingPriority :: "int option"
  lnPendingSince :: "gotime option"

record sharedPoolChunk =
  chCohort :: string
  chFlavor :: string
  chResource :: string
  chPlacement :: flavorPlacement
  chFree :: int
  chLenders :: "lenderState list"
  chReadAt :: "gotime option"
  chStale :: bool
  chPendingGPUs :: int
  chCoFree :: "(string, int) gomap"
  chCoUnbound :: "string list"
  chRestricted :: "priorityLend list"
  chClassPriority :: "(string, int) gomap"
  chBorrowed :: int
  chBorrowerPriority :: "int option"
  chBorrowerLowest :: "int option"
  chEvictingGPUs :: int
  chEvictionsRead :: bool
  chStuckEvictingGPUs :: int
  chReleaseToNonReclaiming :: bool
  chRawFree :: int
  restrictedClosed :: bool

record borrowConstraints = resourceConstraints +
  NamespaceBorrow :: "(string, (string, namespaceBorrow) gomap) gomap option"
  SharedPools :: "sharedPoolChunk list"
  NamespaceCohorts :: "(string, string list) gomap"
  BorrowWithheld :: "(string, string) gomap"
  NamespaceNominal :: "(string, (string, nominalFigures) gomap) gomap"
  KueueBacked :: bool
  KueueCountsBorrowing :: bool
  CountedBorrow :: "(string, (string, bool) gomap) gomap option"

definition QuotaUnlimited :: int where
  "QuotaUnlimited = -1"

definition borrowOf :: "borrowConstraints \<Rightarrow> string \<Rightarrow> (string, namespaceBorrow) gomap" where
  "borrowOf c ns = (case NamespaceBorrow c of None \<Rightarrow> [] | Some m \<Rightarrow> mget [] m ns)"

definition nsPoolsOf :: "borrowConstraints \<Rightarrow> (string, (string, resourcePool) gomap) gomap" where
  "nsPoolsOf c = (case NamespacePools c of None \<Rightarrow> [] | Some m \<Rightarrow> m)"

subsection \<open>Who may draw on a chunk\<close>

definition ReclaimAny :: string where
  "ReclaimAny = ''Any''"

definition ReclaimLowerPriority :: string where
  "ReclaimLowerPriority = ''LowerPriority''"

definition PriorityClassNone :: string where
  "PriorityClassNone = ''none''"

definition Reclaims :: "string \<Rightarrow> int option \<Rightarrow> int option \<Rightarrow> bool" where
  "Reclaims policy lender borrower =
     (if policy = ReclaimAny then True
      else if policy = ReclaimLowerPriority then (case (lender, borrower) of (Some l, Some b) \<Rightarrow> b < l | _ \<Rightarrow> False)
      else False)"

definition heldAbove :: "sharedPoolChunk \<Rightarrow> priorityLend \<Rightarrow> bool" where
  "heldAbove c r =
     (if chBorrowed c \<le> 0 then False
      else chBorrowerPriority c = None \<or> \<not> Reclaims ReclaimLowerPriority (Some (lendBelow r)) (chBorrowerPriority c))"

text \<open>The priority a model of the class draws at, \<open>None\<close> while it is not known.\<close>

definition drawPriority :: "sharedPoolChunk \<Rightarrow> string \<Rightarrow> int option \<Rightarrow> int option" where
  "drawPriority c cls fallback =
     (let known = map_of (chClassPriority c) cls in
      case fallback of None \<Rightarrow> known
      | Some f \<Rightarrow> if cls = PriorityClassNone then (case known of None \<Rightarrow> Some f | Some p \<Rightarrow> Some (if p < f then f else p)) else known)"

definition drawable :: "sharedPoolChunk \<Rightarrow> string \<Rightarrow> int option \<Rightarrow> int" where
  "drawable c cls fallback =
     (let prio = drawPriority c cls fallback in
      max 0 (foldl (\<lambda>free r.
        if restrictedClosed c \<or> heldAbove c r \<or> prio = None \<or> \<not> Reclaims ReclaimLowerPriority (Some (lendBelow r)) prio
        then free - lendGPUs r else free) (chFree c) (chRestricted c)))"

definition chunk_key :: "sharedPoolChunk \<Rightarrow> string" where
  "chunk_key c = chCohort c @ ''/'' @ chFlavor c @ ''/'' @ chResource c"

definition serves :: "sharedPoolChunk \<Rightarrow> string \<Rightarrow> bool" where
  "serves c acc = (flAcceleratorType (chPlacement c) = [] \<or> SameName (flAcceleratorType (chPlacement c)) acc)"

definition HasBorrowing :: "borrowConstraints option list \<Rightarrow> bool" where
  "HasBorrowing constraints = list_ex (\<lambda>c. case c of None \<Rightarrow> False | Some c \<Rightarrow> NamespaceBorrow c \<noteq> None) constraints"

definition hasNominalCo :: "borrowConstraints option list \<Rightarrow> bool" where
  "hasNominalCo constraints =
     list_ex (\<lambda>c. case c of None \<Rightarrow> False
       | Some c \<Rightarrow> list_ex (\<lambda>(_, perType). list_ex (\<lambda>(_, f). nfCoHeadroom f \<noteq> []) perType) (NamespaceNominal c)) constraints"

definition NominalLentOut :: "borrowConstraints option list \<Rightarrow> string \<Rightarrow> int" where
  "NominalLentOut constraints ns =
     foldl (\<lambda>n c. case c of None \<Rightarrow> n | Some c \<Rightarrow> foldl (\<lambda>n (_, b). n + nbNominalLentOut b) n (borrowOf c ns)) 0 constraints"

text \<open>Co-resources, in milli-units: a resource the replica does not request is requested 0.\<close>

definition coWithin :: "(string, int) gomap \<Rightarrow> (string, int) gomap \<Rightarrow> bool" where
  "coWithin headroom requests = list_all (\<lambda>(res, h). \<not> h < mget 0 requests res) headroom"

definition coFitsKept :: "(string, int) gomap \<Rightarrow> (string, int) gomap \<Rightarrow> (string, int) gomap \<Rightarrow> bool" where
  "coFitsKept pool kept requests = list_all (\<lambda>(res, f). \<not> f + mget 0 kept res < mget 0 requests res) pool"

definition tighterCo :: "(string, int) gomap \<Rightarrow> (string, int) gomap \<Rightarrow> bool \<Rightarrow> (string, int) gomap" where
  "tighterCo a b joint =
     (let out = foldl (\<lambda>out (res, n). case map_of b res of Some m \<Rightarrow> mput res (min n m) out
           | None \<Rightarrow> if joint then mput res n out else out) [] a
      in if joint then foldl (\<lambda>out (res, m). if map_of a res = None then mput res m out else out) out b else out)"

subsection \<open>Constraints without borrowing, and at their reach\<close>

definition heldPastBorrowCap :: "resourcePool \<Rightarrow> namespaceBorrow \<Rightarrow> int" where
  "heldPastBorrowCap p b =
     (if Limit p < 0 then Used p
      else if nbCap b < 0 then min (Used p) (Limit p)
      else max (min (Used p) (Limit p)) (Used p - nbCap b))"

definition aggregateNamespacePools :: "(string, (string, resourcePool) gomap) gomap \<Rightarrow> (string, resourcePool) gomap" where
  "aggregateNamespacePools nsPools =
     foldl (\<lambda>agg (_, perType). foldl (\<lambda>agg (t, pool).
       if Limit pool < 0 then agg
       else let a = mget \<lparr>Limit = 0, Used = 0\<rparr> agg t in mput t \<lparr>Limit = Limit a + Limit pool, Used = Used a + Used pool\<rparr> agg) agg perType) [] nsPools"

definition poolTotals :: "(string, resourcePool) gomap \<Rightarrow> int \<times> int \<times> int" where
  "poolTotals pools =
     (let (limit, used) = foldl (\<lambda>(limit, used) (_, p). (limit + Limit p, used + Used p)) (0, 0) pools; avail = limit - used
      in (limit, used, if avail < 0 then 0 else avail))"

definition reachAggregate :: "(string, (string, resourcePool) gomap) gomap \<Rightarrow> (string, resourcePool) gomap" where
  "reachAggregate nsPools =
     foldl (\<lambda>agg (_, perType). foldl (\<lambda>agg (t, pool). if Limit pool < 0 then mput t \<lparr>Limit = QuotaUnlimited, Used = 0\<rparr> agg else agg) agg perType)
       (aggregateNamespacePools nsPools) nsPools"

definition unborrowedPool :: "bool \<Rightarrow> namespaceBorrow \<Rightarrow> resourcePool \<Rightarrow> resourcePool" where
  "unborrowedPool nominal b p = (if nominal then p\<lparr>Limit := nbWithinNominal b\<rparr> else p\<lparr>Used := heldPastBorrowCap p b\<rparr>)"

definition unborrowedPools :: "bool \<Rightarrow> (string, namespaceBorrow) gomap \<Rightarrow> (string, resourcePool) gomap \<Rightarrow> (string, resourcePool) gomap" where
  "unborrowedPools nominal borrow perType =
     foldl (\<lambda>pools (t, b). case map_of pools t of None \<Rightarrow> pools | Some p \<Rightarrow> mput t (unborrowedPool nominal b p) pools) perType borrow"

definition countedTypes :: "(string, namespaceBorrow) gomap \<Rightarrow> (string, resourcePool) gomap \<Rightarrow> (string, bool) gomap" where
  "countedTypes borrow perType = map (\<lambda>(t, _). (t, True)) (filter (\<lambda>(t, _). map_of perType t \<noteq> None) borrow)"

definition unborrowed :: "bool \<Rightarrow> borrowConstraints \<Rightarrow> borrowConstraints" where
  "unborrowed nominal c =
     (let pools = map (\<lambda>(ns, perType). (ns, unborrowedPools nominal (borrowOf c ns) perType)) (nsPoolsOf c);
          agg = aggregateNamespacePools pools; (limit, used, avail) = poolTotals agg
      in c\<lparr>NamespacePools := Some pools, NamespaceBorrow := None, SharedPools := [], NamespaceCohorts := [],
           CountedBorrow := (if nominal then CountedBorrow c
             else Some (filter (\<lambda>(_, ts). ts \<noteq> []) (map (\<lambda>(ns, perType). (ns, countedTypes (borrowOf c ns) perType)) (nsPoolsOf c)))),
           Pools := agg, TotalLimit := limit, TotalUsed := used, TotalAvail := avail\<rparr>)"

definition withoutBorrowing :: "borrowConstraints option list \<Rightarrow> bool \<Rightarrow> borrowConstraints option list" where
  "withoutBorrowing constraints nominal =
     (if \<not> HasBorrowing constraints then constraints
      else map (\<lambda>c. case c of None \<Rightarrow> None | Some c \<Rightarrow> Some (if NamespaceBorrow c = None then c else unborrowed nominal c)) constraints)"

definition WithinNominal :: "borrowConstraints option list \<Rightarrow> borrowConstraints option list" where
  "WithinNominal constraints = withoutBorrowing constraints True"

definition GuaranteedOnly :: "borrowConstraints option list \<Rightarrow> borrowConstraints option list" where
  "GuaranteedOnly constraints = withoutBorrowing constraints False"

definition reachPools :: "(string, (string, resourcePool) gomap) gomap \<Rightarrow> (string \<Rightarrow> (string, namespaceBorrow) gomap)
    \<Rightarrow> (string, (string, resourcePool) gomap) gomap" where
  "reachPools nsPools borrow =
     map (\<lambda>(ns, perType). (ns, foldl (\<lambda>pools (t, b).
       case map_of pools t of None \<Rightarrow> pools
       | Some p \<Rightarrow> if Limit p < 0 then pools
           else mput t (p\<lparr>Limit := if nbCap b < 0 then QuotaUnlimited else Limit p + nbCap b\<rparr>) pools) perType (borrow ns))) nsPools"

definition reachConstraints :: "borrowConstraints option list \<Rightarrow> borrowConstraints option list" where
  "reachConstraints constraints =
     map (\<lambda>c. case c of None \<Rightarrow> None
       | Some c \<Rightarrow> Some (if NamespaceBorrow c = None then c else c\<lparr>NamespacePools := Some (reachPools (nsPoolsOf c) (borrowOf c))\<rparr>)) constraints"


subsection \<open>One pool for every reader of a cohort\<close>

text \<open>\<open>slices.IndexFunc\<close> and an update at the index it finds; \<open>None\<close> when it finds none.\<close>

fun updateFirst :: "('a \<Rightarrow> bool) \<Rightarrow> ('a \<Rightarrow> 'a) \<Rightarrow> 'a list \<Rightarrow> 'a list option" where
  "updateFirst P f [] = None"
| "updateFirst P f (x # xs) = (if P x then Some (f x # xs) else map_option ((#) x) (updateFirst P f xs))"

text \<open>Of two figures that may be unknown, the one \<open>better\<close> prefers; a known one over an unknown.\<close>

definition preferred :: "(int \<Rightarrow> int \<Rightarrow> bool) \<Rightarrow> int option \<Rightarrow> int option \<Rightarrow> int option" where
  "preferred better prev p =
     (case p of None \<Rightarrow> prev | Some y \<Rightarrow> (case prev of None \<Rightarrow> Some y | Some x \<Rightarrow> Some (if better y x then y else x)))"

definition mergeLender :: "lenderState \<Rightarrow> lenderState \<Rightarrow> lenderState" where
  "mergeLender l prev = prev\<lparr>lnWaiting := lnWaiting prev \<or> lnWaiting l,
     lnPendingGPUs := min (lnPendingGPUs prev) (lnPendingGPUs l), lnKept := max (lnKept prev) (lnKept l),
     lnPendingPriority := preferred (\<lambda>y x. x < y) (lnPendingPriority prev) (lnPendingPriority l),
     lnPendingSince := preferred (\<lambda>y x. x < y) (lnPendingSince prev) (lnPendingSince l)\<rparr>"

definition mergeLenders :: "lenderState list \<Rightarrow> lenderState list \<Rightarrow> lenderState list" where
  "mergeLenders prev ls =
     stable_sort (\<lambda>a b. lnQueue a < lnQueue b)
       (foldl (\<lambda>out l. case updateFirst (\<lambda>x. lnQueue x = lnQueue l) (mergeLender l) out of None \<Rightarrow> out @ [l] | Some out \<Rightarrow> out) prev ls)"

definition mergeLend :: "priorityLend \<Rightarrow> priorityLend \<Rightarrow> priorityLend" where
  "mergeLend r prev = prev\<lparr>lendGPUs := max (lendGPUs prev) (lendGPUs r), lendBelow := min (lendBelow prev) (lendBelow r)\<rparr>"

definition addLend :: "priorityLend list \<Rightarrow> priorityLend \<Rightarrow> priorityLend list" where
  "addLend out r =
     (case updateFirst (\<lambda>x. lendQueue x = lendQueue r) (mergeLend r) out of None \<Rightarrow> out @ [r] | Some out \<Rightarrow> out)"

definition mergeFigures :: "(int \<Rightarrow> int \<Rightarrow> bool) \<Rightarrow> (string, int) gomap \<Rightarrow> (string, int) gomap \<Rightarrow> (string, int) gomap" where
  "mergeFigures better prev p =
     foldl (\<lambda>m (k, n). case map_of m k of None \<Rightarrow> mput k n m | Some x \<Rightarrow> if better n x then mput k n m else m) prev p"

definition mergeChunk :: "sharedPoolChunk \<Rightarrow> sharedPoolChunk \<Rightarrow> sharedPoolChunk" where
  "mergeChunk prev p =
     prev\<lparr>chFree := min (chFree prev) (chFree p), chRawFree := min (chRawFree prev) (chRawFree p),
       chPendingGPUs := max (chPendingGPUs prev) (chPendingGPUs p),
       chCoFree := mergeFigures (<) (chCoFree prev) (chCoFree p),
       chCoUnbound := sort (foldl (\<lambda>out res. if res \<in> set out then out else out @ [res]) (chCoUnbound prev) (chCoUnbound p)),
       chStale := chStale prev \<or> chStale p,
       chReleaseToNonReclaiming := chReleaseToNonReclaiming prev \<and> chReleaseToNonReclaiming p,
       restrictedClosed := restrictedClosed prev \<or> restrictedClosed p,
       chBorrowerPriority :=
         (if 0 < chBorrowed prev \<and> chBorrowerPriority prev = None \<or> 0 < chBorrowed p \<and> chBorrowerPriority p = None then None
          else preferred (\<lambda>y x. x < y) (chBorrowerPriority prev) (chBorrowerPriority p)),
       chBorrowerLowest :=
         (if 0 < chBorrowed prev \<and> chBorrowerLowest prev = None \<or> 0 < chBorrowed p \<and> chBorrowerLowest p = None then None
          else preferred (\<lambda>y x. y < x) (chBorrowerLowest prev) (chBorrowerLowest p)),
       chBorrowed := max (chBorrowed prev) (chBorrowed p),
       chEvictingGPUs := max (chEvictingGPUs prev) (chEvictingGPUs p),
       chStuckEvictingGPUs := max (chStuckEvictingGPUs prev) (chStuckEvictingGPUs p),
       chEvictionsRead := chEvictionsRead prev \<and> chEvictionsRead p,
       chReadAt := preferred (\<lambda>y x. y < x) (chReadAt prev) (chReadAt p),
       chLenders := mergeLenders (chLenders prev) (chLenders p),
       chRestricted := foldl addLend (chRestricted prev) (chRestricted p),
       chClassPriority := mergeFigures (\<lambda>n x. x < n) (chClassPriority prev) (chClassPriority p)\<rparr>"

definition addChunk :: "(string, sharedPoolChunk) gomap \<Rightarrow> sharedPoolChunk \<Rightarrow> (string, sharedPoolChunk) gomap" where
  "addChunk byKey p =
     (case map_of byKey (chunk_key p) of None \<Rightarrow> mput (chunk_key p) p byKey
      | Some prev \<Rightarrow> mput (chunk_key p) (mergeChunk prev p) byKey)"

definition chunkLess :: "sharedPoolChunk \<Rightarrow> sharedPoolChunk \<Rightarrow> bool" where
  "chunkLess a b =
     (if chCohort a \<noteq> chCohort b then chCohort a < chCohort b
      else if chFlavor a \<noteq> chFlavor b then chFlavor a < chFlavor b else chResource a < chResource b)"

definition borrowers :: "borrowConstraints option list \<Rightarrow> borrowConstraints list" where
  "borrowers constraints =
     concat (map (\<lambda>c. case c of None \<Rightarrow> [] | Some c \<Rightarrow> if NamespaceBorrow c = None then [] else [c]) constraints)"

definition mergeSharedPools :: "borrowConstraints option list \<Rightarrow> sharedPoolChunk list \<times> (string, string list) gomap" where
  "mergeSharedPools constraints =
     (stable_sort chunkLess (map snd (foldl (\<lambda>byKey c. foldl addChunk byKey (SharedPools c)) [] (borrowers constraints))),
      foldl (\<lambda>cohorts c. foldl (\<lambda>cohorts (ns, cs). foldl (\<lambda>cohorts co.
        if co \<in> set (mget [] cohorts ns) then cohorts else mput ns (mget [] cohorts ns @ [co]) cohorts) cohorts cs) cohorts (NamespaceCohorts c))
        [] (borrowers constraints))"

subsection \<open>Namespaces Kueue bounds and nobody borrows for\<close>

definition ReasonNoCohort :: string where
  "ReasonNoCohort = ''no-cohort''"

definition kueueBacked :: "borrowConstraints option list \<Rightarrow> borrowConstraints list" where
  "kueueBacked constraints = concat (map (\<lambda>c. case c of None \<Rightarrow> [] | Some c \<Rightarrow> if KueueBacked c then [c] else []) constraints)"

definition KueueNamespaces :: "borrowConstraints option list \<Rightarrow> string list" where
  "KueueNamespaces constraints = sort (remdups (concat (map (\<lambda>c. mkeys (nsPoolsOf c)) (kueueBacked constraints))))"

definition countedNamespaces :: "borrowConstraints option list \<Rightarrow> string list" where
  "countedNamespaces constraints =
     concat (map (\<lambda>c. case c of None \<Rightarrow> [] | Some c \<Rightarrow> (case NamespaceBorrow c of None \<Rightarrow> [] | Some m \<Rightarrow> mkeys m)) constraints)"

definition UncountedKueueNamespaces :: "borrowConstraints option list \<Rightarrow> string list" where
  "UncountedKueueNamespaces constraints =
     (let counted = countedNamespaces constraints;
          excludes = (\<lambda>c ns. KueueCountsBorrowing c \<and> mget [] (BorrowWithheld c) ns \<noteq> ReasonNoCohort);
          named = (\<lambda>P. concat (map (\<lambda>c. filter (\<lambda>ns. ns \<notin> set counted \<and> P c ns) (mkeys (nsPoolsOf c))) (kueueBacked constraints)))
      in sort (remdups (filter (\<lambda>ns. ns \<notin> set (named excludes)) (named (\<lambda>c ns. \<not> excludes c ns)))))"

definition uncountedHeldPast :: "borrowConstraints option list \<Rightarrow> (string, (string, int) gomap) gomap" where
  "uncountedHeldPast constraints =
     (let uncounted = UncountedKueueNamespaces constraints in
      foldl (\<lambda>out c. foldl (\<lambda>out (ns, pools).
        if ns \<notin> set uncounted then out
        else foldl (\<lambda>out (t, p).
          if Limit p < 0 \<or> Used p \<le> Limit p then out
          else let perType = mget [] out ns in mput ns (mput t (max (mget 0 perType t) (Used p - Limit p)) perType) out) out pools)
        out (nsPoolsOf c)) [] (kueueBacked constraints))"

end
