(* ===== verification/BorrowFlight.thy ===== *)
theory BorrowFlight
  imports Borrow "HOL-Library.Product_Lexorder"
begin

text \<open>
  Borrowed growth ordered and not yet reserved by Kueue: \<open>borrow_inflight.go\<close>, and what
  \<open>borrow_wake.go\<close> adds to its record, under \<open>internal/engines/allocation\<close>.

  The record's map is visited in the order of the list that stands for it; only the order of
  the lagging draws depends on it. The lock makes every method one step. \<open>Entries\<close> and
  \<open>Reclaims\<close> sort by key; keys are tuples in lexicographic order, as \<open>compareInFlightKeys\<close>
  compares them.
\<close>

subsection \<open>Draws\<close>

record borrowDraw =
  bdNamespace :: string
  bdModelID :: string
  bdVariant :: string
  bdCohort :: string
  bdFlavor :: string
  bdResource :: string
  bdGPUs :: int
  bdReplicas :: int
  bdTarget :: int
  bdPlacement :: "flavorPlacement option"
  bdOrderedAt :: gotime
  bdResolvedAt :: "gotime option"
  bdCreditGPUs :: int
  bdCreditReplicas :: int
  bdReclaim :: bool
  bdAfter :: int
  bdKept :: int
  bdCreditAfter :: int
  bdCreditKept :: int
  bdAccelerator :: string
  bdNoHole :: bool
  bdClosesRestricted :: bool
  bdWake :: bool

record admittedGPUs =
  agNamespace :: string
  agAccelerator :: string
  agGPUs :: int
  agAt :: gotime

type_synonym gatedGPUs = "(string, (string, int) gomap) gomap"

record unreserved =
  uInFlight :: "borrowDraw list"
  uGated :: gatedGPUs
  uAdmitted :: "admittedGPUs list"

type_synonym inFlightKey = "string \<times> string \<times> string \<times> string \<times> string \<times> bool"

definition keyOfDraw :: "borrowDraw \<Rightarrow> inFlightKey" where
  "keyOfDraw d = (bdNamespace d, bdVariant d, bdCohort d, bdFlavor d, bdResource d, bdReclaim d)"

record variantObservation =
  voCurrent :: int
  voDesired :: int

record borrowInFlight =
  bEntries :: "(inFlightKey, borrowDraw) gomap"
  bLagging :: "borrowDraw list"
  bGated :: "gatedGPUs option"
  bAdmitted :: "admittedGPUs list"
  bBlocked :: "(string, bool) gomap option"
  bCycleAt :: "gotime option"
  bWakeReclaims :: "borrowDraw list"

definition NewBorrowInFlight :: borrowInFlight where
  "NewBorrowInFlight = \<lparr>bEntries = [], bLagging = [], bGated = None, bAdmitted = [], bBlocked = None, bCycleAt = None, bWakeReclaims = []\<rparr>"

definition ceilDiv :: "int \<Rightarrow> int \<Rightarrow> int" where
  "ceilDiv a b = (if b \<le> 0 then a else godiv (a + b - 1) b)"

subsection \<open>Recording\<close>

text \<open>A pass's draw as it is recorded: less what was re-placed on the variant's own draw, on top of the earlier one.\<close>

definition uncredited :: "gotime \<Rightarrow> borrowDraw \<Rightarrow> borrowDraw" where
  "uncredited now d = d\<lparr>bdOrderedAt := now, bdResolvedAt := None, bdGPUs := bdGPUs d - bdCreditGPUs d, bdReplicas := bdReplicas d - bdCreditReplicas d,
     bdAfter := bdAfter d - bdCreditAfter d, bdKept := max 0 (bdKept d - bdCreditKept d),
     bdCreditGPUs := 0, bdCreditReplicas := 0, bdCreditAfter := 0, bdCreditKept := 0\<rparr>"

definition onTop :: "borrowDraw \<Rightarrow> borrowDraw \<Rightarrow> borrowDraw" where
  "onTop prev d = d\<lparr>bdGPUs := bdGPUs d + bdGPUs prev, bdAfter := bdAfter d + bdAfter prev, bdKept := bdKept d + bdKept prev,
     bdReplicas := bdReplicas d + bdReplicas prev, bdTarget := max (bdTarget d) (bdTarget prev), bdOrderedAt := bdOrderedAt prev,
     bdClosesRestricted := bdClosesRestricted d \<or> bdClosesRestricted prev, bdNoHole := bdNoHole d \<or> bdNoHole prev\<rparr>"

definition recordDraw :: "gotime \<Rightarrow> (inFlightKey, borrowDraw) gomap \<Rightarrow> borrowDraw \<Rightarrow> (inFlightKey, borrowDraw) gomap" where
  "recordDraw now entries d =
     (let k = keyOfDraw d; new = uncredited now d;
          new = (case map_of entries k of None \<Rightarrow> new | Some prev \<Rightarrow> onTop prev new)
      in if bdGPUs new \<le> 0 \<and> bdAfter new \<le> 0 \<or> bdReplicas new \<le> 0 then entries else mput k new entries)"

definition RecordAt :: "borrowDraw list \<Rightarrow> gotime \<Rightarrow> borrowInFlight \<Rightarrow> borrowInFlight" where
  "RecordAt draws now b = b\<lparr>bEntries := foldl (recordDraw now) (bEntries b) draws\<rparr>"

subsection \<open>Settling\<close>

definition partOf :: "int \<Rightarrow> int \<Rightarrow> int \<Rightarrow> int" where
  "partOf replicas n v = min v (n * ceilDiv v replicas)"

definition replicasOf :: "borrowDraw \<Rightarrow> int \<Rightarrow> borrowDraw" where
  "replicasOf d n =
     (let gpus = partOf (bdReplicas d) n (bdGPUs d); after = partOf (bdReplicas d) n (bdAfter d);
          kept = min after (partOf (bdReplicas d) n (bdKept d))
      in d\<lparr>bdReplicas := n, bdGPUs := gpus, bdAfter := after, bdKept := kept, bdCreditReplicas := min (bdCreditReplicas d) n,
           bdCreditGPUs := min (bdCreditGPUs d) gpus, bdCreditAfter := min (bdCreditAfter d) after, bdCreditKept := min (bdCreditKept d) kept\<rparr>)"

definition variantName :: "string \<Rightarrow> string \<Rightarrow> string" where
  "variantName ns variant = ns @ ''/'' @ variant"

definition keyVariant :: "inFlightKey \<Rightarrow> string" where
  "keyVariant k = variantName (fst k) (fst (snd k))"

text \<open>What one cycle's counts do to a draw: what is left of it in flight, and what resolved.\<close>

definition observeDraw :: "(string, variantObservation) gomap \<Rightarrow> gotime \<Rightarrow> inFlightKey \<Rightarrow> borrowDraw \<Rightarrow> borrowDraw option \<times> borrowDraw option" where
  "observeDraw observed now k d =
     (let seen = map_of observed (keyVariant k) in
      if InFlightTTL < time_sub now (bdOrderedAt d) then (None, None)
      else if bdWake d \<and> seen = None then (Some d, None)
      else if \<not> bdWake d \<and> (case seen of None \<Rightarrow> True | Some v \<Rightarrow> 0 < voDesired v \<and> voDesired v < bdTarget d) then (None, None)
      else let missing = max 0 (bdTarget d - voCurrent (the seen)) in
        if bdReplicas d \<le> missing then (Some d, None)
        else let still = replicasOf d missing; after = bdAfter d - bdAfter still;
                 resolved = d\<lparr>bdReplicas := bdReplicas d - missing, bdGPUs := bdGPUs d - bdGPUs still, bdAfter := after,
                   bdKept := min after (max 0 (bdKept d - bdKept still)), bdResolvedAt := Some now\<rparr>
             in (if missing = 0 then None else Some still, if 0 < bdGPUs resolved \<or> 0 < bdAfter resolved then Some resolved else None))"

definition laggingKept :: "(string, variantObservation) gomap \<Rightarrow> gotime \<Rightarrow> borrowDraw \<Rightarrow> bool" where
  "laggingKept observed now d =
     (map_of observed (variantName (bdNamespace d) (bdVariant d)) \<noteq> None \<and>
      (case bdResolvedAt d of None \<Rightarrow> False | Some t \<Rightarrow> \<not> InFlightTTL < time_sub now t))"

definition ObserveAt :: "(string, variantObservation) gomap \<Rightarrow> gotime \<Rightarrow> borrowInFlight \<Rightarrow> borrowInFlight" where
  "ObserveAt observed now b =
     b\<lparr>bEntries := List.map_filter (\<lambda>(k, d). map_option (Pair k) (fst (observeDraw observed now k d))) (bEntries b),
       bLagging := filter (laggingKept observed now) (bLagging b) @ List.map_filter (\<lambda>(k, d). snd (observeDraw observed now k d)) (bEntries b)\<rparr>"

definition TrimmedTo :: "borrowDraw \<Rightarrow> int \<Rightarrow> borrowDraw \<times> bool" where
  "TrimmedTo d target =
     (let cut = bdTarget d - target in
      if cut \<le> 0 then (d, True)
      else if bdReplicas d \<le> cut then (d, False)
      else ((replicasOf d (bdReplicas d - cut))\<lparr>bdTarget := target\<rparr>, True))"

definition trimDraw :: "(string, int) gomap \<Rightarrow> inFlightKey \<Rightarrow> borrowDraw \<Rightarrow> borrowDraw option" where
  "trimDraw targets k d =
     (case map_of targets (keyVariant k) of None \<Rightarrow> Some d
      | Some t \<Rightarrow> if bdWake d then Some d else let (d, keep) = TrimmedTo d t in if keep then Some d else None)"

definition Trim :: "(string, int) gomap \<Rightarrow> borrowInFlight \<Rightarrow> borrowInFlight" where
  "Trim targets b =
     (if targets = [] then b
      else b\<lparr>bEntries := List.map_filter (\<lambda>(k, d). map_option (Pair k) (trimDraw targets k d)) (bEntries b)\<rparr>)"

subsection \<open>Reading\<close>

definition entriesLocked :: "borrowInFlight \<Rightarrow> borrowDraw list" where
  "entriesLocked b = map (\<lambda>k. the (map_of (bEntries b) k)) (sort (mkeys (bEntries b)))"

definition Entries :: "borrowInFlight \<Rightarrow> borrowDraw list" where
  "Entries b = filter (\<lambda>d. \<not> bdReclaim d) (entriesLocked b)"

definition Reclaims_in_flight :: "borrowInFlight \<Rightarrow> borrowDraw list" where
  "Reclaims_in_flight b = filter bdReclaim (entriesLocked b)"

definition SetCycle :: "gatedGPUs option \<Rightarrow> admittedGPUs list \<Rightarrow> (string, bool) gomap option \<Rightarrow> gotime \<Rightarrow> borrowInFlight \<Rightarrow> borrowInFlight" where
  "SetCycle gated admitted blocked now b = b\<lparr>bGated := gated, bAdmitted := admitted, bBlocked := blocked, bCycleAt := Some now\<rparr>"

definition cycleFresh :: "gotime \<Rightarrow> borrowInFlight \<Rightarrow> bool" where
  "cycleFresh now b = (case bCycleAt b of None \<Rightarrow> False | Some t \<Rightarrow> \<not> InFlightTTL < time_sub now t)"

definition laggingFresh :: "gotime \<Rightarrow> borrowDraw \<Rightarrow> bool" where
  "laggingFresh now d = (case bdResolvedAt d of None \<Rightarrow> False | Some t \<Rightarrow> time_sub now t \<le> InFlightTTL)"

definition Unreserved :: "gotime \<Rightarrow> borrowInFlight \<Rightarrow> unreserved" where
  "Unreserved now b =
     \<lparr>uInFlight = filter (\<lambda>d. \<not> InFlightTTL < time_sub now (bdOrderedAt d)) (entriesLocked b) @ filter (laggingFresh now) (bLagging b),
      uGated = (if cycleFresh now b then (case bGated b of None \<Rightarrow> [] | Some g \<Rightarrow> g) else []),
      uAdmitted = (if cycleFresh now b then bAdmitted b else [])\<rparr>"

definition GatedGPUs :: "gotime \<Rightarrow> borrowInFlight \<Rightarrow> gatedGPUs option" where
  "GatedGPUs now b = (if cycleFresh now b then bGated b else None)"

definition Blocked :: "gotime \<Rightarrow> borrowInFlight \<Rightarrow> (string, bool) gomap option" where
  "Blocked now b = (if cycleFresh now b then bBlocked b else None)"

subsection \<open>Wakes\<close>

definition recordWakeDraw :: "gotime \<Rightarrow> borrowInFlight \<Rightarrow> borrowDraw \<Rightarrow> borrowInFlight" where
  "recordWakeDraw now b d =
     (let k = keyOfDraw d in
      if map_of (bEntries b) k \<noteq> None \<or> bdGPUs d \<le> 0 \<or> bdReplicas d \<le> 0 then b
      else let d = d\<lparr>bdOrderedAt := now, bdResolvedAt := None, bdWake := True\<rparr> in
        b\<lparr>bEntries := mput k d (bEntries b), bWakeReclaims := (if bdReclaim d then bWakeReclaims b @ [d] else bWakeReclaims b)\<rparr>)"

definition RecordWake :: "borrowDraw list \<Rightarrow> gotime \<Rightarrow> borrowInFlight \<Rightarrow> borrowInFlight" where
  "RecordWake draws now b =
     foldl (recordWakeDraw now) (b\<lparr>bWakeReclaims := filter (\<lambda>d. \<not> InFlightTTL < time_sub now (bdOrderedAt d)) (bWakeReclaims b)\<rparr>) draws"

definition wakeLiveLocked :: "borrowInFlight \<Rightarrow> borrowDraw \<Rightarrow> bool" where
  "wakeLiveLocked b d =
     ((case map_of (bEntries b) (keyOfDraw d) of None \<Rightarrow> False | Some e \<Rightarrow> bdWake e) \<or>
      list_ex (\<lambda>l. bdWake l \<and> keyOfDraw l = keyOfDraw d) (bLagging b))"

definition PendingWakeReclaims :: "gotime \<Rightarrow> borrowInFlight \<Rightarrow> borrowDraw list \<times> borrowInFlight" where
  "PendingWakeReclaims now b =
     (let left = filter (\<lambda>d. \<not> (InFlightTTL < time_sub now (bdOrderedAt d) \<or> \<not> wakeLiveLocked b d)) (bWakeReclaims b)
      in (left, b\<lparr>bWakeReclaims := left\<rparr>))"

definition YieldedWakeReclaims :: "borrowDraw list \<Rightarrow> borrowInFlight \<Rightarrow> borrowInFlight" where
  "YieldedWakeReclaims draws b =
     b\<lparr>bWakeReclaims := filter (\<lambda>d. \<not> list_ex (\<lambda>y. keyOfDraw y = keyOfDraw d \<and> bdOrderedAt y = bdOrderedAt d) draws) (bWakeReclaims b)\<rparr>"

definition WithoutVariants :: "string \<Rightarrow> (string, bool) gomap \<Rightarrow> unreserved \<Rightarrow> unreserved" where
  "WithoutVariants ns own u =
     (if own = [] then u else u\<lparr>uInFlight := filter (\<lambda>d. \<not> (bdNamespace d = ns \<and> mget False own (bdVariant d))) (uInFlight u)\<rparr>)"


subsection \<open>What a read does not show\<close>

definition readAfter :: "sharedPoolChunk \<Rightarrow> gotime option \<Rightarrow> bool" where
  "readAfter p t = (case (t, chReadAt p) of (Some t, Some r) \<Rightarrow> t < r | _ \<Rightarrow> False)"

definition drawAccelerator :: "borrowDraw \<Rightarrow> string" where
  "drawAccelerator d =
     (if bdAccelerator d \<noteq> [] then bdAccelerator d
      else case bdPlacement d of None \<Rightarrow> [] | Some f \<Rightarrow> flAcceleratorType f)"

text \<open>GPUs of gated or admitted pods: namespace, accelerator, how many.\<close>

type_synonym cover = "string \<times> string \<times> int"

definition gatedCovers :: "gatedGPUs \<Rightarrow> cover list" where
  "gatedCovers gated =
     concat (map (\<lambda>ns. map (\<lambda>acc. (ns, acc, mget 0 (mget [] gated ns) acc)) (sort (mkeys (mget [] gated ns)))) (sort (mkeys gated)))"

fun coverDraw :: "string \<Rightarrow> string \<Rightarrow> int \<Rightarrow> cover list \<Rightarrow> int \<times> cover list" where
  "coverDraw ns acc need [] = (need, [])"
| "coverDraw ns acc need ((cns, cacc, g) # covers) =
     (if need \<le> 0 then (need, (cns, cacc, g) # covers)
      else if cns \<noteq> ns \<or> g \<le> 0 \<or> \<not> (cacc = [] \<or> acc = [] \<or> SameName cacc acc)
      then let (left, rest) = coverDraw ns acc need covers in (left, (cns, cacc, g) # rest)
      else let n = min g need; (left, rest) = coverDraw ns acc (need - n) covers in (left, (cns, cacc, g - n) # rest))"

fun coverDraws :: "cover list \<Rightarrow> borrowDraw list \<Rightarrow> borrowDraw list" where
  "coverDraws covers [] = []"
| "coverDraws covers (d # ds) =
     (if bdResolvedAt d = None then d # coverDraws covers ds
      else let (left, rest) = coverDraw (bdNamespace d) (drawAccelerator d) (bdGPUs d) covers in d\<lparr>bdGPUs := left\<rparr> # coverDraws rest ds)"

definition lagCoveredByGated :: "borrowDraw list \<Rightarrow> gatedGPUs \<Rightarrow> admittedGPUs list \<Rightarrow> borrowDraw list" where
  "lagCoveredByGated draws gated admitted =
     (if gated = [] \<and> admitted = [] \<or> \<not> list_ex (\<lambda>d. bdResolvedAt d \<noteq> None) draws then draws
      else coverDraws (gatedCovers gated @ map (\<lambda>a. (agNamespace a, agAccelerator a, agGPUs a)) admitted) draws)"

definition anyPending :: "borrowConstraints option list \<Rightarrow> bool" where
  "anyPending constraints =
     list_ex (\<lambda>c. case c of None \<Rightarrow> False
       | Some c \<Rightarrow> NamespaceBorrow c \<noteq> None \<and> list_ex (\<lambda>p. 0 < chPendingGPUs p) (SharedPools c)) constraints"

definition reclaimOf :: "borrowDraw \<Rightarrow> reclaim" where
  "reclaimOf d = \<lparr>rcAfter = bdAfter d, rcKept = bdKept d, rcGPUs = bdGPUs d, needsHole = False\<rparr>"

definition Reclaim_pool :: "reclaim \<Rightarrow> int" where
  "Reclaim_pool r = max 0 (rcAfter r - max 0 (rcKept r))"

text \<open>What each draw in flight takes of the pool: a reclaim only the part of it the pool covers.\<close>

definition poolDraws :: "borrowDraw list \<Rightarrow> borrowDraw list" where
  "poolDraws ds =
     concat (map (\<lambda>d. if \<not> bdReclaim d then [d]
       else let pool = Reclaim_pool (reclaimOf d) in
         if pool \<le> 0 then [] else [d\<lparr>bdGPUs := pool, bdReclaim := False, bdClosesRestricted := False\<rparr>]) ds)"

definition drawsOn :: "borrowDraw \<Rightarrow> sharedPoolChunk \<Rightarrow> bool" where
  "drawsOn d p \<longleftrightarrow> chCohort p = bdCohort d \<and> chFlavor p = bdFlavor d \<and> chResource p = bdResource d \<and> \<not> readAfter p (bdResolvedAt d)"

definition deductDraw :: "borrowDraw \<Rightarrow> sharedPoolChunk \<Rightarrow> sharedPoolChunk" where
  "deductDraw d p =
     (if drawsOn d p then p\<lparr>chFree := max 0 (chFree p - bdGPUs d), restrictedClosed := restrictedClosed p \<or> bdClosesRestricted d\<rparr> else p)"

text \<open>Each chunk with what is left of it and what pods at or past the gate took of it.\<close>

type_synonym chunkLeft = "sharedPoolChunk \<times> int \<times> int"

fun chargePods :: "(sharedPoolChunk \<Rightarrow> bool) \<Rightarrow> int \<Rightarrow> chunkLeft list \<Rightarrow> chunkLeft list" where
  "chargePods ok n [] = []"
| "chargePods ok n ((p, left, from) # ps) =
     (if n \<le> 0 then (p, left, from) # ps
      else if \<not> ok p then (p, left, from) # chargePods ok n ps
      else let take = min left n in (p, left - take, from + take) # chargePods ok (n - take) ps)"

definition podsReach :: "borrowConstraints \<Rightarrow> string \<Rightarrow> string \<Rightarrow> gotime option \<Rightarrow> sharedPoolChunk \<Rightarrow> bool" where
  "podsReach c ns acc t p \<longleftrightarrow> chCohort p \<in> set (mget [] (NamespaceCohorts c) ns) \<and> (acc = [] \<or> serves p acc) \<and> \<not> readAfter p t"

definition podCharges :: "unreserved \<Rightarrow> (string \<times> string \<times> int \<times> gotime option) list" where
  "podCharges u = map (\<lambda>(ns, acc, n). (ns, acc, n, None)) (gatedCovers (uGated u)) @
     map (\<lambda>a. (agNamespace a, agAccelerator a, agGPUs a, Some (agAt a))) (uAdmitted u)"

definition deductPools :: "borrowDraw list \<Rightarrow> unreserved \<Rightarrow> borrowConstraints \<Rightarrow> sharedPoolChunk list" where
  "deductPools inFlight u c =
     (let pools = foldl (\<lambda>pools d. map (deductDraw d) pools) (SharedPools c) inFlight;
          charged = foldl (\<lambda>ps (ns, acc, n, t). chargePods (podsReach c ns acc t) n ps) (map (\<lambda>p. (p, chFree p, 0)) pools) (podCharges u)
      in map (\<lambda>(p, left, from). p\<lparr>chFree := max 0 (chFree p - max from (chPendingGPUs p))\<rparr>) charged)"

definition DeductUnreservedAt :: "borrowConstraints option list \<Rightarrow> unreserved \<Rightarrow> borrowConstraints option list" where
  "DeductUnreservedAt constraints u =
     (if \<not> HasBorrowing constraints \<or> uInFlight u = [] \<and> uGated u = [] \<and> uAdmitted u = [] \<and> \<not> anyPending constraints then constraints
      else let inFlight = lagCoveredByGated (poolDraws (uInFlight u)) (uGated u) (uAdmitted u) in
        map (\<lambda>c. case c of None \<Rightarrow> None
          | Some c \<Rightarrow> Some (if NamespaceBorrow c = None \<or> SharedPools c = [] then c else c\<lparr>SharedPools := deductPools inFlight u c\<rparr>)) constraints)"

definition DeductUnreserved :: "borrowConstraints option list \<Rightarrow> borrowDraw list \<Rightarrow> gatedGPUs \<Rightarrow> borrowConstraints option list" where
  "DeductUnreserved constraints inFlight gated = DeductUnreservedAt constraints \<lparr>uInFlight = inFlight, uGated = gated, uAdmitted = []\<rparr>"

definition BlockCohorts :: "borrowConstraints option list \<Rightarrow> (string, bool) gomap \<Rightarrow> borrowConstraints option list" where
  "BlockCohorts constraints cohorts =
     (if cohorts = [] \<or> \<not> HasBorrowing constraints then constraints
      else map (map_option (\<lambda>c. c\<lparr>SharedPools := map (\<lambda>p. if mget False cohorts (chCohort p) then p\<lparr>chFree := 0\<rparr> else p) (SharedPools c)\<rparr>)) constraints)"

subsection \<open>Growth by reclaim a read does not show\<close>

definition lessReclaimed :: "reclaim \<Rightarrow> namespaceBorrow \<Rightarrow> namespaceBorrow" where
  "lessReclaimed r b =
     (let left = Reclaim_sub \<lparr>rcAfter = nbPreemptAfter b, rcKept = nbPreemptKept b, rcGPUs = nbLentOut b, needsHole = False\<rparr> r
      in b\<lparr>nbLentOut := rcGPUs left, nbPreemptAfter := rcAfter left, nbPreemptKept := rcKept left\<rparr>)"

definition lessReclaimedNominal :: "reclaim \<Rightarrow> nominalFigures \<Rightarrow> nominalFigures" where
  "lessReclaimedNominal r f =
     (let left = Reclaim_sub \<lparr>rcAfter = nfPreemptAfter f, rcKept = nfPreemptKept f, rcGPUs = nfLentOut f, needsHole = False\<rparr> r
      in f\<lparr>nfLentOut := rcGPUs left, nfPreemptAfter := rcAfter left, nfPreemptKept := rcKept left\<rparr>)"

definition updateType :: "('v \<Rightarrow> 'v) \<Rightarrow> string \<Rightarrow> string \<Rightarrow> (string, (string, 'v) gomap) gomap \<Rightarrow> (string, (string, 'v) gomap) gomap" where
  "updateType f ns acc m =
     (let perType = mget [] m ns in
      case FindKey perType acc of None \<Rightarrow> m
      | Some k \<Rightarrow> (case map_of perType k of None \<Rightarrow> m | Some x \<Rightarrow> mput ns (mput k (f x) perType) m))"

definition deductReclaim :: "borrowConstraints \<Rightarrow> borrowDraw \<Rightarrow> borrowConstraints" where
  "deductReclaim c d =
     (if bdResolvedAt d \<noteq> None \<and> list_ex (\<lambda>p. chCohort p = bdCohort d \<and> chFlavor p = bdFlavor d \<and> chResource p = bdResource d \<and>
            readAfter p (bdResolvedAt d)) (SharedPools c) then c
      else c\<lparr>NamespaceBorrow := map_option (updateType (lessReclaimed (reclaimOf d)) (bdNamespace d) (bdAccelerator d)) (NamespaceBorrow c),
             NamespaceNominal := updateType (lessReclaimedNominal (reclaimOf d)) (bdNamespace d) (bdAccelerator d) (NamespaceNominal c)\<rparr>)"

definition DeductReclaimed :: "borrowConstraints option list \<Rightarrow> borrowDraw list \<Rightarrow> borrowConstraints option list" where
  "DeductReclaimed constraints inFlight =
     (let reclaims = filter (\<lambda>d. bdReclaim d \<and> (0 < bdGPUs d \<or> 0 < bdAfter d)) inFlight in
      if reclaims = [] then constraints
      else map (map_option (\<lambda>c.
        if (case NamespaceBorrow c of None \<Rightarrow> True | Some m \<Rightarrow> m = []) \<and> NamespaceNominal c = [] then c
        else foldl deductReclaim c reclaims)) constraints)"

definition reclaimFor :: "borrowConstraints option list \<Rightarrow> string \<Rightarrow> string \<Rightarrow> reclaim" where
  "reclaimFor constraints ns acc =
     (let rows = concat (map (\<lambda>c. case c of None \<Rightarrow> []
          | Some c \<Rightarrow> (case FindKey (borrowOf c ns) acc of
              Some k \<Rightarrow> (case map_of (borrowOf c ns) k of None \<Rightarrow> [] | Some b \<Rightarrow> [(nbLentOut b, nbPreemptAfter b, nbPreemptKept b)])
            | None \<Rightarrow> (case FindKey (mget [] (NamespaceNominal c) ns) acc of
                Some k \<Rightarrow> (case map_of (mget [] (NamespaceNominal c) ns) k of None \<Rightarrow> [] | Some f \<Rightarrow> [(nfLentOut f, nfPreemptAfter f, nfPreemptKept f)])
              | None \<Rightarrow> []))) constraints)
      in case rows of [] \<Rightarrow> zeroReclaim
         | (lent, after, kept) # rest \<Rightarrow>
             foldl (\<lambda>got (lent, after, kept). got\<lparr>rcGPUs := min (rcGPUs got) lent, rcAfter := max (rcAfter got) after, rcKept := min (rcKept got) kept\<rparr>)
               \<lparr>rcAfter = after, rcKept = min kept after, rcGPUs = lent, needsHole = False\<rparr> rest)"

end
