(* ===== verification/BorrowSafe.thy ===== *)
theory BorrowSafe
  imports BorrowFlight
begin

text \<open>
  What holds of borrowed growth in flight: GPUs ordered in one cycle are not offered again, and pods
  that come to exist move their draw and do not lose it.
\<close>

subsection \<open>Well-formed records\<close>

definition draw_ok :: "borrowDraw \<Rightarrow> bool" where
  "draw_ok d \<longleftrightarrow> 0 < bdReplicas d \<and> 0 \<le> bdGPUs d \<and> 0 \<le> bdAfter d \<and> 0 \<le> bdKept d"

definition record_ok :: "borrowInFlight \<Rightarrow> bool" where
  "record_ok b \<longleftrightarrow> gomap_ok (bEntries b) \<and> list_all (\<lambda>(k, d). keyOfDraw d = k \<and> draw_ok d \<and> bdResolvedAt d = None) (bEntries b) \<and>
     list_all (\<lambda>d. draw_ok d \<and> bdResolvedAt d \<noteq> None) (bLagging b)"

text \<open>All GPUs in flight or lagging whose key satisfies \<open>P\<close>, by a figure of the draw.\<close>

definition flying :: "(borrowDraw \<Rightarrow> int) \<Rightarrow> (inFlightKey \<Rightarrow> bool) \<Rightarrow> borrowInFlight \<Rightarrow> int" where
  "flying f P b = (\<Sum>(k, d) \<leftarrow> bEntries b. if P k then f d else 0) + (\<Sum>d \<leftarrow> bLagging b. if P (keyOfDraw d) then f d else 0)"

lemma partOf_bounds: "0 \<le> v \<Longrightarrow> 0 < r \<Longrightarrow> 0 \<le> n \<Longrightarrow> 0 \<le> partOf r n v \<and> partOf r n v \<le> v"
  by (simp add: partOf_def ceilDiv_def godiv_pos pos_imp_zdiv_nonneg_iff)

lemma partOf_none: "0 \<le> v \<Longrightarrow> partOf r 0 v = 0"
  by (simp add: partOf_def)

definition amount :: "(borrowDraw \<Rightarrow> int) \<Rightarrow> borrowDraw option \<Rightarrow> int" where
  "amount f x = (case x of None \<Rightarrow> 0 | Some d \<Rightarrow> f d)"

definition dropped :: "(string, variantObservation) gomap \<Rightarrow> gotime \<Rightarrow> borrowDraw \<Rightarrow> bool" where
  "dropped observed now d \<longleftrightarrow> InFlightTTL < time_sub now (bdOrderedAt d) \<or>
     \<not> bdWake d \<and> (case map_of observed (keyVariant (keyOfDraw d)) of None \<Rightarrow> True | Some v \<Rightarrow> 0 < voDesired v \<and> voDesired v < bdTarget d)"

text \<open>One draw split by what exists: what is left and what resolved make up the whole, or it is dropped.\<close>

lemma observeDraw_split:
  assumes "draw_ok d" and "observeDraw observed now (keyOfDraw d) d = (left, resolved)"
  shows "(\<forall>e. left = Some e \<longrightarrow> draw_ok e \<and> keyOfDraw e = keyOfDraw d \<and> bdResolvedAt e = bdResolvedAt d) \<and>
    (\<forall>e. resolved = Some e \<longrightarrow> draw_ok e \<and> keyOfDraw e = keyOfDraw d \<and> bdResolvedAt e = Some now) \<and>
    (dropped observed now d \<and> left = None \<and> resolved = None \<or> amount bdGPUs left + amount bdGPUs resolved = bdGPUs d \<and> amount bdAfter left + amount bdAfter resolved = bdAfter d)"
proof -
  define missing where "missing = max 0 (bdTarget d - voCurrent (the (map_of observed (keyVariant (keyOfDraw d)))))"
  define still where "still = replicasOf d missing"
  define resd where "resd = d\<lparr>bdReplicas := bdReplicas d - missing, bdGPUs := bdGPUs d - bdGPUs still, bdAfter := bdAfter d - bdAfter still,
    bdKept := min (bdAfter d - bdAfter still) (max 0 (bdKept d - bdKept still)), bdResolvedAt := Some now\<rparr>"
  have d: "0 < bdReplicas d" "0 \<le> bdGPUs d" "0 \<le> bdAfter d" "0 \<le> bdKept d" and m: "0 \<le> missing"
    using assms(1) by (simp_all add: draw_ok_def missing_def)
  note b = partOf_bounds [OF d(2,1) m] partOf_bounds [OF d(3,1) m] partOf_bounds [OF d(4,1) m]
  have st: "keyOfDraw still = keyOfDraw d" "bdResolvedAt still = bdResolvedAt d" "0 \<le> bdGPUs still" "bdGPUs still \<le> bdGPUs d"
    "0 \<le> bdAfter still" "bdAfter still \<le> bdAfter d" "0 \<le> bdKept still" "bdReplicas still = missing"
    using b by (simp_all add: still_def replicasOf_def keyOfDraw_def Let_def)
  have re: "keyOfDraw resd = keyOfDraw d" "bdResolvedAt resd = Some now" "bdGPUs resd = bdGPUs d - bdGPUs still" "bdAfter resd = bdAfter d - bdAfter still"
    by (simp_all add: resd_def keyOfDraw_def)
  have ok: "draw_ok resd" if "missing < bdReplicas d" using that st by (simp add: draw_ok_def resd_def)
  have zero: "bdGPUs still = 0 \<and> bdAfter still = 0" if "missing = 0" using that d partOf_none by (simp add: still_def replicasOf_def Let_def)
  have "dropped observed now d \<and> left = None \<and> resolved = None \<or> left = Some d \<and> resolved = None \<or>
      missing < bdReplicas d \<and> left = (if missing = 0 then None else Some still) \<and> resolved = (if 0 < bdGPUs resd \<or> 0 < bdAfter resd then Some resd else None)"
    using assms(2) unfolding observeDraw_def Let_def missing_def [symmetric] still_def [symmetric] resd_def [symmetric] dropped_def
    by (auto simp: not_le split: if_splits option.splits)
  then consider "dropped observed now d" "left = None" "resolved = None" | "left = Some d" "resolved = None"
    | "missing < bdReplicas d" "left = (if missing = 0 then None else Some still)" "resolved = (if 0 < bdGPUs resd \<or> 0 < bdAfter resd then Some resd else None)"
    by blast
  then show ?thesis
  proof cases
    case 3
    have "draw_ok still" if "missing \<noteq> 0" using that st m by (simp add: draw_ok_def)
    then show ?thesis using 3 st re ok zero by (auto simp: amount_def)
  qed (use assms(1) in \<open>auto simp: amount_def\<close>)
qed


lemma observeDraw_parts:
  assumes "draw_ok d" and "keyOfDraw d = k"
  shows "fst (observeDraw observed now k d) = Some e \<Longrightarrow> draw_ok e \<and> keyOfDraw e = k \<and> bdResolvedAt e = bdResolvedAt d"
    and "snd (observeDraw observed now k d) = Some e \<Longrightarrow> draw_ok e \<and> keyOfDraw e = k \<and> bdResolvedAt e = Some now"
    and "f = bdGPUs \<or> f = bdAfter \<Longrightarrow> amount f (fst (observeDraw observed now k d)) + amount f (snd (observeDraw observed now k d)) \<le> f d"
    and "f = bdGPUs \<or> f = bdAfter \<Longrightarrow> \<not> dropped observed now d \<Longrightarrow>
      amount f (fst (observeDraw observed now k d)) + amount f (snd (observeDraw observed now k d)) = f d"
proof -
  note s = observeDraw_split [OF assms(1), of observed now, OF prod.collapse [symmetric], unfolded assms(2)]
  show "draw_ok e \<and> keyOfDraw e = k \<and> bdResolvedAt e = bdResolvedAt d" if "fst (observeDraw observed now k d) = Some e"
    using conjunct1 [OF s] that by blast
  show "draw_ok e \<and> keyOfDraw e = k \<and> bdResolvedAt e = Some now" if "snd (observeDraw observed now k d) = Some e"
    using conjunct1 [OF conjunct2 [OF s]] that by blast
  show le: "amount f (fst (observeDraw observed now k d)) + amount f (snd (observeDraw observed now k d)) \<le> f d" if "f = bdGPUs \<or> f = bdAfter"
    using conjunct2 [OF conjunct2 [OF s]] that assms(1) by (elim disjE) (simp_all add: amount_def draw_ok_def)
  show "amount f (fst (observeDraw observed now k d)) + amount f (snd (observeDraw observed now k d)) = f d"
    if "f = bdGPUs \<or> f = bdAfter" "\<not> dropped observed now d"
    using conjunct2 [OF conjunct2 [OF s]] that by (elim disjE) simp_all
qed

lemma sum_left:
  "(\<Sum>(k, d) \<leftarrow> List.map_filter (\<lambda>(k, d). map_option (Pair k) (g k d)) es. if P k then f d else 0) = (\<Sum>(k, d) \<leftarrow> es. if P k then amount f (g k d) else 0)"
  by (induction es) (auto simp: map_filter_simps amount_def split: option.split)

lemma sum_resolved:
  assumes "\<And>k d e. (k, d) \<in> set es \<Longrightarrow> g k d = Some e \<Longrightarrow> keyOfDraw e = k"
  shows "(\<Sum>d \<leftarrow> List.map_filter (\<lambda>(k, d). g k d) es. if P (keyOfDraw d) then f d else 0) = (\<Sum>(k, d) \<leftarrow> es. if P k then amount f (g k d) else 0)"
  using assms
proof (induction es)
  case (Cons x es)
  obtain k d where x: "x = (k, d)" by (cases x)
  have IH: "(\<Sum>d \<leftarrow> List.map_filter (\<lambda>(k, d). g k d) es. if P (keyOfDraw d) then f d else 0) = (\<Sum>(k, d) \<leftarrow> es. if P k then amount f (g k d) else 0)"
    by (rule Cons.IH) (erule (1) Cons.prems [OF list.set_intros(2)])
  show ?case
  proof (cases "g k d")
    case (Some e)
    then have "keyOfDraw e = k" using Cons.prems [of k d e] by (simp add: x)
    then show ?thesis using IH Some by (simp add: x map_filter_simps amount_def)
  qed (use IH in \<open>simp add: x map_filter_simps amount_def\<close>)
qed (simp add: map_filter_simps)

lemma sum_pairs_add:
  "(\<Sum>(k, d) \<leftarrow> es. if P k then g k d else 0) + (\<Sum>(k, d) \<leftarrow> es. if P k then h k d else 0) = (\<Sum>(k, d) \<leftarrow> es. if P k then g k d + h k d else (0 :: int))"
  by (induction es) (auto simp: case_prod_unfold)

lemma mkeys_map_filter: "set (mkeys (List.map_filter (\<lambda>(k, d). map_option (Pair k) (g k d)) es)) \<subseteq> set (mkeys es)"
  by (force simp: List.map_filter_def mkeys_def)

lemma map_filter_entries:
  assumes "gomap_ok es" and "list_all (\<lambda>(k, d). Q k d) es" and "\<And>k d e. Q k d \<Longrightarrow> g k d = Some e \<Longrightarrow> R k e"
  shows "gomap_ok (List.map_filter (\<lambda>(k, d). map_option (Pair k) (g k d)) es) \<and>
    list_all (\<lambda>(k, d). R k d) (List.map_filter (\<lambda>(k, d). map_option (Pair k) (g k d)) es)"
  using assms(1,2)
proof (induction es)
  case (Cons x es)
  obtain k d where x: "x = (k, d)" by (cases x)
  have k: "k \<notin> set (mkeys es)" "gomap_ok es" "Q k d" "list_all (\<lambda>(k, d). Q k d) es" using Cons.prems by (simp_all add: x gomap_ok_def mkeys_def)
  note IH = Cons.IH [OF k(2,4)]
  show ?case
  proof (cases "g k d")
    case None
    then show ?thesis using IH by (simp add: x map_filter_simps)
  next
    case (Some e)
    have "k \<notin> set (mkeys (List.map_filter (\<lambda>(k, d). map_option (Pair k) (g k d)) es))" using mkeys_map_filter [of g es] k(1) by blast
    then show ?thesis using IH Some assms(3) [OF k(3) Some] by (simp add: x map_filter_simps gomap_ok_def mkeys_def)
  qed
qed (simp add: map_filter_simps gomap_ok_def mkeys_def)

lemma ObserveAt_record_ok:
  assumes "record_ok b"
  shows "record_ok (ObserveAt observed now b)"
proof -
  have es: "list_all (\<lambda>(k, d). keyOfDraw d = k \<and> draw_ok d \<and> bdResolvedAt d = None) (bEntries b)" and g: "gomap_ok (bEntries b)"
    and l: "list_all (\<lambda>d. draw_ok d \<and> bdResolvedAt d \<noteq> None) (bLagging b)"
    using assms by (simp_all add: record_ok_def)
  have be: "bEntries (ObserveAt observed now b) = List.map_filter (\<lambda>(k, d). map_option (Pair k) (fst (observeDraw observed now k d))) (bEntries b)"
    by (simp add: ObserveAt_def)
  have left: "keyOfDraw e = k \<and> draw_ok e \<and> bdResolvedAt e = None"
    if "keyOfDraw d = k \<and> draw_ok d \<and> bdResolvedAt d = None" "fst (observeDraw observed now k d) = Some e" for k d e
    using observeDraw_parts(1) [OF _ _ that(2)] that(1) by simp
  have e: "gomap_ok (bEntries (ObserveAt observed now b)) \<and> list_all (\<lambda>(k, d). keyOfDraw d = k \<and> draw_ok d \<and> bdResolvedAt d = None) (bEntries (ObserveAt observed now b))"
    unfolding be by (rule map_filter_entries [OF g es left])
  have "draw_ok e \<and> bdResolvedAt e \<noteq> None" if "e \<in> set (List.map_filter (\<lambda>(k, d). snd (observeDraw observed now k d)) (bEntries b))" for e
  proof -
    from that obtain k d where kd: "(k, d) \<in> set (bEntries b)" "snd (observeDraw observed now k d) = Some e" by (auto simp: List.map_filter_def)
    then have "keyOfDraw d = k" "draw_ok d" using es by (auto simp: list_all_iff)
    from observeDraw_parts(2) [OF this(2,1) kd(2)] show ?thesis by simp
  qed
  then have "list_all (\<lambda>d. draw_ok d \<and> bdResolvedAt d \<noteq> None) (bLagging (ObserveAt observed now b))"
    using l unfolding list_all_iff by (auto simp: ObserveAt_def)
  then show ?thesis using e by (simp add: record_ok_def)
qed


subsection \<open>Everything that changes the record\<close>

datatype borrowOp =
    RecordOp "borrowDraw list" gotime
  | WakeOp "borrowDraw list" gotime
  | ObserveOp "(string, variantObservation) gomap" gotime
  | TrimOp "(string, int) gomap"
  | CycleOp "gatedGPUs option" "admittedGPUs list" "(string, bool) gomap option" gotime
  | PendingOp gotime
  | YieldedOp "borrowDraw list"

fun runBorrow :: "borrowInFlight \<Rightarrow> borrowOp \<Rightarrow> borrowInFlight" where
  "runBorrow b (RecordOp ds now) = RecordAt ds now b"
| "runBorrow b (WakeOp ds now) = RecordWake ds now b"
| "runBorrow b (ObserveOp observed now) = ObserveAt observed now b"
| "runBorrow b (TrimOp targets) = Trim targets b"
| "runBorrow b (CycleOp gated admitted blocked now) = SetCycle gated admitted blocked now b"
| "runBorrow b (PendingOp now) = snd (PendingWakeReclaims now b)"
| "runBorrow b (YieldedOp ds) = YieldedWakeReclaims ds b"

text \<open>A pass credits no more than it draws, and a wake's figures are not negative.\<close>

fun op_ok :: "borrowOp \<Rightarrow> bool" where
  "op_ok (RecordOp ds now) = list_all (\<lambda>d. bdCreditGPUs d \<le> bdGPUs d \<and> bdCreditAfter d \<le> bdAfter d) ds"
| "op_ok (WakeOp ds now) = list_all (\<lambda>d. 0 \<le> bdAfter d \<and> 0 \<le> bdKept d) ds"
| "op_ok _ = True"

abbreviation entries_fine :: "(inFlightKey, borrowDraw) gomap \<Rightarrow> bool" where
  "entries_fine es \<equiv> gomap_ok es \<and> list_all (\<lambda>(k, d). keyOfDraw d = k \<and> draw_ok d \<and> bdResolvedAt d = None) es"

lemma entries_fine_get: "entries_fine es \<Longrightarrow> map_of es k = Some d \<Longrightarrow> draw_ok d"
  using list_all_iff [of _ es] by (auto dest!: map_of_SomeD)

lemma recordDraw_fine:
  assumes "entries_fine es" and "bdCreditGPUs d \<le> bdGPUs d" and "bdCreditAfter d \<le> bdAfter d"
  shows "entries_fine (recordDraw now es d)"
proof -
  define new where "new = (case map_of es (keyOfDraw d) of None \<Rightarrow> uncredited now d | Some prev \<Rightarrow> onTop prev (uncredited now d))"
  have n: "0 \<le> bdGPUs new \<and> 0 \<le> bdAfter new \<and> 0 \<le> bdKept new \<and> keyOfDraw new = keyOfDraw d \<and> bdResolvedAt new = None"
  proof (cases "map_of es (keyOfDraw d)")
    case None
    then show ?thesis using assms(2,3) by (simp add: new_def uncredited_def keyOfDraw_def)
  next
    case (Some prev)
    then show ?thesis using assms(2,3) entries_fine_get [OF assms(1) Some] by (simp add: new_def uncredited_def onTop_def keyOfDraw_def draw_ok_def)
  qed
  show ?thesis unfolding recordDraw_def Let_def new_def [symmetric]
    using assms(1) n by (auto simp: gomap_ok_mput draw_ok_def intro!: list_all_mput)
qed

lemma RecordAt_ok: "record_ok b \<Longrightarrow> op_ok (RecordOp ds now) \<Longrightarrow> record_ok (RecordAt ds now b)"
proof -
  have "entries_fine (foldl (recordDraw now) es ds)" if "entries_fine es" "op_ok (RecordOp ds now)" for es
    using that by (induction ds arbitrary: es) (simp_all add: recordDraw_fine)
  then show "record_ok b \<Longrightarrow> op_ok (RecordOp ds now) \<Longrightarrow> record_ok (RecordAt ds now b)" by (simp add: record_ok_def RecordAt_def)
qed

lemma RecordWake_ok: "record_ok b \<Longrightarrow> op_ok (WakeOp ds now) \<Longrightarrow> record_ok (RecordWake ds now b)"
proof -
  have step: "record_ok (recordWakeDraw now b d)" if "record_ok b" "0 \<le> bdAfter d" "0 \<le> bdKept d" for b d
    using that by (auto simp: record_ok_def recordWakeDraw_def Let_def gomap_ok_mput draw_ok_def keyOfDraw_def intro!: list_all_mput)
  have "record_ok (foldl (recordWakeDraw now) b ds)" if "record_ok b" "op_ok (WakeOp ds now)" for b
    using that by (induction ds arbitrary: b) (simp_all add: step)
  then show "record_ok b \<Longrightarrow> op_ok (WakeOp ds now) \<Longrightarrow> record_ok (RecordWake ds now b)" by (simp add: RecordWake_def record_ok_def)
qed

lemma trimDraw_fine:
  assumes "keyOfDraw d = k \<and> draw_ok d \<and> bdResolvedAt d = None" and "trimDraw targets k d = Some e"
  shows "keyOfDraw e = k \<and> draw_ok e \<and> bdResolvedAt e = None"
proof -
  have d: "0 < bdReplicas d" "0 \<le> bdGPUs d" "0 \<le> bdAfter d" "0 \<le> bdKept d" using assms(1) by (simp_all add: draw_ok_def)
  have "e = d \<or> (\<exists>n t. 0 < n \<and> e = (replicasOf d n)\<lparr>bdTarget := t\<rparr>)"
  proof (cases "map_of targets (keyVariant k)")
    case None
    then show ?thesis using assms(2) by (simp add: trimDraw_def)
  next
    case (Some t)
    let ?n = "bdReplicas d - (bdTarget d - t)"
    have "e = d \<or> 0 < ?n \<and> e = (replicasOf d ?n)\<lparr>bdTarget := t\<rparr>"
      using assms(2) Some by (cases "bdWake d"; cases "bdTarget d - t \<le> 0"; cases "0 < ?n") (simp_all add: trimDraw_def TrimmedTo_def Let_def)
    then show ?thesis by blast
  qed
  then show ?thesis
  proof (elim disjE exE conjE)
    fix n t assume n: "0 < n" and e: "e = (replicasOf d n)\<lparr>bdTarget := t\<rparr>"
    note b = partOf_bounds [OF d(2,1), of n] partOf_bounds [OF d(3,1), of n] partOf_bounds [OF d(4,1), of n]
    have "keyOfDraw e = keyOfDraw d \<and> bdResolvedAt e = bdResolvedAt d" by (simp add: e replicasOf_def keyOfDraw_def Let_def)
    moreover have "draw_ok e" using n b by (simp add: e draw_ok_def replicasOf_def Let_def)
    ultimately show ?thesis using assms(1) by simp
  qed (use assms(1) in simp)
qed

lemma Trim_ok:
  assumes "record_ok b"
  shows "record_ok (Trim targets b)"
proof (cases "targets = []")
  case False
  have es: "gomap_ok (bEntries b)" "list_all (\<lambda>(k, d). keyOfDraw d = k \<and> draw_ok d \<and> bdResolvedAt d = None) (bEntries b)"
    using assms by (simp_all add: record_ok_def)
  have be: "bEntries (Trim targets b) = List.map_filter (\<lambda>(k, d). map_option (Pair k) (trimDraw targets k d)) (bEntries b)"
    using False by (simp add: Trim_def)
  have "entries_fine (bEntries (Trim targets b))" unfolding be by (rule map_filter_entries [OF es trimDraw_fine])
  moreover have "bLagging (Trim targets b) = bLagging b" by (simp add: Trim_def)
  ultimately show ?thesis using assms unfolding record_ok_def by (simp only: simp_thms)
qed (use assms in \<open>simp add: Trim_def\<close>)

lemma runBorrow_ok:
  assumes "record_ok b" and "op_ok x"
  shows "record_ok (runBorrow b x)"
proof (cases x)
  case (RecordOp ds now)
  then show ?thesis using RecordAt_ok [OF assms(1), of ds now] assms(2) by simp
next
  case (WakeOp ds now)
  then show ?thesis using RecordWake_ok [OF assms(1), of ds now] assms(2) by simp
qed (use assms(1) ObserveAt_record_ok [OF assms(1)] Trim_ok [OF assms(1)] in
  \<open>simp_all add: record_ok_def SetCycle_def PendingWakeReclaims_def YieldedWakeReclaims_def Let_def\<close>)

lemma runs_record_ok: "list_all op_ok ops \<Longrightarrow> record_ok (foldl runBorrow NewBorrowInFlight ops)"
proof -
  have "record_ok (foldl runBorrow b ops)" if "record_ok b" "list_all op_ok ops" for b
    using that by (induction ops arbitrary: b) (simp_all add: runBorrow_ok)
  moreover have "record_ok NewBorrowInFlight" by (simp add: record_ok_def NewBorrowInFlight_def gomap_ok_def mkeys_def)
  ultimately show "list_all op_ok ops \<Longrightarrow> record_ok (foldl runBorrow NewBorrowInFlight ops)" by blast
qed

text \<open>An example: one replica of eight GPUs borrowed from a chunk of twenty.\<close>

definition exDraw :: borrowDraw where
  "exDraw = \<lparr>bdNamespace = ''a'', bdModelID = ''m'', bdVariant = ''v'', bdCohort = ''c'', bdFlavor = ''f'', bdResource = ''gpu'', bdGPUs = 8,
     bdReplicas = 1, bdTarget = 2, bdPlacement = None, bdOrderedAt = 0, bdResolvedAt = None, bdCreditGPUs = 0, bdCreditReplicas = 0, bdReclaim = False,
     bdAfter = 0, bdKept = 0, bdCreditAfter = 0, bdCreditKept = 0, bdAccelerator = [], bdNoHole = False, bdClosesRestricted = False, bdWake = False\<rparr>"

definition exFlavor :: flavorPlacement where
  "exFlavor = \<lparr>flAcceleratorType = ''H100'', flNodeLabels = [], flTolerations = [], flTopologyName = []\<rparr>"

definition exChunk :: sharedPoolChunk where
  "exChunk = \<lparr>chCohort = ''c'', chFlavor = ''f'', chResource = ''gpu'', chPlacement = exFlavor, chFree = 20, chLenders = [], chReadAt = Some 150,
     chStale = False, chPendingGPUs = 4, chCoFree = [], chCoUnbound = [], chRestricted = [], chClassPriority = [], chBorrowed = 0,
     chBorrowerPriority = None, chBorrowerLowest = None, chEvictingGPUs = 0, chEvictionsRead = True, chStuckEvictingGPUs = 0,
     chReleaseToNonReclaiming = False, chRawFree = 20, restrictedClosed = False\<rparr>"

definition exBorrowing :: borrowConstraints where
  "exBorrowing = \<lparr>ProviderName = ''quota'', Pools = [], NamespacePools = Some [], NamespaceScoped = True, TotalLimit = 0, TotalUsed = 0, TotalAvail = 0,
     rcPoolsVersion = 0, NamespaceBorrow = Some [], SharedPools = [exChunk], NamespaceCohorts = [(''a'', [''c''])], BorrowWithheld = [],
     NamespaceNominal = [], KueueBacked = True, KueueCountsBorrowing = True, CountedBorrow = None\<rparr>"

abbreviation exRecord :: borrowInFlight where
  "exRecord \<equiv> foldl runBorrow NewBorrowInFlight [RecordOp [exDraw] 100]"

text \<open>
  C23. Pods that come to exist move their draw, they do not lose it: settling the record never makes
  more of it, and while every draw's variant is observed, asked for and in time, the GPUs in flight
  and lagging of every namespace, variant and chunk together are exactly what they were, so a read
  that does not show the new pods yet still has their GPUs deducted. The same holds of the growth
  Kueue admits before it preempts.
\<close>

theorem observed_draws_conserved:
  assumes "record_ok b" and "f = bdGPUs \<or> f = bdAfter"
  shows "flying f P (ObserveAt observed now b) \<le> flying f P b \<and>
    (list_all (\<lambda>(_, d). \<not> dropped observed now d) (bEntries b) \<and> list_all (laggingKept observed now) (bLagging b) \<longrightarrow>
      flying f P (ObserveAt observed now b) = flying f P b)"
proof -
  let ?l = "\<lambda>k d. fst (observeDraw observed now k d)" and ?r = "\<lambda>k d. snd (observeDraw observed now k d)"
  let ?lag = "\<lambda>ds. \<Sum>d \<leftarrow> ds. if P (keyOfDraw d) then f d else 0"
  have es: "draw_ok d" "keyOfDraw d = k" if "(k, d) \<in> set (bEntries b)" for k d using assms(1) that by (auto simp: record_ok_def list_all_iff)
  have key: "keyOfDraw e = k" if "(k, d) \<in> set (bEntries b)" "?r k d = Some e" for k d e
    using observeDraw_parts(2) [OF es [OF that(1)] that(2)] by simp
  have fly: "flying f P (ObserveAt observed now b) =
      (\<Sum>(k, d) \<leftarrow> bEntries b. if P k then amount f (?l k d) + amount f (?r k d) else 0) + ?lag (filter (laggingKept observed now) (bLagging b))"
    using sum_left [of P f ?l "bEntries b"] sum_resolved [of "bEntries b" ?r P f, OF key] sum_pairs_add [of P "\<lambda>k d. amount f (?l k d)" "bEntries b" "\<lambda>k d. amount f (?r k d)"]
    by (simp add: flying_def ObserveAt_def)
  have entries: "(\<Sum>(k, d) \<leftarrow> bEntries b. if P k then amount f (?l k d) + amount f (?r k d) else 0) \<le> (\<Sum>(k, d) \<leftarrow> bEntries b. if P k then f d else 0)"
    by (intro sum_list_mono) (use observeDraw_parts(3) [OF es assms(2)] in \<open>auto split: prod.split\<close>)
  have lag: "?lag (filter (laggingKept observed now) (bLagging b)) \<le> ?lag (bLagging b)"
  proof -
    have "?lag (filter Q ds) \<le> ?lag ds" if "list_all (\<lambda>d. 0 \<le> f d) ds" for Q ds using that by (induction ds) auto
    moreover have "list_all (\<lambda>d. 0 \<le> f d) (bLagging b)" using assms by (auto simp: record_ok_def draw_ok_def list_all_iff)
    ultimately show ?thesis by blast
  qed
  have same: "(\<Sum>(k, d) \<leftarrow> bEntries b. if P k then amount f (?l k d) + amount f (?r k d) else 0) = (\<Sum>(k, d) \<leftarrow> bEntries b. if P k then f d else 0)"
    if "list_all (\<lambda>(_, d). \<not> dropped observed now d) (bEntries b)"
  proof (intro arg_cong [of _ _ sum_list] map_cong refl)
    fix x assume x: "x \<in> set (bEntries b)"
    obtain k d where kd: "x = (k, d)" by (cases x)
    have "\<not> dropped observed now d" using that x kd by (auto simp: list_all_iff)
    from observeDraw_parts(4) [OF es [OF x [unfolded kd]] assms(2) this]
    show "(case x of (k, d) \<Rightarrow> if P k then amount f (?l k d) + amount f (?r k d) else 0) = (case x of (k, d) \<Rightarrow> if P k then f d else 0)" by (simp add: kd)
  qed
  have "filter (laggingKept observed now) (bLagging b) = bLagging b" if "list_all (laggingKept observed now) (bLagging b)"
    using that by (simp add: list_all_iff filter_id_conv)
  then show ?thesis unfolding fly using entries lag same by (simp add: flying_def)
qed


theorem observed_draws_conserved_witness:
  "(let after = ObserveAt [(''a/v'', \<lparr>voCurrent = 2, voDesired = 2\<rparr>)] 200 exRecord
    in flying bdGPUs (\<lambda>_. True) after = 8 \<and> flying bdGPUs (\<lambda>_. True) exRecord = 8 \<and> bEntries after = [])"
proof -
  let ?o = "[(''a/v'', \<lparr>voCurrent = 2, voDesired = 2\<rparr>)] :: (string, variantObservation) gomap"
  have ok: "record_ok exRecord" by (rule runs_record_ok) code_simp
  have "list_all (\<lambda>(_, d). \<not> dropped ?o 200 d) (bEntries exRecord) \<and> list_all (laggingKept ?o 200) (bLagging exRecord)" by code_simp
  then have "flying bdGPUs (\<lambda>_. True) (ObserveAt ?o 200 exRecord) = flying bdGPUs (\<lambda>_. True) exRecord"
    using observed_draws_conserved [OF ok, of bdGPUs "\<lambda>_. True" ?o 200] by blast
  moreover have "flying bdGPUs (\<lambda>_. True) exRecord = 8" by code_simp
  moreover have "bEntries (ObserveAt ?o 200 exRecord) = []" by code_simp
  ultimately show ?thesis by (simp add: Let_def)
qed

subsection \<open>What is offered to the next pass\<close>

lemma deductDraw_reads:
  "chCohort (deductDraw d p) = chCohort p" "chFlavor (deductDraw d p) = chFlavor p" "chResource (deductDraw d p) = chResource p"
  "chPendingGPUs (deductDraw d p) = chPendingGPUs p" "chReadAt (deductDraw d p) = chReadAt p"
  by (simp_all add: deductDraw_def)

lemma drawsOn_deduct: "drawsOn e (deductDraw d p) = drawsOn e p"
  by (simp add: drawsOn_def readAfter_def deductDraw_reads)

definition takenOn :: "sharedPoolChunk \<Rightarrow> borrowDraw list \<Rightarrow> int" where
  "takenOn p ds = (\<Sum>d \<leftarrow> ds. if drawsOn d p then bdGPUs d else 0)"

lemma takenOn_nonneg: "list_all (\<lambda>d. 0 \<le> bdGPUs d) ds \<Longrightarrow> 0 \<le> takenOn p ds"
  unfolding takenOn_def by (intro sum_list_nonneg) (auto simp: list_all_iff)

lemma deductDraws_free:
  assumes "list_all (\<lambda>d. 0 \<le> bdGPUs d) ds" and "0 \<le> chFree p"
  defines "q \<equiv> foldl (\<lambda>p d. deductDraw d p) p ds"
  shows "chFree q = max 0 (chFree p - takenOn p ds) \<and> chCohort q = chCohort p \<and> chFlavor q = chFlavor p \<and> chResource q = chResource p \<and>
    chPendingGPUs q = chPendingGPUs p"
  using assms(1,2) unfolding q_def
proof (induction ds arbitrary: p)
  case (Cons d ds)
  have "0 \<le> chFree (deductDraw d p)" using Cons.prems by (simp add: deductDraw_def)
  note IH = Cons.IH [OF _ this]
  have "takenOn (deductDraw d p) ds = takenOn p ds" by (simp add: takenOn_def drawsOn_deduct)
  moreover have "0 \<le> takenOn p ds" using takenOn_nonneg Cons.prems(1) by simp
  moreover have "chFree (deductDraw d p) = max 0 (chFree p - (if drawsOn d p then bdGPUs d else 0))" using Cons.prems by (simp add: deductDraw_def)
  moreover have "takenOn p (d # ds) = (if drawsOn d p then bdGPUs d else 0) + takenOn p ds" by (simp add: takenOn_def)
  ultimately show ?case using IH Cons.prems by (simp add: deductDraw_reads max_def)
qed (simp add: takenOn_def)

lemma deduct_fold: "foldl (\<lambda>pools d. map (deductDraw d) pools) ps ds = map (\<lambda>p. foldl (\<lambda>p d. deductDraw d p) p ds) ps"
  by (induction ds arbitrary: ps) (simp_all add: comp_def)

lemma chargePods_fst: "map fst (chargePods ok n ps) = map fst ps"
  by (induction ok n ps rule: chargePods.induct) (auto simp: Let_def)

lemma chargePods_nonneg:
  "list_all (\<lambda>(_, left, from). 0 \<le> left \<and> 0 \<le> from) ps \<Longrightarrow> list_all (\<lambda>(_, left, from). 0 \<le> left \<and> (0 :: int) \<le> from) (chargePods ok n ps)"
  by (induction ok n ps rule: chargePods.induct) (auto simp: Let_def)

lemma chargePods_fold:
  "list_all (\<lambda>(_, left, from). 0 \<le> left \<and> 0 \<le> from) ps \<Longrightarrow>
    map fst (foldl (\<lambda>ps (ns, acc, n, t). chargePods (podsReach c ns acc t) n ps) ps cs) = map fst ps \<and>
    list_all (\<lambda>(_, left, from). 0 \<le> left \<and> 0 \<le> from) (foldl (\<lambda>ps (ns, acc, n, t). chargePods (podsReach c ns acc t) n ps) ps cs)"
proof (induction cs arbitrary: ps)
  case (Cons x cs)
  obtain ns acc n t where x: "x = (ns, acc, n, t)" by (cases x)
  show ?case using Cons.IH [OF chargePods_nonneg [OF Cons.prems, of "podsReach c ns acc t" n]] by (simp add: x chargePods_fst)
qed simp

lemma deductPools_nth:
  fixes u :: unreserved
  assumes "list_all (\<lambda>p. 0 \<le> chFree p) (SharedPools c)" and "list_all (\<lambda>d. 0 \<le> bdGPUs d) ds" and "j < length (SharedPools c)"
  defines "p \<equiv> SharedPools c ! j" and "q \<equiv> deductPools ds u c ! j"
  shows "length (deductPools ds u c) = length (SharedPools c) \<and> chCohort q = chCohort p \<and> chFlavor q = chFlavor p \<and> chResource q = chResource p \<and>
    0 \<le> chFree q \<and> chFree q \<le> max 0 (chFree p - takenOn p ds - max 0 (chPendingGPUs p))"
proof -
  define pools where "pools = map (\<lambda>p. foldl (\<lambda>p d. deductDraw d p) p ds) (SharedPools c)"
  define ch where "ch = foldl (\<lambda>ps (ns, acc, n, t). chargePods (podsReach c ns acc t) n ps) (map (\<lambda>p. (p, chFree p, 0)) pools) (podCharges u)"
  have p0: "0 \<le> chFree p" using assms(1,3) by (simp add: p_def list_all_length)
  note f = deductDraws_free [OF assms(2) p0]
  have "list_all (\<lambda>(_, left, from). 0 \<le> left \<and> (0 :: int) \<le> from) (map (\<lambda>p. (p, chFree p, 0)) pools)"
    using assms(1) deductDraws_free [OF assms(2)] by (auto simp: list_all_iff pools_def)
  note fold = chargePods_fold [OF this, of c "podCharges u", folded ch_def]
  have len: "length ch = length (SharedPools c)" using arg_cong [OF conjunct1 [OF fold], of length] by (simp add: pools_def)
  obtain q0 left from' where x: "ch ! j = (q0, left, from')" by (cases "ch ! j")
  have q0: "q0 = foldl (\<lambda>p d. deductDraw d p) p ds"
    using arg_cong [OF conjunct1 [OF fold], of "\<lambda>xs. xs ! j"] assms(3) len x by (simp add: pools_def p_def comp_def)
  have from0: "0 \<le> from'" using conjunct2 [OF fold] len assms(3) x by (auto simp: list_all_length dest!: spec [of _ j])
  have dp: "deductPools ds u c = map (\<lambda>(p, left, from). p\<lparr>chFree := max 0 (chFree p - max from (chPendingGPUs p))\<rparr>) ch"
    by (simp add: deductPools_def Let_def deduct_fold ch_def pools_def)
  then have "q = q0\<lparr>chFree := max 0 (chFree q0 - max from' (chPendingGPUs q0))\<rparr>" using assms(3) len x by (simp add: q_def)
  then show ?thesis using f from0 len dp by (auto simp: q0)
qed


text \<open>Draws that are not resolved are left as they are; a lagging one loses what its own pods already take.\<close>

lemma coverDraw_bounds:
  "0 \<le> need \<Longrightarrow> 0 \<le> fst (coverDraw ns acc need covers) \<and> fst (coverDraw ns acc need covers) \<le> need"
proof (induction ns acc need covers rule: coverDraw.induct)
  case (2 ns acc need cns cacc g covers)
  show ?case
  proof (cases "need \<le> 0 \<or> cns \<noteq> ns \<or> g \<le> 0 \<or> \<not> (cacc = [] \<or> acc = [] \<or> SameName cacc acc)")
    case True
    then show ?thesis using 2 by (auto simp: case_prod_unfold Let_def)
  next
    case False
    then have "0 \<le> need - min g need" by simp
    from "2.IH"(2) [OF _ _ refl this] False show ?thesis by (auto simp: case_prod_unfold Let_def)
  qed
qed simp

lemma coverDraws_taken:
  "list_all (\<lambda>d. 0 \<le> bdGPUs d) ds \<Longrightarrow> list_all (\<lambda>d. 0 \<le> bdGPUs d) (coverDraws covers ds) \<and>
    takenOn p (filter (\<lambda>d. bdResolvedAt d = None) ds) \<le> takenOn p (coverDraws covers ds)"
proof (induction covers ds rule: coverDraws.induct)
  case (2 covers d ds)
  show ?case
  proof (cases "bdResolvedAt d")
    case None
    then show ?thesis using 2 by (simp add: takenOn_def)
  next
    case (Some t)
    obtain left rest where c: "coverDraw (bdNamespace d) (drawAccelerator d) (bdGPUs d) covers = (left, rest)" by fastforce
    have "0 \<le> left" using coverDraw_bounds [of "bdGPUs d" "bdNamespace d" "drawAccelerator d" covers] 2(3) c by simp
    moreover have "list_all (\<lambda>d. 0 \<le> bdGPUs d) (coverDraws rest ds) \<and> takenOn p (filter (\<lambda>d. bdResolvedAt d = None) ds) \<le> takenOn p (coverDraws rest ds)"
      using "2.IH"(2) [OF _ c [symmetric] refl] 2(3) Some by simp
    ultimately show ?thesis using Some c by (simp add: takenOn_def)
  qed
qed simp

text \<open>What pods at or past the gate can cover of the lagging draws, and that they cover no more.\<close>

definition coverSum :: "cover list \<Rightarrow> int" where
  "coverSum covers = (\<Sum>(_, _, g) \<leftarrow> covers. max 0 g)"

definition podCovers :: "gatedGPUs \<Rightarrow> admittedGPUs list \<Rightarrow> cover list" where
  "podCovers gated admitted = gatedCovers gated @ map (\<lambda>a. (agNamespace a, agAccelerator a, agGPUs a)) admitted"

lemma coverDraw_spent:
  "0 \<le> need \<Longrightarrow> need - fst (coverDraw ns acc need covers) + coverSum (snd (coverDraw ns acc need covers)) = coverSum covers"
proof (induction ns acc need covers rule: coverDraw.induct)
  case (2 ns acc need cns cacc g covers)
  show ?case
  proof (cases "need \<le> 0 \<or> cns \<noteq> ns \<or> g \<le> 0 \<or> \<not> (cacc = [] \<or> acc = [] \<or> SameName cacc acc)")
    case True
    then show ?thesis using 2 by (auto simp: case_prod_unfold Let_def coverSum_def)
  next
    case False
    then have "0 \<le> need - min g need" by simp
    from "2.IH"(2) [OF _ _ refl this] False show ?thesis by (auto simp: case_prod_unfold Let_def coverSum_def min_def)
  qed
qed (simp add: coverSum_def)

lemma coverSum_nonneg: "0 \<le> coverSum covers"
  unfolding coverSum_def by (intro sum_list_nonneg) auto

lemma coverDraws_spent:
  "list_all (\<lambda>d. 0 \<le> bdGPUs d) ds \<Longrightarrow> takenOn p ds - coverSum covers \<le> takenOn p (coverDraws covers ds)"
proof (induction covers ds rule: coverDraws.induct)
  case (1 covers)
  then show ?case using coverSum_nonneg by (simp add: takenOn_def)
next
  case (2 covers d ds)
  show ?case
  proof (cases "bdResolvedAt d")
    case None
    then show ?thesis using 2 by (simp add: takenOn_def)
  next
    case (Some t)
    obtain left rest where c: "coverDraw (bdNamespace d) (drawAccelerator d) (bdGPUs d) covers = (left, rest)" by fastforce
    have "bdGPUs d - left + coverSum rest = coverSum covers" "left \<le> bdGPUs d"
      using coverDraw_spent [of "bdGPUs d" "bdNamespace d" "drawAccelerator d" covers]
        coverDraw_bounds [of "bdGPUs d" "bdNamespace d" "drawAccelerator d" covers] 2(3) c by simp_all
    moreover have "takenOn p ds - coverSum rest \<le> takenOn p (coverDraws rest ds)"
      using "2.IH"(2) [OF _ c [symmetric] refl] 2(3) Some by simp
    moreover have "takenOn p (coverDraws covers (d # ds)) = (if drawsOn d p then left else 0) + takenOn p (coverDraws rest ds)"
      using Some c by (simp add: takenOn_def drawsOn_def)
    moreover have "takenOn p (d # ds) = (if drawsOn d p then bdGPUs d else 0) + takenOn p ds" by (simp add: takenOn_def)
    ultimately show ?thesis by simp
  qed
qed

lemma takenOn_split:
  "takenOn p ds = takenOn p (filter (\<lambda>d. bdResolvedAt d = None) ds) + takenOn p (filter (\<lambda>d. bdResolvedAt d \<noteq> None) ds)"
  by (induction ds) (simp_all add: takenOn_def)

lemma lagCovered_taken:
  assumes "list_all (\<lambda>d. 0 \<le> bdGPUs d) ds"
  shows "list_all (\<lambda>d. 0 \<le> bdGPUs d) (lagCoveredByGated ds gated admitted) \<and>
    takenOn p (filter (\<lambda>d. bdResolvedAt d = None) ds)
      + max 0 (takenOn p (filter (\<lambda>d. bdResolvedAt d \<noteq> None) ds) - coverSum (podCovers gated admitted))
    \<le> takenOn p (lagCoveredByGated ds gated admitted)"
proof -
  have "0 \<le> takenOn p (filter Q ds)" for Q using assms by (intro takenOn_nonneg) (auto simp: list_all_iff)
  then show ?thesis
    using coverDraws_taken [OF assms, of "podCovers gated admitted" p] coverDraws_spent [OF assms, of p "podCovers gated admitted"]
      assms takenOn_split [of p ds] coverSum_nonneg [of "podCovers gated admitted"]
    by (auto simp: lagCoveredByGated_def podCovers_def)
qed

text \<open>What a draw in flight takes of its chunk's pool.\<close>

definition takesOfPool :: "borrowDraw \<Rightarrow> int" where
  "takesOfPool d = (if bdReclaim d then Reclaim_pool (reclaimOf d) else bdGPUs d)"

definition onChunk :: "sharedPoolChunk \<Rightarrow> borrowDraw \<Rightarrow> bool" where
  "onChunk p d \<longleftrightarrow> chCohort p = bdCohort d \<and> chFlavor p = bdFlavor d \<and> chResource p = bdResource d"

definition orderedOn :: "gotime \<Rightarrow> sharedPoolChunk \<Rightarrow> borrowInFlight \<Rightarrow> int" where
  "orderedOn now p b = (\<Sum>d \<leftarrow> entriesLocked b. if \<not> InFlightTTL < time_sub now (bdOrderedAt d) \<and> onChunk p d then takesOfPool d else 0)"

definition laggingOn :: "gotime \<Rightarrow> sharedPoolChunk \<Rightarrow> borrowInFlight \<Rightarrow> int" where
  "laggingOn now p b = (\<Sum>d \<leftarrow> bLagging b. if laggingFresh now d \<and> drawsOn d p then takesOfPool d else 0)"

definition atGate :: "gotime \<Rightarrow> borrowInFlight \<Rightarrow> int" where
  "atGate now b = coverSum (podCovers (uGated (Unreserved now b)) (uAdmitted (Unreserved now b)))"

lemma poolDraws_append: "poolDraws (xs @ ys) = poolDraws xs @ poolDraws ys"
  by (simp add: poolDraws_def)

lemma poolDraws_taken:
  "list_all (\<lambda>d. 0 \<le> bdGPUs d) ds \<Longrightarrow> list_all (\<lambda>d. 0 \<le> bdGPUs d) (poolDraws ds)"
  "filter (\<lambda>d. Q (bdResolvedAt d)) (poolDraws ds) = poolDraws (filter (\<lambda>d. Q (bdResolvedAt d)) ds)"
  "takenOn p (poolDraws ds) = (\<Sum>d \<leftarrow> ds. if drawsOn d p then takesOfPool d else 0)"
proof -
  show "list_all (\<lambda>d. 0 \<le> bdGPUs d) (poolDraws ds)" if "list_all (\<lambda>d. 0 \<le> bdGPUs d) ds"
    using that by (auto simp: poolDraws_def list_all_iff Let_def split: if_splits)
  show "filter (\<lambda>d. Q (bdResolvedAt d)) (poolDraws ds) = poolDraws (filter (\<lambda>d. Q (bdResolvedAt d)) ds)"
    by (induction ds) (auto simp: poolDraws_def Let_def)
  show "takenOn p (poolDraws ds) = (\<Sum>d \<leftarrow> ds. if drawsOn d p then takesOfPool d else 0)"
  proof (induction ds)
    case (Cons d ds)
    have "0 \<le> Reclaim_pool r" for r by (simp add: Reclaim_pool_def)
    then have "Reclaim_pool (reclaimOf d) = 0" if "Reclaim_pool (reclaimOf d) \<le> 0" using that by (simp add: order_antisym)
    then show ?case using Cons by (auto simp: poolDraws_def takenOn_def drawsOn_def takesOfPool_def Let_def)
  qed (simp add: poolDraws_def takenOn_def)
qed

lemma sum_list_filter_if:
  "(\<Sum>d \<leftarrow> filter Q ds. if R d then f d else 0) = (\<Sum>d \<leftarrow> ds. if Q d \<and> R d then f d else (0 :: int))"
  by (induction ds) auto

lemma unreserved_taken:
  fixes now :: gotime
  assumes "record_ok b"
  defines "u \<equiv> Unreserved now b"
  shows "list_all (\<lambda>d. 0 \<le> bdGPUs d) (lagCoveredByGated (poolDraws (uInFlight u)) (uGated u) (uAdmitted u)) \<and>
    orderedOn now p b + max 0 (laggingOn now p b - atGate now b)
      \<le> takenOn p (lagCoveredByGated (poolDraws (uInFlight u)) (uGated u) (uAdmitted u))"
proof -
  define es where "es = filter (\<lambda>d. \<not> InFlightTTL < time_sub now (bdOrderedAt d)) (entriesLocked b)"
  define ls where "ls = filter (laggingFresh now) (bLagging b)"
  have u: "uInFlight u = es @ ls" by (simp add: u_def Unreserved_def es_def ls_def)
  have "draw_ok d \<and> bdResolvedAt d = None" if "d \<in> set (entriesLocked b)" for d
  proof -
    from that obtain k where k: "k \<in> set (mkeys (bEntries b))" "d = the (map_of (bEntries b) k)" by (auto simp: entriesLocked_def)
    then have "map_of (bEntries b) k = Some d" by (auto simp: mkeys_def dest!: weak_map_of_SomeI)
    then have "(k, d) \<in> set (bEntries b)" by (rule map_of_SomeD)
    then show ?thesis using assms(1) by (auto simp: record_ok_def list_all_iff)
  qed
  then have e: "list_all (\<lambda>d. 0 \<le> bdGPUs d) es" "list_all (\<lambda>d. bdResolvedAt d = None) es" by (auto simp: es_def list_all_iff draw_ok_def)
  have "list_all (\<lambda>d. 0 \<le> bdGPUs d) ls" using assms(1) by (auto simp: ls_def record_ok_def list_all_iff draw_ok_def)
  then have nn: "list_all (\<lambda>d. 0 \<le> bdGPUs d) (poolDraws (es @ ls))" using poolDraws_taken(1) [of "es @ ls"] e(1) by simp
  have l: "list_all (\<lambda>d. bdResolvedAt d \<noteq> None) ls" by (auto simp: ls_def list_all_iff laggingFresh_def split: option.splits)
  have "filter (\<lambda>d. bdResolvedAt d = None) (es @ ls) = es" "filter (\<lambda>d. bdResolvedAt d \<noteq> None) (es @ ls) = ls"
    using e(2) l by (auto simp: list_all_iff filter_empty_conv intro: filter_True)
  moreover have "orderedOn now p b = takenOn p (poolDraws es)"
  proof -
    have "drawsOn d p = onChunk p d" if "d \<in> set es" for d
      using e(2) that by (auto simp: drawsOn_def onChunk_def readAfter_def list_all_iff)
    then have "takenOn p (poolDraws es) = (\<Sum>d \<leftarrow> es. if onChunk p d then takesOfPool d else 0)"
      unfolding poolDraws_taken(3) by (intro arg_cong [of _ _ sum_list] map_cong) simp_all
    then show ?thesis by (simp add: orderedOn_def es_def sum_list_filter_if)
  qed
  moreover have "laggingOn now p b = takenOn p (poolDraws ls)"
    by (simp add: poolDraws_taken(3) laggingOn_def ls_def sum_list_filter_if)
  ultimately show ?thesis
    using lagCovered_taken [OF nn, of "uGated u" "uAdmitted u" p]
      poolDraws_taken(2) [of "\<lambda>t. t = None" "es @ ls"] poolDraws_taken(2) [of "\<lambda>t. t \<noteq> None" "es @ ls"]
    by (simp only: u atGate_def u_def [symmetric])
qed

text \<open>
  C24. GPUs ordered in one cycle are not offered again while they are in flight, nor after they
  resolve before a read shows them. Whatever was recorded and is in time, every chunk of every
  constraint that counts borrowing is offered to the next pass or wake with at most its free GPUs
  less all that is in flight from it, less what lags on it (resolved, and not in a later read of
  the chunk) beyond the GPUs of the gated and admitted pods, and less what its queues have pending;
  and never below nothing. A lagging draw those pods account for is charged through them instead,
  to the first chunk they reach, which need not be the chunk it was drawn from. A reclaim takes the
  part of it the pool covers.
\<close>

theorem ordered_gpus_not_offered:
  assumes "b = foldl runBorrow NewBorrowInFlight ops" and "list_all op_ok ops" and "i < length cs" and "cs ! i = Some c" and "NamespaceBorrow c \<noteq> None"
    and "list_all (\<lambda>p. 0 \<le> chFree p) (SharedPools c)" and "j < length (SharedPools c)"
  shows "\<exists>c'. DeductUnreservedAt cs (Unreserved now b) ! i = Some c' \<and> length (SharedPools c') = length (SharedPools c) \<and>
    (let p = SharedPools c ! j; q = SharedPools c' ! j
     in chunk_key q = chunk_key p \<and> 0 \<le> chFree q \<and>
       chFree q \<le> max 0 (chFree p - orderedOn now p b - max 0 (laggingOn now p b - atGate now b) - max 0 (chPendingGPUs p)))"
proof -
  let ?u = "Unreserved now b" and ?p = "SharedPools c ! j"
  define ds where "ds = lagCoveredByGated (poolDraws (uInFlight ?u)) (uGated ?u) (uAdmitted ?u)"
  have in_cs: "Some c \<in> set cs" using assms(3,4) nth_mem by metis
  have has: "HasBorrowing cs" using in_cs assms(5) unfolding HasBorrowing_def list_ex_iff by (intro bexI [of _ "Some c"]) simp_all
  have ok: "record_ok b" using runs_record_ok [OF assms(2)] by (simp add: assms(1))
  note t = unreserved_taken [OF ok, of now ?p, folded ds_def]
  show ?thesis
  proof (cases "uInFlight ?u = [] \<and> uGated ?u = [] \<and> uAdmitted ?u = [] \<and> \<not> anyPending cs")
    case True
    then have "orderedOn now ?p b + max 0 (laggingOn now ?p b - atGate now b) \<le> 0" using t by (simp add: ds_def poolDraws_def lagCoveredByGated_def takenOn_def)
    moreover have "chPendingGPUs ?p \<le> 0"
    proof (rule ccontr)
      assume "\<not> chPendingGPUs ?p \<le> 0"
      then have "list_ex (\<lambda>p. 0 < chPendingGPUs p) (SharedPools c)" using nth_mem [OF assms(7)] by (auto simp: list_ex_iff intro: bexI [of _ ?p])
      then have "anyPending cs" using in_cs assms(5) unfolding anyPending_def list_ex_iff by (intro bexI [of _ "Some c"]) simp_all
      then show False using True by simp
    qed
    moreover have "0 \<le> chFree ?p" using assms(6,7) by (simp add: list_all_length)
    ultimately show ?thesis using True assms(4) by (simp add: DeductUnreservedAt_def Let_def)
  next
    case False
    have "SharedPools c \<noteq> []" using assms(7) by auto
    then have "DeductUnreservedAt cs ?u ! i = Some (c\<lparr>SharedPools := deductPools ds ?u c\<rparr>)"
      using False has assms(3-5) by (auto simp: DeductUnreservedAt_def Let_def ds_def)
    moreover note deductPools_nth [OF assms(6) conjunct1 [OF t] assms(7), of ?u]
    ultimately show ?thesis using t by (auto simp: Let_def chunk_key_def)
  qed
qed

text \<open>The draw in flight, then the same draw resolved at 200, after the chunk was read at 150.\<close>

theorem ordered_gpus_not_offered_witness:
  "let ops = [RecordOp [exDraw] 100]; ops' = ops @ [ObserveOp [(''a/v'', \<lparr>voCurrent = 2, voDesired = 2\<rparr>)] 200];
       b = foldl runBorrow NewBorrowInFlight ops; b' = foldl runBorrow NewBorrowInFlight ops' in
   orderedOn 200 exChunk b = 8 \<and>
   (\<exists>c'. DeductUnreservedAt [Some exBorrowing] (Unreserved 200 b) ! 0 = Some c' \<and> chFree (SharedPools c' ! 0) \<le> 8) \<and>
   orderedOn 200 exChunk b' = 0 \<and> laggingOn 200 exChunk b' = 8 \<and>
   (\<exists>c'. DeductUnreservedAt [Some exBorrowing] (Unreserved 200 b') ! 0 = Some c' \<and> chFree (SharedPools c' ! 0) \<le> 8)"
proof -
  let ?ops = "[RecordOp [exDraw] 100]" and ?ops' = "[RecordOp [exDraw] 100, ObserveOp [(''a/v'', \<lparr>voCurrent = 2, voDesired = 2\<rparr>)] 200]"
  let ?b = "foldl runBorrow NewBorrowInFlight ?ops" and ?b' = "foldl runBorrow NewBorrowInFlight ?ops'"
  have sp: "SharedPools exBorrowing = [exChunk]" "NamespaceBorrow exBorrowing \<noteq> None" by (simp_all add: exBorrowing_def)
  have ops: "list_all op_ok ?ops" "list_all op_ok ?ops'" by code_simp+
  have o: "orderedOn 200 exChunk ?b = 8" "orderedOn 200 exChunk ?b' = 0" "laggingOn 200 exChunk ?b' = 8"
      "laggingOn 200 exChunk ?b = 0" "atGate 200 ?b = 0" "atGate 200 ?b' = 0"
    by code_simp+
  have ch: "chFree exChunk = 20" "chPendingGPUs exChunk = 4" by (simp_all add: exChunk_def)
  have "\<exists>c'. DeductUnreservedAt [Some exBorrowing] (Unreserved 200 ?b) ! 0 = Some c' \<and> chFree (SharedPools c' ! 0) \<le> 8"
    using ordered_gpus_not_offered [OF refl ops(1), of 0 "[Some exBorrowing]" exBorrowing 0 200] sp ch o
    by (auto simp: Let_def simp del: foldl.simps)
  moreover have "\<exists>c'. DeductUnreservedAt [Some exBorrowing] (Unreserved 200 ?b') ! 0 = Some c' \<and> chFree (SharedPools c' ! 0) \<le> 8"
    using ordered_gpus_not_offered [OF refl ops(2), of 0 "[Some exBorrowing]" exBorrowing 0 200] sp ch o
    by (auto simp: Let_def simp del: foldl.simps)
  ultimately show ?thesis using o by (simp add: Let_def del: foldl.simps foldl_append)
qed

end
