(* ===== verification/BorrowMerge.thy ===== *)
theory BorrowMerge
  imports BorrowSafe
begin

text \<open>
  Several providers read the same cohort. Their chunks are merged into one, at the cautious side of
  every figure: a model draws no more on the merged chunk than any one read would let it.
\<close>

subsection \<open>The cautious side\<close>

definition covers_lend :: "priorityLend list \<Rightarrow> priorityLend \<Rightarrow> bool" where
  "covers_lend rs r \<longleftrightarrow> (\<exists>x \<in> set rs. lendQueue x = lendQueue r \<and> lendGPUs r \<le> lendGPUs x \<and> lendBelow x \<le> lendBelow r)"

text \<open>\<open>cautious q p\<close>: the chunk \<open>q\<close> is read at least as cautiously as \<open>p\<close>.\<close>

definition cautious :: "sharedPoolChunk \<Rightarrow> sharedPoolChunk \<Rightarrow> bool" where
  "cautious q p \<longleftrightarrow> chFree q \<le> chFree p \<and> chPendingGPUs p \<le> chPendingGPUs q \<and> (restrictedClosed p \<longrightarrow> restrictedClosed q) \<and>
     (chStale p \<longrightarrow> chStale q) \<and> chBorrowed p \<le> chBorrowed q \<and>
     (0 < chBorrowed p \<longrightarrow> chBorrowerPriority q = None \<or> (\<exists>x y. chBorrowerPriority p = Some x \<and> chBorrowerPriority q = Some y \<and> x \<le> y)) \<and>
     (\<forall>r \<in> set (chRestricted p). covers_lend (chRestricted q) r) \<and>
     (\<forall>k x. map_of (chClassPriority p) k = Some x \<longrightarrow> (\<exists>y \<ge> x. map_of (chClassPriority q) k = Some y)) \<and>
     (\<forall>k x. map_of (chCoFree p) k = Some x \<longrightarrow> (\<exists>y \<le> x. map_of (chCoFree q) k = Some y)) \<and>
     (\<forall>t. chReadAt p = Some t \<longrightarrow> (\<exists>t' \<le> t. chReadAt q = Some t'))"

definition lends_ok :: "sharedPoolChunk \<Rightarrow> bool" where
  "lends_ok p \<longleftrightarrow> list_all (\<lambda>r. 0 \<le> lendGPUs r) (chRestricted p)"

lemma covers_lend_trans: "covers_lend rs r \<Longrightarrow> (\<And>x. x \<in> set rs \<Longrightarrow> covers_lend ss x) \<Longrightarrow> covers_lend ss r"
  unfolding covers_lend_def by (metis order_trans)

lemma updateFirst_Some:
  "updateFirst P f xs = Some ys \<Longrightarrow> \<exists>as x bs. xs = as @ x # bs \<and> P x \<and> ys = as @ f x # bs"
proof (induction xs arbitrary: ys)
  case (Cons x xs)
  show ?case
  proof (cases "P x")
    case True
    then show ?thesis using Cons.prems by (auto intro: exI [of _ "[]"])
  next
    case False
    then obtain zs where z: "updateFirst P f xs = Some zs" "ys = x # zs" using Cons.prems by auto
    then obtain as y bs where "xs = as @ y # bs \<and> P y \<and> zs = as @ f y # bs" using Cons.IH by blast
    then show ?thesis using z(2) by (metis append_Cons)
  qed
qed simp

lemma addLend_covers:
  assumes "x \<in> set (r # rs)"
  shows "covers_lend (addLend rs r) x"
proof (cases "updateFirst (\<lambda>x. lendQueue x = lendQueue r) (mergeLend r) rs")
  case None
  then show ?thesis using assms by (auto simp: addLend_def covers_lend_def)
next
  case (Some ys)
  obtain as y bs where y: "rs = as @ y # bs" "lendQueue y = lendQueue r" "ys = as @ mergeLend r y # bs" using updateFirst_Some [OF Some] by blast
  then show ?thesis using assms Some by (auto simp: addLend_def covers_lend_def mergeLend_def)
qed

lemma addLend_nonneg:
  assumes "list_all (\<lambda>r. 0 \<le> lendGPUs r) (r # rs)"
  shows "list_all (\<lambda>r. 0 \<le> lendGPUs r) (addLend rs r)"
proof (cases "updateFirst (\<lambda>x. lendQueue x = lendQueue r) (mergeLend r) rs")
  case (Some ys)
  then show ?thesis using assms updateFirst_Some [OF Some] by (auto simp: addLend_def mergeLend_def)
qed (use assms in \<open>simp add: addLend_def\<close>)

lemma addLends_covers:
  "x \<in> set rs \<or> x \<in> set ss \<Longrightarrow> covers_lend (foldl addLend rs ss) x"
proof (induction ss arbitrary: rs x)
  case Nil
  then show ?case by (auto simp: covers_lend_def)
next
  case (Cons s ss)
  have "covers_lend (foldl addLend (addLend rs s) ss) y" if "y \<in> set (addLend rs s) \<or> y \<in> set ss" for y using Cons.IH that by blast
  then show ?case using Cons.prems covers_lend_trans [OF addLend_covers [of x s rs], of "foldl addLend (addLend rs s) ss"] by auto
qed

lemma addLends_nonneg:
  "list_all (\<lambda>r. 0 \<le> lendGPUs r) rs \<Longrightarrow> list_all (\<lambda>r. 0 \<le> lendGPUs r) ss \<Longrightarrow> list_all (\<lambda>r. 0 \<le> lendGPUs r) (foldl addLend rs ss)"
  by (induction ss arbitrary: rs) (simp_all add: addLend_nonneg)

text \<open>Per key, the figure kept is at the side of both reads the order \<open>le\<close> points to.\<close>

lemma mergeFigures_side:
  assumes le: "\<And>x. le x x" "\<And>x y z. le x y \<Longrightarrow> le y z \<Longrightarrow> le x z" "\<And>n x. if better n x then le n x else le x n"
    and "map_of prev k = Some x \<or> (k, x) \<in> set p"
  shows "\<exists>y. map_of (mergeFigures better prev p) k = Some y \<and> le y x"
proof -
  define step :: "(string, int) gomap \<Rightarrow> string \<times> int \<Rightarrow> (string, int) gomap" where "step = (\<lambda>m (k, n). case map_of m k of None \<Rightarrow> mput k n m | Some x \<Rightarrow> if better n x then mput k n m else m)"
  have one: "\<exists>y. map_of (step m (k', n)) k = Some y \<and> le y x" if "map_of m k = Some x \<or> (k', n) = (k, x)" for m k' n k x
  proof (cases "k' = k")
    case True
    show ?thesis
    proof (cases "map_of m k")
      case None
      then show ?thesis using that True le(1) by (simp add: step_def gomap_simps)
    next
      case (Some z)
      then show ?thesis using that True le(1) le(3) [of n z] by (cases "better n z") (auto simp: step_def gomap_simps)
    qed
  next
    case False
    then show ?thesis using that le(1) by (cases "map_of m k'") (auto simp: step_def gomap_simps)
  qed
  have "\<exists>y. map_of (foldl step m p) k = Some y \<and> le y x" if "map_of m k = Some x \<or> (k, x) \<in> set p" for m x
    using that
  proof (induction p arbitrary: m x)
    case Nil
    then show ?case using le(1) by auto
  next
    case (Cons kn p)
    show ?case
    proof (cases "map_of m k = Some x \<or> kn = (k, x)")
      case True
      then obtain y where y: "map_of (step m kn) k = Some y" "le y x" using one [of m k x "fst kn" "snd kn"] by auto
      then show ?thesis using Cons.IH [of "step m kn" y] le(2) by auto
    next
      case False
      then show ?thesis using Cons.IH [of "step m kn" x] Cons.prems by auto
    qed
  qed
  then show ?thesis using assms(4) by (simp add: mergeFigures_def step_def)
qed

lemma mergeFigures_least:
  "map_of prev k = Some x \<or> map_of p k = Some x \<Longrightarrow> \<exists>y \<le> x. map_of (mergeFigures (<) prev p) k = Some y"
  using mergeFigures_side [where le = "(\<le>)" and better = "(<)" and prev = prev and p = p and k = k and x = x] map_of_SomeD [of p k x] by fastforce

lemma mergeFigures_greatest:
  "map_of prev k = Some x \<or> map_of p k = Some x \<Longrightarrow> \<exists>y \<ge> x. map_of (mergeFigures (\<lambda>n x. x < n) prev p) k = Some y"
  using mergeFigures_side [where le = "(\<ge>)" and better = "\<lambda>n x. x < n" and prev = prev and p = p and k = k and x = x] map_of_SomeD [of p k x] by fastforce

lemma mergeChunk_cautious: "cautious (mergeChunk prev p) prev" "cautious (mergeChunk prev p) p"
  by (auto simp: cautious_def mergeChunk_def preferred_def intro: addLends_covers mergeFigures_least mergeFigures_greatest split: option.splits)

lemma mergeChunk_lends_ok: "lends_ok prev \<Longrightarrow> lends_ok p \<Longrightarrow> lends_ok (mergeChunk prev p)"
  unfolding lends_ok_def by (simp add: mergeChunk_def addLends_nonneg)

lemma cautious_refl: "cautious p p"
  by (auto simp: cautious_def covers_lend_def)

lemma cautious_prio:
  "cautious q p \<Longrightarrow> 0 < chBorrowed p \<Longrightarrow> chBorrowerPriority q = None \<or> (\<exists>x y. chBorrowerPriority p = Some x \<and> chBorrowerPriority q = Some y \<and> x \<le> y)"
  by (simp add: cautious_def)

lemma cautious_class: "cautious q p \<Longrightarrow> map_of (chClassPriority p) k = Some x \<Longrightarrow> \<exists>y \<ge> x. map_of (chClassPriority q) k = Some y"
  by (simp add: cautious_def)

lemma cautious_co: "cautious q p \<Longrightarrow> map_of (chCoFree p) k = Some x \<Longrightarrow> \<exists>y \<le> x. map_of (chCoFree q) k = Some y"
  by (simp add: cautious_def)

lemma cautious_read: "cautious q p \<Longrightarrow> chReadAt p = Some t \<Longrightarrow> \<exists>t' \<le> t. chReadAt q = Some t'"
  by (simp add: cautious_def)

lemma cautious_lends: "cautious q p \<Longrightarrow> r \<in> set (chRestricted p) \<Longrightarrow> covers_lend (chRestricted q) r"
  by (simp add: cautious_def)

lemma cautious_trans:
  assumes qm: "cautious q m" and mp: "cautious m p"
  shows "cautious q p"
proof -
  have prio: "chBorrowerPriority q = None \<or> (\<exists>x y. chBorrowerPriority p = Some x \<and> chBorrowerPriority q = Some y \<and> x \<le> y)" if b: "0 < chBorrowed p"
  proof -
    have "0 < chBorrowed m" using b mp by (simp add: cautious_def)
    then consider "chBorrowerPriority q = None" | x y where "chBorrowerPriority m = Some x" "chBorrowerPriority q = Some y" "x \<le> y"
      using cautious_prio [OF qm] by metis
    then show ?thesis using cautious_prio [OF mp b] by cases auto
  qed
  have lends: "covers_lend (chRestricted q) r" if "r \<in> set (chRestricted p)" for r
    using covers_lend_trans [of "chRestricted m" r "chRestricted q"] cautious_lends [OF qm] cautious_lends [OF mp that] by blast
  have known: "\<exists>y \<ge> x. map_of (chClassPriority q) k = Some y" if "map_of (chClassPriority p) k = Some x" for k x
    using cautious_class [OF mp that] cautious_class [OF qm] by (meson order_trans)
  have co: "\<exists>y \<le> x. map_of (chCoFree q) k = Some y" if "map_of (chCoFree p) k = Some x" for k x
    using cautious_co [OF mp that] cautious_co [OF qm] by (meson order_trans)
  have read: "\<exists>t' \<le> t. chReadAt q = Some t'" if "chReadAt p = Some t" for t
    using cautious_read [OF mp that] cautious_read [OF qm] by (meson order_trans)
  show ?thesis using qm mp prio lends known co read unfolding cautious_def by (simp add: order_trans [of "chFree q"] order_trans [of "chPendingGPUs p"] order_trans [of "chBorrowed p"])
qed

subsection \<open>What a model may draw\<close>

definition blocks :: "sharedPoolChunk \<Rightarrow> int option \<Rightarrow> priorityLend \<Rightarrow> bool" where
  "blocks c prio r \<longleftrightarrow> restrictedClosed c \<or> heldAbove c r \<or> prio = None \<or> \<not> Reclaims ReclaimLowerPriority (Some (lendBelow r)) prio"

lemma drawable_blocks:
  "drawable c cls fb = max 0 (chFree c - sum_list (map (\<lambda>r. if blocks c (drawPriority c cls fb) r then lendGPUs r else 0) (chRestricted c)))"
proof -
  have "foldl (\<lambda>free r. if P r then free - lendGPUs r else free) n rs = n - sum_list (map (\<lambda>r. if P r then lendGPUs r else 0) rs)" for P n and rs :: "priorityLend list"
    by (induction rs arbitrary: n) auto
  then show ?thesis by (simp add: drawable_def blocks_def Let_def)
qed

lemma sum_covered:
  fixes f :: "'a \<Rightarrow> int" and g :: "'b \<Rightarrow> int"
  assumes "distinct (map key rs)" "\<And>r. r \<in> set rs \<Longrightarrow> \<exists>x \<in> set qs. key' x = key r \<and> f r \<le> g x" "\<And>x. x \<in> set qs \<Longrightarrow> 0 \<le> g x"
  shows "sum_list (map f rs) \<le> sum_list (map g qs)"
  using assms
proof (induction rs arbitrary: qs)
  case Nil
  then show ?case using sum_list_nonneg [of "map g qs"] by auto
next
  case (Cons r rs)
  obtain x where x: "x \<in> set qs" "key' x = key r" "f r \<le> g x" using Cons.prems(2) [of r] by auto
  have cov: "\<exists>y \<in> set (remove1 x qs). key' y = key s \<and> f s \<le> g y" if s: "s \<in> set rs" for s
  proof -
    obtain y where y: "y \<in> set qs" "key' y = key s" "f s \<le> g y" using Cons.prems(2) [OF list.set_intros(2) [OF s]] by blast
    have "key s \<noteq> key r" using Cons.prems(1) s by (metis (no_types, lifting) distinct.simps(2) image_eqI list.map(2) list.set_map)
    then have "y \<in> set (remove1 x qs)" using y x by (metis in_set_remove1)
    then show ?thesis using y by blast
  qed
  have "distinct (map key rs)" using Cons.prems(1) by simp
  from Cons.IH [OF this cov] have "sum_list (map f rs) \<le> sum_list (map g (remove1 x qs))"
    using Cons.prems(3) notin_set_remove1 by fastforce
  then show ?case using x(3) sum_list_map_remove1 [OF x(1), of g] by simp
qed

lemma Reclaims_mono: "Reclaims ReclaimLowerPriority (Some l') (Some b') \<Longrightarrow> l' \<le> l \<Longrightarrow> b \<le> b' \<Longrightarrow> Reclaims ReclaimLowerPriority (Some l) (Some b)"
  by (simp add: Reclaims_def split: if_splits)

lemma drawPriority_mono:
  assumes "cautious q p" "drawPriority p cls fb = Some b"
  shows "\<exists>b' \<ge> b. drawPriority q cls fb = Some b'"
proof (cases "map_of (chClassPriority p) cls")
  case None
  then have "\<exists>f. fb = Some f \<and> cls = PriorityClassNone \<and> b = f" using assms(2) by (auto simp: drawPriority_def Let_def split: option.splits if_splits)
  then show ?thesis by (auto simp: drawPriority_def Let_def split: option.split)
next
  case (Some x)
  then obtain y where "y \<ge> x" "map_of (chClassPriority q) cls = Some y" using cautious_class [OF assms(1)] by blast
  then show ?thesis using assms(2) Some by (cases fb) (auto simp: drawPriority_def Let_def split: if_splits)
qed

lemma heldAbove_mono:
  assumes "cautious q p" "lendBelow x \<le> lendBelow r" "heldAbove p r"
  shows "heldAbove q x"
proof -
  have b: "0 < chBorrowed p" "0 < chBorrowed q" using assms(1,3) by (auto simp: cautious_def heldAbove_def split: if_splits)
  then consider "chBorrowerPriority q = None" | u v where "chBorrowerPriority p = Some u" "chBorrowerPriority q = Some v" "u \<le> v"
    using cautious_prio [OF assms(1)] by metis
  then show ?thesis
  proof cases
    case 2
    then show ?thesis using assms(2,3) b Reclaims_mono [of "lendBelow x" v "lendBelow r" u] by (auto simp: heldAbove_def)
  qed (use b in \<open>simp add: heldAbove_def\<close>)
qed

lemma drawable_mono:
  assumes c: "cautious q p" and ok: "lends_ok q" "distinct (map lendQueue (chRestricted p))" and k: "drawPriority p cls fb \<noteq> None"
  shows "drawable q cls fb \<le> drawable p cls fb"
proof -
  obtain b b' where b: "drawPriority p cls fb = Some b" "drawPriority q cls fb = Some b'" "b \<le> b'" using drawPriority_mono [OF c] k by blast
  have "\<exists>x \<in> set (chRestricted q). lendQueue x = lendQueue r \<and>
      (if blocks p (Some b) r then lendGPUs r else 0) \<le> (if blocks q (Some b') x then lendGPUs x else 0)" if r: "r \<in> set (chRestricted p)" for r
  proof -
    obtain x where x: "x \<in> set (chRestricted q)" "lendQueue x = lendQueue r" "lendGPUs r \<le> lendGPUs x" "lendBelow x \<le> lendBelow r"
      using cautious_lends [OF c r] unfolding covers_lend_def by blast
    have "0 \<le> lendGPUs x" using ok(1) x(1) by (auto simp: lends_ok_def list_all_iff)
    moreover have "blocks q (Some b') x" if "blocks p (Some b) r"
      using that c heldAbove_mono [OF c x(4)] Reclaims_mono [OF _ x(4) b(3)] by (auto simp: blocks_def cautious_def)
    ultimately show ?thesis using x by (intro bexI [of _ x]) auto
  qed
  then have "sum_list (map (\<lambda>r. if blocks p (Some b) r then lendGPUs r else 0) (chRestricted p))
      \<le> sum_list (map (\<lambda>r. if blocks q (Some b') r then lendGPUs r else 0) (chRestricted q))"
    using ok by (intro sum_covered [where key = lendQueue and key' = lendQueue]) (simp_all add: lends_ok_def list_all_iff)
  moreover have "chFree q \<le> chFree p" using c by (simp add: cautious_def)
  ultimately show ?thesis unfolding drawable_blocks b(1,2) by linarith
qed

subsection \<open>The merged pools\<close>

definition chunks_ok :: "(string, sharedPoolChunk) gomap \<Rightarrow> bool" where
  "chunks_ok m \<longleftrightarrow> (\<forall>k q. map_of m k = Some q \<longrightarrow> lends_ok q \<and> chunk_key q = k)"

definition read_in :: "(string, sharedPoolChunk) gomap \<Rightarrow> sharedPoolChunk \<Rightarrow> bool" where
  "read_in m p \<longleftrightarrow> (\<exists>q. map_of m (chunk_key p) = Some q \<and> cautious q p)"

lemma mergeChunk_key: "chunk_key (mergeChunk prev p) = chunk_key prev"
  by (simp add: chunk_key_def mergeChunk_def)

lemma addChunk_ok: "chunks_ok m \<Longrightarrow> lends_ok p \<Longrightarrow> chunks_ok (addChunk m p)"
  by (auto simp: chunks_ok_def addChunk_def gomap_simps mergeChunk_key mergeChunk_lends_ok split: option.split)

lemma addChunk_reads: "read_in (addChunk m p) p"
  by (cases "map_of m (chunk_key p)") (simp_all add: read_in_def addChunk_def gomap_simps mergeChunk_cautious cautious_refl)

lemma addChunk_keeps:
  assumes "read_in m x"
  shows "read_in (addChunk m p) x"
proof -
  obtain q where q: "map_of m (chunk_key x) = Some q" "cautious q x" using assms by (auto simp: read_in_def)
  show ?thesis
  proof (cases "chunk_key p = chunk_key x")
    case True
    then show ?thesis using q cautious_trans [OF mergeChunk_cautious(1) q(2)] by (simp add: read_in_def addChunk_def gomap_simps)
  next
    case False
    then show ?thesis using q by (cases "map_of m (chunk_key p)") (simp_all add: read_in_def addChunk_def gomap_simps)
  qed
qed

lemma addChunks_reads:
  "chunks_ok m \<Longrightarrow> list_all lends_ok ps \<Longrightarrow> chunks_ok (foldl addChunk m ps) \<and> (\<forall>x. read_in m x \<or> x \<in> set ps \<longrightarrow> read_in (foldl addChunk m ps) x)"
proof (induction ps arbitrary: m)
  case (Cons p ps)
  then show ?case using Cons.IH [of "addChunk m p"] addChunk_ok [of m p] addChunk_reads [of m p] addChunk_keeps [of m _ p] by auto
qed simp

lemma foldl_addChunk_concat: "foldl (\<lambda>m c. foldl addChunk m (SharedPools c)) m cs = foldl addChunk m (concat (map SharedPools cs))"
  by (induction cs arbitrary: m) simp_all

lemma merged_reads:
  assumes "list_all lends_ok (concat (map SharedPools (borrowers cs)))" "c \<in> set (borrowers cs)" "p \<in> set (SharedPools c)"
  shows "\<exists>q \<in> set (fst (mergeSharedPools cs)). chunk_key q = chunk_key p \<and> cautious q p \<and> lends_ok q"
proof -
  define m where "m = foldl addChunk [] (concat (map SharedPools (borrowers cs)))"
  have m: "chunks_ok m" "read_in m p" using addChunks_reads [of "[]" "concat (map SharedPools (borrowers cs))"] assms by (auto simp: m_def chunks_ok_def)
  then obtain q where q: "map_of m (chunk_key p) = Some q" "cautious q p" by (auto simp: read_in_def)
  then have "q \<in> set (fst (mergeSharedPools cs))" using map_of_SomeD [OF q(1)] by (force simp: mergeSharedPools_def foldl_addChunk_concat m_def)
  then show ?thesis using q m(1) by (auto simp: chunks_ok_def)
qed

text \<open>
  C25. Several providers may read the same cohort, and placement draws on the merge of their reads.
  The merge never offers more than any one read: for every shared chunk a provider that borrows
  reports, the merged pools hold a chunk under the same key (cohort, flavor and resource) with no more free
  GPUs, and every model whose priority that provider can tell draws no more on the merged chunk than it
  would on that provider's own, whatever the lenders held back for higher priorities.
\<close>

theorem merged_draw_cautious:
  assumes "\<forall>c \<in> set (borrowers cs). \<forall>p \<in> set (SharedPools c). lends_ok p \<and> distinct (map lendQueue (chRestricted p))"
    and "c \<in> set (borrowers cs)" "p \<in> set (SharedPools c)"
  shows "\<exists>q \<in> set (fst (mergeSharedPools cs)). chunk_key q = chunk_key p \<and> chFree q \<le> chFree p \<and>
    (chStale p \<longrightarrow> chStale q) \<and> (\<forall>cls fb. drawPriority p cls fb \<noteq> None \<longrightarrow> drawable q cls fb \<le> drawable p cls fb)"
proof -
  have "list_all lends_ok (concat (map SharedPools (borrowers cs)))" using assms(1) by (auto simp: list_all_iff)
  from merged_reads [OF this assms(2,3)] obtain q where q: "q \<in> set (fst (mergeSharedPools cs))" "chunk_key q = chunk_key p" "cautious q p" "lends_ok q"
    by blast
  moreover have "distinct (map lendQueue (chRestricted p))" using assms by blast
  ultimately show ?thesis using drawable_mono [OF q(3,4)] by (intro bexI [OF _ q(1)]) (simp add: cautious_def)
qed

definition exReadA :: borrowConstraints where
  "exReadA = exBorrowing\<lparr>SharedPools := [exChunk\<lparr>chRestricted := [\<lparr>lendQueue = ''q'', lendBelow = 10, lendGPUs = 4\<rparr>], chClassPriority := [(''hi'', 5)]\<rparr>]\<rparr>"

definition exReadB :: borrowConstraints where
  "exReadB = exBorrowing\<lparr>SharedPools := [exChunk\<lparr>chRestricted := [\<lparr>lendQueue = ''q'', lendBelow = 3, lendGPUs = 6\<rparr>], chClassPriority := [(''hi'', 4)]\<rparr>]\<rparr>"

theorem merged_draw_cautious_witness:
  "drawable (hd (SharedPools exReadA)) ''hi'' None = 20 \<and> drawable (hd (SharedPools exReadB)) ''hi'' None = 14 \<and>
   (\<exists>q \<in> set (fst (mergeSharedPools [Some exReadA, None, Some exReadB])). chFree q \<le> 20 \<and> drawable q ''hi'' None \<le> 14)"
proof -
  have d: "drawable (hd (SharedPools exReadA)) ''hi'' None = 20" "drawable (hd (SharedPools exReadB)) ''hi'' None = 14"
    "drawPriority (hd (SharedPools exReadB)) ''hi'' None \<noteq> None" "chFree (hd (SharedPools exReadB)) = 20" by code_simp+
  have "\<forall>c \<in> set (borrowers [Some exReadA, None, Some exReadB]). \<forall>p \<in> set (SharedPools c). lends_ok p \<and> distinct (map lendQueue (chRestricted p))"
    "exReadB \<in> set (borrowers [Some exReadA, None, Some exReadB])" "hd (SharedPools exReadB) \<in> set (SharedPools exReadB)"
    by (simp_all add: borrowers_def exReadA_def exReadB_def exBorrowing_def lends_ok_def)
  from merged_draw_cautious [OF this] show ?thesis using d by force
qed

end
