(* ===== verification/ShareLedger.thy ===== *)
theory ShareLedger
  imports ShareClaims
begin

text \<open>
  The transfers of a utilization-share group across cycles:
  \<open>internal/engines/allocation/utilization_share_ledger.go\<close>. A transfer is \<open>Releasing\<close>
  until its donor has shrunk, then \<open>Filling\<close> until its receiver holds the GPUs; \<open>Observe\<close>
  advances every transfer from what the cluster shows.

  The ledger's slice of pointers is a list: \<open>Observe\<close>'s maps keyed by pointer are lists beside
  it, and a write through a pointer is an update at its index. The random part of an ID is an argument
  of the operations that issue one. A map lookup compared with \<open>now.Before\<close> is \<open>False\<close>
  for a missing key, whose value is the zero time. The history of needs, whose means are floating
  point, is kept as data; the readers of it (\<open>RecordNeeds\<close>, the peaks and bursts) are not
  modelled, so \<open>stepped\<close> is never written.
\<close>

subsection \<open>Data\<close>

datatype shareTransferState = ShareReleasing | ShareFilling

datatype shareTransferOutcome = ShareOutcomeDone | ShareOutcomeFillTimeout | ShareOutcomeCancelled | ShareOutcomeAborted
  | ShareOutcomeRedirected | ShareOutcomeWrongPod

record shareTransfer =
  trID :: string
  trDonor :: string
  trReceiver :: string
  trDonorVariant :: string
  trReceiverVariant :: string
  trDonorPods :: "string list"
  trDonorLowered :: bool
  trGPUs :: int
  trDonorGPUs :: int
  trEntitled :: bool
  trReturned :: bool
  trDonorPodGPUs :: "int list"
  trUrgent :: bool
  trSkippedWaits :: bool
  trPlannedPods :: "string list"
  trSetID :: string
  trState :: shareTransferState
  trStarted :: gotime
  trDeadline :: gotime
  donorBase :: int
  receiverBase :: int
  fillingSince :: gotime
  receiverBaseUnset :: bool
  setReleased :: int
  setPending :: int
  plannedRunning :: bool
  plannedUnknown :: bool

definition IsSetPrimary :: "shareTransfer \<Rightarrow> bool" where
  "IsSetPrimary t \<longleftrightarrow> trSetID t \<noteq> [] \<and> trSetID t = trID t"

record shareTransferEnd =
  endTransfer :: shareTransfer
  endOutcome :: shareTransferOutcome
  DonorReleased :: bool

record shareTimings =
  tmWindow :: duration
  tmReleaseTimeout :: duration
  tmFillTimeout :: duration
  tmReversalHold :: duration
  tmSwingWindow :: duration
  tmSwingReversals :: int
  tmMoveLatency :: duration

definition DefaultSwingReversals :: int where
  "DefaultSwingReversals = 3"

definition moveLatency :: "shareTimings \<Rightarrow> duration" where
  "moveLatency tm = (if 0 < tmMoveLatency tm then tmMoveLatency tm else godiv (tmSwingWindow tm) 8)"

definition Reversals :: "shareTimings \<Rightarrow> int" where
  "Reversals tm = (if 0 < tmSwingReversals tm then tmSwingReversals tm else DefaultSwingReversals)"

definition unpacedHorizon :: "shareTimings \<Rightarrow> duration" where
  "unpacedHorizon tm = godiv (moveLatency tm * 5) 4"

record shareMove =
  mvAt :: gotime
  mvReceived :: bool
  mvID :: string

record shareWakeHold =
  whGPUs :: int
  whID :: string
  whHold :: duration
  whUntil :: "gotime option"

record sharePodBusy =
  busySince :: gotime
  busyCycles :: int

record shareChangingHold =
  hDonor :: string
  hVariant :: string
  hReceivers :: "string list"
  hReason :: string
  hSince :: gotime
  hUntil :: gotime
  SteadyCycles :: int

record shareLedger =
  transfers :: "shareTransfer list"
  nextID :: int
  incarnation :: string
  wakeHolds :: "shareWakeHold list"
  aborts :: "(string, int) gomap"
  giveAfter :: "(string, gotime) gomap"
  unsteerable :: "(string, bool) gomap"
  busyUntil :: "(string, gotime) gomap"
  changing :: "(string, shareChangingHold) gomap"
  filled :: "(string, int) gomap option"
  fillHeld :: "(string, gotime) gomap"
  fillBlocked :: "(string, string \<times> gotime) gomap"
  fillShort :: "(string, bool) gomap"
  lastGave :: "(string, gotime) gomap"
  lastGot :: "(string, gotime) gomap"
  noPair :: "(string \<times> string, gotime) gomap"
  moves :: "(string, shareMove list) gomap"
  cancels :: "(string, shareMove list) gomap"
  swingUntil :: "(string, gotime) gomap"
  stepped :: "(string, bool) gomap"
  needs :: "(string, (gotime \<times> score) list) gomap"
  needsSince :: "(string, gotime) gomap"
  confirm :: "(string, int) gomap"
  hard :: "(string, int) gomap"
  over :: "(string, int) gomap"
  podBusy :: "(string, sharePodBusy) gomap"
  releases_seen :: "duration list"
  released :: "shareTransfer list"
  seen :: "(string, gotime) gomap"

definition NewShareLedger :: "string \<Rightarrow> shareLedger" where
  "NewShareLedger inc = \<lparr>transfers = [], nextID = 0, incarnation = inc, wakeHolds = [], aborts = [], giveAfter = [], unsteerable = [],
     busyUntil = [], changing = [], filled = None, fillHeld = [], fillBlocked = [], fillShort = [], lastGave = [], lastGot = [],
     noPair = [], moves = [], cancels = [], swingUntil = [], stepped = [], needs = [], needsSince = [], confirm = [], hard = [],
     over = [], podBusy = [], releases_seen = [], released = [], seen = []\<rparr>"

definition before :: "gotime \<Rightarrow> ('k, gotime) gomap \<Rightarrow> 'k \<Rightarrow> bool" where
  "before now m k = (case map_of m k of None \<Rightarrow> False | Some u \<Rightarrow> now < u)"

subsection \<open>IDs\<close>

fun nat_digits :: "nat \<Rightarrow> string" where
  "nat_digits n = (if n < 10 then [char_of (48 + n)] else nat_digits (n div 10) @ [char_of (48 + n mod 10)])"

definition Sprintf_d :: "int \<Rightarrow> string" where
  "Sprintf_d i = (if i < 0 then ''-'' @ nat_digits (nat (- i)) else nat_digits (nat i))"

definition transferID :: "shareLedger \<Rightarrow> string \<Rightarrow> string \<Rightarrow> string" where
  "transferID l kind rnd = incarnation l @ ''-'' @ kind @ Sprintf_d (nextID l) @ ''-'' @ rnd"

subsection \<open>Moves and swings\<close>

definition lastMove :: "bool \<Rightarrow> shareMove list \<Rightarrow> gotime option" where
  "lastMove got ms = foldl (\<lambda>acc m. if mvReceived m = got then Some (mvAt m) else acc) None ms"

definition setLast :: "'k \<Rightarrow> 'v option \<Rightarrow> ('k, 'v) gomap \<Rightarrow> ('k, 'v) gomap" where
  "setLast k v m = (case v of None \<Rightarrow> mdel k m | Some v \<Rightarrow> mput k v (mdel k m))"

text \<open>Changes of direction between consecutive moves, up to \<open>t\<close> and within the swing window before it.\<close>

fun reversals :: "shareTimings \<Rightarrow> gotime \<Rightarrow> shareMove list \<Rightarrow> int" where
  "reversals tm t (a # b # ms) =
     (if t < mvAt b then 0
      else (if time_sub t (mvAt a) \<le> tmSwingWindow tm \<and> mvReceived b \<noteq> mvReceived a then 1 else 0) + reversals tm t (b # ms))"
| "reversals tm t _ = 0"

definition swingMark :: "shareTimings \<Rightarrow> shareMove list \<Rightarrow> gotime option \<Rightarrow> gotime \<Rightarrow> gotime option" where
  "swingMark tm ms until t =
     (if Reversals tm \<le> reversals tm t ms \<and> (case until of None \<Rightarrow> True | Some u \<Rightarrow> u < t + tmSwingWindow tm) then Some (t + tmSwingWindow tm)
      else until)"

definition swingOf :: "shareTimings \<Rightarrow> shareMove list \<Rightarrow> gotime option" where
  "swingOf tm ms = foldl (swingMark tm ms) None (map mvAt ms)"

definition rederive :: "string \<Rightarrow> shareTimings \<Rightarrow> shareLedger \<Rightarrow> shareLedger" where
  "rederive role tm l =
     (let ms = mget [] (moves l) role;
          inOrder = stable_sort (\<lambda>a b. mvAt a < mvAt b) (ms @ mget [] (cancels l) role)
      in l\<lparr>lastGave := setLast role (lastMove False ms) (lastGave l), lastGot := setLast role (lastMove True ms) (lastGot l),
           swingUntil := setLast role (swingOf tm inOrder) (swingUntil l)\<rparr>)"

definition recordMove :: "string \<Rightarrow> bool \<Rightarrow> string \<Rightarrow> gotime \<Rightarrow> shareTimings \<Rightarrow> shareLedger \<Rightarrow> shareLedger" where
  "recordMove role got i now tm l =
     (let keep = max (tmReversalHold tm) (2 * tmSwingWindow tm);
          ms = filter (\<lambda>m. \<not> keep < time_sub now (mvAt m)) (mget [] (moves l) role) @ [\<lparr>mvAt = now, mvReceived = got, mvID = i\<rparr>]
      in rederive role tm (l\<lparr>moves := mput role ms (moves l)\<rparr>))"

definition recordCancel :: "string \<Rightarrow> bool \<Rightarrow> gotime \<Rightarrow> shareTimings \<Rightarrow> shareLedger \<Rightarrow> shareLedger" where
  "recordCancel role got now tm l =
     (let cs = filter (\<lambda>m. \<not> 2 * tmSwingWindow tm < time_sub now (mvAt m)) (mget [] (cancels l) role) in
      if list_ex (\<lambda>m. mvAt m = now \<and> mvReceived m = got) cs then l\<lparr>cancels := mput role cs (cancels l)\<rparr>
      else rederive role tm (l\<lparr>cancels := mput role (cs @ [\<lparr>mvAt = now, mvReceived = got, mvID = []\<rparr>]) (cancels l)\<rparr>))"

definition unrecord :: "string \<Rightarrow> string \<Rightarrow> shareTimings \<Rightarrow> shareLedger \<Rightarrow> shareLedger" where
  "unrecord role i tm l =
     (case map_of (moves l) role of None \<Rightarrow> l
      | Some ms \<Rightarrow> rederive role tm (l\<lparr>moves := mput role (filter (\<lambda>m. mvID m \<noteq> i) ms) (moves l)\<rparr>))"

definition Swinging :: "string \<Rightarrow> gotime \<Rightarrow> shareLedger \<Rightarrow> bool" where
  "Swinging role now l \<longleftrightarrow> before now (swingUntil l) role \<and> \<not> mget False (stepped l) role"

definition heldSince :: "gotime \<Rightarrow> duration \<Rightarrow> gotime option \<Rightarrow> bool" where
  "heldSince now hold t = (case t of None \<Rightarrow> False | Some t \<Rightarrow> time_sub now t < hold)"

definition ReceivingHeld :: "string \<Rightarrow> gotime \<Rightarrow> shareTimings \<Rightarrow> shareLedger \<Rightarrow> bool" where
  "ReceivingHeld role now tm l = heldSince now (tmReversalHold tm) (map_of (lastGave l) role)"

definition PairHeld :: "string \<Rightarrow> string \<Rightarrow> gotime \<Rightarrow> shareLedger \<Rightarrow> bool" where
  "PairHeld donor receiver now l = before now (noPair l) (donor, receiver)"

subsection \<open>Starting and ending a transfer\<close>

definition Transfers :: "shareLedger \<Rightarrow> shareTransfer list" where
  "Transfers l = transfers l"

definition setKey :: "shareTransfer \<Rightarrow> string" where
  "setKey t = (if trSetID t \<noteq> [] then trSetID t else trID t)"

definition InFlight_count :: "shareLedger \<Rightarrow> int" where
  "InFlight_count l = int (length (remdups (map setKey (filter (\<lambda>t. trDonor t \<noteq> [] \<and> \<not> trReturned t) (transfers l)))))"

definition excessOf :: "shareTransfer list \<Rightarrow> (string, int) gomap" where
  "excessOf ts =
     foldl (\<lambda>m t. if trState t \<noteq> ShareReleasing then m
       else let m = madd (setKey t) (trDonorGPUs t) m in if trReceiver t \<noteq> [] then madd (setKey t) (- trGPUs t) m else m) [] ts"

definition Unreleased :: "shareLedger \<Rightarrow> int" where
  "Unreleased l = sum_list (map (\<lambda>(_, v). max v 0) (excessOf (transfers l)))"

definition freshTransfer :: shareTransfer where
  "freshTransfer = \<lparr>trID = [], trDonor = [], trReceiver = [], trDonorVariant = [], trReceiverVariant = [], trDonorPods = [],
     trDonorLowered = False, trGPUs = 0, trDonorGPUs = 0, trEntitled = False, trReturned = False, trDonorPodGPUs = [], trUrgent = False,
     trSkippedWaits = False, trPlannedPods = [], trSetID = [], trState = ShareReleasing, trStarted = 0, trDeadline = 0, donorBase = 0,
     receiverBase = 0, fillingSince = 0, receiverBaseUnset = False, setReleased = 0, setPending = 0, plannedRunning = False,
     plannedUnknown = False\<rparr>"

definition StartFill :: "string \<Rightarrow> string \<Rightarrow> int \<Rightarrow> bool \<Rightarrow> (string, int) gomap \<Rightarrow> gotime \<Rightarrow> shareTimings \<Rightarrow> string \<Rightarrow> shareLedger
    \<Rightarrow> shareTransfer \<times> shareLedger" where
  "StartFill receiver variant g urgent held now tm rnd l =
     (let l = l\<lparr>nextID := nextID l + 1\<rparr>;
          t = freshTransfer\<lparr>trID := transferID l ''f'' rnd, trReceiver := receiver, trReceiverVariant := variant, trGPUs := g,
                trEntitled := True, trUrgent := urgent, trState := ShareFilling, trStarted := now, trDeadline := now + tmFillTimeout tm,
                receiverBase := mget 0 held receiver, fillingSince := now\<rparr>
      in (t, l\<lparr>transfers := transfers l @ [t]\<rparr>))"

definition coverGPUs :: "shareTransfer \<Rightarrow> shareTransfer" where
  "coverGPUs t = (if trSetID t = [] \<and> trDonorGPUs t < trGPUs t then t\<lparr>trDonorGPUs := trGPUs t\<rparr> else t)"

definition Share_Restore :: "shareTransfer \<Rightarrow> int \<Rightarrow> shareLedger \<Rightarrow> shareLedger" where
  "Share_Restore t heldDonor l =
     l\<lparr>transfers := transfers l @ [(coverGPUs t)\<lparr>trState := ShareReleasing, donorBase := heldDonor\<rparr>]\<rparr>"

definition TakeReleased :: "shareLedger \<Rightarrow> shareTransfer list \<times> shareLedger" where
  "TakeReleased l = (released l, l\<lparr>released := []\<rparr>)"

definition commit :: "(string, int) gomap \<Rightarrow> shareTransfer \<Rightarrow> (string, int) gomap" where
  "commit out t =
     (let out = (if trState t = ShareReleasing then madd (trDonor t) (- trDonorGPUs t) out else out)
      in if trReceiver t \<noteq> [] then madd (trReceiver t) (trGPUs t) out else out)"

definition Committed :: "(string, int) gomap \<Rightarrow> shareLedger \<Rightarrow> (string, int) gomap" where
  "Committed held l = foldl commit held (transfers l)"

definition Promised :: "shareLedger \<Rightarrow> int" where
  "Promised l = sum_list (map (\<lambda>t. case trState t of ShareFilling \<Rightarrow> trGPUs t | ShareReleasing \<Rightarrow> setReleased t) (transfers l))"

definition Share_Start :: "shareTransfer \<Rightarrow> (string, int) gomap \<Rightarrow> gotime \<Rightarrow> shareTimings \<Rightarrow> string \<Rightarrow> shareLedger \<Rightarrow> shareTransfer \<times> shareLedger" where
  "Share_Start t held now tm rnd l =
     (let l = l\<lparr>nextID := nextID l + 1\<rparr>;
          t = (coverGPUs (t\<lparr>trID := transferID l ''t'' rnd\<rparr>))\<lparr>trState := ShareReleasing, trStarted := now,
                trDeadline := now + tmReleaseTimeout tm, donorBase := mget 0 held (trDonor t)\<rparr>;
          l = l\<lparr>transfers := transfers l @ [t]\<rparr>
      in (t, if trEntitled t then l
             else let l = recordMove (trDonor t) False (trID t) now tm l
               in if trReceiver t \<noteq> [] then recordMove (trReceiver t) True (trID t) now tm l else l))"

definition LinkSet :: "string \<Rightarrow> string list \<Rightarrow> shareLedger \<Rightarrow> shareLedger" where
  "LinkSet primary contributors l =
     l\<lparr>transfers := map (\<lambda>t. if trID t = primary then t\<lparr>trSetID := primary, setPending := int (length contributors)\<rparr>
        else if trID t \<in> set contributors then t\<lparr>trSetID := primary\<rparr> else t) (transfers l)\<rparr>"

definition Transfer_of :: "string \<Rightarrow> shareLedger \<Rightarrow> shareTransfer option" where
  "Transfer_of i l = find (\<lambda>t. trID t = i) (transfers l)"

fun deleteFirst :: "('a \<Rightarrow> bool) \<Rightarrow> 'a list \<Rightarrow> 'a list" where
  "deleteFirst P [] = []"
| "deleteFirst P (x # xs) = (if P x then xs else x # deleteFirst P xs)"

definition Share_Forget :: "string \<Rightarrow> shareTimings \<Rightarrow> shareLedger \<Rightarrow> shareLedger" where
  "Share_Forget i tm l =
     (case Transfer_of i l of None \<Rightarrow> l
      | Some t \<Rightarrow> let l = unrecord (trDonor t) i tm (l\<lparr>transfers := deleteFirst (\<lambda>t. trID t = i) (transfers l)\<rparr>)
          in if trReceiver t \<noteq> [] then unrecord (trReceiver t) i tm l else l)"

definition setReceiver :: "string \<Rightarrow> shareLedger \<Rightarrow> string" where
  "setReceiver i l = (case Transfer_of i l of None \<Rightarrow> [] | Some t \<Rightarrow> trReceiver t)"

definition Share_Cancel :: "string \<Rightarrow> gotime \<Rightarrow> shareTimings \<Rightarrow> shareLedger \<Rightarrow> bool \<times> shareLedger" where
  "Share_Cancel i now tm l =
     (case Transfer_of i l of None \<Rightarrow> (False, l)
      | Some t \<Rightarrow>
          if trState t \<noteq> ShareReleasing \<or> tmWindow tm \<le> time_sub now (trStarted t) then (False, l)
          else let rc = (if trReceiver t = [] then setReceiver (trSetID t) l else trReceiver t); l = Share_Forget i tm l
            in (True,
                if trEntitled t then l
                else let l = recordCancel (trDonor t) False now tm l
                  in if rc = [] then l
                     else (recordCancel rc True now tm l)\<lparr>noPair := mput (trDonor t, rc) (now + tmReversalHold tm) (noPair l)\<rparr>))"

subsection \<open>A cycle\<close>

text \<open>
  Per transfer: whether its donor has shrunk by its GPUs and those of the donor's earlier ones, and
  \<open>None\<close> for a transfer that is not releasing or whose donor the cycle does not show.
\<close>

fun releasables :: "(string, int) gomap \<Rightarrow> (string, int) gomap \<Rightarrow> (string, int) gomap \<Rightarrow> shareTransfer list \<Rightarrow> bool option list" where
  "releasables held base given [] = []"
| "releasables held base given (t # ts) =
     (if trState t \<noteq> ShareReleasing \<or> trDonor t = [] then None # releasables held base given ts
      else case map_of held (trDonor t) of None \<Rightarrow> None # releasables held base given ts
        | Some h \<Rightarrow>
            let base = (case map_of base (trDonor t) of None \<Rightarrow> mput (trDonor t) (donorBase t) base | Some _ \<Rightarrow> base);
                given = madd (trDonor t) (trDonorGPUs t) given
            in Some (h \<le> mget 0 base (trDonor t) - mget 0 given (trDonor t)) # releasables held base given ts)"

definition wrongPod :: "bool option \<Rightarrow> shareTransfer \<Rightarrow> bool" where
  "wrongPod rel t \<longleftrightarrow> rel = Some True \<and> plannedRunning t"

definition contributor :: "shareTransfer \<Rightarrow> bool" where
  "contributor t \<longleftrightarrow> trSetID t \<noteq> [] \<and> \<not> IsSetPrimary t"

definition waitingSets :: "bool option list \<Rightarrow> shareTransfer list \<Rightarrow> string list" where
  "waitingSets rels ts =
     map (\<lambda>(r, t). trSetID t) (filter (\<lambda>(r, t). r \<noteq> None \<and> (r = Some False \<or> wrongPod r t \<or> plannedUnknown t) \<and> contributor t) (zip rels ts))"

definition liveContributors :: "shareTransfer list \<Rightarrow> string \<Rightarrow> int" where
  "liveContributors ts i = int (length (filter (\<lambda>t. trState t = ShareReleasing \<and> contributor t \<and> trSetID t = i) ts))"

definition broken :: "(string \<Rightarrow> int) \<Rightarrow> shareTransfer \<Rightarrow> bool" where
  "broken live t \<longleftrightarrow> IsSetPrimary t \<and> live (trID t) < setPending t"

definition rebaseDonor :: "shareTransfer \<Rightarrow> gotime \<Rightarrow> shareTransfer list \<Rightarrow> shareTransfer list" where
  "rebaseDonor t now ts =
     map (\<lambda>u. if trState u = ShareReleasing \<and> trDonor u = trDonor t \<and> trStarted u < now then u\<lparr>donorBase := donorBase u - trDonorGPUs t\<rparr> else u) ts"

definition shareReleaseSamples :: nat where
  "shareReleaseSamples = 20"

definition noteRelease :: "duration \<Rightarrow> duration list \<Rightarrow> duration list" where
  "noteRelease d ds = (let ds = ds @ [d] in if shareReleaseSamples < length ds then drop (length ds - shareReleaseSamples) ds else ds)"

definition creditPrimary :: "shareTransfer \<Rightarrow> shareTransfer list \<Rightarrow> shareTransfer list" where
  "creditPrimary t ts =
     (if contributor t
      then map (\<lambda>p. if trID p = trSetID t \<and> trState p = ShareReleasing
             then p\<lparr>setReleased := setReleased p + trDonorGPUs t, setPending := setPending p - 1\<rparr> else p) ts
      else ts)"

definition enterFilling :: "(string, int) gomap \<Rightarrow> gotime \<Rightarrow> shareTimings \<Rightarrow> shareTransfer \<Rightarrow> shareTransfer" where
  "enterFilling rheld now tm t =
     t\<lparr>trState := ShareFilling, trDeadline := now + tmFillTimeout tm, receiverBase := mget 0 rheld (trReceiver t),
       receiverBaseUnset := (trReceiver t \<noteq> [] \<and> map_of rheld (trReceiver t) = None), fillingSince := now\<rparr>"

definition openHole :: "gotime \<Rightarrow> string \<Rightarrow> shareWakeHold \<Rightarrow> shareWakeHold" where
  "openHole now i h = (if whID h = i \<and> whUntil h = None then h\<lparr>whUntil := Some (now + whHold h)\<rparr> else h)"

definition mayRelease :: "(string \<Rightarrow> int) \<Rightarrow> string list \<Rightarrow> bool option \<Rightarrow> shareTransfer \<Rightarrow> bool" where
  "mayRelease live waiting rel t \<longleftrightarrow>
     rel = Some True \<and> \<not> (IsSetPrimary t \<and> trID t \<in> set waiting) \<and> \<not> broken live t \<and> \<not> wrongPod rel t \<and> \<not> plannedUnknown t"

definition releaseStep :: "(string, int) gomap \<Rightarrow> gotime \<Rightarrow> shareTimings \<Rightarrow> (string \<Rightarrow> int) \<Rightarrow> string list \<Rightarrow> bool option list \<Rightarrow> shareLedger \<Rightarrow> nat \<Rightarrow> shareLedger" where
  "releaseStep rheld now tm live waiting rels l i =
     (let t = transfers l ! i in
      if \<not> mayRelease live waiting (rels ! i) t then l
      else let t' = enterFilling rheld now tm t in
        l\<lparr>transfers := rebaseDonor t' now ((creditPrimary t (transfers l))[i := t']),
          releases_seen := noteRelease (time_sub now (trStarted t)) (releases_seen l),
          wakeHolds := map (openHole now (trID t)) (wakeHolds l),
          released := released l @ [t'],
          aborts := mdel (trDonor t) (aborts l), giveAfter := mdel (trDonor t) (giveAfter l), busyUntil := mdel (trDonor t) (busyUntil l)\<rparr>)"

definition releaseAll :: "(string, int) gomap \<Rightarrow> (string, int) gomap \<Rightarrow> gotime \<Rightarrow> shareTimings \<Rightarrow> shareLedger \<Rightarrow> shareLedger" where
  "releaseAll held rheld now tm l =
     (let rels = releasables held [] [] (transfers l)
      in foldl (releaseStep rheld now tm (liveContributors (transfers l)) (waitingSets rels (transfers l)) rels) l [0..<length (transfers l)])"

record sweep =
  swKeep :: "shareTransfer list"
  swEnded :: "shareTransferEnd list"
  swGot :: "(string, int) gomap"
  swBase :: "(string, int) gomap"
  swAborted :: "string list"
  swFilled :: "shareTransfer list"
  swWrong :: "shareTransfer list"
  swAborts :: "(string, int) gomap"
  swGiveAfter :: "(string, gotime) gomap"
  swUnsteerable :: "(string, bool) gomap"

definition backoff :: "shareTimings \<Rightarrow> int \<Rightarrow> duration" where
  "backoff tm n = tmReleaseTimeout tm * 2 ^ nat (min (n - 1) 4)"

definition backOff :: "gotime \<Rightarrow> shareTimings \<Rightarrow> shareTransfer \<Rightarrow> sweep \<Rightarrow> sweep" where
  "backOff now tm t s =
     (if trDonor t = [] \<or> trDonor t \<in> set (swAborted s) then s
      else let n = mget 0 (swAborts s) (trDonor t) + 1
        in s\<lparr>swAborted := trDonor t # swAborted s, swAborts := mput (trDonor t) n (swAborts s),
             swGiveAfter := mput (trDonor t) (now + backoff tm n) (swGiveAfter s), swUnsteerable := mdel (trDonor t) (swUnsteerable s)\<rparr>)"

definition endWith :: "shareTransferOutcome \<Rightarrow> bool \<Rightarrow> shareTransfer \<Rightarrow> sweep \<Rightarrow> sweep" where
  "endWith outcome rel t s = s\<lparr>swEnded := swEnded s @ [\<lparr>endTransfer = t, endOutcome = outcome, DonorReleased = rel\<rparr>]\<rparr>"

definition keepTransfer :: "shareTransfer \<Rightarrow> sweep \<Rightarrow> sweep" where
  "keepTransfer t s = s\<lparr>swKeep := swKeep s @ [t]\<rparr>"

definition judgeFill :: "(string, int) gomap \<Rightarrow> gotime \<Rightarrow> shareTransfer \<Rightarrow> sweep \<Rightarrow> sweep" where
  "judgeFill rheld now t s =
     (if receiverBaseUnset t
      then keepTransfer (t\<lparr>receiverBase := mget 0 rheld (trReceiver t), receiverBaseUnset := False, fillingSince := now\<rparr>) s
      else let base = (case map_of (swBase s) (trReceiver t) of None \<Rightarrow> mput (trReceiver t) (receiverBase t) (swBase s) | Some _ \<Rightarrow> swBase s);
               got = madd (trReceiver t) (trGPUs t) (swGot s);
               s = s\<lparr>swBase := base, swGot := got\<rparr>
        in if mget 0 base (trReceiver t) + mget 0 got (trReceiver t) \<le> mget 0 rheld (trReceiver t)
           then (endWith ShareOutcomeDone False t s)\<lparr>swFilled := swFilled s @ [t]\<rparr>
           else if trDeadline t \<le> now then endWith ShareOutcomeFillTimeout False t s
           else keepTransfer t s)"

definition sweepStep :: "(string, int) gomap \<Rightarrow> gotime \<Rightarrow> shareTimings \<Rightarrow> (string \<Rightarrow> int) \<Rightarrow> sweep \<Rightarrow> bool option \<times> shareTransfer \<Rightarrow> sweep" where
  "sweepStep rheld now tm live s rt =
     (let (rel, t) = rt in
      if trState t = ShareReleasing then
        (if broken live t then endWith ShareOutcomeAborted (rel = Some True \<and> \<not> plannedRunning t) t s
         else if wrongPod rel t \<and> \<not> plannedUnknown t then (endWith ShareOutcomeWrongPod False t s)\<lparr>swWrong := swWrong s @ [t]\<rparr>
         else if trDeadline t \<le> now \<and> IsSetPrimary t \<and> rel = Some True then endWith ShareOutcomeAborted True t s
         else if trDeadline t \<le> now then backOff now tm t (endWith ShareOutcomeAborted False t s)
         else keepTransfer t s)
      else if map_of rheld (trReceiver t) \<noteq> None \<or> trReceiver t = [] then judgeFill rheld now t s
      else if trDeadline t \<le> now then endWith ShareOutcomeFillTimeout False t s
      else keepTransfer t s)"

definition countFilled :: "gotime \<Rightarrow> shareTransfer list \<Rightarrow> shareTransfer \<Rightarrow> shareTransfer list" where
  "countFilled now ts f =
     map (\<lambda>u. if trState u = ShareFilling \<and> trReceiver u = trReceiver f \<and> trReceiver u \<noteq> [] \<and> fillingSince u < now
            then u\<lparr>receiverBase := receiverBase u + trGPUs f\<rparr> else u) ts"

definition orphaned :: "shareTransferEnd list \<Rightarrow> shareTransfer \<Rightarrow> bool" where
  "orphaned ended t \<longleftrightarrow> trState t = ShareReleasing \<and> \<not> IsSetPrimary t \<and>
     trSetID t \<in> set (map (trID \<circ> endTransfer) (filter (\<lambda>e. IsSetPrimary (endTransfer e) \<and> endOutcome e \<noteq> ShareOutcomeDone) ended))"

definition sweepAll :: "(string, int) gomap \<Rightarrow> gotime \<Rightarrow> shareTimings \<Rightarrow> (string \<Rightarrow> int) \<Rightarrow> bool option list \<Rightarrow> shareLedger \<Rightarrow> sweep" where
  "sweepAll rheld now tm live rels l =
     foldl (sweepStep rheld now tm live)
       \<lparr>swKeep = [], swEnded = [], swGot = [], swBase = [], swAborted = [], swFilled = [], swWrong = [], swAborts = aborts l,
        swGiveAfter = giveAfter l, swUnsteerable = unsteerable l\<rparr> (zip rels (transfers l))"

definition Share_Observe :: "(string, int) gomap \<Rightarrow> gotime \<Rightarrow> shareTimings \<Rightarrow> shareLedger \<Rightarrow> shareTransferEnd list \<times> shareLedger" where
  "Share_Observe held now tm l =
     (let rheld = (case filled l of None \<Rightarrow> held | Some f \<Rightarrow> f);
          live = liveContributors (transfers l);
          rels = releasables held [] [] (transfers l);
          l' = releaseAll held rheld now tm (l\<lparr>filled := None\<rparr>);
          s = sweepAll rheld now tm live rels l';
          ts = foldl (countFilled now) (foldl (\<lambda>ts t. rebaseDonor t now ts) (swKeep s) (swWrong s)) (swFilled s);
          gone = filter (orphaned (swEnded s)) ts
      in (swEnded s @ map (\<lambda>t. \<lparr>endTransfer = t, endOutcome = ShareOutcomeAborted, DonorReleased = False\<rparr>) gone,
          l'\<lparr>transfers := filter (\<lambda>t. \<not> orphaned (swEnded s) t) ts, aborts := swAborts s, giveAfter := swGiveAfter s,
             unsteerable := swUnsteerable s\<rparr>))"

subsection \<open>Wakes\<close>

definition redirectable :: "shareTransfer \<Rightarrow> bool" where
  "redirectable t \<longleftrightarrow> trState t = ShareReleasing \<and> trReceiver t \<noteq> [] \<and> trSetID t = [] \<and> \<not> trReturned t"

definition withoutReceiver :: "shareTransfer \<Rightarrow> shareTransfer" where
  "withoutReceiver t = t\<lparr>trReceiver := [], trReceiverVariant := [], trGPUs := 0, trUrgent := False\<rparr>"

fun redirectFirst :: "string \<Rightarrow> shareTransfer list \<Rightarrow> (shareTransfer \<times> shareTransfer list) option" where
  "redirectFirst i [] = None"
| "redirectFirst i (t # ts) =
     (if trID t = i \<and> redirectable t then Some (t, withoutReceiver t # ts)
      else map_option (\<lambda>(u, us). (u, t # us)) (redirectFirst i ts))"

definition Share_Redirect :: "string \<Rightarrow> duration \<Rightarrow> shareLedger \<Rightarrow> shareTransfer option \<times> shareLedger" where
  "Share_Redirect i hold l =
     (case redirectFirst i (transfers l) of None \<Rightarrow> (None, l)
      | Some (t, ts) \<Rightarrow> (Some t, l\<lparr>transfers := ts,
          wakeHolds := wakeHolds l @ [\<lparr>whGPUs = trDonorGPUs t, whID = trID t, whHold = hold, whUntil = None\<rparr>]\<rparr>))"

definition wakeHoldLive :: "gotime \<Rightarrow> shareLedger \<Rightarrow> shareWakeHold \<Rightarrow> bool" where
  "wakeHoldLive now l h =
     (case whUntil h of None \<Rightarrow> (case Transfer_of (whID h) l of None \<Rightarrow> False | Some t \<Rightarrow> trState t = ShareReleasing)
      | Some u \<Rightarrow> now < u)"

definition WakeHeld :: "gotime \<Rightarrow> shareLedger \<Rightarrow> int \<times> shareLedger" where
  "WakeHeld now l =
     (let hs = filter (wakeHoldLive now l) (wakeHolds l) in (sum_list (map whGPUs hs), l\<lparr>wakeHolds := hs\<rparr>))"

subsection \<open>Who may give\<close>

definition BackingOff :: "string \<Rightarrow> gotime \<Rightarrow> shareLedger \<Rightarrow> bool" where
  "BackingOff role now l = before now (giveAfter l) role"

definition Giving :: "string \<Rightarrow> shareLedger \<Rightarrow> bool" where
  "Giving role l = list_ex (\<lambda>t. trState t = ShareReleasing \<and> trDonor t = role) (transfers l)"

definition Changing :: "string \<Rightarrow> gotime \<Rightarrow> shareLedger \<Rightarrow> bool" where
  "Changing role now l = (case map_of (changing l) role of None \<Rightarrow> False | Some h \<Rightarrow> now < hUntil h)"

definition GivingBusy :: "string \<Rightarrow> gotime \<Rightarrow> shareLedger \<Rightarrow> bool" where
  "GivingBusy role now l =
     (if Changing role now l then True
      else if \<not> before now (busyUntil l) role then False
      else list_ex (\<lambda>t. trDonor t = role \<and> trState t = ShareReleasing) (transfers l))"

definition GivingBlocked :: "string \<Rightarrow> gotime \<Rightarrow> shareLedger \<Rightarrow> bool" where
  "GivingBlocked role now l \<longleftrightarrow> before now (giveAfter l) role \<or> GivingBusy role now l"

definition GivingHeld :: "string \<Rightarrow> gotime \<Rightarrow> shareTimings \<Rightarrow> shareLedger \<Rightarrow> bool" where
  "GivingHeld role now tm l =
     (if GivingBlocked role now l then True else heldSince now (tmReversalHold tm) (map_of (lastGot l) role))"

definition Unsteerable :: "string \<Rightarrow> gotime \<Rightarrow> shareLedger \<Rightarrow> bool" where
  "Unsteerable role now l \<longleftrightarrow> BackingOff role now l \<and> mget False (unsteerable l) role"

definition MarkFailed :: "string \<Rightarrow> gotime \<Rightarrow> shareTimings \<Rightarrow> shareLedger \<Rightarrow> shareLedger" where
  "MarkFailed donor now tm l =
     (if donor = [] then l
      else let n = mget 0 (aborts l) donor + 1
        in l\<lparr>aborts := mput donor n (aborts l), giveAfter := mput donor (now + backoff tm n) (giveAfter l),
             unsteerable := mput donor True (unsteerable l)\<rparr>)"

definition later :: "'k \<Rightarrow> gotime \<Rightarrow> ('k, gotime) gomap \<Rightarrow> ('k, gotime) gomap" where
  "later k until m = (case map_of m k of None \<Rightarrow> mput k until m | Some u \<Rightarrow> if u < until then mput k until m else m)"

definition HoldGiving :: "string \<Rightarrow> gotime \<Rightarrow> shareTimings \<Rightarrow> shareLedger \<Rightarrow> shareLedger" where
  "HoldGiving donor now tm l = (if donor = [] then l else l\<lparr>busyUntil := later donor (now + tmReleaseTimeout tm) (busyUntil l)\<rparr>)"

definition HoldFill :: "string \<Rightarrow> gotime \<Rightarrow> shareLedger \<Rightarrow> shareLedger" where
  "HoldFill receiver until l = l\<lparr>fillHeld := later receiver until (fillHeld l)\<rparr>"

definition FillHeld :: "string \<Rightarrow> gotime \<Rightarrow> shareLedger \<Rightarrow> bool" where
  "FillHeld receiver now l = before now (fillHeld l) receiver"

definition HoldChanging :: "string \<Rightarrow> string \<Rightarrow> string \<Rightarrow> string \<Rightarrow> gotime \<Rightarrow> shareTimings \<Rightarrow> shareLedger \<Rightarrow> shareLedger" where
  "HoldChanging donor variant receiver reason now tm l =
     (if donor = [] then l
      else let until = now + tmReleaseTimeout tm;
               fresh = \<lparr>hDonor = donor, hVariant = [], hReceivers = [], hReason = [], hSince = now, hUntil = until, SteadyCycles = 0\<rparr>;
               h = (case map_of (changing l) donor of None \<Rightarrow> fresh | Some h \<Rightarrow> if now < hUntil h then h else fresh);
               rs = (if receiver \<noteq> [] \<and> receiver \<notin> set (hReceivers h) then hReceivers h @ [receiver] else hReceivers h)
        in l\<lparr>changing := mput donor (h\<lparr>hVariant := variant, hReason := reason, SteadyCycles := 0, hReceivers := rs,
               hUntil := (if hUntil h < until then until else hUntil h)\<rparr>) (changing l)\<rparr>)"

definition ChangingBlocks :: "string \<Rightarrow> gotime \<Rightarrow> shareLedger \<Rightarrow> bool" where
  "ChangingBlocks receiver now l = list_ex (\<lambda>(d, h). d \<noteq> receiver \<and> now < hUntil h \<and> receiver \<in> set (hReceivers h)) (changing l)"

definition ChangingHolds :: "gotime \<Rightarrow> shareLedger \<Rightarrow> shareChangingHold list" where
  "ChangingHolds now l = stable_sort (\<lambda>a b. hDonor a < hDonor b) (filter (\<lambda>h. now < hUntil h) (map snd (changing l)))"

definition ObserveChanging :: "string \<Rightarrow> bool \<Rightarrow> string \<Rightarrow> int \<Rightarrow> shareLedger \<Rightarrow> (shareChangingHold option \<times> bool) \<times> shareLedger" where
  "ObserveChanging donor steady reason cycles l =
     (case map_of (changing l) donor of None \<Rightarrow> ((None, False), l)
      | Some h \<Rightarrow>
          if \<not> steady
          then let h = h\<lparr>SteadyCycles := 0, hReason := (if reason \<noteq> [] then reason else hReason h)\<rparr>
            in ((Some h, False), l\<lparr>changing := mput donor h (changing l)\<rparr>)
          else let h = h\<lparr>SteadyCycles := SteadyCycles h + 1\<rparr>
            in if max cycles 1 \<le> SteadyCycles h then ((Some h, True), l\<lparr>changing := mdel donor (changing l)\<rparr>)
               else ((Some h, False), l\<lparr>changing := mput donor h (changing l)\<rparr>))"

subsection \<open>Runs of cycles\<close>

definition bumpRuns :: "(string, bool) gomap \<Rightarrow> (string, int) gomap \<Rightarrow> (string, int) gomap" where
  "bumpRuns now m =
     foldl (\<lambda>m (role, a). if a then madd role 1 m else m) (filter (\<lambda>(role, _). mget False now role) m) now"

definition Confirm :: "(string, bool) gomap \<Rightarrow> shareLedger \<Rightarrow> (string, int) gomap \<times> shareLedger" where
  "Confirm actionable l = (let m = bumpRuns actionable (confirm l) in (m, l\<lparr>confirm := m\<rparr>))"

definition ConfirmHard :: "(string, bool) gomap \<Rightarrow> shareLedger \<Rightarrow> (string, int) gomap \<times> shareLedger" where
  "ConfirmHard imbalanced l = (let m = bumpRuns imbalanced (hard l) in (m, l\<lparr>hard := m\<rparr>))"

definition HardCycles :: "string \<Rightarrow> shareLedger \<Rightarrow> int" where
  "HardCycles role l = mget 0 (hard l) role"

definition MarkOver :: "(string, bool) gomap \<Rightarrow> shareLedger \<Rightarrow> (string, int) gomap \<times> shareLedger" where
  "MarkOver aboveTarget l = (let m = bumpRuns aboveTarget (over l) in (m, l\<lparr>over := m\<rparr>))"

definition noteBusy :: "gotime \<Rightarrow> (string, sharePodBusy) gomap \<Rightarrow> string \<times> bool \<Rightarrow> (string, sharePodBusy) gomap" where
  "noteBusy now m rb =
     (let (role, b) = rb in
      if \<not> b then m
      else let run = (case map_of m role of None \<Rightarrow> \<lparr>busySince = now, busyCycles = 0\<rparr> | Some r \<Rightarrow> r)
        in mput role (run\<lparr>busyCycles := busyCycles run + 1\<rparr>) m)"

definition NotePodBusy :: "(string, bool) gomap \<Rightarrow> gotime \<Rightarrow> shareLedger \<Rightarrow> (string, sharePodBusy) gomap \<times> shareLedger" where
  "NotePodBusy busy now l =
     (let m = foldl (noteBusy now) (filter (\<lambda>(role, _). mget False busy role) (podBusy l)) busy in (m, l\<lparr>podBusy := m\<rparr>))"

text \<open>\<open>int(float64(n) * 0.9)\<close> is \<open>9 * n div 10\<close> for the at most \<open>shareReleaseSamples\<close> samples kept.\<close>

definition MeasuredRelease :: "shareLedger \<Rightarrow> duration \<times> bool" where
  "MeasuredRelease l =
     (let ds = sort (releases_seen l); n = length ds in if n < 3 then (0, False) else (ds ! min (n - 1) (9 * n div 10), True))"

definition PlannedRunning :: "(string, bool) gomap \<Rightarrow> (string, bool) gomap \<Rightarrow> shareLedger \<Rightarrow> shareLedger" where
  "PlannedRunning running unknown l =
     l\<lparr>transfers := map (\<lambda>t. t\<lparr>plannedRunning := mget False running (trID t), plannedUnknown := mget False unknown (trID t)\<rparr>) (transfers l)\<rparr>"

definition ConfirmStarted :: "string \<Rightarrow> string list \<Rightarrow> shareLedger \<Rightarrow> shareLedger" where
  "ConfirmStarted i pods l =
     l\<lparr>transfers := map (\<lambda>t. if trID t = i then t\<lparr>trDonorPods := pods, trDonorLowered := True\<rparr> else t) (transfers l)\<rparr>"

definition FillBlocked :: "string \<Rightarrow> string \<Rightarrow> gotime \<Rightarrow> shareLedger \<Rightarrow> shareLedger" where
  "FillBlocked role reason until l =
     l\<lparr>fillBlocked := (if reason = [] then mdel role (fillBlocked l) else mput role (reason, until) (fillBlocked l))\<rparr>"

definition FillBlockedReason :: "string \<Rightarrow> gotime \<Rightarrow> shareLedger \<Rightarrow> string \<times> shareLedger" where
  "FillBlockedReason role now l =
     (case map_of (fillBlocked l) role of None \<Rightarrow> ([], l)
      | Some (reason, until) \<Rightarrow> if until \<le> now then ([], l\<lparr>fillBlocked := mdel role (fillBlocked l)\<rparr>) else (reason, l))"

definition SetFillShort :: "string list \<Rightarrow> shareLedger \<Rightarrow> shareLedger" where
  "SetFillShort roles l = l\<lparr>fillShort := foldl (\<lambda>m r. mput r True m) [] roles\<rparr>"

definition FillShort :: "string \<Rightarrow> shareLedger \<Rightarrow> bool" where
  "FillShort role l = mget False (fillShort l) role"

definition ReceiverFilled :: "(string, int) gomap option \<Rightarrow> shareLedger \<Rightarrow> shareLedger" where
  "ReceiverFilled f l = l\<lparr>filled := f\<rparr>"

definition recordedRoles :: "shareLedger \<Rightarrow> string list" where
  "recordedRoles l = mkeys (aborts l) @ mkeys (giveAfter l) @ mkeys (fillBlocked l) @ mkeys (lastGave l) @ mkeys (lastGot l) @
     mkeys (moves l) @ mkeys (cancels l) @ mkeys (swingUntil l) @ mkeys (needs l)"

definition without_roles :: "string list \<Rightarrow> (string, 'v) gomap \<Rightarrow> (string, 'v) gomap" where
  "without_roles rs m = filter (\<lambda>(k, _). k \<notin> set rs) m"

definition Retain :: "string list \<Rightarrow> gotime \<Rightarrow> shareTimings \<Rightarrow> shareLedger \<Rightarrow> shareLedger" where
  "Retain present now tm l =
     (let s = foldl (\<lambda>m r. mput r now m) (seen l) present;
          s = foldl (\<lambda>m t. let m = mput (trDonor t) now m in if trReceiver t \<noteq> [] then mput (trReceiver t) now m else m) s (transfers l);
          s = foldl (\<lambda>m r. if map_of m r = None then mput r now m else m) s (recordedRoles l);
          horizon = max (tmReversalHold tm) (max (2 * tmSwingWindow tm) (tmReleaseTimeout tm * 2 ^ 4));
          old = mkeys (filter (\<lambda>(_, t). horizon < time_sub now t) s)
      in l\<lparr>noPair := filter (\<lambda>(_, until). now < until) (noPair l), seen := without_roles old s, aborts := without_roles old (aborts l),
           unsteerable := without_roles old (unsteerable l), busyUntil := without_roles old (busyUntil l), changing := without_roles old (changing l),
           fillHeld := without_roles old (fillHeld l), giveAfter := without_roles old (giveAfter l), fillBlocked := without_roles old (fillBlocked l),
           lastGave := without_roles old (lastGave l), lastGot := without_roles old (lastGot l), moves := without_roles old (moves l),
           cancels := without_roles old (cancels l), swingUntil := without_roles old (swingUntil l), stepped := without_roles old (stepped l),
           needs := without_roles old (needs l), needsSince := without_roles old (needsSince l), hard := without_roles old (hard l),
           over := without_roles old (over l), podBusy := without_roles old (podBusy l)\<rparr>)"

end
