(* ===== verification/ShareRelease.thy ===== *)
theory ShareRelease
  imports ShareLedger "HOL-Library.Multiset"
begin

text \<open>
  What one cycle of the share ledger does to its transfers: none is lost or invented, and a donor's
  transfers release only for GPUs the donor lost.
\<close>

subsection \<open>The release pass\<close>

text \<open>The part of a transfer that the release pass leaves alone.\<close>

definition core :: "shareTransfer \<Rightarrow> string \<times> string \<times> string \<times> int \<times> int \<times> string \<times> gotime \<times> bool \<times> bool" where
  "core t = (trID t, trDonor t, trReceiver t, trGPUs t, trDonorGPUs t, trSetID t, trStarted t, plannedRunning t, plannedUnknown t)"

lemma core_eqD:
  assumes "core t = core u"
  shows "trID t = trID u" "trDonor t = trDonor u" "trReceiver t = trReceiver u" "trGPUs t = trGPUs u" "trDonorGPUs t = trDonorGPUs u"
    "trSetID t = trSetID u" "trStarted t = trStarted u" "plannedRunning t = plannedRunning u" "plannedUnknown t = plannedUnknown u"
  using assms by (simp_all add: core_def)

lemma core_primary: "core t = core u \<Longrightarrow> IsSetPrimary t = IsSetPrimary u" "core t = core u \<Longrightarrow> contributor t = contributor u"
  by (simp_all add: core_def IsSetPrimary_def contributor_def)

lemma map_nth_eq: "map f xs = map f ys \<Longrightarrow> i < length xs \<Longrightarrow> f (xs ! i) = f (ys ! i)"
  by (metis length_map nth_map)

lemma length_rebaseDonor [simp]: "length (rebaseDonor t now ts) = length ts"
  by (simp add: rebaseDonor_def)

lemma length_creditPrimary [simp]: "length (creditPrimary t ts) = length ts"
  by (simp add: creditPrimary_def)

lemma core_rebaseDonor: "map core (rebaseDonor t now ts) = map core ts"
  by (simp add: rebaseDonor_def core_def)

lemma core_creditPrimary: "map core (creditPrimary t ts) = map core ts"
  by (simp add: creditPrimary_def core_def)

lemma core_enterFilling: "core (enterFilling rheld now tm t) = core t"
  by (simp add: enterFilling_def core_def)

lemma state_rebaseDonor: "i < length ts \<Longrightarrow> trState (rebaseDonor t now ts ! i) = trState (ts ! i)"
  by (simp add: rebaseDonor_def)

lemma state_creditPrimary: "i < length ts \<Longrightarrow> trState (creditPrimary t ts ! i) = trState (ts ! i)"
  by (simp add: creditPrimary_def)

lemma base_creditPrimary: "i < length ts \<Longrightarrow> donorBase (creditPrimary t ts ! i) = donorBase (ts ! i)"
  by (simp add: creditPrimary_def)

lemma deadline_creditPrimary: "i < length ts \<Longrightarrow> trDeadline (creditPrimary t ts ! i) = trDeadline (ts ! i)"
  by (simp add: creditPrimary_def)

lemma base_rebaseDonor:
  "i < length ts \<Longrightarrow> donorBase (rebaseDonor t now ts ! i) =
     (if trState (ts ! i) = ShareReleasing \<and> trDonor (ts ! i) = trDonor t \<and> trStarted (ts ! i) < now then donorBase (ts ! i) - trDonorGPUs t
      else donorBase (ts ! i))"
  by (simp add: rebaseDonor_def)

definition gpusOf :: "string \<Rightarrow> shareTransfer list \<Rightarrow> int" where
  "gpusOf d ts = sum_list (map trDonorGPUs (filter (\<lambda>t. trDonor t = d) ts))"

lemma gpusOf_append [simp]: "gpusOf d (xs @ ys) = gpusOf d xs + gpusOf d ys"
  by (simp add: gpusOf_def)

lemma gpusOf_Nil [simp]: "gpusOf d [] = 0"
  by (simp add: gpusOf_def)

lemma gpusOf_one [simp]: "gpusOf d [t] = (if trDonor t = d then trDonorGPUs t else 0)"
  by (simp add: gpusOf_def)

text \<open>Transfer \<open>j\<close> of the donor, if the pass has released it.\<close>

definition freedAt :: "bool option list \<Rightarrow> string \<Rightarrow> shareTransfer list \<Rightarrow> shareTransfer list \<Rightarrow> nat \<Rightarrow> int" where
  "freedAt rels d ts0 ts j =
     (if rels ! j = Some True \<and> trState (ts ! j) = ShareFilling \<and> trDonor (ts0 ! j) = d then trDonorGPUs (ts0 ! j) else 0)"

definition pass_inv :: "bool option list \<Rightarrow> string \<Rightarrow> int \<Rightarrow> shareLedger \<Rightarrow> nat \<Rightarrow> shareLedger \<Rightarrow> bool" where
  "pass_inv rels d B l0 n l \<longleftrightarrow>
     map core (transfers l) = map core (transfers l0) \<and>
     (\<forall>j < length (transfers l0). n \<le> j \<longrightarrow> trState (transfers l ! j) = trState (transfers l0 ! j)) \<and>
     (\<exists>new. released l = released l0 @ new \<and> gpusOf d new = (\<Sum>j<n. freedAt rels d (transfers l0) (transfers l) j) \<and>
        (\<forall>j < length (transfers l0). trState (transfers l ! j) = ShareReleasing \<and> trDonor (transfers l0 ! j) = d
           \<longrightarrow> donorBase (transfers l ! j) \<le> B - gpusOf d new))"

lemma releaseStep_released:
  fixes rheld :: "(string, int) gomap" and tm :: shareTimings and now :: gotime and live :: "string \<Rightarrow> int" and waiting :: "string list"
    and rels :: "bool option list" and l :: shareLedger and i :: nat
  assumes "mayRelease live waiting (rels ! i) (transfers l ! i)" and i: "i < length (transfers l)"
  defines "t' \<equiv> enterFilling rheld now tm (transfers l ! i)"
  defines "l' \<equiv> releaseStep rheld now tm live waiting rels l i"
  shows "released l' = released l @ [t']" and "map core (transfers l') = map core (transfers l)"
    and "j < length (transfers l) \<Longrightarrow> trState (transfers l' ! j) = (if j = i then ShareFilling else trState (transfers l ! j))"
    and "j < length (transfers l) \<Longrightarrow> j \<noteq> i \<Longrightarrow> donorBase (transfers l' ! j) =
      (if trState (transfers l ! j) = ShareReleasing \<and> trDonor (transfers l ! j) = trDonor (transfers l ! i) \<and> trStarted (transfers l ! j) < now
       then donorBase (transfers l ! j) - trDonorGPUs (transfers l ! i) else donorBase (transfers l ! j))"
proof -
  have tr: "transfers l' = rebaseDonor t' now ((creditPrimary (transfers l ! i) (transfers l))[i := t'])" and rel: "released l' = released l @ [t']"
    using assms(1) by (simp_all add: l'_def t'_def releaseStep_def Let_def)
  have st: "trState t' = ShareFilling" "trDonor t' = trDonor (transfers l ! i)" "trDonorGPUs t' = trDonorGPUs (transfers l ! i)"
    by (simp_all add: t'_def enterFilling_def)
  have cr: "core (creditPrimary (transfers l ! i) (transfers l) ! j) = core (transfers l ! j)" if "j < length (transfers l)" for j
    using map_nth_eq [OF core_creditPrimary] that by simp
  show "released l' = released l @ [t']" by (rule rel)
  show "map core (transfers l') = map core (transfers l)"
    unfolding tr core_rebaseDonor map_update core_creditPrimary using i list_update_id [of "map core (transfers l)" i]
    by (simp add: t'_def core_enterFilling)
  show "trState (transfers l' ! j) = (if j = i then ShareFilling else trState (transfers l ! j))" if "j < length (transfers l)"
    unfolding tr using that st by (simp add: state_rebaseDonor state_creditPrimary)
  show "donorBase (transfers l' ! j) =
      (if trState (transfers l ! j) = ShareReleasing \<and> trDonor (transfers l ! j) = trDonor (transfers l ! i) \<and> trStarted (transfers l ! j) < now
       then donorBase (transfers l ! j) - trDonorGPUs (transfers l ! i) else donorBase (transfers l ! j))" if "j < length (transfers l)" "j \<noteq> i"
    unfolding tr using that st core_eqD(2,7) [OF cr [OF that(1)]] by (simp add: base_rebaseDonor state_creditPrimary base_creditPrimary)
qed

lemma pass_inv_init:
  assumes "\<And>j. j < length (transfers l) \<Longrightarrow> trState (transfers l ! j) = ShareReleasing \<Longrightarrow> trDonor (transfers l ! j) = d \<Longrightarrow> donorBase (transfers l ! j) \<le> B"
  shows "pass_inv rels d B l 0 l"
  using assms by (auto simp: pass_inv_def)

lemma pass_inv_step:
  assumes inv: "pass_inv rels d B l0 n l" and n: "n < length (transfers l0)"
    and started: "\<And>j. j < length (transfers l0) \<Longrightarrow> trStarted (transfers l0 ! j) < now"
    and rel: "rels ! n = Some True \<Longrightarrow> trState (transfers l0 ! n) = ShareReleasing"
  shows "pass_inv rels d B l0 (Suc n) (releaseStep rheld now tm live waiting rels l n)"
proof -
  let ?l = "releaseStep rheld now tm live waiting rels l n"
  obtain new where c: "map core (transfers l) = map core (transfers l0)"
    and st: "\<And>j. j < length (transfers l0) \<Longrightarrow> n \<le> j \<Longrightarrow> trState (transfers l ! j) = trState (transfers l0 ! j)"
    and new: "released l = released l0 @ new" "gpusOf d new = (\<Sum>j<n. freedAt rels d (transfers l0) (transfers l) j)"
    and b: "\<And>j. j < length (transfers l0) \<Longrightarrow> trState (transfers l ! j) = ShareReleasing \<Longrightarrow> trDonor (transfers l0 ! j) = d \<Longrightarrow> donorBase (transfers l ! j) \<le> B - gpusOf d new"
    using inv unfolding pass_inv_def by blast
  have len: "length (transfers l) = length (transfers l0)" using c by (metis length_map)
  have cj: "core (transfers l ! j) = core (transfers l0 ! j)" if "j < length (transfers l0)" for j using map_nth_eq [OF c] that len by simp
  show ?thesis
  proof (cases "mayRelease live waiting (rels ! n) (transfers l ! n)")
    case False
    then have l: "?l = l" by (simp add: releaseStep_def Let_def)
    have "freedAt rels d (transfers l0) (transfers l) n = 0" using st [OF n] rel by (auto simp: freedAt_def)
    then show ?thesis unfolding l pass_inv_def using c st new b by (intro conjI exI [of _ new]) auto
  next
    case True
    note r = releaseStep_released [OF True, unfolded len, OF n]
    have tn: "trDonor (transfers l ! n) = trDonor (transfers l0 ! n)" "trDonorGPUs (transfers l ! n) = trDonorGPUs (transfers l0 ! n)"
      using core_eqD [OF cj [OF n]] by simp_all
    let ?new = "new @ [enterFilling rheld now tm (transfers l ! n)]"
    have g: "gpusOf d ?new = gpusOf d new + (if trDonor (transfers l0 ! n) = d then trDonorGPUs (transfers l0 ! n) else 0)"
      using tn by (simp add: enterFilling_def)
    have "rels ! n = Some True" using True by (simp add: mayRelease_def)
    then have at_n: "freedAt rels d (transfers l0) (transfers ?l) n = (if trDonor (transfers l0 ! n) = d then trDonorGPUs (transfers l0 ! n) else 0)"
      using r(3) [of n] n by (simp add: freedAt_def)
    have before_n: "freedAt rels d (transfers l0) (transfers ?l) j = freedAt rels d (transfers l0) (transfers l) j" if "j < n" for j
      using that n r(3) [of j] by (simp add: freedAt_def)
    have "gpusOf d ?new = (\<Sum>j<Suc n. freedAt rels d (transfers l0) (transfers ?l) j)"
      unfolding g new(2) sum.lessThan_Suc at_n by (simp add: before_n)
    moreover have "donorBase (transfers ?l ! j) \<le> B - gpusOf d ?new" if "j < length (transfers l0)" "trState (transfers ?l ! j) = ShareReleasing" "trDonor (transfers l0 ! j) = d" for j
    proof -
      have j: "j \<noteq> n" "trState (transfers l ! j) = ShareReleasing" using that r(3) [of j] by (auto split: if_splits)
      show ?thesis using r(4) [OF that(1) j(1)] b [OF that(1) j(2) that(3)] core_eqD(2,7) [OF cj [OF that(1)]] tn g started [OF that(1)] j(2) that(3) by auto
    qed
    ultimately show ?thesis unfolding pass_inv_def using c r(1,2,3) new(1) st by (intro conjI exI [of _ ?new]) auto
  qed
qed

subsection \<open>What a donor lost\<close>

lemma length_releasables [simp]: "length (releasables held base given ts) = length ts"
  by (induction ts arbitrary: base given) (simp_all add: Let_def split: option.split)

lemma releasables_Some:
  "j < length ts \<Longrightarrow> releasables held base given ts ! j \<noteq> None \<longleftrightarrow>
     trState (ts ! j) = ShareReleasing \<and> trDonor (ts ! j) \<noteq> [] \<and> map_of held (trDonor (ts ! j)) \<noteq> None"
proof (induction ts arbitrary: base given j)
  case (Cons t ts)
  show ?case
  proof (cases j)
    case 0
    then show ?thesis by (simp add: Let_def split: option.split)
  next
    case (Suc k)
    then show ?thesis using Cons by (simp add: Let_def split: option.split)
  qed
qed simp

definition shrunkAt :: "bool option list \<Rightarrow> string \<Rightarrow> shareTransfer list \<Rightarrow> int" where
  "shrunkAt rels d ts = sum_list (map (\<lambda>(r, t). if r = Some True \<and> trDonor t = d then trDonorGPUs t else 0) (zip rels ts))"

lemma releasables_lost:
  assumes "map_of held d = Some h"
    and "\<And>t. t \<in> set ts \<Longrightarrow> trState t = ShareReleasing \<Longrightarrow> trDonor t = d \<Longrightarrow> 0 \<le> trDonorGPUs t \<and> donorBase t \<le> B"
    and "\<And>b. map_of base d = Some b \<Longrightarrow> b \<le> B"
  shows "shrunkAt (releasables held base given ts) d ts = 0 \<or> shrunkAt (releasables held base given ts) d ts \<le> B - h - mget 0 given d"
  using assms(2,3)
proof (induction ts arbitrary: base given)
  case Nil
  then show ?case by (simp add: shrunkAt_def)
next
  case (Cons t ts)
  show ?case
  proof (cases "trState t = ShareReleasing \<and> trDonor t \<noteq> [] \<and> map_of held (trDonor t) \<noteq> None")
    case False
    then have "releasables held base given (t # ts) = None # releasables held base given ts" by (auto split: option.split)
    then show ?thesis using Cons.IH [of base given] Cons.prems by (simp add: shrunkAt_def)
  next
    case True
    define base' where "base' = (case map_of base (trDonor t) of None \<Rightarrow> mput (trDonor t) (donorBase t) base | Some _ \<Rightarrow> base)"
    define given' where "given' = madd (trDonor t) (trDonorGPUs t) given"
    obtain h' where h': "map_of held (trDonor t) = Some h'" using True by auto
    let ?r = "h' \<le> mget 0 base' (trDonor t) - mget 0 given' (trDonor t)"
    have eq: "releasables held base given (t # ts) = Some ?r # releasables held base' given' ts"
      using True h' by (simp add: base'_def given'_def Let_def)
    have sh: "shrunkAt (releasables held base given (t # ts)) d (t # ts) =
        (if ?r \<and> trDonor t = d then trDonorGPUs t else 0) + shrunkAt (releasables held base' given' ts) d ts"
      unfolding eq by (simp add: shrunkAt_def)
    have b': "b \<le> B" if "map_of base' d = Some b" for b
      using that Cons.prems(1) [of t] Cons.prems(2) True by (auto simp: base'_def gomap_simps split: option.splits if_splits)
    have IH: "shrunkAt (releasables held base' given' ts) d ts = 0 \<or> shrunkAt (releasables held base' given' ts) d ts \<le> B - h - mget 0 given' d"
      using Cons.IH [of base' given', OF _ b'] Cons.prems(1) by simp
    show ?thesis
    proof (cases "trDonor t = d")
      case False
      then show ?thesis using IH unfolding sh by (simp add: given'_def gomap_simps)
    next
      case d: True
      have g: "0 \<le> trDonorGPUs t" "mget 0 given' d = mget 0 given d + trDonorGPUs t" using Cons.prems(1) [of t] True d by (simp_all add: given'_def gomap_simps)
      have "\<exists>b. map_of base' d = Some b" using d by (auto simp: base'_def gomap_simps split: option.split)
      then have "mget 0 base' d \<le> B" using b' by (auto simp: mget_def)
      then show ?thesis using IH g d h' assms(1) unfolding sh by auto
    qed
  qed
qed

subsection \<open>The sweep\<close>

definition kept_as :: "shareTransfer \<Rightarrow> shareTransfer \<Rightarrow> bool" where
  "kept_as t k \<longleftrightarrow> core k = core t \<and> trState k = trState t \<and> donorBase k = donorBase t \<and> trDeadline k = trDeadline t"

lemmas sweep_defs = sweepStep_def Let_def endWith_def keepTransfer_def backOff_def judgeFill_def

lemma sweepStep_effect:
  fixes rheld :: "(string, int) gomap" and now :: gotime and tm :: shareTimings and live :: "string \<Rightarrow> int" and s :: sweep and rel :: "bool option"
    and t :: shareTransfer
  defines "s' \<equiv> sweepStep rheld now tm live s (rel, t)"
  shows "(\<exists>k. swKeep s' = swKeep s @ [k] \<and> kept_as t k \<and> swEnded s' = swEnded s \<and> swWrong s' = swWrong s) \<or>
    (\<exists>e. swEnded s' = swEnded s @ [e] \<and> endTransfer e = t \<and> swKeep s' = swKeep s \<and>
       swWrong s' = swWrong s @ (if endOutcome e = ShareOutcomeWrongPod then [t] else []) \<and>
       (endOutcome e = ShareOutcomeWrongPod \<longrightarrow> trState t = ShareReleasing \<and> rel = Some True))"
  by (cases "trState t") (simp_all add: s'_def sweep_defs kept_as_def core_def wrongPod_def)

definition swept :: "(bool option \<times> shareTransfer) list \<Rightarrow> sweep \<Rightarrow> sweep \<Rightarrow> bool" where
  "swept rts s s' \<longleftrightarrow> (\<exists>ks es. swKeep s' = swKeep s @ ks \<and> swEnded s' = swEnded s @ es \<and>
     swWrong s' = swWrong s @ map endTransfer (filter (\<lambda>e. endOutcome e = ShareOutcomeWrongPod) es) \<and>
     mset (map trID ks) + mset (map (trID \<circ> endTransfer) es) = mset (map (trID \<circ> snd) rts) \<and>
     (\<forall>k \<in> set ks. \<exists>t \<in> snd ` set rts. kept_as t k) \<and>
     (\<forall>d. (\<forall>(r, t) \<in> set rts. trState t = ShareReleasing \<and> trDonor t = d \<longrightarrow> 0 \<le> trDonorGPUs t) \<longrightarrow>
        gpusOf d (map endTransfer (filter (\<lambda>e. endOutcome e = ShareOutcomeWrongPod) es)) \<le>
        sum_list (map (\<lambda>(r, t). if r = Some True \<and> trState t = ShareReleasing \<and> trDonor t = d then trDonorGPUs t else 0) rts)))"

abbreviation wrongs :: "shareTransferEnd list \<Rightarrow> shareTransfer list" where
  "wrongs es \<equiv> map endTransfer (filter (\<lambda>e. endOutcome e = ShareOutcomeWrongPod) es)"

lemma swept_Cons:
  assumes s: "swept rts (sweepStep rheld now tm live s (r, t)) s'"
  shows "swept ((r, t) # rts) s s'"
proof -
  let ?s = "sweepStep rheld now tm live s (r, t)"
  let ?b = "\<lambda>rts d. sum_list (map (\<lambda>(r, t). if r = Some True \<and> trState t = ShareReleasing \<and> trDonor t = d then trDonorGPUs t else 0) rts)"
  let ?ok = "\<lambda>rts d. \<forall>(r, t) \<in> set rts. trState t = ShareReleasing \<and> trDonor t = d \<longrightarrow> 0 \<le> trDonorGPUs t"
  obtain ks es where ke: "swKeep s' = swKeep ?s @ ks" "swEnded s' = swEnded ?s @ es" "swWrong s' = swWrong ?s @ wrongs es"
      "mset (map trID ks) + mset (map (trID \<circ> endTransfer) es) = mset (map (trID \<circ> snd) rts)" "\<forall>k \<in> set ks. \<exists>t \<in> snd ` set rts. kept_as t k"
    and g: "\<And>d. ?ok rts d \<Longrightarrow> gpusOf d (wrongs es) \<le> ?b rts d"
    using s unfolding swept_def by blast
  consider (keep) k where "swKeep ?s = swKeep s @ [k]" "kept_as t k" "swEnded ?s = swEnded s" "swWrong ?s = swWrong s"
    | (gone) e where "swEnded ?s = swEnded s @ [e]" "endTransfer e = t" "swKeep ?s = swKeep s"
      "swWrong ?s = swWrong s @ (if endOutcome e = ShareOutcomeWrongPod then [t] else [])"
      "endOutcome e = ShareOutcomeWrongPod \<longrightarrow> trState t = ShareReleasing \<and> r = Some True"
    using sweepStep_effect [of rheld now tm live s r t] by metis
  then show ?thesis
  proof cases
    case keep
    have "trID k = trID t" using keep(2) by (simp add: kept_as_def core_def)
    moreover have "gpusOf d (wrongs es) \<le> ?b ((r, t) # rts) d" if "?ok ((r, t) # rts) d" for d
      using g [of d] that by auto
    ultimately show ?thesis unfolding swept_def using ke keep by (intro exI [of _ "k # ks"] exI [of _ es]) auto
  next
    case gone
    have "gpusOf d (wrongs (e # es)) \<le> ?b ((r, t) # rts) d" if "?ok ((r, t) # rts) d" for d
      using g [of d] that gone(2,5) by (auto simp: gpusOf_def)
    then show ?thesis unfolding swept_def using ke gone by (intro exI [of _ ks] exI [of _ "e # es"]) auto
  qed
qed

lemma sweep_swept: "swept rts s (foldl (sweepStep rheld now tm live) s rts)"
proof (induction rts arbitrary: s)
  case Nil
  then show ?case by (auto simp: swept_def)
next
  case (Cons rt rts)
  obtain r t where rt: "rt = (r, t)" by (cases rt)
  show ?case using swept_Cons [OF Cons.IH [of "sweepStep rheld now tm live s (r, t)"]] unfolding rt by simp
qed

subsection \<open>A whole cycle\<close>

definition sameHold :: "shareTransfer \<Rightarrow> shareTransfer \<Rightarrow> bool" where
  "sameHold t u \<longleftrightarrow> core u = core t \<and> trState u = trState t \<and> trDeadline u = trDeadline t"

lemma rebases:
  "list_all2 (\<lambda>t u. sameHold t u \<and>
     (trState t = ShareReleasing \<and> trStarted t < now \<longrightarrow> donorBase u = donorBase t - gpusOf (trDonor t) ws)) ts (foldl (\<lambda>ts t. rebaseDonor t now ts) ts ws)"
proof (induction ws arbitrary: ts)
  case Nil
  then show ?case by (simp add: list_all2_same sameHold_def)
next
  case (Cons w ws)
  have 1: "list_all2 (\<lambda>t u. sameHold t u \<and> (trState t = ShareReleasing \<and> trStarted t < now \<longrightarrow> donorBase u = donorBase t - gpusOf (trDonor t) [w])) ts (rebaseDonor w now ts)"
    by (simp add: rebaseDonor_def list_all2_conv_all_nth sameHold_def core_def)
  show ?case unfolding foldl_Cons
    by (rule list_all2_trans [OF _ 1 Cons.IH]) (auto simp: sameHold_def core_def gpusOf_def)
qed

lemma counts: "list_all2 (\<lambda>t u. sameHold t u \<and> donorBase u = donorBase t) ts (foldl (countFilled now) ts fs)"
proof (induction fs arbitrary: ts)
  case Nil
  then show ?case by (simp add: list_all2_same sameHold_def)
next
  case (Cons f fs)
  have 1: "list_all2 (\<lambda>t u. sameHold t u \<and> donorBase u = donorBase t) ts (countFilled now ts f)"
    by (simp add: countFilled_def list_all2_conv_all_nth sameHold_def core_def)
  show ?case unfolding foldl_Cons by (rule list_all2_trans [OF _ 1 Cons.IH]) (auto simp: sameHold_def)
qed

definition readings :: "(string, int) gomap \<Rightarrow> shareLedger \<Rightarrow> (string, int) gomap" where
  "readings held l = (case filled l of None \<Rightarrow> held | Some f \<Rightarrow> f)"

lemma Observe_obtain:
  assumes "Share_Observe held now tm l = (ended, l')"
  obtains l1 ks es ts where "l1 = releaseAll held (readings held l) now tm (l\<lparr>filled := None\<rparr>)" and "released l' = released l1"
    and "swept (zip (releasables held [] [] (transfers l)) (transfers l1)) (sweepAll (readings held l) now tm (liveContributors (transfers l)) [] l1)
      (sweepAll (readings held l) now tm (liveContributors (transfers l)) (releasables held [] [] (transfers l)) l1)"
    and "swKeep (sweepAll (readings held l) now tm (liveContributors (transfers l)) (releasables held [] [] (transfers l)) l1) = ks"
    and "swEnded (sweepAll (readings held l) now tm (liveContributors (transfers l)) (releasables held [] [] (transfers l)) l1) = es"
    and "swWrong (sweepAll (readings held l) now tm (liveContributors (transfers l)) (releasables held [] [] (transfers l)) l1) = wrongs es"
    and "list_all2 (\<lambda>t u. sameHold t u \<and> (trState t = ShareReleasing \<and> trStarted t < now \<longrightarrow> donorBase u = donorBase t - gpusOf (trDonor t) (wrongs es))) ks ts"
    and "transfers l' = filter (\<lambda>t. \<not> orphaned es t) ts"
    and "ended = es @ map (\<lambda>t. \<lparr>endTransfer = t, endOutcome = ShareOutcomeAborted, DonorReleased = False\<rparr>) (filter (orphaned es) ts)"
proof -
  define l1 where "l1 = releaseAll held (readings held l) now tm (l\<lparr>filled := None\<rparr>)"
  define z where "z = sweepAll (readings held l) now tm (liveContributors (transfers l)) (releasables held [] [] (transfers l)) l1"
  define ts where "ts = foldl (countFilled now) (foldl (\<lambda>ts t. rebaseDonor t now ts) (swKeep z) (swWrong z)) (swFilled z)"
  have sw: "swept (zip (releasables held [] [] (transfers l)) (transfers l1)) (sweepAll (readings held l) now tm (liveContributors (transfers l)) [] l1) z"
    unfolding z_def sweepAll_def by (simp add: sweep_swept)
  then have w: "swWrong z = wrongs (swEnded z)" by (auto simp: swept_def sweepAll_def)
  have "list_all2 (\<lambda>t u. sameHold t u \<and> (trState t = ShareReleasing \<and> trStarted t < now \<longrightarrow> donorBase u = donorBase t - gpusOf (trDonor t) (swWrong z))) (swKeep z) ts"
    unfolding ts_def by (rule list_all2_trans [OF _ rebases counts]) (auto simp: sameHold_def)
  moreover have "released l' = released l1" "transfers l' = filter (\<lambda>t. \<not> orphaned (swEnded z) t) ts"
      "ended = swEnded z @ map (\<lambda>t. \<lparr>endTransfer = t, endOutcome = ShareOutcomeAborted, DonorReleased = False\<rparr>) (filter (orphaned (swEnded z)) ts)"
    using assms unfolding Share_Observe_def readings_def [symmetric] Let_def l1_def [symmetric] z_def [symmetric] ts_def [symmetric] by auto
  ultimately show ?thesis using that [OF l1_def _ sw [unfolded z_def]] w unfolding z_def by simp
qed

lemma releaseStep_core:
  assumes "i < length (transfers l)"
  shows "map core (transfers (releaseStep rheld now tm live waiting rels l i)) = map core (transfers l)"
proof (cases "mayRelease live waiting (rels ! i) (transfers l ! i)")
  case True
  then show ?thesis using releaseStep_released(2) [OF True assms] by simp
qed (simp add: releaseStep_def Let_def)

lemma releaseSteps_core:
  "n \<le> length (transfers l) \<Longrightarrow> map core (transfers (foldl (releaseStep rheld now tm live waiting rels) l [0..<n])) = map core (transfers l)"
proof (induction n)
  case (Suc n)
  let ?l = "foldl (releaseStep rheld now tm live waiting rels) l [0..<n]"
  have c: "map core (transfers ?l) = map core (transfers l)" using Suc by simp
  then have "length (transfers ?l) = length (transfers l)" by (metis length_map)
  then show ?case using releaseStep_core [of n ?l] Suc.prems c by simp
qed simp

lemma releaseAll_core: "map core (transfers (releaseAll held rheld now tm l)) = map core (transfers l)"
  by (simp add: releaseAll_def Let_def releaseSteps_core)

lemma releaseSteps_inv:
  assumes "n \<le> length (transfers l)" and "\<And>j. j < length (transfers l) \<Longrightarrow> trStarted (transfers l ! j) < now"
    and "\<And>j. j < length (transfers l) \<Longrightarrow> rels ! j = Some True \<Longrightarrow> trState (transfers l ! j) = ShareReleasing"
    and "\<And>j. j < length (transfers l) \<Longrightarrow> trState (transfers l ! j) = ShareReleasing \<Longrightarrow> trDonor (transfers l ! j) = d \<Longrightarrow> donorBase (transfers l ! j) \<le> B"
  shows "pass_inv rels d B l n (foldl (releaseStep rheld now tm live waiting rels) l [0..<n])"
  using assms(1)
proof (induction n)
  case 0
  have "pass_inv rels d B l 0 l" by (rule pass_inv_init) (rule assms(4))
  then show ?case by simp
next
  case (Suc n)
  then have n: "n < length (transfers l)" and inv: "pass_inv rels d B l n (foldl (releaseStep rheld now tm live waiting rels) l [0..<n])" by simp_all
  have "pass_inv rels d B l (Suc n) (releaseStep rheld now tm live waiting rels (foldl (releaseStep rheld now tm live waiting rels) l [0..<n]) n)"
    by (rule pass_inv_step [OF inv n assms(2) assms(3) [OF n]])
  then show ?case by simp
qed

text \<open>
  C30. No transfer is lost and none is invented: after a cycle every transfer the ledger held is
  either still in it or has ended with exactly one outcome, whatever the cluster showed, whichever
  sets broke and whichever pods went.
\<close>

theorem Observe_accounts_for_all:
  "mset (map trID (transfers (snd (Share_Observe held now tm l)))) + mset (map (trID \<circ> endTransfer) (fst (Share_Observe held now tm l)))
     = mset (map trID (transfers l))"
proof -
  obtain ended l' where e: "Share_Observe held now tm l = (ended, l')" by (cases "Share_Observe held now tm l")
  show ?thesis
  proof (rule Observe_obtain [OF e])
    fix l1 ks es ts
    assume l1: "l1 = releaseAll held (readings held l) now tm (l\<lparr>filled := None\<rparr>)"
      and sw: "swept (zip (releasables held [] [] (transfers l)) (transfers l1)) (sweepAll (readings held l) now tm (liveContributors (transfers l)) [] l1)
        (sweepAll (readings held l) now tm (liveContributors (transfers l)) (releasables held [] [] (transfers l)) l1)"
      and ks: "swKeep (sweepAll (readings held l) now tm (liveContributors (transfers l)) (releasables held [] [] (transfers l)) l1) = ks"
      and es: "swEnded (sweepAll (readings held l) now tm (liveContributors (transfers l)) (releasables held [] [] (transfers l)) l1) = es"
      and ts: "list_all2 (\<lambda>t u. sameHold t u \<and> (trState t = ShareReleasing \<and> trStarted t < now \<longrightarrow> donorBase u = donorBase t - gpusOf (trDonor t) (wrongs es))) ks ts"
      and l': "transfers l' = filter (\<lambda>t. \<not> orphaned es t) ts"
      and ended: "ended = es @ map (\<lambda>t. \<lparr>endTransfer = t, endOutcome = ShareOutcomeAborted, DonorReleased = False\<rparr>) (filter (orphaned es) ts)"
    have c: "map core (transfers l1) = map core (transfers l)" using releaseAll_core [of held "readings held l" now tm "l\<lparr>filled := None\<rparr>"] l1 by simp
    then have len: "length (transfers l1) = length (transfers l)" by (metis length_map)
    have "map trID (transfers l1) = map fst (map core (transfers l1))" by (simp add: core_def)
    also have "\<dots> = map trID (transfers l)" unfolding c by (simp add: core_def)
    finally have ids: "map (trID \<circ> snd) (zip (releasables held [] [] (transfers l)) (transfers l1)) = map trID (transfers l)"
      using len by (simp add: map_map [symmetric] del: map_map)
    have k: "mset (map trID ks) + mset (map (trID \<circ> endTransfer) es) = mset (map trID (transfers l))"
      using sw ks es ids by (auto simp: swept_def sweepAll_def)
    have t: "map trID ts = map trID ks" using ts by (induction rule: list_all2_induct) (auto simp: sameHold_def core_def)
    have p: "mset (map trID (filter P us)) + mset (map trID (filter (\<lambda>t. \<not> P t) us)) = mset (map trID us)" for P and us :: "shareTransfer list"
      by (induction us) auto
    have "map (trID \<circ> endTransfer) ended = map (trID \<circ> endTransfer) es @ map trID (filter (orphaned es) ts)" by (simp add: ended)
    then have "mset (map (trID \<circ> endTransfer) ended) = mset (map (trID \<circ> endTransfer) es) + mset (map trID (filter (orphaned es) ts))" by (simp only: mset_append)
    then show ?thesis unfolding e fst_conv snd_conv l' by (simp only: k [symmetric] t [symmetric] p [of "orphaned es" ts, symmetric] ac_simps)
  qed
qed

end
