(* ===== verification/ShareDonor.thy ===== *)
theory ShareDonor
  imports ShareRelease
begin

text \<open>
  Over any sequence of operations of the share ledger, the GPUs released on a donor's account never
  exceed the GPUs the donor was seen to lose.
\<close>

subsection \<open>One cycle\<close>

text \<open>What a cycle takes as given by donor \<open>d\<close>: its transfers released, and those that lost another pod than the planned one.\<close>

definition freedBy :: "string \<Rightarrow> shareLedger \<Rightarrow> shareTransferEnd list \<Rightarrow> shareLedger \<Rightarrow> int" where
  "freedBy d l ended l' = gpusOf d (drop (length (released l)) (released l')) + gpusOf d (wrongs ended)"

definition giving :: "string \<Rightarrow> shareTransfer \<Rightarrow> bool" where
  "giving d t \<longleftrightarrow> trState t = ShareReleasing \<and> trDonor t = d"

lemma sum_zip_nth: "length xs = length ys \<Longrightarrow> sum_list (map f (zip xs ys)) = (\<Sum>j<length ys. f (xs ! j, ys ! j))"
  by (simp add: sum_list_sum_nth atLeast0LessThan)

lemma releasables_True: "j < length ts \<Longrightarrow> releasables held base given ts ! j = Some True \<Longrightarrow> trState (ts ! j) = ShareReleasing"
  using releasables_Some [of j ts held base given] by auto

lemma list_all2_right: "list_all2 P xs ys \<Longrightarrow> y \<in> set ys \<Longrightarrow> \<exists>x \<in> set xs. P x y"
  by (induction rule: list_all2_induct) auto

lemma swept_wrongs:
  assumes "swept rts (sweepAll rheld now tm live [] l1) s" and "\<And>r t. (r, t) \<in> set rts \<Longrightarrow> trDonor t = d \<Longrightarrow> 0 \<le> trDonorGPUs t"
  shows "gpusOf d (wrongs (swEnded s)) \<le>
    sum_list (map (\<lambda>(r, t). if r = Some True \<and> trState t = ShareReleasing \<and> trDonor t = d then trDonorGPUs t else 0) rts)"
proof -
  have "\<forall>(r, t) \<in> set rts. trState t = ShareReleasing \<and> trDonor t = d \<longrightarrow> 0 \<le> trDonorGPUs t" using assms(2) by auto
  then show ?thesis using assms(1) unfolding swept_def by (auto simp: sweepAll_def)
qed

lemma swept_keeps: "swept rts (sweepAll rheld now tm live [] l1) s \<Longrightarrow> k \<in> set (swKeep s) \<Longrightarrow> \<exists>r t. (r, t) \<in> set rts \<and> kept_as t k"
  by (force simp: swept_def sweepAll_def)

lemma Observe_freed:
  assumes e: "Share_Observe held now tm l = (ended, l')"
    and started: "\<And>t. t \<in> set (transfers l) \<Longrightarrow> trStarted t < now"
    and nonneg: "\<And>t. t \<in> set (transfers l) \<Longrightarrow> trDonor t = d \<Longrightarrow> 0 \<le> trDonorGPUs t"
    and base: "\<And>t. t \<in> set (transfers l) \<Longrightarrow> giving d t \<Longrightarrow> donorBase t \<le> B"
  shows "freedBy d l ended l' \<le> shrunkAt (releasables held [] [] (transfers l)) d (transfers l) \<and>
    (\<forall>t \<in> set (transfers l'). (trDonor t = d \<longrightarrow> 0 \<le> trDonorGPUs t) \<and> (giving d t \<longrightarrow> donorBase t \<le> B - freedBy d l ended l'))"
proof (rule Observe_obtain [OF e])
  fix l1 ks es ts
  let ?rels = "releasables held [] [] (transfers l)"
  let ?n = "length (transfers l)"
  assume l1: "l1 = releaseAll held (readings held l) now tm (l\<lparr>filled := None\<rparr>)" and rl: "released l' = released l1"
    and sw: "swept (zip ?rels (transfers l1)) (sweepAll (readings held l) now tm (liveContributors (transfers l)) [] l1)
      (sweepAll (readings held l) now tm (liveContributors (transfers l)) ?rels l1)"
    and ks: "swKeep (sweepAll (readings held l) now tm (liveContributors (transfers l)) ?rels l1) = ks"
    and es: "swEnded (sweepAll (readings held l) now tm (liveContributors (transfers l)) ?rels l1) = es"
    and ts: "list_all2 (\<lambda>t u. sameHold t u \<and> (trState t = ShareReleasing \<and> trStarted t < now \<longrightarrow> donorBase u = donorBase t - gpusOf (trDonor t) (wrongs es))) ks ts"
    and l': "transfers l' = filter (\<lambda>t. \<not> orphaned es t) ts"
    and ended: "ended = es @ map (\<lambda>t. \<lparr>endTransfer = t, endOutcome = ShareOutcomeAborted, DonorReleased = False\<rparr>) (filter (orphaned es) ts)"
  have inv: "pass_inv ?rels d B (l\<lparr>filled := None\<rparr>) ?n l1"
    unfolding l1 releaseAll_def Let_def using started base
    by (simp, intro releaseSteps_inv) (simp_all add: giving_def releasables_True)
  then obtain new where c: "map core (transfers l1) = map core (transfers l)" and new: "released l1 = released l @ new"
      "gpusOf d new = (\<Sum>j<?n. freedAt ?rels d (transfers l) (transfers l1) j)"
    and b1: "\<And>j. j < ?n \<Longrightarrow> trState (transfers l1 ! j) = ShareReleasing \<Longrightarrow> trDonor (transfers l ! j) = d \<Longrightarrow> donorBase (transfers l1 ! j) \<le> B - gpusOf d new"
    unfolding pass_inv_def by auto
  have len: "length (transfers l1) = ?n" using c by (metis length_map)
  have cj: "core (transfers l1 ! j) = core (transfers l ! j)" if "j < ?n" for j using map_nth_eq [OF c] len that by simp
  have ok1: "(trDonor t = d \<longrightarrow> 0 \<le> trDonorGPUs t) \<and> trStarted t < now \<and> (giving d t \<longrightarrow> donorBase t \<le> B - gpusOf d new)"
    if t: "t \<in> set (transfers l1)" for t
  proof -
    obtain j where j: "j < ?n" "t = transfers l1 ! j" using t len by (metis in_set_conv_nth)
    show ?thesis using nonneg [of "transfers l ! j"] started [of "transfers l ! j"] b1 [OF j(1)] core_eqD(2,5,7) [OF cj [OF j(1)]] j by (simp add: giving_def)
  qed
  let ?w = "\<lambda>j. if ?rels ! j = Some True \<and> trState (transfers l1 ! j) = ShareReleasing \<and> trDonor (transfers l1 ! j) = d then trDonorGPUs (transfers l1 ! j) else 0"
  have "gpusOf d (wrongs es) \<le> (\<Sum>j<?n. ?w j)"
    using swept_wrongs [OF sw, of d] ok1 by (auto simp: es sum_zip_nth len dest: set_zip_rightD)
  moreover have "(\<Sum>j<?n. freedAt ?rels d (transfers l) (transfers l1) j) + (\<Sum>j<?n. ?w j) = shrunkAt ?rels d (transfers l)"
  proof -
    have "freedAt ?rels d (transfers l) (transfers l1) j + ?w j = (if ?rels ! j = Some True \<and> trDonor (transfers l ! j) = d then trDonorGPUs (transfers l ! j) else 0)" if "j < ?n" for j
      using core_eqD(2,5) [OF cj [OF that]] by (cases "trState (transfers l1 ! j)") (auto simp: freedAt_def)
    then show ?thesis by (simp add: shrunkAt_def sum_zip_nth sum.distrib [symmetric])
  qed
  ultimately have F: "gpusOf d new + gpusOf d (wrongs es) \<le> shrunkAt ?rels d (transfers l)" using new(2) by linarith
  have "wrongs ended = wrongs es" by (simp add: ended filter_map comp_def)
  then have f: "freedBy d l ended l' = gpusOf d new + gpusOf d (wrongs es)" by (simp add: freedBy_def rl new(1))
  have "(trDonor t = d \<longrightarrow> 0 \<le> trDonorGPUs t) \<and> (giving d t \<longrightarrow> donorBase t \<le> B - freedBy d l ended l')" if t: "t \<in> set (transfers l')" for t
  proof -
    have "t \<in> set ts" using t l' by simp
    then obtain k where k: "k \<in> set ks" "sameHold k t" "trState k = ShareReleasing \<and> trStarted k < now \<longrightarrow> donorBase t = donorBase k - gpusOf (trDonor k) (wrongs es)"
      using list_all2_right [OF ts] by blast
    obtain u where u: "u \<in> set (transfers l1)" "kept_as u k" using swept_keeps [OF sw, of k] k(1) ks by (auto dest: set_zip_rightD)
    show ?thesis using ok1 [OF u(1)] u(2) k(2,3) f by (auto simp: kept_as_def sameHold_def core_def giving_def)
  qed
  then show ?thesis using F f by simp
qed

subsection \<open>Runs\<close>

text \<open>The operations that read no donor: everything but a start, a restore and a cycle.\<close>

datatype ledgerOp = StartFillOp string string int bool "(string, int) gomap" gotime string | CancelOp string gotime | ForgetOp string
  | LinkSetOp string "string list" | RedirectOp string duration | PlannedRunningOp "(string, bool) gomap" "(string, bool) gomap"
  | ConfirmStartedOp string "string list" | ReceiverFilledOp "(string, int) gomap option" | TakeReleasedOp | WakeHeldOp gotime
  | MarkFailedOp string gotime | HoldGivingOp string gotime | RetainOp "string list" gotime

fun runLedger :: "shareTimings \<Rightarrow> shareLedger \<Rightarrow> ledgerOp \<Rightarrow> shareLedger" where
  "runLedger tm l (StartFillOp r v g u held now rnd) = snd (StartFill r v g u held now tm rnd l)"
| "runLedger tm l (CancelOp i now) = snd (Share_Cancel i now tm l)"
| "runLedger tm l (ForgetOp i) = Share_Forget i tm l"
| "runLedger tm l (LinkSetOp p cs) = LinkSet p cs l"
| "runLedger tm l (RedirectOp i hold) = snd (Share_Redirect i hold l)"
| "runLedger tm l (PlannedRunningOp run unk) = PlannedRunning run unk l"
| "runLedger tm l (ConfirmStartedOp i pods) = ConfirmStarted i pods l"
| "runLedger tm l (ReceiverFilledOp f) = ReceiverFilled f l"
| "runLedger tm l TakeReleasedOp = snd (TakeReleased l)"
| "runLedger tm l (WakeHeldOp now) = snd (WakeHeld now l)"
| "runLedger tm l (MarkFailedOp donor now) = MarkFailed donor now tm l"
| "runLedger tm l (HoldGivingOp donor now) = HoldGiving donor now tm l"
| "runLedger tm l (RetainOp present now) = Retain present now tm l"

text \<open>What is left of the giving side of a transfer.\<close>

definition gives_as :: "shareTransfer \<Rightarrow> shareTransfer \<Rightarrow> bool" where
  "gives_as u t \<longleftrightarrow> trDonor t = trDonor u \<and> trDonorGPUs t = trDonorGPUs u \<and> trState t = trState u \<and> donorBase t = donorBase u"

lemma gives_as_refl [simp]: "gives_as t t"
  by (simp add: gives_as_def)

lemma transfers_rederive [simp]: "transfers (rederive role tm l) = transfers l"
  by (simp add: rederive_def Let_def)

lemma transfers_recordMove [simp]: "transfers (recordMove role got i now tm l) = transfers l"
  by (simp add: recordMove_def Let_def)

lemma transfers_recordCancel [simp]: "transfers (recordCancel role got now tm l) = transfers l"
  by (simp add: recordCancel_def Let_def)

lemma transfers_unrecord [simp]: "transfers (unrecord role i tm l) = transfers l"
  by (simp add: unrecord_def split: option.split)

lemma set_deleteFirst: "set (deleteFirst P xs) \<subseteq> set xs"
  by (induction xs) auto

lemma transfers_Forget: "set (transfers (Share_Forget i tm l)) \<subseteq> set (transfers l)"
  using set_deleteFirst [of "\<lambda>t. trID t = i" "transfers l"] by (auto simp: Share_Forget_def Let_def split: option.split)

lemma transfers_Cancel: "set (transfers (snd (Share_Cancel i now tm l))) \<subseteq> set (transfers l)"
  using transfers_Forget [of i tm l] by (auto simp: Share_Cancel_def Let_def split: option.split)

lemma redirectFirst_gives: "redirectFirst i ts = Some (t, us) \<Longrightarrow> list_all2 gives_as ts us"
  by (induction ts arbitrary: us) (auto simp: withoutReceiver_def gives_as_def list_all2_same split: if_splits)

lemma runLedger_gives:
  assumes "t \<in> set (transfers (runLedger tm l op))"
  shows "trDonor t = [] \<or> (\<exists>u \<in> set (transfers l). gives_as u t)"
proof (cases op)
  case (RedirectOp i hold)
  show ?thesis
  proof (cases "redirectFirst i (transfers l)")
    case None
    then show ?thesis using assms RedirectOp gives_as_refl [of t] by (auto simp: Share_Redirect_def simp del: gives_as_refl)
  next
    case (Some p)
    obtain v us where p: "p = (v, us)" by (cases p)
    show ?thesis using assms RedirectOp Some list_all2_right [OF redirectFirst_gives [OF Some [unfolded p]]] by (auto simp: Share_Redirect_def p)
  qed
next
  case (CancelOp i now)
  then show ?thesis using assms transfers_Cancel [of i now tm l] gives_as_refl [of t] by (auto simp del: gives_as_refl)
next
  case (ForgetOp i)
  then show ?thesis using assms transfers_Forget [of i tm l] gives_as_refl [of t] by (auto simp del: gives_as_refl)
qed (use assms in \<open>auto simp: StartFill_def freshTransfer_def Let_def LinkSet_def PlannedRunning_def ConfirmStarted_def ReceiverFilled_def TakeReleased_def
  WakeHeld_def MarkFailed_def HoldGiving_def Retain_def gives_as_def split: if_splits\<close>)

text \<open>
  A run as donor \<open>d\<close> sees it: what it was last seen to hold, the GPUs it has been seen to lose, and
  the GPUs released on its account. A transfer starts from what the donor was last seen to hold, and a
  cycle is later than the starts before it.
\<close>

inductive donorRun :: "shareTimings \<Rightarrow> string \<Rightarrow> int \<Rightarrow> int \<Rightarrow> int \<Rightarrow> shareLedger \<Rightarrow> bool" for tm d where
  NewLedger: "donorRun tm d h 0 0 (NewShareLedger inc)"
| Started: "donorRun tm d h lost freed l \<Longrightarrow> 0 \<le> trDonorGPUs t \<Longrightarrow> (trDonor t = d \<Longrightarrow> map_of held d = Some h) \<Longrightarrow>
    donorRun tm d h lost freed (snd (Share_Start t held now tm rnd l))"
| Restored: "donorRun tm d h lost freed l \<Longrightarrow> 0 \<le> trDonorGPUs t \<Longrightarrow> (trDonor t = d \<Longrightarrow> heldDonor = h) \<Longrightarrow>
    donorRun tm d h lost freed (Share_Restore t heldDonor l)"
| Seen: "donorRun tm d h lost freed l \<Longrightarrow> list_all (\<lambda>t. trStarted t < now) (transfers l) \<Longrightarrow> map_of held d = Some h' \<Longrightarrow>
    Share_Observe held now tm l = (ended, l') \<Longrightarrow> donorRun tm d h' (lost + max 0 (h - h')) (freed + freedBy d l ended l') l'"
| Unseen: "donorRun tm d h lost freed l \<Longrightarrow> list_all (\<lambda>t. trStarted t < now) (transfers l) \<Longrightarrow> map_of held d = None \<Longrightarrow>
    Share_Observe held now tm l = (ended, l') \<Longrightarrow> donorRun tm d h lost (freed + freedBy d l ended l') l'"
| Other: "donorRun tm d h lost freed l \<Longrightarrow> donorRun tm d h lost freed (runLedger tm l op)"

definition donor_inv :: "string \<Rightarrow> int \<Rightarrow> int \<Rightarrow> int \<Rightarrow> shareLedger \<Rightarrow> bool" where
  "donor_inv d h lost freed l \<longleftrightarrow> freed \<le> lost \<and>
     (\<forall>t \<in> set (transfers l). (trDonor t = d \<longrightarrow> 0 \<le> trDonorGPUs t) \<and> (giving d t \<longrightarrow> donorBase t \<le> h + (lost - freed)))"

lemma donor_inv_add:
  assumes "donor_inv d h lost freed l" "0 \<le> trDonorGPUs t" "trDonor t = d \<Longrightarrow> donorBase t = h" "transfers l' = transfers l @ [t]"
  shows "donor_inv d h lost freed l'"
  using assms by (auto simp: donor_inv_def giving_def)

lemma transfers_Start: "transfers (snd (Share_Start t held now tm rnd l)) = transfers l @ [fst (Share_Start t held now tm rnd l)]"
  by (simp add: Share_Start_def Let_def)

lemma Start_donor:
  "trDonor (fst (Share_Start t held now tm rnd l)) = trDonor t" "donorBase (fst (Share_Start t held now tm rnd l)) = mget 0 held (trDonor t)"
  "0 \<le> trDonorGPUs t \<Longrightarrow> 0 \<le> trDonorGPUs (fst (Share_Start t held now tm rnd l))"
  by (simp_all add: Share_Start_def Let_def coverGPUs_def)

lemma shrunkAt_unseen:
  assumes "map_of held d = None" "d \<noteq> []"
  shows "shrunkAt (releasables held [] [] ts) d ts = 0"
proof -
  have "releasables held [] [] ts ! j = None" if "j < length ts" "trDonor (ts ! j) = d" for j
    using releasables_Some [OF that(1), of held "[]" "[]"] that(2) assms(1) by auto
  then show ?thesis by (auto simp: shrunkAt_def sum_zip_nth intro!: sum.neutral)
qed

lemma donor_inv_Observe:
  assumes inv: "donor_inv d h lost freed l" and st: "list_all (\<lambda>t. trStarted t < now) (transfers l)" and e: "Share_Observe held now tm l = (ended, l')"
    and s: "shrunkAt (releasables held [] [] (transfers l)) d (transfers l) \<le> lost' - freed" and h: "h + lost \<le> h' + lost'"
  shows "donor_inv d h' lost' (freed + freedBy d l ended l') l'"
proof -
  have "freedBy d l ended l' \<le> shrunkAt (releasables held [] [] (transfers l)) d (transfers l) \<and>
    (\<forall>t \<in> set (transfers l'). (trDonor t = d \<longrightarrow> 0 \<le> trDonorGPUs t) \<and> (giving d t \<longrightarrow> donorBase t \<le> h + (lost - freed) - freedBy d l ended l'))"
    by (rule Observe_freed [OF e]) (use st inv in \<open>auto simp: list_all_iff donor_inv_def\<close>)
  then show ?thesis using s h by (fastforce simp: donor_inv_def)
qed

lemma donorRun_inv: "donorRun tm d h lost freed l \<Longrightarrow> d \<noteq> [] \<Longrightarrow> donor_inv d h lost freed l"
proof (induction rule: donorRun.induct)
  case (NewLedger h inc)
  then show ?case by (simp add: donor_inv_def NewShareLedger_def)
next
  case (Started h lost freed l t held now rnd)
  show ?case by (rule donor_inv_add [OF Started.IH [OF Started.prems] _ _ transfers_Start]) (use Started in \<open>auto simp: Start_donor mget_def\<close>)
next
  case (Restored h lost freed l t heldDonor)
  show ?case
    by (rule donor_inv_add [OF Restored.IH [OF Restored.prems], where t = "(coverGPUs t)\<lparr>trState := ShareReleasing, donorBase := heldDonor\<rparr>"])
      (use Restored in \<open>auto simp: Share_Restore_def coverGPUs_def split: if_splits\<close>)
next
  case (Seen h lost freed l now held h' ended l')
  have inv: "donor_inv d h lost freed l" using Seen by simp
  have "shrunkAt (releasables held [] [] (transfers l)) d (transfers l) = 0 \<or>
      shrunkAt (releasables held [] [] (transfers l)) d (transfers l) \<le> h + (lost - freed) - h' - mget 0 [] d"
    by (rule releasables_lost [OF Seen.hyps(3)]) (use inv in \<open>auto simp: donor_inv_def giving_def\<close>)
  moreover have "freed \<le> lost" using inv by (simp add: donor_inv_def)
  ultimately have "shrunkAt (releasables held [] [] (transfers l)) d (transfers l) \<le> lost + max 0 (h - h') - freed" by (auto simp: mget_def)
  then show ?case by (rule donor_inv_Observe [OF inv Seen.hyps(2,4)]) simp
next
  case (Unseen h lost freed l now held ended l')
  have inv: "donor_inv d h lost freed l" using Unseen by simp
  then have "freed \<le> lost" by (simp add: donor_inv_def)
  then show ?case using donor_inv_Observe [OF inv Unseen.hyps(2,4), of lost h] shrunkAt_unseen [OF Unseen.hyps(3) Unseen.prems] by simp
next
  case (Other h lost freed l op)
  have inv: "donor_inv d h lost freed l" using Other by simp
  have "(trDonor t = d \<longrightarrow> 0 \<le> trDonorGPUs t) \<and> (giving d t \<longrightarrow> donorBase t \<le> h + (lost - freed))" if "t \<in> set (transfers (runLedger tm l op))" for t
    using runLedger_gives [OF that] inv Other.prems by (auto simp: donor_inv_def gives_as_def giving_def)
  then show ?case using inv by (simp add: donor_inv_def)
qed

text \<open>
  C28. A receiver is raised only into GPUs its donor gave up: however transfers of one donor start,
  are cancelled, redirected, linked into sets, time out and overlap, and whether or not a cycle shows
  the donor, the GPUs released on its account never exceed the GPUs it was seen to lose, and no
  transfer still releasing waits from a base above what the donor holds and has lost in excess.
\<close>

theorem released_within_lost:
  assumes "donorRun tm d h lost freed l" and "d \<noteq> []"
  shows "freed \<le> lost \<and> (\<forall>t \<in> set (transfers l). giving d t \<longrightarrow> donorBase t \<le> h + (lost - freed))"
  using donorRun_inv [OF assms] by (auto simp: donor_inv_def)

definition exTimings :: shareTimings where
  "exTimings = \<lparr>tmWindow = 300, tmReleaseTimeout = 600, tmFillTimeout = 900, tmReversalHold = 600, tmSwingWindow = 4800, tmSwingReversals = 0, tmMoveLatency = 0\<rparr>"

definition exMove :: shareTransfer where
  "exMove = freshTransfer\<lparr>trDonor := ''A'', trReceiver := ''R'', trGPUs := 4, trDonorGPUs := 4\<rparr>"

definition exHeldBefore :: "(string, int) gomap" where
  "exHeldBefore = [(''A'', 8), (''B'', 8), (''R'', 0), (''S'', 0)]"

definition exStarted :: shareLedger where
  "exStarted = snd (Share_Start exMove exHeldBefore 0 exTimings ''r1'' (NewShareLedger ''x''))"

theorem released_within_lost_witness:
  "\<exists>ended l. Share_Observe [(''A'', 4), (''R'', 0)] 100 exTimings exStarted = (ended, l) \<and> freedBy ''A'' exStarted ended l = 4 \<and>
     list_all (\<lambda>t. donorBase t \<le> 4) (filter (giving ''A'') (transfers l))"
proof -
  obtain ended l where e: "Share_Observe [(''A'', 4), (''R'', 0)] 100 exTimings exStarted = (ended, l)" by (cases "Share_Observe [(''A'', 4), (''R'', 0)] 100 exTimings exStarted")
  have "(let (ended, l) = Share_Observe [(''A'', 4), (''R'', 0)] 100 exTimings exStarted in freedBy ''A'' exStarted ended l) = 4" by code_simp
  then have f: "freedBy ''A'' exStarted ended l = 4" by (simp add: e)
  have "donorRun exTimings ''A'' 8 0 0 exStarted" unfolding exStarted_def
    by (rule donorRun.Started [OF donorRun.NewLedger]) (simp_all add: exMove_def exHeldBefore_def)
  moreover have "list_all (\<lambda>t. trStarted t < 100) (transfers exStarted)" by code_simp
  ultimately have "donorRun exTimings ''A'' 4 (0 + max 0 (8 - 4)) (0 + freedBy ''A'' exStarted ended l) l"
    by (rule donorRun.Seen [OF _ _ _ e]) simp
  from released_within_lost [OF this] show ?thesis using e f by (auto simp: f list_all_iff)
qed

end
