(* ===== verification/ShareSets.thy ===== *)
theory ShareSets
  imports ShareDonor
begin

text \<open>
  Donor sets of the share ledger: a set's receiver is raised only when every member has released,
  as long as the cycle shows every donor; exactly when a set's primary is released; and what a
  release takes from the base of a transfer started before it.
\<close>

subsection \<open>Donor sets\<close>

lemma mayRelease_contributor:
  "core t = core u \<Longrightarrow> contributor u \<Longrightarrow> mayRelease live waiting rel t \<longleftrightarrow> rel = Some True \<and> \<not> plannedRunning u \<and> \<not> plannedUnknown u"
  using core_primary [of t u] core_eqD(8,9) [of t u] by (auto simp: mayRelease_def contributor_def broken_def wrongPod_def)

definition released_from :: "string list \<Rightarrow> bool option list \<Rightarrow> shareTransfer list \<Rightarrow> nat \<Rightarrow> shareTransfer list \<Rightarrow> bool" where
  "released_from waiting rels ts n new \<longleftrightarrow>
     (\<forall>r \<in> set new. \<exists>j < n. core r = core (ts ! j) \<and> (IsSetPrimary (ts ! j) \<longrightarrow> trID (ts ! j) \<notin> set waiting)) \<and>
     (\<forall>k < n. contributor (ts ! k) \<and> rels ! k = Some True \<and> \<not> plannedRunning (ts ! k) \<and> \<not> plannedUnknown (ts ! k)
        \<longrightarrow> (\<exists>r \<in> set new. core r = core (ts ! k)))"

lemma released_from_keep:
  assumes "released_from waiting rels ts n new" "core t = core (ts ! n)" "\<not> mayRelease live waiting (rels ! n) t"
  shows "released_from waiting rels ts (Suc n) new"
  using assms mayRelease_contributor [OF assms(2), of live waiting "rels ! n"] unfolding released_from_def by (metis less_Suc_eq)

lemma released_from_add:
  assumes "released_from waiting rels ts n new" "core t = core (ts ! n)" "mayRelease live waiting (rels ! n) t" "core r = core t"
  shows "released_from waiting rels ts (Suc n) (new @ [r])"
proof -
  have "IsSetPrimary (ts ! n) \<longrightarrow> trID (ts ! n) \<notin> set waiting"
    using assms(2,3) core_primary(1) [OF assms(2)] core_eqD(1) [OF assms(2)] by (auto simp: mayRelease_def)
  then show ?thesis using assms(1,2,4) unfolding released_from_def by (auto simp: less_Suc_eq)
qed

lemma releaseSteps_from:
  assumes "n \<le> length (transfers l)"
  shows "\<exists>new. released (foldl (releaseStep rheld now tm live waiting rels) l [0..<n]) = released l @ new \<and> released_from waiting rels (transfers l) n new"
  using assms
proof (induction n)
  case 0
  then show ?case by (simp add: released_from_def)
next
  case (Suc n)
  let ?l = "foldl (releaseStep rheld now tm live waiting rels) l [0..<n]"
  obtain new where new: "released ?l = released l @ new" "released_from waiting rels (transfers l) n new" using Suc by auto
  have c: "map core (transfers ?l) = map core (transfers l)" using releaseSteps_core Suc.prems by simp
  then have n: "n < length (transfers ?l)" using Suc.prems by (metis Suc_le_eq length_map)
  then have cn: "core (transfers ?l ! n) = core (transfers l ! n)" using map_nth_eq [OF c] by simp
  show ?case
  proof (cases "mayRelease live waiting (rels ! n) (transfers ?l ! n)")
    case True
    then show ?thesis using releaseStep_released(1) [OF True n] released_from_add [OF new(2) cn True core_enterFilling] new(1) by simp
  next
    case False
    then have "releaseStep rheld now tm live waiting rels ?l n = ?l" by (simp add: releaseStep_def Let_def)
    then show ?thesis using released_from_keep [OF new(2) cn False] new(1) by auto
  qed
qed

lemma in_waitingSets:
  assumes "(r, t) \<in> set (zip rels ts)" "r \<noteq> None" "r = Some False \<or> wrongPod r t \<or> plannedUnknown t" "contributor t"
  shows "trSetID t \<in> set (waitingSets rels ts)"
proof -
  have "(r, t) \<in> set (filter (\<lambda>(r, t). r \<noteq> None \<and> (r = Some False \<or> wrongPod r t \<or> plannedUnknown t) \<and> contributor t) (zip rels ts))" using assms by simp
  then show ?thesis unfolding waitingSets_def set_map by (rule rev_image_eqI) simp
qed

text \<open>
  C29. A donor set's receiver is raised only when the whole set has released: in a cycle that shows
  every donor of the set, if the primary enters Filling then so has every contributor still in the
  ledger, in this very cycle, each because its own donor shrank.
\<close>

theorem set_raised_whole:
  assumes e: "Share_Observe held now tm l = (ended, l')"
    and p: "p \<in> set (drop (length (released l)) (released l'))" "IsSetPrimary p"
    and seen: "\<forall>c \<in> set (transfers l). contributor c \<and> trSetID c = trID p \<longrightarrow> trDonor c \<noteq> [] \<and> map_of held (trDonor c) \<noteq> None"
    and c: "c \<in> set (transfers l)" "trState c = ShareReleasing" "contributor c" "trSetID c = trID p"
  shows "\<exists>r \<in> set (drop (length (released l)) (released l')). trID r = trID c \<and> trDonor r = trDonor c \<and> trDonorGPUs r = trDonorGPUs c"
proof -
  let ?rels = "releasables held [] [] (transfers l)" and ?w = "waitingSets (releasables held [] [] (transfers l)) (transfers l)"
  obtain l1 where l1: "l1 = releaseAll held (readings held l) now tm (l\<lparr>filled := None\<rparr>)" "released l' = released l1" using Observe_obtain [OF e] by metis
  obtain new where new: "released l1 = released l @ new" and from_new: "released_from ?w ?rels (transfers l) (length (transfers l)) new"
    using releaseSteps_from [of "length (transfers l)" "l\<lparr>filled := None\<rparr>" "readings held l" now tm "liveContributors (transfers l)" ?w ?rels]
    unfolding l1 releaseAll_def Let_def by auto
  have d: "drop (length (released l)) (released l') = new" using new l1(2) by simp
  obtain j where j: "core p = core (transfers l ! j)" "IsSetPrimary (transfers l ! j) \<longrightarrow> trID (transfers l ! j) \<notin> set ?w"
    using p(1) from_new unfolding d released_from_def by blast
  then have w: "trID p \<notin> set ?w" using p(2) core_primary(1) [OF j(1)] core_eqD(1) [OF j(1)] by simp
  obtain k where k: "k < length (transfers l)" "c = transfers l ! k" using c(1) by (metis in_set_conv_nth)
  have r: "?rels ! k \<noteq> None" using releasables_Some [OF k(1), of held "[]" "[]"] seen c k by auto
  have "(?rels ! k, c) \<in> set (zip ?rels (transfers l))" using k by (auto simp: set_zip)
  then have "\<not> (?rels ! k = Some False \<or> wrongPod (?rels ! k) c \<or> plannedUnknown c)" using w c(4) in_waitingSets [OF _ r _ c(3)] by metis
  then have "?rels ! k = Some True \<and> \<not> plannedRunning c \<and> \<not> plannedUnknown c" using r by (auto simp: wrongPod_def)
  then obtain r where "r \<in> set new" "core r = core c" using from_new k c(3) unfolding released_from_def by blast
  then show ?thesis unfolding d using core_eqD by blast
qed

definition exSet :: shareLedger where
  "exSet =
     (let (p, l) = Share_Start (exMove\<lparr>trGPUs := 8, trSetID := ''pending''\<rparr>) exHeldBefore 0 exTimings ''r1'' (NewShareLedger ''x'');
          (c, l) = Share_Start (freshTransfer\<lparr>trDonor := ''B'', trDonorGPUs := 4, trSetID := ''pending''\<rparr>) exHeldBefore 0 exTimings ''r2'' l
      in LinkSet (trID p) [trID c] l)"

definition exSetSeen :: "shareTransferEnd list \<times> shareLedger" where
  "exSetSeen = Share_Observe [(''A'', 4), (''B'', 4), (''R'', 0)] 100 exTimings exSet"

theorem set_raised_whole_witness:
  "map (\<lambda>t. (trDonor t, IsSetPrimary t)) (released (snd exSetSeen)) = [(''A'', True), (''B'', False)] \<and>
   (\<exists>r \<in> set (drop (length (released exSet)) (released (snd exSetSeen))). trDonor r = ''B'' \<and> trDonorGPUs r = 4)"
proof -
  obtain ended l' where e: "exSetSeen = (ended, l')" by (cases exSetSeen)
  have rel: "map (\<lambda>t. (trDonor t, IsSetPrimary t)) (released (snd exSetSeen)) = [(''A'', True), (''B'', False)]" by code_simp
  have h: "hd (released (snd exSetSeen)) \<in> set (drop (length (released exSet)) (released (snd exSetSeen)))" "IsSetPrimary (hd (released (snd exSetSeen)))"
    "\<forall>c \<in> set (transfers exSet). contributor c \<and> trSetID c = trID (hd (released (snd exSetSeen))) \<longrightarrow>
       trDonor c \<noteq> [] \<and> map_of [(''A'', 4 :: int), (''B'', 4), (''R'', 0)] (trDonor c) \<noteq> None"
    by code_simp+
  have c: "transfers exSet ! 1 \<in> set (transfers exSet)" "trState (transfers exSet ! 1) = ShareReleasing" "contributor (transfers exSet ! 1)"
    "trSetID (transfers exSet ! 1) = trID (hd (released (snd exSetSeen)))" "trDonor (transfers exSet ! 1) = ''B''" "trDonorGPUs (transfers exSet ! 1) = 4"
    by code_simp+
  show ?thesis using rel set_raised_whole [OF e [unfolded exSetSeen_def] h [unfolded e snd_conv] c(1-4) [unfolded e snd_conv]] unfolding e snd_conv c(5,6) by blast
qed

subsection \<open>When a set's primary is released\<close>

text \<open>The ledger after the release loop has looked at the first \<open>n\<close> transfers.\<close>

abbreviation relSteps :: "(string, int) gomap \<Rightarrow> gotime \<Rightarrow> shareTimings \<Rightarrow> (string \<Rightarrow> int) \<Rightarrow> string list \<Rightarrow> bool option list
    \<Rightarrow> shareLedger \<Rightarrow> nat \<Rightarrow> shareLedger" where
  "relSteps rheld now tm live waiting rels l n \<equiv> foldl (releaseStep rheld now tm live waiting rels) l [0..<n]"

lemma relSteps_length: "n \<le> length (transfers l) \<Longrightarrow> length (transfers (relSteps rheld now tm live waiting rels l n)) = length (transfers l)"
  using releaseSteps_core [of n l rheld now tm live waiting rels] by (metis length_map)

lemma relSteps_core:
  "n \<le> length (transfers l) \<Longrightarrow> j < length (transfers l) \<Longrightarrow> core (transfers (relSteps rheld now tm live waiting rels l n) ! j) = core (transfers l ! j)"
  using map_nth_eq [OF releaseSteps_core [of n l rheld now tm live waiting rels]] relSteps_length [of n l] by simp

lemma relSteps_released:
  "n \<le> length (transfers l) \<Longrightarrow> \<exists>new. released (relSteps rheld now tm live waiting rels l n) = released l @ new \<and>
     map core new = map (\<lambda>k. core (transfers l ! k))
       (filter (\<lambda>k. mayRelease live waiting (rels ! k) (transfers (relSteps rheld now tm live waiting rels l k) ! k)) [0..<n])"
proof (induction n)
  case (Suc n)
  let ?l = "relSteps rheld now tm live waiting rels l n"
  obtain new where new: "released ?l = released l @ new" "map core new = map (\<lambda>k. core (transfers l ! k))
       (filter (\<lambda>k. mayRelease live waiting (rels ! k) (transfers (relSteps rheld now tm live waiting rels l k) ! k)) [0..<n])"
    using Suc by auto
  have n: "n < length (transfers ?l)" using relSteps_length [of n l] Suc.prems by simp
  have c: "core (transfers ?l ! n) = core (transfers l ! n)" using relSteps_core [of n l n] Suc.prems by simp
  show ?case
  proof (cases "mayRelease live waiting (rels ! n) (transfers ?l ! n)")
    case True
    then show ?thesis using releaseStep_released(1) [OF True n] new c by (simp add: core_enterFilling)
  next
    case False
    then have "releaseStep rheld now tm live waiting rels ?l n = ?l" by (simp add: releaseStep_def Let_def)
    then show ?thesis using new False by simp
  qed
qed simp

text \<open>A contributor of the set \<open>i\<close> that this cycle releases.\<close>

definition readyFor :: "string \<Rightarrow> bool option list \<Rightarrow> shareTransfer list \<Rightarrow> nat \<Rightarrow> bool" where
  "readyFor i rels ts k \<longleftrightarrow> contributor (ts ! k) \<and> trSetID (ts ! k) = i \<and> rels ! k = Some True \<and>
     \<not> plannedRunning (ts ! k) \<and> \<not> plannedUnknown (ts ! k)"

lemma releaseStep_pending:
  assumes "mayRelease live waiting (rels ! i) (transfers l ! i)" and "j < length (transfers l)" and "j \<noteq> i"
  shows "setPending (transfers (releaseStep rheld now tm live waiting rels l i) ! j) =
    setPending (transfers l ! j) - (if contributor (transfers l ! i) \<and> trID (transfers l ! j) = trSetID (transfers l ! i) \<and>
      trState (transfers l ! j) = ShareReleasing then 1 else 0)"
  using assms by (simp add: releaseStep_def Let_def rebaseDonor_def creditPrimary_def)

lemma relSteps_pending:
  assumes "n \<le> j" and "j < length (transfers l)" and "trState (transfers l ! j) = ShareReleasing"
  shows "setPending (transfers (relSteps rheld now tm live waiting rels l n) ! j) =
      setPending (transfers l ! j) - int (length (filter (readyFor (trID (transfers l ! j)) rels (transfers l)) [0..<n])) \<and>
    trState (transfers (relSteps rheld now tm live waiting rels l n) ! j) = ShareReleasing"
  using assms(1)
proof (induction n)
  case 0
  then show ?case using assms(3) by simp
next
  case (Suc n)
  let ?l = "relSteps rheld now tm live waiting rels l n"
  have len: "n < length (transfers ?l)" "j < length (transfers ?l)" using relSteps_length [of n l] Suc.prems assms(2) by simp_all
  have cn: "core (transfers ?l ! n) = core (transfers l ! n)" and cj: "core (transfers ?l ! j) = core (transfers l ! j)"
    using relSteps_core [of n l] Suc.prems assms(2) by simp_all
  note facts = core_eqD(1,6) [OF cn] core_eqD(1) [OF cj] core_primary(2) [OF cn] Suc.IH [OF Suc_leD [OF Suc.prems]]
  show ?case
  proof (cases "mayRelease live waiting (rels ! n) (transfers ?l ! n)")
    case True
    have ready: "contributor (transfers l ! n) \<Longrightarrow> rels ! n = Some True \<and> \<not> plannedRunning (transfers l ! n) \<and> \<not> plannedUnknown (transfers l ! n)"
      using True mayRelease_contributor [OF cn] by blast
    show ?thesis
      using facts releaseStep_pending [OF True len(2)] releaseStep_released(3) [OF True len(1) len(2)] ready Suc.prems
      by (auto simp: readyFor_def)
  next
    case False
    then have "releaseStep rheld now tm live waiting rels ?l n = ?l" by (simp add: releaseStep_def Let_def)
    moreover have "\<not> readyFor i rels (transfers l) n" for i
      using False mayRelease_contributor [OF cn] by (auto simp: readyFor_def)
    ultimately show ?thesis using facts by simp
  qed
qed

lemma waitingSets_iff:
  assumes "length rels = length ts"
  shows "i \<in> set (waitingSets rels ts) \<longleftrightarrow> (\<exists>k < length ts. contributor (ts ! k) \<and> trSetID (ts ! k) = i \<and> rels ! k \<noteq> None \<and>
    (rels ! k = Some False \<or> plannedRunning (ts ! k) \<or> plannedUnknown (ts ! k)))"
proof
  assume "i \<in> set (waitingSets rels ts)"
  then obtain r t where rt: "(r, t) \<in> set (zip rels ts)" "trSetID t = i" "r \<noteq> None" "r = Some False \<or> wrongPod r t \<or> plannedUnknown t" "contributor t"
    by (auto simp: waitingSets_def)
  then obtain k where "k < length ts" "r = rels ! k" "t = ts ! k" by (auto simp: set_zip)
  then show "\<exists>k < length ts. contributor (ts ! k) \<and> trSetID (ts ! k) = i \<and> rels ! k \<noteq> None \<and>
    (rels ! k = Some False \<or> plannedRunning (ts ! k) \<or> plannedUnknown (ts ! k))" using rt by (auto simp: wrongPod_def)
next
  assume "\<exists>k < length ts. contributor (ts ! k) \<and> trSetID (ts ! k) = i \<and> rels ! k \<noteq> None \<and>
    (rels ! k = Some False \<or> plannedRunning (ts ! k) \<or> plannedUnknown (ts ! k))"
  then obtain k where k: "k < length ts" "contributor (ts ! k)" "trSetID (ts ! k) = i" "rels ! k \<noteq> None"
      "rels ! k = Some False \<or> plannedRunning (ts ! k) \<or> plannedUnknown (ts ! k)" by blast
  have "(rels ! k, ts ! k) \<in> set (zip rels ts)" using k(1) assms by (auto simp: set_zip)
  from in_waitingSets [OF this k(4) _ k(2)] k(3-5) show "i \<in> set (waitingSets rels ts)" by (auto simp: wrongPod_def)
qed

lemma relSteps_releases:
  assumes "j < length (transfers l)" and "distinct (map trID (transfers l))"
    and "released (relSteps rheld now tm live waiting rels l (length (transfers l))) = released l @ new"
  shows "trID (transfers l ! j) \<in> trID ` set new \<longleftrightarrow>
    mayRelease live waiting (rels ! j) (transfers (relSteps rheld now tm live waiting rels l j) ! j)"
proof -
  let ?R = "\<lambda>k. mayRelease live waiting (rels ! k) (transfers (relSteps rheld now tm live waiting rels l k) ! k)"
  have "map core new = map (\<lambda>k. core (transfers l ! k)) (filter ?R [0..<length (transfers l)])"
    using relSteps_released [of "length (transfers l)" l rheld now tm live waiting rels] assms(3) by auto
  from arg_cong [OF this, of "map fst"] have "map trID new = map (\<lambda>k. trID (transfers l ! k)) (filter ?R [0..<length (transfers l)])"
    by (simp add: comp_def core_def)
  from arg_cong [OF this, of set] have "trID ` set new = (\<lambda>k. trID (transfers l ! k)) ` {k. k < length (transfers l) \<and> ?R k}"
    by simp
  moreover have "k = j" if "k < length (transfers l)" "trID (transfers l ! j) = trID (transfers l ! k)" for k
    using nth_eq_iff_index_eq [OF assms(2), of j k] that assms(1) by simp
  ultimately show ?thesis using assms(1) by auto
qed

text \<open>
  C33. Exactly when a set's primary is released. With the transfers of the ledger under distinct
  names, a cycle releases the primary of a set if and only if its own donor has shrunk by its share
  and its planned pod is known to be gone, no contributor whose donor the cycle shows is behind
  (its share not gone, its planned pod still running, or unread), and its count of pending
  contributors, less one for each contributor of the set that is released and precedes it in the
  ledger, is at most the number of its contributors still releasing when the cycle began. So the
  guard asks nothing of a contributor whose donor the cycle does not show, and where contributors
  precede their primary, as after a restart, it lets a set through that lost a contributor which
  never released.
\<close>

theorem set_primary_released_iff:
  assumes "Share_Observe held now tm l = (ended, l')" and "distinct (map trID (transfers l))"
    and "j < length (transfers l)" and "IsSetPrimary (transfers l ! j)"
  defines "p \<equiv> transfers l ! j" and "rels \<equiv> releasables held [] [] (transfers l)"
  shows "trID p \<in> trID ` set (drop (length (released l)) (released l')) \<longleftrightarrow>
    rels ! j = Some True \<and> \<not> plannedRunning p \<and> \<not> plannedUnknown p \<and>
    \<not> (\<exists>k < length (transfers l). contributor (transfers l ! k) \<and> trSetID (transfers l ! k) = trID p \<and> rels ! k \<noteq> None \<and>
         (rels ! k = Some False \<or> plannedRunning (transfers l ! k) \<or> plannedUnknown (transfers l ! k))) \<and>
    setPending p - int (length (filter (readyFor (trID p) rels (transfers l)) [0..<j])) \<le> liveContributors (transfers l) (trID p)"
proof -
  let ?f = "l\<lparr>filled := None\<rparr>" and ?live = "liveContributors (transfers l)" and ?w = "waitingSets rels (transfers l)"
  let ?at = "relSteps (readings held l) now tm ?live ?w rels ?f"
  obtain new where new: "released (?at (length (transfers l))) = released l @ new"
    using relSteps_released [of "length (transfers l)" ?f "readings held l" now tm ?live ?w rels] by auto
  obtain l1 where "l1 = releaseAll held (readings held l) now tm ?f" "released l' = released l1" using Observe_obtain [OF assms(1)] by metis
  then have "released l' = released (?at (length (transfers l)))" by (simp add: releaseAll_def rels_def Let_def)
  then have d: "drop (length (released l)) (released l') = new" using new by simp
  have "trID p \<in> trID ` set new \<longleftrightarrow> mayRelease ?live ?w (rels ! j) (transfers (?at j) ! j)"
    using relSteps_releases [of j ?f "readings held l" now tm ?live ?w rels new] new assms(2,3) by (simp add: p_def)
  moreover have c: "core (transfers (?at j) ! j) = core p"
    using relSteps_core [of j ?f j "readings held l" now tm ?live ?w rels] assms(3) by (simp add: p_def)
  moreover have "rels ! j = Some True \<Longrightarrow> setPending (transfers (?at j) ! j) =
      setPending p - int (length (filter (readyFor (trID p) rels (transfers l)) [0..<j]))"
    using relSteps_pending [of j j ?f "readings held l" now tm ?live ?w rels] assms(3) releasables_True [of j "transfers l" held "[]" "[]"]
    by (simp add: p_def rels_def)
  ultimately show ?thesis
    unfolding d mayRelease_def broken_def wrongPod_def
    using core_eqD(1,8,9) [OF c] core_primary(1) [OF c] assms(4) waitingSets_iff [of rels "transfers l" "trID p"]
    by (auto simp: p_def [symmetric] rels_def length_releasables)
qed

definition exRestored :: shareLedger where
  "exRestored =
     (let l = NewShareLedger ''y'';
          l = Share_Restore (freshTransfer\<lparr>trID := ''c1'', trDonor := ''A'', trDonorGPUs := 4, trSetID := ''p'', trDeadline := 600\<rparr>) 8 l;
          l = Share_Restore (freshTransfer\<lparr>trID := ''c2'', trDonor := ''B'', trDonorGPUs := 4, trSetID := ''p'', trDeadline := 600\<rparr>) 8 l;
          l = Share_Restore (freshTransfer\<lparr>trID := ''p'', trDonor := ''C'', trReceiver := ''R'', trGPUs := 12, trDonorGPUs := 4, trSetID := ''p'', trDeadline := 600\<rparr>) 8 l
      in Share_Forget ''c1'' exTimings (LinkSet ''p'' [''c1'', ''c2''] l))"

text \<open>
  The donor \<open>B\<close> of a contributor is not shown and the primary is released, the contributor still
  releasing; and a restored set whose contributor \<open>c1\<close> is gone is released all the same.
\<close>

theorem set_primary_released_iff_witness:
  "(let l' = snd (Share_Observe [(''A'', 4), (''R'', 0)] 100 exTimings exSet)
    in trID (transfers exSet ! 0) \<in> trID ` set (drop (length (released exSet)) (released l')) \<and>
       (''B'', ShareReleasing) \<in> set (map (\<lambda>t. (trDonor t, trState t)) (transfers l'))) \<and>
   (let l' = snd (Share_Observe [(''B'', 4), (''C'', 4), (''R'', 0)] 100 exTimings exRestored)
    in setPending (transfers exRestored ! 1) = 2 \<and> liveContributors (transfers exRestored) ''p'' = 1 \<and>
       ''p'' \<in> trID ` set (drop (length (released exRestored)) (released l')))"
proof -
  let ?h = "[(''A'', 4 :: int), (''R'', 0)]" and ?g = "[(''B'', 4 :: int), (''C'', 4), (''R'', 0)]"
  obtain ended l' where e: "Share_Observe ?h 100 exTimings exSet = (ended, l')" by fastforce
  obtain ended2 l2 where e2: "Share_Observe ?g 100 exTimings exRestored = (ended2, l2)" by fastforce
  have h: "distinct (map trID (transfers exSet))" "0 < length (transfers exSet)" "IsSetPrimary (transfers exSet ! 0)"
      "(''B'', ShareReleasing) \<in> set (map (\<lambda>t. (trDonor t, trState t)) (transfers (snd (Share_Observe ?h 100 exTimings exSet))))"
    by code_simp+
  have g: "distinct (map trID (transfers exRestored))" "1 < length (transfers exRestored)" "IsSetPrimary (transfers exRestored ! 1)"
      "setPending (transfers exRestored ! 1) = 2" "liveContributors (transfers exRestored) ''p'' = 1" "trID (transfers exRestored ! 1) = ''p''"
    by code_simp+
  have "trID (transfers exSet ! 0) \<in> trID ` set (drop (length (released exSet)) (released l'))"
    unfolding set_primary_released_iff [OF e h(1-3)] by code_simp
  moreover have "trID (transfers exRestored ! 1) \<in> trID ` set (drop (length (released exRestored)) (released l2))"
    unfolding set_primary_released_iff [OF e2 g(1-3)] by code_simp
  ultimately show ?thesis using h(4) g(4-6) unfolding e e2 by (simp add: Let_def)
qed

subsection \<open>What a release takes from a later transfer's base\<close>

lemma relSteps_base:
  assumes "n \<le> length (transfers l)" and "j < length (transfers l)"
    and "trState (transfers (relSteps rheld now tm live waiting rels l n) ! j) = ShareReleasing"
  shows "donorBase (transfers (relSteps rheld now tm live waiting rels l n) ! j) =
    donorBase (transfers l ! j) - (if trStarted (transfers l ! j) < now then
      gpusOf (trDonor (transfers l ! j)) (drop (length (released l)) (released (relSteps rheld now tm live waiting rels l n))) else 0)"
  using assms(1,3)
proof (induction n)
  case (Suc n)
  let ?l = "relSteps rheld now tm live waiting rels l n"
  obtain new where new: "released ?l = released l @ new" using relSteps_released [of n l rheld now tm live waiting rels] Suc.prems(1) by auto
  have len: "n < length (transfers ?l)" "j < length (transfers ?l)" using relSteps_length [of n l] Suc.prems(1) assms(2) by simp_all
  have cj: "core (transfers ?l ! j) = core (transfers l ! j)" using relSteps_core [of n l j] Suc.prems(1) assms(2) by simp
  show ?case
  proof (cases "mayRelease live waiting (rels ! n) (transfers ?l ! n)")
    case True
    have j: "j \<noteq> n" "trState (transfers ?l ! j) = ShareReleasing"
      using releaseStep_released(3) [OF True len(1) len(2), of rheld now tm] Suc.prems(2) by (auto split: if_splits)
    have "gpusOf d [enterFilling rheld now tm (transfers ?l ! n)] = (if trDonor (transfers ?l ! n) = d then trDonorGPUs (transfers ?l ! n) else 0)" for d
      by (simp add: gpusOf_def enterFilling_def)
    then show ?thesis
      using Suc.IH j(2) Suc.prems(1) releaseStep_released(1) [OF True len(1), of rheld now tm]
        releaseStep_released(4) [OF True len(1) len(2) j(1), of rheld now tm] core_eqD(2,7) [OF cj] new j(2) by auto
  next
    case False
    then have "releaseStep rheld now tm live waiting rels ?l n = ?l" by (simp add: releaseStep_def Let_def)
    then show ?thesis using Suc by simp
  qed
qed (simp add: gpusOf_def)

lemma released_recordMove: "released (recordMove role got i now tm l) = released l"
  by (simp add: recordMove_def rederive_def Let_def)

lemma released_Start:
  "released (snd (Share_Start t held now tm rnd l)) = released l" "trStarted (fst (Share_Start t held now tm rnd l)) = now"
  by (simp_all add: Share_Start_def Let_def coverGPUs_def released_recordMove)

text \<open>
  C34. Every release counts against a transfer started before it. A transfer's base is what its donor
  holds when it starts; whatever the ledger, a later cycle that leaves it releasing lowers that base
  by the GPUs of every other transfer of the donor it releases, also by those of a transfer whose
  pods had left the donor before this one started (a set's primary that waited for a contributor),
  which the base did not count. The donor must then lose those GPUs a second time before this
  transfer is released.
\<close>

theorem release_lowers_later_base:
  assumes "Share_Start x held0 start tm rnd l = (u, l0)" and "start < now"
    and "l1 = releaseAll held rheld now tm' (l0\<lparr>filled := None\<rparr>)" and "trState (last (transfers l1)) = ShareReleasing"
  shows "trID (last (transfers l1)) = trID u \<and> donorBase (last (transfers l1)) =
    mget 0 held0 (trDonor x) - gpusOf (trDonor x) (drop (length (released l)) (released l1))"
proof -
  have l0: "transfers l0 = transfers l @ [u]" "donorBase u = mget 0 held0 (trDonor x)" "trDonor u = trDonor x"
    using transfers_Start [of x held0 start tm rnd l] Start_donor [of x held0 start tm rnd l] assms(1) by simp_all
  have r0: "released l0 = released l" "trStarted u = start"
    using released_Start [of x held0 start tm rnd l] assms(1) by simp_all
  let ?f = "l0\<lparr>filled := None\<rparr>" and ?n = "length (transfers l0)" and ?rels = "releasables held [] [] (transfers l0)"
  let ?l1 = "relSteps rheld now tm' (liveContributors (transfers l0)) (waitingSets ?rels (transfers l0)) ?rels ?f ?n"
  have l1: "l1 = ?l1" using assms(3) by (simp add: releaseAll_def Let_def)
  have len: "length (transfers ?l1) = ?n" "0 < ?n" using relSteps_length [of ?n ?f] l0(1) by simp_all
  then have last: "last (transfers l1) = transfers ?l1 ! (?n - 1)" unfolding l1 by (subst last_conv_nth) auto
  have u: "transfers l0 ! (?n - 1) = u" using l0(1) by simp
  have id: "trID (transfers ?l1 ! (?n - 1)) = trID u"
    using core_eqD(1) [OF relSteps_core [of ?n ?f "?n - 1" rheld now tm' "liveContributors (transfers l0)"
      "waitingSets ?rels (transfers l0)" ?rels]] u len(2) by simp
  have "?n \<le> length (transfers ?f)" "?n - 1 < length (transfers ?f)" using len(2) by simp_all
  note b = relSteps_base [OF this, of rheld now tm' "liveContributors (transfers l0)" "waitingSets ?rels (transfers l0)" ?rels]
  have "trState (transfers ?l1 ! (?n - 1)) = ShareReleasing" using assms(4) last by (rule subst [rotated])
  note b = b [OF this]
  have "donorBase (transfers (?f) ! (?n - 1)) = mget 0 held0 (trDonor x)" "trStarted (transfers ?f ! (?n - 1)) < now"
      "trDonor (transfers ?f ! (?n - 1)) = trDonor x" "released ?f = released l"
    using u l0(2,3) r0 assms(2) by simp_all
  with b have "donorBase (transfers ?l1 ! (?n - 1)) =
      mget 0 held0 (trDonor x) - gpusOf (trDonor x) (drop (length (released l)) (released ?l1))" by (simp only: if_True)
  then show ?thesis unfolding last id unfolding l1 by (rule conjI [OF refl])
qed

definition exShrunk :: "(string, int) gomap" where
  "exShrunk = [(''A'', 4), (''B'', 8), (''R'', 0), (''S'', 0)]"

definition exWaiting :: shareLedger where
  "exWaiting = snd (Share_Observe exShrunk 100 exTimings exSet)"

definition exLater :: shareTransfer where
  "exLater = freshTransfer\<lparr>trDonor := ''A'', trReceiver := ''S'', trGPUs := 2, trDonorGPUs := 2\<rparr>"

text \<open>
  \<open>A\<close> shrank from 8 to 4 GPUs for a primary that waits for \<open>B\<close>; a transfer of \<open>A\<close> started then has
  base 4, and base 0 once the primary is released.
\<close>

theorem release_lowers_later_base_witness:
  "let l0 = snd (Share_Start exLater exShrunk 100 exTimings ''r3'' exWaiting);
       l1 = releaseAll [(''A'', 4), (''B'', 4), (''R'', 0), (''S'', 0)] [(''A'', 4), (''B'', 4), (''R'', 0), (''S'', 0)] 200 exTimings (l0\<lparr>filled := None\<rparr>)
   in donorBase (last (transfers l0)) = 4 \<and> donorBase (last (transfers l1)) = 0 \<and> trReceiver (last (transfers l1)) = ''S''"
proof -
  let ?h = "[(''A'', 4 :: int), (''B'', 4), (''R'', 0), (''S'', 0)]"
  obtain u l0 where s: "Share_Start exLater exShrunk 100 exTimings ''r3'' exWaiting = (u, l0)" by fastforce
  let ?l0 = "snd (Share_Start exLater exShrunk 100 exTimings ''r3'' exWaiting)"
  let ?l1 = "releaseAll ?h ?h 200 exTimings (?l0\<lparr>filled := None\<rparr>)"
  have h: "trState (last (transfers ?l1)) = ShareReleasing" "trReceiver (last (transfers ?l1)) = ''S''" "donorBase (last (transfers ?l0)) = 4"
      "mget 0 exShrunk (trDonor exLater) - gpusOf (trDonor exLater) (drop (length (released exWaiting)) (released ?l1)) = 0"
    by code_simp+
  have "donorBase (last (transfers ?l1)) = 0"
    using release_lowers_later_base [OF s, of 200 _ ?h ?h exTimings] h(1,4) unfolding s snd_conv by simp
  then show ?thesis using h(2,3) by (simp add: Let_def)
qed

end
