(* ===== verification/ShareLife.thy ===== *)
theory ShareLife
  imports ShareSets
begin

text \<open>
  What the share ledger says a group has, and how long a transfer lasts: committed and unreleased
  GPUs add up to those held and those promised, and after two cycles no transfer is left whose
  deadline had passed at the first.
\<close>

subsection \<open>Committed GPUs\<close>

definition fillingGPUs :: "shareTransfer list \<Rightarrow> int" where
  "fillingGPUs ts = sum_list (map trGPUs (filter (\<lambda>t. trState t = ShareFilling \<and> trReceiver t \<noteq> []) ts))"

definition releasingExcess :: "shareTransfer list \<Rightarrow> int" where
  "releasingExcess ts =
     sum_list (map (\<lambda>t. trDonorGPUs t - (if trReceiver t \<noteq> [] then trGPUs t else 0)) (filter (\<lambda>t. trState t = ShareReleasing) ts))"

lemma msum_Committed: "gomap_ok held \<Longrightarrow> msum (foldl commit held ts) = msum held + fillingGPUs ts - releasingExcess ts"
proof (induction ts arbitrary: held)
  case (Cons t ts)
  have "gomap_ok (commit held t)" using Cons.prems by (auto simp: commit_def Let_def)
  then have "msum (foldl commit (commit held t) ts) = msum (commit held t) + fillingGPUs ts - releasingExcess ts" by (rule Cons.IH)
  moreover have "msum (commit held t) = msum held + fillingGPUs [t] - releasingExcess [t]"
    using Cons.prems by (cases "trState t") (auto simp: commit_def Let_def msum_madd gomap_ok_madd fillingGPUs_def releasingExcess_def)
  ultimately show ?case by (simp add: fillingGPUs_def releasingExcess_def)
qed (simp add: fillingGPUs_def releasingExcess_def)

lemma msum_excessOf: "gomap_ok (excessOf ts) \<and> msum (excessOf ts) = releasingExcess ts"
proof -
  define step where "step = (\<lambda>m t. if trState t \<noteq> ShareReleasing then m
       else let m = madd (setKey t) (trDonorGPUs t) m in if trReceiver t \<noteq> [] then madd (setKey t) (- trGPUs t) m else m)"
  have "gomap_ok m \<Longrightarrow> gomap_ok (foldl step m ts) \<and> msum (foldl step m ts) = msum m + releasingExcess ts" for m
  proof (induction ts arbitrary: m)
    case (Cons t ts)
    have "gomap_ok (step m t)" "msum (step m t) = msum m + releasingExcess [t]"
      using Cons.prems by (auto simp: step_def Let_def msum_madd gomap_ok_madd releasingExcess_def)
    then show ?case using Cons.IH [of "step m t"] by (simp add: releasingExcess_def)
  qed (simp add: releasingExcess_def)
  then show ?thesis unfolding excessOf_def step_def [symmetric] by (simp add: msum_def)
qed

lemma sum_max: "msum m \<le> sum_list (map (\<lambda>(_, v). max v 0) m)" "list_all (\<lambda>(_, v). 0 \<le> v) m \<Longrightarrow> sum_list (map (\<lambda>(_, v). max v 0) m) = msum m"
  by (induction m) (auto simp: msum_def)

text \<open>
  C31. No GPU a donor still runs on is counted as idle. What the roles of a group are committed, with
  the GPUs releasing transfers took off their donors and promised to nobody, is never less than what
  the roles hold with what is released and promised to receivers, and it is exactly that while every
  transfer and every donor set gives at least what its receiver takes.
\<close>

theorem committed_adds_up:
  assumes "gomap_ok held"
  shows "msum held + fillingGPUs (transfers l) \<le> msum (Committed held l) + Unreleased l \<and>
    (list_all (\<lambda>(_, v). 0 \<le> v) (excessOf (transfers l)) \<longrightarrow> msum held + fillingGPUs (transfers l) = msum (Committed held l) + Unreleased l)"
  using msum_Committed [OF assms, of "transfers l"] msum_excessOf [of "transfers l"] sum_max [of "excessOf (transfers l)"]
  by (auto simp: Committed_def Unreleased_def)

theorem committed_adds_up_witness:
  "msum exHeldBefore + fillingGPUs (transfers exSet) = msum (Committed exHeldBefore exSet) + Unreleased exSet \<and>
   map (mget 0 (Committed exHeldBefore exSet)) [''A'', ''B'', ''R'', ''S''] = [4, 4, 8, 0]"
proof -
  have "gomap_ok exHeldBefore" "list_all (\<lambda>(_, v). 0 \<le> v) (excessOf (transfers exSet))"
    "map (mget 0 (Committed exHeldBefore exSet)) [''A'', ''B'', ''R'', ''S''] = [4, 4, 8, 0]" by code_simp+
  then show ?thesis using committed_adds_up [of exHeldBefore exSet] by blast
qed

subsection \<open>Deadlines\<close>

text \<open>What decides how long a transfer stays.\<close>

definition lasts_as :: "shareTransfer \<Rightarrow> shareTransfer \<Rightarrow> bool" where
  "lasts_as t u \<longleftrightarrow> trDeadline u = trDeadline t \<and> receiverBaseUnset u = receiverBaseUnset t \<and> trState u = trState t"

lemma lasts_as_refl [simp]: "lasts_as t t"
  by (simp add: lasts_as_def)

lemma lasts_as_trans: "lasts_as t u \<Longrightarrow> lasts_as u v \<Longrightarrow> lasts_as t v"
  by (simp add: lasts_as_def)

lemma lasts_rebaseDonor: "list_all2 lasts_as ts (rebaseDonor t now ts)"
  by (simp add: rebaseDonor_def list_all2_conv_all_nth lasts_as_def)

lemma lasts_creditPrimary: "list_all2 lasts_as ts (creditPrimary t ts)"
  by (simp add: creditPrimary_def list_all2_conv_all_nth lasts_as_def)

lemma lasts_countFilled: "list_all2 lasts_as ts (countFilled now ts f)"
  by (simp add: countFilled_def list_all2_conv_all_nth lasts_as_def)

lemma lasts_foldl:
  assumes "\<And>ts x. list_all2 lasts_as ts (f ts x)"
  shows "list_all2 lasts_as ts (foldl f ts xs)"
proof (induction xs arbitrary: ts)
  case Nil
  then show ?case by (simp add: list_all2_same)
next
  case (Cons x xs)
  show ?case unfolding foldl_Cons by (rule list_all2_trans [OF lasts_as_trans assms Cons.IH])
qed

text \<open>After the release pass a transfer lasts as before, or it was released and has a new deadline.\<close>

definition lasts_or_new :: "gotime \<Rightarrow> shareTransfer list \<Rightarrow> shareTransfer list \<Rightarrow> bool" where
  "lasts_or_new limit ts us \<longleftrightarrow> (\<forall>u \<in> set us. trDeadline u = limit \<or> (\<exists>t \<in> set ts. lasts_as t u))"

lemma lasts_or_new_all2:
  assumes "list_all2 lasts_as us vs" "lasts_or_new limit ts us"
  shows "lasts_or_new limit ts vs"
  unfolding lasts_or_new_def
proof
  fix v
  assume "v \<in> set vs"
  then obtain u where "u \<in> set us" "lasts_as u v" using list_all2_right [OF assms(1)] by blast
  then show "trDeadline v = limit \<or> (\<exists>t \<in> set ts. lasts_as t v)" using assms(2) lasts_as_trans [of _ u v] unfolding lasts_or_new_def by (metis lasts_as_def)
qed

lemma lasts_releaseStep:
  assumes "lasts_or_new (now + tmFillTimeout tm) ts (transfers l)"
  shows "lasts_or_new (now + tmFillTimeout tm) ts (transfers (releaseStep rheld now tm live waiting rels l i))"
proof (cases "mayRelease live waiting (rels ! i) (transfers l ! i)")
  case True
  let ?t = "enterFilling rheld now tm (transfers l ! i)"
  have tr: "transfers (releaseStep rheld now tm live waiting rels l i) = rebaseDonor ?t now ((creditPrimary (transfers l ! i) (transfers l))[i := ?t])"
    using True by (simp add: releaseStep_def Let_def)
  have "lasts_or_new (now + tmFillTimeout tm) ts (creditPrimary (transfers l ! i) (transfers l))" by (rule lasts_or_new_all2 [OF lasts_creditPrimary assms])
  moreover have "trDeadline ?t = now + tmFillTimeout tm" by (simp add: enterFilling_def)
  ultimately have "lasts_or_new (now + tmFillTimeout tm) ts ((creditPrimary (transfers l ! i) (transfers l))[i := ?t])"
    unfolding lasts_or_new_def by (metis set_update_subset_insert subset_insert_iff insert_iff subsetD)
  then show ?thesis unfolding tr by (rule lasts_or_new_all2 [OF lasts_rebaseDonor])
qed (use assms in \<open>simp add: releaseStep_def Let_def\<close>)

lemma lasts_releaseAll: "lasts_or_new (now + tmFillTimeout tm) (transfers l) (transfers (releaseAll held rheld now tm l))"
proof -
  have "lasts_or_new (now + tmFillTimeout tm) (transfers l) (transfers (foldl (releaseStep rheld now tm live waiting rels) l' js))"
    if "lasts_or_new (now + tmFillTimeout tm) (transfers l) (transfers l')" for live waiting rels l' js
    using that by (induction js arbitrary: l') (auto intro: lasts_releaseStep)
  moreover have "lasts_or_new (now + tmFillTimeout tm) (transfers l) (transfers l)" unfolding lasts_or_new_def using lasts_as_refl by blast
  ultimately show ?thesis by (simp add: releaseAll_def Let_def)
qed

text \<open>A transfer the sweep keeps is in time, or its receiver is seen for the first time since the release.\<close>

definition in_time :: "gotime \<Rightarrow> shareTransfer list \<Rightarrow> shareTransfer \<Rightarrow> bool" where
  "in_time now ts k \<longleftrightarrow> now < trDeadline k \<or>
     \<not> receiverBaseUnset k \<and> (\<exists>t \<in> set ts. trDeadline t = trDeadline k \<and> receiverBaseUnset t)"

lemma sweepStep_in_time:
  "(\<forall>k \<in> set (swKeep s). in_time now ts k) \<Longrightarrow> t \<in> set ts \<Longrightarrow> (\<forall>k \<in> set (swKeep (sweepStep rheld now tm live s (rel, t))). in_time now ts k)"
  by (cases "trState t") (auto simp: sweep_defs in_time_def)

lemma sweepAll_in_time:
  assumes "k \<in> set (swKeep (sweepAll rheld now tm live rels l))"
  shows "in_time now (transfers l) k"
proof -
  have run: "\<forall>k \<in> set (swKeep (foldl (sweepStep rheld now tm live) s rts)). in_time now (transfers l) k"
    if "\<forall>k \<in> set (swKeep s). in_time now (transfers l) k" "\<And>r t. (r, t) \<in> set rts \<Longrightarrow> t \<in> set (transfers l)" for s rts
    using that
  proof (induction rts arbitrary: s)
    case (Cons rt rts)
    obtain r t where rt: "rt = (r, t)" by (cases rt)
    show ?case unfolding foldl_Cons rt using sweepStep_in_time [OF Cons.prems(1), of t rheld tm live r] Cons.prems(2) rt by (intro Cons.IH) auto
  qed simp
  have "t \<in> set (transfers l)" if "(r, t) \<in> set (zip rels (transfers l))" for r t using that by (rule set_zip_rightD)
  with assms show ?thesis unfolding sweepAll_def by (intro bspec [OF run]) simp_all
qed

lemma Observe_lasts:
  assumes "t \<in> set (transfers (snd (Share_Observe held now tm l)))"
  obtains k where "lasts_as k t" and "now < trDeadline k \<or>
    \<not> receiverBaseUnset k \<and> (trDeadline k = now + tmFillTimeout tm \<or> (\<exists>u \<in> set (transfers l). trDeadline u = trDeadline k \<and> receiverBaseUnset u))"
proof -
  define l1 where "l1 = releaseAll held (readings held l) now tm (l\<lparr>filled := None\<rparr>)"
  define z where "z = sweepAll (readings held l) now tm (liveContributors (transfers l)) (releasables held [] [] (transfers l)) l1"
  define ts where "ts = foldl (countFilled now) (foldl (\<lambda>ts t. rebaseDonor t now ts) (swKeep z) (swWrong z)) (swFilled z)"
  have "transfers (snd (Share_Observe held now tm l)) = filter (\<lambda>t. \<not> orphaned (swEnded z) t) ts"
    unfolding Share_Observe_def readings_def [symmetric] Let_def l1_def [symmetric] z_def [symmetric] ts_def [symmetric] by simp
  then have t: "t \<in> set ts" using assms by simp
  have "list_all2 lasts_as (swKeep z) ts"
  proof -
    have a: "list_all2 lasts_as (swKeep z) (foldl (\<lambda>ts t. rebaseDonor t now ts) (swKeep z) (swWrong z))" by (rule lasts_foldl) (rule lasts_rebaseDonor)
    have b: "list_all2 lasts_as (foldl (\<lambda>ts t. rebaseDonor t now ts) (swKeep z) (swWrong z)) ts" unfolding ts_def by (rule lasts_foldl) (rule lasts_countFilled)
    show ?thesis by (rule list_all2_trans [OF _ a b]) (rule lasts_as_trans)
  qed
  from list_all2_right [OF this t] obtain k where k: "k \<in> set (swKeep z)" "lasts_as k t" by blast
  have it: "in_time now (transfers l1) k" using k(1) unfolding z_def by (rule sweepAll_in_time)
  have ln: "lasts_or_new (now + tmFillTimeout tm) (transfers l) (transfers l1)"
    using lasts_releaseAll [where l = "l\<lparr>filled := None\<rparr>"] unfolding l1_def by simp
  show ?thesis
  proof (cases "now < trDeadline k")
    case True
    then show ?thesis using that [OF k(2)] by simp
  next
    case False
    then obtain v where v: "\<not> receiverBaseUnset k" "v \<in> set (transfers l1)" "trDeadline v = trDeadline k" "receiverBaseUnset v" using it by (auto simp: in_time_def)
    then have "trDeadline k = now + tmFillTimeout tm \<or> (\<exists>u \<in> set (transfers l). trDeadline u = trDeadline k \<and> receiverBaseUnset u)"
      using ln unfolding lasts_or_new_def lasts_as_def by force
    then show ?thesis using that [OF k(2)] v(1) by simp
  qed
qed

text \<open>
  C32. Nothing stays in the ledger for ever. A deadline ends a transfer at the first cycle that reaches
  it, or at the one after that when the first also is the first to show its receiver: after two cycles
  no transfer is left, releasing or filling, whose deadline the first of them had reached, whichever
  roles the cycles showed.
\<close>

theorem stale_transfers_leave:
  assumes "0 < tmFillTimeout tm" and "now \<le> now'"
    and "t \<in> set (transfers (snd (Share_Observe held' now' tm (snd (Share_Observe held now tm l)))))"
  shows "now < trDeadline t"
proof -
  let ?l = "snd (Share_Observe held now tm l)"
  obtain k where k: "lasts_as k t" "now' < trDeadline k \<or>
      \<not> receiverBaseUnset k \<and> (trDeadline k = now' + tmFillTimeout tm \<or> (\<exists>u \<in> set (transfers ?l). trDeadline u = trDeadline k \<and> receiverBaseUnset u))"
    using Observe_lasts [OF assms(3)] by blast
  have "now < trDeadline u" if u: "u \<in> set (transfers ?l)" "receiverBaseUnset u" for u
    using Observe_lasts [OF u(1)] u(2) by (metis lasts_as_def)
  then show ?thesis using k assms(1,2) by (fastforce simp: lasts_as_def)
qed

definition exUnseen :: shareLedger where
  "exUnseen = snd (Share_Observe [(''A'', 4)] 100 exTimings exStarted)"

theorem stale_transfers_leave_witness:
  "map trState (transfers exUnseen) = [ShareFilling] \<and>
   map trState (transfers (snd (Share_Observe [(''R'', 0)] 1000 exTimings exUnseen))) = [ShareFilling] \<and>
   list_all (\<lambda>t. 1000 < trDeadline t) (transfers (snd (Share_Observe [(''R'', 0)] 1000 exTimings (snd (Share_Observe [(''R'', 0)] 1000 exTimings exUnseen))))) \<and>
   map trDeadline (transfers exUnseen) = [1000]"
proof -
  have "map trState (transfers exUnseen) = [ShareFilling]" "map trDeadline (transfers exUnseen) = [1000]"
    "map trState (transfers (snd (Share_Observe [(''R'', 0)] 1000 exTimings exUnseen))) = [ShareFilling]" by code_simp+
  moreover have "0 < tmFillTimeout exTimings" "(1000 :: gotime) \<le> 1000" by (simp_all add: exTimings_def)
  ultimately show ?thesis using stale_transfers_leave [of exTimings 1000 1000 _ "[(''R'', 0)]" "[(''R'', 0)]" exUnseen] by (simp add: list_all_iff)
qed

end
