(* ===== verification/ReleaseUnit.thy ===== *)
theory ReleaseUnit
  imports BorrowFlight
begin

text \<open>
  What a release of unplaced replicas takes: the unit of \<open>borrow_governor.go\<close>
  (\<open>internal/engines/allocation\<close>), and the readings of a variant's state it is decided on
  (\<open>internal/domain/saturation_analyzer.go\<close>).

  The records hold the fields the governor's placement half reads. A zero time is \<open>None\<close>, and so is
  the nil map that stands for no unit.
\<close>

subsection \<open>Requests and variant states\<close>

record variantReplicaState =
  vsName :: string
  vsCurrent :: int
  vsHeld :: int
  vsHeldKnown :: bool
  vsUnplaced :: int
  vsUnplacedSince :: "gotime option"
  vsUnplacedAt :: "(string, gotime option) gomap"
  vsGatedAt :: "(string, gotime option) gomap"
  vsGPUs :: int
  vsRole :: string
  vsAccelerator :: string
  vsMin :: "int option"

record modelScalingRequest =
  mrModel :: string
  mrNamespace :: string
  mrStates :: "variantReplicaState list"
  mrVariants :: "(string \<times> string) list"
  mrDisaggregated :: bool

type_synonym variantStates = "(string, variantReplicaState) gomap"
type_synonym unitMap = "(string, int) gomap"

definition zeroState :: variantReplicaState where
  "zeroState = \<lparr>vsName = [], vsCurrent = 0, vsHeld = 0, vsHeldKnown = False, vsUnplaced = 0, vsUnplacedSince = None,
     vsUnplacedAt = [], vsGatedAt = [], vsGPUs = 0, vsRole = [], vsAccelerator = [], vsMin = None\<rparr>"

definition minOf :: "variantReplicaState \<Rightarrow> int" where
  "minOf s = (case vsMin s of Some m \<Rightarrow> m | None \<Rightarrow> 0)"

definition heldOf :: "variantReplicaState \<Rightarrow> int" where
  "heldOf s = (if vsHeldKnown s then max (vsHeld s) (vsCurrent s) else vsCurrent s)"

definition indexStates :: "modelScalingRequest list \<Rightarrow> variantStates" where
  "indexStates requests =
     foldl (\<lambda>out req. foldl (\<lambda>out st. mput (variantName (mrNamespace req) (vsName st)) st out) out (mrStates req)) [] requests"

definition accOf :: "modelScalingRequest \<Rightarrow> string \<Rightarrow> string" where
  "accOf req variant =
     (case find (\<lambda>(n, _). n = variant) (mrVariants req) of Some (_, acc) \<Rightarrow> acc
      | None \<Rightarrow> (case find (\<lambda>st. vsName st = variant) (mrStates req) of Some st \<Rightarrow> vsAccelerator st | None \<Rightarrow> []))"

definition notBefore :: "gotime option \<Rightarrow> gotime option \<Rightarrow> bool" where
  "notBefore since t = (case t of None \<Rightarrow> False | Some t \<Rightarrow> (case since of None \<Rightarrow> True | Some s \<Rightarrow> \<not> t < s))"

definition unplacedSince :: "variantReplicaState \<Rightarrow> gotime option \<Rightarrow> bool" where
  "unplacedSince st since =
     (if vsUnplaced st \<le> 0 then False
      else if vsUnplacedAt st = [] then notBefore since (vsUnplacedSince st)
      else list_ex (\<lambda>(_, t). notBefore since t) (vsUnplacedAt st))"

definition expiredAt :: "gotime option \<Rightarrow> duration \<Rightarrow> gotime \<Rightarrow> gotime option \<Rightarrow> bool" where
  "expiredAt pastSince timeout now t =
     (case t of None \<Rightarrow> False
      | Some t \<Rightarrow> timeout \<le> time_sub now (case pastSince of None \<Rightarrow> t | Some p \<Rightarrow> if t < p then p else t))"

definition expiredUnplaced :: "variantReplicaState \<Rightarrow> gotime option \<Rightarrow> duration \<Rightarrow> gotime \<Rightarrow> int" where
  "expiredUnplaced st pastSince timeout now =
     (if vsUnplacedAt st = [] then (if expiredAt pastSince timeout now (vsUnplacedSince st) then vsUnplaced st else 0)
      else int (length (filter (\<lambda>(_, t). expiredAt pastSince timeout now t) (vsUnplacedAt st))))"

subsection \<open>The unit of a release\<close>

definition gprOf :: "variantStates \<Rightarrow> string \<Rightarrow> string \<Rightarrow> int" where
  "gprOf states ns v = max (vsGPUs (mget zeroState states (variantName ns v))) 1"

definition partnerRoom :: "variantReplicaState \<Rightarrow> int" where
  "partnerRoom st = max 0 (vsCurrent st - minOf st)"

definition partnerLess :: "variantReplicaState \<Rightarrow> variantReplicaState \<Rightarrow> bool" where
  "partnerLess a b \<longleftrightarrow>
     vsCurrent b - minOf b < vsCurrent a - minOf a \<or>
     vsCurrent b - minOf b = vsCurrent a - minOf a \<and> vsName a < vsName b"

definition roleOf :: "modelScalingRequest \<Rightarrow> string \<Rightarrow> string" where
  "roleOf req variant = foldl (\<lambda>role st. if vsName st = variant then vsRole st else role) [] (mrStates req)"

definition roleTotals :: "modelScalingRequest \<Rightarrow> (string, int) gomap" where
  "roleTotals req = foldl (\<lambda>m st. madd (vsRole st) (vsCurrent st) m) [] (mrStates req)"

definition statesByRole :: "modelScalingRequest \<Rightarrow> (string, variantReplicaState list) gomap" where
  "statesByRole req = foldl (\<lambda>m st. mput (vsRole st) (mget [] m (vsRole st) @ [st]) m) [] (mrStates req)"

definition takePartner :: "(string \<Rightarrow> int) \<Rightarrow> variantReplicaState \<Rightarrow> unitMap \<times> int \<times> int \<Rightarrow> unitMap \<times> int \<times> int" where
  "takePartner gpr st s =
     (let (unit, freed, n) = s; k = min n (partnerRoom st) in
      if 0 < k then (madd (vsName st) k unit, freed + k * gpr (vsName st), n - k) else s)"

definition pairRole :: "(string \<Rightarrow> int) \<Rightarrow> int \<Rightarrow> string \<Rightarrow> (string, int) gomap \<Rightarrow> (string, variantReplicaState list) gomap \<Rightarrow>
    unitMap \<times> int \<times> bool \<Rightarrow> string \<times> int \<Rightarrow> unitMap \<times> int \<times> bool" where
  "pairRole gpr k role totals byRole s rt =
     (let (unit, freed, fits) = s; (r, n) = rt in
      if r = role then s
      else let (unit, freed, left) = foldl (\<lambda>s st. takePartner gpr st s) (unit, freed, godiv (k * n) (mget 0 totals role))
                 (stable_sort partnerLess (mget [] byRole r))
           in (unit, freed, fits \<and> left = 0))"

definition pairUnit :: "(string \<Rightarrow> int) \<Rightarrow> string \<Rightarrow> int \<Rightarrow> string \<Rightarrow> (string, int) gomap \<Rightarrow> (string, variantReplicaState list) gomap \<Rightarrow>
    unitMap \<times> int \<times> bool" where
  "pairUnit gpr variant k role totals byRole =
     foldl (pairRole gpr k role totals byRole) ([(variant, k)], k * gpr variant, True) totals"

fun trimReplicas :: "int \<Rightarrow> int \<Rightarrow> string \<Rightarrow> nat \<Rightarrow> unitMap \<times> int \<times> int \<Rightarrow> unitMap \<times> int \<times> int" where
  "trimReplicas capGPUs g v 0 s = s"
| "trimReplicas capGPUs g v (Suc n) (unit, freed, ratio) =
     (if 0 < ratio \<and> freed + g \<le> capGPUs then trimReplicas capGPUs g v n (madd v 1 unit, freed + g, ratio - 1) else (unit, freed, ratio))"

definition trimPartner :: "(string \<Rightarrow> int) \<Rightarrow> int \<Rightarrow> variantReplicaState \<Rightarrow> unitMap \<times> int \<times> int \<Rightarrow> unitMap \<times> int \<times> int" where
  "trimPartner gpr capGPUs st s = trimReplicas capGPUs (gpr (vsName st)) (vsName st) (nat (partnerRoom st)) s"

definition roleTotal :: "(string, variantReplicaState list) gomap \<Rightarrow> string \<Rightarrow> int" where
  "roleTotal byRole r = sum_list (map vsCurrent (mget [] byRole r))"

definition trimRole :: "(string \<Rightarrow> int) \<Rightarrow> int \<Rightarrow> string \<Rightarrow> (string, variantReplicaState list) gomap \<Rightarrow>
    unitMap \<times> int \<Rightarrow> string \<Rightarrow> unitMap \<times> int" where
  "trimRole gpr capGPUs role byRole s r =
     (let (unit, freed) = s in
      if r = role then s
      else let (unit, freed, _) = foldl (\<lambda>s st. trimPartner gpr capGPUs st s)
                 (unit, freed, godiv (roleTotal byRole r) (roleTotal byRole role)) (stable_sort partnerLess (mget [] byRole r))
           in (unit, freed))"

definition trimmedUnit :: "(string \<Rightarrow> int) \<Rightarrow> string \<Rightarrow> string \<Rightarrow> int \<Rightarrow> (string, variantReplicaState list) gomap \<Rightarrow> unitMap \<times> int" where
  "trimmedUnit gpr variant role capGPUs byRole =
     foldl (trimRole gpr capGPUs role byRole) ([(variant, 1)], gpr variant) (sort (mkeys byRole))"

fun spareReplicas :: "int \<Rightarrow> int \<Rightarrow> int \<Rightarrow> string \<Rightarrow> nat \<Rightarrow> unitMap \<times> int \<times> int \<Rightarrow> unitMap \<times> int \<times> int" where
  "spareReplicas capGPUs need g v 0 s = s"
| "spareReplicas capGPUs need g v (Suc n) (unit, freed, left) =
     (if 0 < left \<and> freed < need \<and> freed + g \<le> capGPUs
      then spareReplicas capGPUs need g v n (madd v 1 unit, freed + g, left - 1) else (unit, freed, left))"

definition sparePartner :: "(string \<Rightarrow> int) \<Rightarrow> int \<Rightarrow> int \<Rightarrow> variantReplicaState \<Rightarrow> unitMap \<times> int \<times> int \<Rightarrow> unitMap \<times> int \<times> int" where
  "sparePartner gpr capGPUs need st s = spareReplicas capGPUs need (gpr (vsName st)) (vsName st) (nat (partnerRoom st)) s"

definition spareRole :: "(string \<Rightarrow> int) \<Rightarrow> int \<Rightarrow> int \<Rightarrow> string \<Rightarrow> (string, variantReplicaState list) gomap \<Rightarrow>
    unitMap \<times> int \<Rightarrow> string \<Rightarrow> unitMap \<times> int" where
  "spareRole gpr capGPUs need role byRole s r =
     (let (unit, freed) = s in
      if r = role \<or> need \<le> freed then s
      else let (unit, freed, _) = foldl (\<lambda>s st. sparePartner gpr capGPUs need st s)
                 (unit, freed, roleTotal byRole r - 1) (stable_sort partnerLess (mget [] byRole r))
           in (unit, freed))"

definition partnerUnit :: "(string \<Rightarrow> int) \<Rightarrow> string \<Rightarrow> string \<Rightarrow> int \<Rightarrow> (string, variantReplicaState list) gomap \<Rightarrow>
    (unitMap \<times> int) option" where
  "partnerUnit gpr variant role capGPUs byRole =
     (let (unit, freed) = foldl (spareRole gpr capGPUs (gpr variant) role byRole) ([], 0) (sort (mkeys byRole))
      in if freed < gpr variant then None else Some (unit, freed))"

fun releaseFrom :: "(string \<Rightarrow> int) \<Rightarrow> string \<Rightarrow> string \<Rightarrow> int \<Rightarrow> (string, int) gomap \<Rightarrow> (string, variantReplicaState list) gomap \<Rightarrow>
    nat \<Rightarrow> (unitMap \<times> int) option" where
  "releaseFrom gpr variant role capGPUs totals byRole 0 = None"
| "releaseFrom gpr variant role capGPUs totals byRole (Suc k) =
     (let (unit, freed, fits) = pairUnit gpr variant (int (Suc k)) role totals byRole in
      if fits \<and> (capGPUs < 0 \<or> freed \<le> capGPUs) then Some (unit, freed)
      else if fits \<and> k = 0 then
        (if 0 < mget 0 totals role - 1 then Some (trimmedUnit gpr variant role capGPUs byRole)
         else case partnerUnit gpr variant role capGPUs byRole of Some left \<Rightarrow> Some left | None \<Rightarrow> Some (unit, freed))
      else releaseFrom gpr variant role capGPUs totals byRole k)"

definition releaseUnit :: "modelScalingRequest \<Rightarrow> string \<Rightarrow> int \<Rightarrow> int \<Rightarrow> variantStates \<Rightarrow> (unitMap \<times> int) option" where
  "releaseUnit req variant k capGPUs states =
     (let gpr = gprOf states (mrNamespace req); role = roleOf req variant; totals = roleTotals req in
      if k \<le> 0 then None
      else if \<not> mrDisaggregated req then Some ([(variant, k)], k * gpr variant)
      else if mget 0 totals role \<le> 0 then None
      else releaseFrom gpr variant role capGPUs totals (statesByRole req) (nat k))"

definition unitFits :: "unitMap \<Rightarrow> string \<Rightarrow> variantStates \<Rightarrow> bool" where
  "unitFits unit ns states =
     list_all (\<lambda>(v, n). case map_of states (variantName ns v) of None \<Rightarrow> False
       | Some s \<Rightarrow> \<not> (n \<le> 0 \<or> vsCurrent s - n < minOf s)) unit"

subsection \<open>Partners\<close>

text \<open>The GPUs a unit frees, and what it takes of a list of variants.\<close>

definition unitGPUs :: "(string \<Rightarrow> int) \<Rightarrow> unitMap \<Rightarrow> int" where
  "unitGPUs gpr u = sum_list (map (\<lambda>(v, n). n * gpr v) u)"

definition takenOf :: "unitMap \<Rightarrow> variantReplicaState list \<Rightarrow> int" where
  "takenOf u sts = sum_list (map (\<lambda>st. mget 0 u (vsName st)) sts)"

definition unit_ok :: "unitMap \<Rightarrow> bool" where
  "unit_ok u \<longleftrightarrow> gomap_ok u \<and> list_all (\<lambda>(_, n). 0 < n) u"

lemma unitGPUs_mput:
  "gomap_ok u \<Longrightarrow> unitGPUs gpr (mput v n u) = unitGPUs gpr u + (n - mget 0 u v) * gpr v"
proof (induction u)
  case Nil
  then show ?case by (simp add: unitGPUs_def mput_def mget_def)
next
  case (Cons a u)
  obtain w m where a: "a = (w, m)" by (cases a)
  show ?case
  proof (cases "w = v")
    case True
    then show ?thesis using a by (simp add: unitGPUs_def mput_def mget_def algebra_simps)
  next
    case False
    then show ?thesis using Cons a by (simp add: unitGPUs_def mput_def mget_def gomap_ok_def mkeys_def)
  qed
qed

lemma unitGPUs_madd: "gomap_ok u \<Longrightarrow> unitGPUs gpr (madd v n u) = unitGPUs gpr u + n * gpr v"
  by (simp add: madd_def unitGPUs_mput)

lemma unit_ok_in: "unit_ok u \<Longrightarrow> (v, n) \<in> set u \<Longrightarrow> 0 < n \<and> mget 0 u v = n"
  by (auto simp: unit_ok_def list_all_iff mget_in)

lemma unit_ok_nonneg: "unit_ok u \<Longrightarrow> 0 \<le> mget 0 u v"
  by (cases "map_of u v") (auto simp: mget_def dest!: map_of_SomeD dest: unit_ok_in)

lemma set_mput: "gomap_ok u \<Longrightarrow> set (mput v n u) = insert (v, n) {x \<in> set u. fst x \<noteq> v}"
  by (induction u) (auto simp: mput_def gomap_ok_def mkeys_def image_iff)

lemma unit_ok_madd:
  assumes "unit_ok u" and "0 < n"
  shows "unit_ok (madd v n u)"
proof -
  have "gomap_ok (madd v n u)" using assms(1) by (auto simp: unit_ok_def)
  moreover have "0 < mget 0 u v + n" using unit_ok_nonneg [OF assms(1), of v] assms(2) by simp
  ultimately show ?thesis
    using assms(1) by (auto simp: unit_ok_def list_all_iff madd_def set_mput)
qed

definition addTo :: "string \<Rightarrow> int \<Rightarrow> unitMap \<Rightarrow> unitMap" where
  "addTo v k u = (if k = 0 then u else madd v k u)"

lemma addTo_add: "0 \<le> k \<Longrightarrow> 0 \<le> m \<Longrightarrow> addTo v k (addTo v m u) = addTo v (m + k) u"
proof -
  have "mput v a (mput v b u) = mput v a u" for a b
    by (induction u) (auto simp: mput_def)
  then have "madd v k (madd v m u) = madd v (m + k) u"
    by (simp add: madd_def gomap_simps add.assoc)
  then show "0 \<le> k \<Longrightarrow> 0 \<le> m \<Longrightarrow> ?thesis" by (auto simp: addTo_def)
qed

lemma mget_addTo: "mget 0 (addTo v k u) w = mget 0 u w + (if w = v then k else 0)"
  by (simp add: addTo_def gomap_simps)

lemma unit_ok_addTo: "unit_ok u \<Longrightarrow> 0 \<le> k \<Longrightarrow> unit_ok (addTo v k u)"
  by (simp add: addTo_def unit_ok_madd)

lemma unitGPUs_addTo: "unit_ok u \<Longrightarrow> unitGPUs gpr (addTo v k u) = unitGPUs gpr u + k * gpr v"
  by (simp add: addTo_def unitGPUs_madd unit_ok_def)

text \<open>What a run over the partners \<open>sts\<close> did to a unit.\<close>

definition partnersRan :: "(string \<Rightarrow> int) \<Rightarrow> variantReplicaState list \<Rightarrow> unitMap \<times> int \<times> int \<Rightarrow> unitMap \<times> int \<times> int \<Rightarrow> bool" where
  "partnersRan gpr sts s s' \<longleftrightarrow> (case (s, s') of ((u, g, n), (u', g', n')) \<Rightarrow>
     unit_ok u' \<and> g' - g = unitGPUs gpr u' - unitGPUs gpr u \<and> n - n' = takenOf u' sts - takenOf u sts \<and> (n' = n \<or> 0 \<le> n') \<and> n' \<le> n \<and>
     (\<forall>v. v \<notin> vsName ` set sts \<longrightarrow> mget 0 u' v = mget 0 u v) \<and>
     (\<forall>st \<in> set sts. mget 0 u (vsName st) \<le> mget 0 u' (vsName st) \<and> mget 0 u' (vsName st) - mget 0 u (vsName st) \<le> partnerRoom st))"

text \<open>
  A step over one partner: it takes some replicas the partner has room for, counts their GPUs, and
  counts them off what is still to take. The three searches for partners are such steps.
\<close>

locale partner_step =
  fixes gpr :: "string \<Rightarrow> int" and step :: "variantReplicaState \<Rightarrow> unitMap \<times> int \<times> int \<Rightarrow> unitMap \<times> int \<times> int"
  assumes step_takes: "\<exists>k. 0 \<le> k \<and> k \<le> partnerRoom st \<and> (k = 0 \<or> k \<le> n) \<and>
      step st (u, g, n) = (addTo (vsName st) k u, g + k * gpr (vsName st), n - k)"
begin

lemma step_run:
  assumes "unit_ok u" and "distinct (map vsName sts)"
  shows "partnersRan gpr sts (u, g, n) (foldl (\<lambda>s st. step st s) (u, g, n) sts)"
  using assms
proof (induction sts arbitrary: u g n)
  case Nil
  then show ?case by (simp add: partnersRan_def takenOf_def)
next
  case (Cons st sts)
  obtain k where k: "0 \<le> k" "k \<le> partnerRoom st" "k = 0 \<or> k \<le> n"
    and s: "step st (u, g, n) = (addTo (vsName st) k u, g + k * gpr (vsName st), n - k)"
    using step_takes [of st n u g] by blast
  obtain u' g' n' where r: "foldl (\<lambda>s st. step st s) (addTo (vsName st) k u, g + k * gpr (vsName st), n - k) sts = (u', g', n')"
    by (metis prod_cases3)
  have nin: "vsName st \<notin> vsName ` set sts" and d: "distinct (map vsName sts)" using Cons.prems(2) by auto
  have ok: "unit_ok (addTo (vsName st) k u)" using Cons.prems(1) k(1) by (rule unit_ok_addTo)
  have rr: "partnersRan gpr sts (addTo (vsName st) k u, g + k * gpr (vsName st), n - k) (u', g', n')"
    using Cons.IH [OF ok d, of "g + k * gpr (vsName st)" "n - k"] r by simp
  have other: "mget 0 (addTo (vsName st) k u) (vsName x) = mget 0 u (vsName x)" if "x \<in> set sts" for x
  proof -
    have "vsName x \<noteq> vsName st" using nin that by (metis imageI)
    then show ?thesis by (simp add: mget_addTo)
  qed
  have same: "takenOf (addTo (vsName st) k u) sts = takenOf u sts"
    unfolding takenOf_def using other by (intro arg_cong [of _ _ sum_list]) simp
  have own: "mget 0 u' (vsName st) = mget 0 u (vsName st) + k"
    using rr nin by (simp add: partnersRan_def mget_addTo)
  have out: "mget 0 u' v = mget 0 u v" if "v \<notin> vsName ` set (st # sts)" for v
    using rr that by (simp add: partnersRan_def mget_addTo)
  have each: "\<forall>x \<in> set sts. mget 0 u (vsName x) \<le> mget 0 u' (vsName x) \<and> mget 0 u' (vsName x) - mget 0 u (vsName x) \<le> partnerRoom x"
    using rr other by (simp add: partnersRan_def)
  have "partnersRan gpr (st # sts) (u, g, n) (u', g', n')"
    using rr k own out each same Cons.prems(1)
    by (simp add: partnersRan_def unitGPUs_addTo) (auto simp: takenOf_def)
  then show ?case using s r by simp
qed

end

lemma trimReplicas_takes:
  "\<exists>k. 0 \<le> k \<and> k \<le> int m \<and> (k = 0 \<or> k \<le> n) \<and> trimReplicas c g v m (u, f, n) = (addTo v k u, f + k * g, n - k)"
proof (induction m arbitrary: u f n)
  case 0
  show ?case by (intro exI [of _ 0]) (simp add: addTo_def)
next
  case (Suc m)
  show ?case
  proof (cases "0 < n \<and> f + g \<le> c")
    case True
    obtain k where "0 \<le> k" "k \<le> int m" "k = 0 \<or> k \<le> n - 1"
      "trimReplicas c g v m (addTo v 1 u, f + g, n - 1) = (addTo v k (addTo v 1 u), f + g + k * g, n - 1 - k)"
      using Suc.IH [of "n - 1" "addTo v 1 u" "f + g"] by blast
    then show ?thesis
      using True by (intro exI [of _ "1 + k"]) (auto simp: addTo_add algebra_simps simp flip: addTo_def [of v 1, simplified])
  next
    case False
    then show ?thesis by (intro exI [of _ 0]) (auto simp: addTo_def)
  qed
qed

lemma spareReplicas_takes:
  "\<exists>k. 0 \<le> k \<and> k \<le> int m \<and> (k = 0 \<or> k \<le> n) \<and> spareReplicas c d g v m (u, f, n) = (addTo v k u, f + k * g, n - k)"
proof (induction m arbitrary: u f n)
  case 0
  show ?case by (intro exI [of _ 0]) (simp add: addTo_def)
next
  case (Suc m)
  show ?case
  proof (cases "0 < n \<and> f < d \<and> f + g \<le> c")
    case True
    obtain k where "0 \<le> k" "k \<le> int m" "k = 0 \<or> k \<le> n - 1"
      "spareReplicas c d g v m (addTo v 1 u, f + g, n - 1) = (addTo v k (addTo v 1 u), f + g + k * g, n - 1 - k)"
      using Suc.IH [of "n - 1" "addTo v 1 u" "f + g"] by blast
    then show ?thesis
      using True by (intro exI [of _ "1 + k"]) (auto simp: addTo_add algebra_simps simp flip: addTo_def [of v 1, simplified])
  next
    case False
    then show ?thesis by (intro exI [of _ 0]) (auto simp: addTo_def)
  qed
qed

lemma partnerRoom_nonneg: "0 \<le> partnerRoom st"
  by (simp add: partnerRoom_def)

interpretation pairing: partner_step gpr "takePartner gpr" for gpr
proof
  show "\<exists>k. 0 \<le> k \<and> k \<le> partnerRoom st \<and> (k = 0 \<or> k \<le> n) \<and>
      takePartner gpr st (u, g, n) = (addTo (vsName st) k u, g + k * gpr (vsName st), n - k)" for st n u g
    using partnerRoom_nonneg [of st] by (intro exI [of _ "max 0 (min n (partnerRoom st))"]) (auto simp: takePartner_def addTo_def Let_def)
qed

interpretation trimming: partner_step gpr "trimPartner gpr capGPUs" for gpr capGPUs
proof
  show "\<exists>k. 0 \<le> k \<and> k \<le> partnerRoom st \<and> (k = 0 \<or> k \<le> n) \<and>
      trimPartner gpr capGPUs st (u, g, n) = (addTo (vsName st) k u, g + k * gpr (vsName st), n - k)" for st n u g
    using trimReplicas_takes [of "nat (partnerRoom st)"] partnerRoom_nonneg [of st] by (simp add: trimPartner_def)
qed

interpretation sparing: partner_step gpr "sparePartner gpr capGPUs need" for gpr capGPUs need
proof
  show "\<exists>k. 0 \<le> k \<and> k \<le> partnerRoom st \<and> (k = 0 \<or> k \<le> n) \<and>
      sparePartner gpr capGPUs need st (u, g, n) = (addTo (vsName st) k u, g + k * gpr (vsName st), n - k)" for st n u g
    using spareReplicas_takes [of "nat (partnerRoom st)"] partnerRoom_nonneg [of st] by (simp add: sparePartner_def)
qed

subsection \<open>Roles\<close>

text \<open>
  What a run over the roles \<open>rs\<close> did to a unit, of at most \<open>b r\<close> replicas in each of them but the
  unplaced variant's own: when the flag still stands, of exactly so many.
\<close>

definition roleStates :: "variantReplicaState list \<Rightarrow> string \<Rightarrow> variantReplicaState list" where
  "roleStates S r = filter (\<lambda>st. vsRole st = r) S"

definition rolesRan :: "(string \<Rightarrow> int) \<Rightarrow> variantReplicaState list \<Rightarrow> string \<Rightarrow> (string \<Rightarrow> int) \<Rightarrow> string list \<Rightarrow>
    unitMap \<times> int \<times> bool \<Rightarrow> unitMap \<times> int \<times> bool \<Rightarrow> bool" where
  "rolesRan gpr S role b rs s s' \<longleftrightarrow> (case (s, s') of ((u, g, f), (u', g', f')) \<Rightarrow>
     unit_ok u' \<and> g' - g = unitGPUs gpr u' - unitGPUs gpr u \<and> (f' \<longrightarrow> f) \<and>
     (\<forall>v. v \<notin> vsName ` {st \<in> set S. vsRole st \<in> set rs \<and> vsRole st \<noteq> role} \<longrightarrow> mget 0 u' v = mget 0 u v) \<and>
     (\<forall>st \<in> set S. mget 0 u (vsName st) \<le> mget 0 u' (vsName st) \<and> mget 0 u' (vsName st) - mget 0 u (vsName st) \<le> partnerRoom st) \<and>
     (\<forall>r \<in> set rs. r \<noteq> role \<longrightarrow> takenOf u' (roleStates S r) - takenOf u (roleStates S r) \<le> max 0 (b r) \<and>
        (f' \<longrightarrow> takenOf u' (roleStates S r) - takenOf u (roleStates S r) = b r)))"

lemma takenOf_cong: "(\<And>st. st \<in> set sts \<Longrightarrow> mget 0 u (vsName st) = mget 0 u' (vsName st)) \<Longrightarrow> takenOf u sts = takenOf u' sts"
  unfolding takenOf_def by (intro arg_cong [of _ _ sum_list]) simp

lemma takenOf_mset: "mset sts = mset sts' \<Longrightarrow> takenOf u sts = takenOf u sts'"
  unfolding takenOf_def by (simp flip: sum_mset_sum_list)

lemma rolesRan_taken:
  "rolesRan gpr S role b rs (u, g, f) (u', g', f') \<Longrightarrow> r \<in> set rs \<Longrightarrow> r \<noteq> role \<Longrightarrow>
     takenOf u' (roleStates S r) - takenOf u (roleStates S r) \<le> max 0 (b r) \<and>
     (f' \<longrightarrow> takenOf u' (roleStates S r) - takenOf u (roleStates S r) = b r)"
  by (simp add: rolesRan_def)

lemma rolesRan_skip:
  "unit_ok u \<Longrightarrow> \<not> f' \<or> f \<and> set rs \<subseteq> {role} \<Longrightarrow> rolesRan gpr S role b rs (u, g, f) (u, g, f')"
  using partnerRoom_nonneg by (auto simp: rolesRan_def)

lemma names_inj: "distinct (map vsName S) \<Longrightarrow> a \<in> set S \<Longrightarrow> b \<in> set S \<Longrightarrow> vsName a = vsName b \<Longrightarrow> a = b"
  by (rule distinct_map_eq)

lemma untouched_name:
  "distinct (map vsName S) \<Longrightarrow> st \<in> set S \<Longrightarrow> vsRole st \<notin> R \<Longrightarrow> vsName st \<notin> vsName ` {x \<in> set S. vsRole x \<in> R \<and> vsRole x \<noteq> role}"
  by (auto dest: names_inj)

text \<open>One role at a time.\<close>

lemma rolesRan_one:
  assumes "partnersRan gpr (stable_sort lt (roleStates S r)) (u, g, b r) (u', g', n')"
    and d: "distinct (map vsName S)" and "r \<noteq> role" and "f' \<longrightarrow> f \<and> n' = 0"
  shows "rolesRan gpr S role b [r] (u, g, f) (u', g', f')"
proof -
  have eq: "takenOf w (stable_sort lt (roleStates S r)) = takenOf w (roleStates S r)" for w
    by (rule takenOf_mset) simp
  have "{st \<in> set S. vsRole st \<in> set [r] \<and> vsRole st \<noteq> role} = set (roleStates S r)"
    using assms(3) by (auto simp: roleStates_def)
  moreover have "mget 0 u (vsName st) \<le> mget 0 u' (vsName st) \<and> mget 0 u' (vsName st) - mget 0 u (vsName st) \<le> partnerRoom st"
    if "st \<in> set S" for st
  proof (cases "vsRole st = r")
    case True
    then show ?thesis using assms(1) that by (simp add: partnersRan_def roleStates_def)
  next
    case False
    then have "vsName st \<notin> vsName ` set (roleStates S r)"
      using names_inj [OF d that] by (auto simp: roleStates_def)
    then show ?thesis using assms(1) partnerRoom_nonneg [of st] by (simp add: partnersRan_def)
  qed
  ultimately show ?thesis
    using assms(1,3,4) by (auto simp: rolesRan_def partnersRan_def eq)
qed

lemma rolesRan_append:
  assumes a: "rolesRan gpr S role b rs s s'" and c: "rolesRan gpr S role b rs' s' s''"
    and d: "distinct (map vsName S)" and "set rs \<inter> set rs' = {}"
  shows "rolesRan gpr S role b (rs @ rs') s s''"
proof -
  obtain u g f u' g' f' u'' g'' f'' where s: "s = (u, g, f)" "s' = (u', g', f')" "s'' = (u'', g'', f'')"
    by (metis prod_cases3)
  have two: "mget 0 u'' (vsName st) = mget 0 u' (vsName st)" if "st \<in> set S" "vsRole st \<notin> set rs'" for st
    using c untouched_name [OF d that, of role] by (simp add: rolesRan_def s)
  have one: "mget 0 u' (vsName st) = mget 0 u (vsName st)" if "st \<in> set S" "vsRole st \<notin> set rs" for st
    using a untouched_name [OF d that, of role] by (simp add: rolesRan_def s)
  have t2: "takenOf u'' (roleStates S r) = takenOf u' (roleStates S r)" if "r \<in> set rs" for r
    using two that assms(4) by (intro takenOf_cong) (auto simp: roleStates_def)
  have t1: "takenOf u' (roleStates S r) = takenOf u (roleStates S r)" if "r \<in> set rs'" for r
    using one that assms(4) by (intro takenOf_cong) (auto simp: roleStates_def)
  have ra: "mget 0 u (vsName st) \<le> mget 0 u' (vsName st)" "mget 0 u' (vsName st) - mget 0 u (vsName st) \<le> partnerRoom st"
    and rc: "mget 0 u' (vsName st) \<le> mget 0 u'' (vsName st)" "mget 0 u'' (vsName st) - mget 0 u' (vsName st) \<le> partnerRoom st"
    if "st \<in> set S" for st using a c that by (simp_all add: rolesRan_def s)
  have rooms: "mget 0 u (vsName st) \<le> mget 0 u'' (vsName st) \<and> mget 0 u'' (vsName st) - mget 0 u (vsName st) \<le> partnerRoom st"
    if st: "st \<in> set S" for st
  proof (cases "vsRole st \<in> set rs'")
    case True
    then have "vsRole st \<notin> set rs" using assms(4) by blast
    with one [OF st] rc [OF st] show ?thesis by simp
  next
    case False
    with two [OF st] ra [OF st] show ?thesis by simp
  qed
  have same: "mget 0 u'' v = mget 0 u v"
    if "v \<notin> vsName ` {st \<in> set S. vsRole st \<in> set (rs @ rs') \<and> vsRole st \<noteq> role}" for v
  proof -
    have "v \<notin> vsName ` {st \<in> set S. vsRole st \<in> set rs \<and> vsRole st \<noteq> role}"
      "v \<notin> vsName ` {st \<in> set S. vsRole st \<in> set rs' \<and> vsRole st \<noteq> role}" using that by auto
    then show ?thesis using a c by (simp add: rolesRan_def s)
  qed
  have "takenOf u'' (roleStates S r) - takenOf u (roleStates S r) \<le> max 0 (b r) \<and>
      (f'' \<longrightarrow> takenOf u'' (roleStates S r) - takenOf u (roleStates S r) = b r)"
    if "r \<in> set (rs @ rs')" "r \<noteq> role" for r
    using that t1 t2 a c by (auto simp: rolesRan_def s)
  then show ?thesis using same rooms a c by (simp add: rolesRan_def s)
qed

lemma rolesRan_foldl:
  assumes step: "\<And>u g f r. unit_ok u \<Longrightarrow> r \<in> set rs \<Longrightarrow> rolesRan gpr S role b [r] (u, g, f) (step (u, g, f) r)"
    and d: "distinct (map vsName S)" and "distinct rs" and "unit_ok u"
  shows "rolesRan gpr S role b rs (u, g, f) (foldl step (u, g, f) rs)"
  using assms(1,3,4)
proof (induction rs arbitrary: u g f)
  case Nil
  then show ?case by (simp add: rolesRan_skip)
next
  case (Cons r rs)
  obtain u' g' f' where s: "step (u, g, f) r = (u', g', f')" by (metis prod_cases3)
  have one: "rolesRan gpr S role b [r] (u, g, f) (u', g', f')" using Cons.prems(1) [of u r g f] Cons.prems(3) s by simp
  then have "unit_ok u'" by (simp add: rolesRan_def)
  then have "rolesRan gpr S role b rs (u', g', f') (foldl step (u', g', f') rs)"
    using Cons.prems(1,2) by (intro Cons.IH) auto
  from rolesRan_append [OF one this d] Cons.prems(2) s show ?case by simp
qed

end
