(* ===== verification/ReleasePair.thy ===== *)
theory ReleasePair
  imports ReleaseUnit
begin

text \<open>
  What a released unit leaves of its model: every role keeps a replica or none does, the unit stays
  above every variant's minimum, and it frees no more than is borrowed unless the whole model goes.
\<close>

subsection \<open>What a unit leaves of a model\<close>

lemma statesByRole_get: "mget [] (statesByRole req) r = roleStates (mrStates req) r"
proof -
  have "mget [] (foldl (\<lambda>m st. mput (vsRole st) (mget [] m (vsRole st) @ [st]) m) m S) r = mget [] m r @ roleStates S r" for m S
    by (induction S arbitrary: m) (auto simp: roleStates_def gomap_simps)
  then show ?thesis by (simp add: statesByRole_def mget_def)
qed

lemma statesByRole_keys: "set (mkeys (statesByRole req)) = vsRole ` set (mrStates req)" "gomap_ok (statesByRole req)"
proof -
  have "set (mkeys (foldl (\<lambda>m st. mput (vsRole st) (mget [] m (vsRole st) @ [st]) m) m S)) = set (mkeys m) \<union> vsRole ` set S" for m S
    by (induction S arbitrary: m) (auto simp: gomap_simps)
  from this [of "[]" "mrStates req"] show "set (mkeys (statesByRole req)) = vsRole ` set (mrStates req)" by (simp add: statesByRole_def mkeys_def)
  have "gomap_ok m \<Longrightarrow> gomap_ok (foldl (\<lambda>m st. mput (vsRole st) (mget [] m (vsRole st) @ [st]) m) m S)" for m S
    by (induction S arbitrary: m) (auto intro: gomap_ok_mput)
  from this [of "[]" "mrStates req"] show "gomap_ok (statesByRole req)" by (simp add: statesByRole_def)
qed

lemma roleTotals_get: "mget 0 (roleTotals req) r = sum_list (map vsCurrent (roleStates (mrStates req) r))"
proof -
  have "mget 0 (foldl (\<lambda>m st. madd (vsRole st) (vsCurrent st) m) m S) r = mget 0 m r + sum_list (map vsCurrent (roleStates S r))" for m S
    by (induction S arbitrary: m) (auto simp: roleStates_def gomap_simps)
  then show ?thesis by (simp add: roleTotals_def mget_def)
qed

lemma roleTotals_keys: "set (mkeys (roleTotals req)) = vsRole ` set (mrStates req)" "gomap_ok (roleTotals req)"
proof -
  have "set (mkeys (foldl (\<lambda>m st. madd (vsRole st) (vsCurrent st) m) m S)) = set (mkeys m) \<union> vsRole ` set S" for m S
    by (induction S arbitrary: m) (auto simp: gomap_simps)
  from this [of "[]" "mrStates req"] show "set (mkeys (roleTotals req)) = vsRole ` set (mrStates req)" by (simp add: roleTotals_def mkeys_def)
  have "gomap_ok m \<Longrightarrow> gomap_ok (foldl (\<lambda>m st. madd (vsRole st) (vsCurrent st) m) m S)" for m S
    by (induction S arbitrary: m) (auto intro: gomap_ok_madd)
  from this [of "[]" "mrStates req"] show "gomap_ok (roleTotals req)" by (simp add: roleTotals_def)
qed

lemma roleTotal_eq: "roleTotal (statesByRole req) r = mget 0 (roleTotals req) r"
  by (simp add: roleTotal_def statesByRole_get roleTotals_get)

lemma roleOf_eq:
  assumes "distinct (map vsName (mrStates req))" and "st \<in> set (mrStates req)"
  shows "roleOf req (vsName st) = vsRole st"
proof -
  have "distinct (map vsName S) \<Longrightarrow> st \<in> set S \<Longrightarrow> foldl (\<lambda>role x. if vsName x = vsName st then vsRole x else role) r S = vsRole st" for r S
  proof (induction S rule: rev_induct)
    case (snoc x S)
    then show ?case by (auto dest: names_inj [of "S @ [x]" x st])
  qed simp
  then show ?thesis using assms by (simp add: roleOf_def)
qed

lemma unit_ok_one: "0 < k \<Longrightarrow> unit_ok [(v, k)]"
  by (simp add: unit_ok_def gomap_ok_def mkeys_def)

lemma distinct_partners:
  assumes "distinct (map vsName S)"
  shows "distinct (map vsName (stable_sort lt (roleStates S r)))"
proof -
  have "mset (map vsName (stable_sort lt (roleStates S r))) = mset (map vsName (roleStates S r))" by simp
  moreover have "distinct (map vsName (roleStates S r))" using assms by (simp add: roleStates_def distinct_map_filter)
  ultimately show ?thesis by (metis mset_eq_imp_distinct_iff)
qed

text \<open>The pair of the unplaced replicas.\<close>

lemma pairUnit_ran:
  assumes "distinct (map vsName (mrStates req))" and "0 < k"
  shows "rolesRan gpr (mrStates req) role (\<lambda>r. godiv (k * mget 0 (roleTotals req) r) (mget 0 (roleTotals req) role))
     (mkeys (roleTotals req)) ([(variant, k)], k * gpr variant, True)
     (pairUnit gpr variant k role (roleTotals req) (statesByRole req))" (is "rolesRan _ ?S _ ?b _ _ _")
proof -
  let ?T = "roleTotals req" and ?step = "pairRole gpr k role (roleTotals req) (statesByRole req)"
  have ts: "?T = map (\<lambda>r. (r, mget 0 ?T r)) (mkeys ?T)"
    using mget_in [OF roleTotals_keys(2) [of req]] by (auto simp: mkeys_def comp_def intro!: map_idI [symmetric])
  have "rolesRan gpr ?S role ?b [r] (u, g, f) (?step (u, g, f) (r, mget 0 ?T r))" if "unit_ok u" for u g f r
  proof (cases "r = role")
    case True
    then show ?thesis using that by (simp add: pairRole_def rolesRan_skip)
  next
    case False
    obtain u' g' n' where s: "foldl (\<lambda>s st. takePartner gpr st s) (u, g, ?b r) (stable_sort partnerLess (roleStates ?S r)) = (u', g', n')"
      by (metis prod_cases3)
    have "partnersRan gpr (stable_sort partnerLess (roleStates ?S r)) (u, g, ?b r) (u', g', n')"
      using pairing.step_run [OF that distinct_partners [OF assms(1)]] s by metis
    then have "rolesRan gpr ?S role ?b [r] (u, g, f) (u', g', f \<and> n' = 0)"
      by (rule rolesRan_one) (use assms(1) False in auto)
    then show ?thesis using s False by (simp add: pairRole_def statesByRole_get)
  qed
  then have "rolesRan gpr ?S role ?b (mkeys ?T) ([(variant, k)], k * gpr variant, True)
      (foldl (\<lambda>s r. ?step s (r, mget 0 ?T r)) ([(variant, k)], k * gpr variant, True) (mkeys ?T))"
    using roleTotals_keys(2) assms unit_ok_one by (intro rolesRan_foldl) (auto simp: gomap_ok_def)
  moreover have "foldl ?step s ?T = foldl (\<lambda>s r. ?step s (r, mget 0 ?T r)) s (mkeys ?T)" for s
    by (subst ts) (simp add: foldl_map)
  ultimately show ?thesis by (simp add: pairUnit_def)
qed

text \<open>The partners cut to what is borrowed, and the partners released in the variant's place.\<close>

definition flagged :: "unitMap \<times> int \<Rightarrow> unitMap \<times> int \<times> bool" where
  "flagged s = (fst s, snd s, False)"

lemma foldl_flagged: "flagged (foldl step s rs) = foldl (\<lambda>s r. flagged (step (fst s, fst (snd s)) r)) (flagged s) rs"
  by (induction rs arbitrary: s) (simp_all add: flagged_def)

lemma trimmedUnit_ran:
  assumes "distinct (map vsName (mrStates req))"
  shows "rolesRan gpr (mrStates req) role (\<lambda>r. godiv (mget 0 (roleTotals req) r) (mget 0 (roleTotals req) role))
     (sort (mkeys (statesByRole req))) ([(variant, 1)], gpr variant, False)
     (flagged (trimmedUnit gpr variant role capGPUs (statesByRole req)))" (is "rolesRan _ ?S _ ?b _ _ _")
proof -
  let ?step = "\<lambda>s r. flagged (trimRole gpr capGPUs role (statesByRole req) (fst s, fst (snd s)) r)"
  have "rolesRan gpr ?S role ?b [r] (u, g, f) (?step (u, g, f) r)" if "unit_ok u" for u g f r
  proof (cases "r = role")
    case True
    then show ?thesis using that by (simp add: trimRole_def rolesRan_skip flagged_def)
  next
    case False
    obtain u' g' n' where s: "foldl (\<lambda>s st. trimPartner gpr capGPUs st s) (u, g, ?b r) (stable_sort partnerLess (roleStates ?S r)) = (u', g', n')"
      by (metis prod_cases3)
    have "partnersRan gpr (stable_sort partnerLess (roleStates ?S r)) (u, g, ?b r) (u', g', n')"
      using trimming.step_run [OF that distinct_partners [OF assms]] s by metis
    then have "rolesRan gpr ?S role ?b [r] (u, g, f) (u', g', False)"
      by (rule rolesRan_one) (use assms False in auto)
    then show ?thesis using s False by (simp add: trimRole_def statesByRole_get flagged_def roleTotal_eq)
  qed
  then have "rolesRan gpr ?S role ?b (sort (mkeys (statesByRole req))) (flagged ([(variant, 1)], gpr variant))
      (foldl ?step (flagged ([(variant, 1)], gpr variant)) (sort (mkeys (statesByRole req))))"
    using statesByRole_keys(2) [of req] assms unit_ok_one unfolding flagged_def
    by (intro rolesRan_foldl) (auto simp: gomap_ok_def)
  then show ?thesis by (simp add: trimmedUnit_def foldl_flagged) (simp add: flagged_def)
qed

lemma partnerUnit_ran:
  assumes "distinct (map vsName (mrStates req))" and "partnerUnit gpr variant role capGPUs (statesByRole req) = Some (u', g')"
  shows "rolesRan gpr (mrStates req) role (\<lambda>r. mget 0 (roleTotals req) r - 1)
     (sort (mkeys (statesByRole req))) ([], 0, False) (u', g', False)" (is "rolesRan _ ?S _ ?b _ _ _")
proof -
  let ?step = "\<lambda>s r. flagged (spareRole gpr capGPUs (gpr variant) role (statesByRole req) (fst s, fst (snd s)) r)"
  have "rolesRan gpr ?S role ?b [r] (u, g, f) (?step (u, g, f) r)" if "unit_ok u" for u g f r
  proof (cases "r = role \<or> gpr variant \<le> g")
    case True
    then show ?thesis using that by (auto simp: spareRole_def rolesRan_skip flagged_def)
  next
    case False
    obtain u' g' n' where s: "foldl (\<lambda>s st. sparePartner gpr capGPUs (gpr variant) st s) (u, g, ?b r) (stable_sort partnerLess (roleStates ?S r)) = (u', g', n')"
      by (metis prod_cases3)
    have "partnersRan gpr (stable_sort partnerLess (roleStates ?S r)) (u, g, ?b r) (u', g', n')"
      using sparing.step_run [OF that distinct_partners [OF assms(1)]] s by metis
    then have "rolesRan gpr ?S role ?b [r] (u, g, f) (u', g', False)"
      by (rule rolesRan_one) (use assms False in auto)
    then show ?thesis using s False by (simp add: spareRole_def statesByRole_get flagged_def roleTotal_eq)
  qed
  then have "rolesRan gpr ?S role ?b (sort (mkeys (statesByRole req))) (flagged ([], 0))
      (foldl ?step (flagged ([], 0)) (sort (mkeys (statesByRole req))))"
    using statesByRole_keys(2) [of req] assms unfolding flagged_def
    by (intro rolesRan_foldl) (auto simp: gomap_ok_def unit_ok_def mkeys_def)
  moreover have "foldl (spareRole gpr capGPUs (gpr variant) role (statesByRole req)) ([], 0) (sort (mkeys (statesByRole req))) = (u', g')"
    using assms(2) by (simp add: partnerUnit_def Let_def split: prod.splits if_splits)
  ultimately show ?thesis by (metis flagged_def foldl_flagged fst_conv snd_conv)
qed

subsection \<open>A released model stays serviceable\<close>

text \<open>What is left of a role.\<close>

definition leftOf :: "modelScalingRequest \<Rightarrow> unitMap \<Rightarrow> string \<Rightarrow> int" where
  "leftOf req u r = sum_list (map (\<lambda>st. vsCurrent st - mget 0 u (vsName st)) (roleStates (mrStates req) r))"

lemma leftOf_taken: "leftOf req u r = mget 0 (roleTotals req) r - takenOf u (roleStates (mrStates req) r)"
  by (simp add: leftOf_def roleTotals_get takenOf_def sum_list_subtractf)

lemma takenOf_one:
  assumes "distinct (map vsName S)" and "st \<in> set S"
  shows "takenOf [(vsName st, k)] (roleStates S r) = (if vsRole st = r then k else 0)"
proof -
  have "distinct (map vsName xs) \<Longrightarrow> takenOf [(v, k)] xs = (if v \<in> vsName ` set xs then k else 0)" for v xs
    by (induction xs) (auto simp: takenOf_def mget_def)
  moreover have "distinct (map vsName (roleStates S r))" using assms(1) by (simp add: roleStates_def distinct_map_filter)
  moreover have "vsName st \<in> vsName ` set (roleStates S r) \<longleftrightarrow> vsRole st = r"
    using assms names_inj [OF assms] by (auto simp: roleStates_def)
  ultimately show ?thesis by simp
qed

text \<open>A run over the partners does not touch the variant's own role.\<close>

lemma rolesRan_own:
  assumes "rolesRan gpr S role b rs (u, g, f) (u', g', f')" and "distinct (map vsName S)"
  shows "takenOf u' (roleStates S role) = takenOf u (roleStates S role)"
proof (rule takenOf_cong)
  fix st assume "st \<in> set (roleStates S role)"
  then have st: "st \<in> set S" "vsRole st \<notin> set rs - {role}" by (auto simp: roleStates_def)
  have "{x \<in> set S. vsRole x \<in> set rs \<and> vsRole x \<noteq> role} = {x \<in> set S. vsRole x \<in> set rs - {role} \<and> vsRole x \<noteq> role}" by auto
  then show "mget 0 u' (vsName st) = mget 0 u (vsName st)"
    using assms(1) untouched_name [OF assms(2) st, of role] by (simp add: rolesRan_def)
qed

text \<open>The four ways a unit comes about.\<close>

lemma releaseFrom_cases:
  assumes "releaseFrom gpr v role c totals by k = Some (u, g)"
  obtains (pair) j where "0 < j" "j \<le> k" "pairUnit gpr v (int j) role totals by = (u, g, True)" "c < 0 \<or> g \<le> c"
  | (trimmed) "1 < mget 0 totals role" "trimmedUnit gpr v role c by = (u, g)" "0 \<le> c"
  | (partners) "partnerUnit gpr v role c by = Some (u, g)" "0 \<le> c"
  | (whole) "mget 0 totals role \<le> 1" "pairUnit gpr v 1 role totals by = (u, g, True)" "0 < k"
proof -
  have "(\<exists>j. 0 < j \<and> j \<le> k \<and> pairUnit gpr v (int j) role totals by = (u, g, True) \<and> (c < 0 \<or> g \<le> c)) \<or>
    1 < mget 0 totals role \<and> trimmedUnit gpr v role c by = (u, g) \<and> 0 \<le> c \<or>
    partnerUnit gpr v role c by = Some (u, g) \<and> 0 \<le> c \<or>
    mget 0 totals role \<le> 1 \<and> pairUnit gpr v 1 role totals by = (u, g, True) \<and> 0 < k"
    using assms
  proof (induction k)
    case (Suc k)
    obtain u' g' f' where p: "pairUnit gpr v (int (Suc k)) role totals by = (u', g', f')" by (metis prod_cases3)
    consider "f' \<and> (c < 0 \<or> g' \<le> c)" | "f' \<and> 0 \<le> c \<and> c < g' \<and> k = 0" | "\<not> (f' \<and> (c < 0 \<or> g' \<le> c))" "\<not> (f' \<and> k = 0)" by force
    then show ?case
    proof cases
      case 1
      then show ?thesis using Suc.prems p by (intro disjI1 exI [of _ "Suc k"]) (auto simp del: of_nat_Suc)
    next
      case 2
      then show ?thesis using Suc.prems p by (auto split: if_splits option.splits)
    next
      case 3
      then have "releaseFrom gpr v role c totals by k = Some (u, g)" using Suc.prems p by (auto simp del: of_nat_Suc)
      from Suc.IH [OF this] show ?thesis by (meson le_SucI zero_less_Suc)
    qed
  qed simp
  then show thesis using that by blast
qed

definition model_ok :: "modelScalingRequest \<Rightarrow> bool" where
  "model_ok req \<longleftrightarrow> distinct (map vsName (mrStates req)) \<and> list_all (\<lambda>st. 0 \<le> vsCurrent st) (mrStates req)"

lemma total_nonneg: "model_ok req \<Longrightarrow> 0 \<le> mget 0 (roleTotals req) r"
  by (auto simp: roleTotals_get model_ok_def list_all_iff roleStates_def intro!: sum_list_nonneg)

lemma no_states: "r \<notin> vsRole ` set (mrStates req) \<Longrightarrow> roleStates (mrStates req) r = []"
  by (auto simp: roleStates_def filter_empty_conv)

lemma pairUnit_left:
  assumes "model_ok req" and st: "st \<in> set (mrStates req)" and "0 < j" and "0 < mget 0 (roleTotals req) (vsRole st)"
    and p: "pairUnit gpr (vsName st) j (vsRole st) (roleTotals req) (statesByRole req) = (u, g, True)"
  shows "leftOf req u r = mget 0 (roleTotals req) r - (j * mget 0 (roleTotals req) r) div mget 0 (roleTotals req) (vsRole st)"
proof -
  let ?S = "mrStates req" and ?T = "mget 0 (roleTotals req)"
  have d: "distinct (map vsName ?S)" using assms(1) by (simp add: model_ok_def)
  have ran: "rolesRan gpr ?S (vsRole st) (\<lambda>r. godiv (j * ?T r) (?T (vsRole st))) (mkeys (roleTotals req))
      ([(vsName st, j)], j * gpr (vsName st), True) (u, g, True)"
    using pairUnit_ran [OF d assms(3), of gpr "vsRole st" "vsName st"] p by simp
  consider "r = vsRole st" | "r \<noteq> vsRole st" "r \<in> vsRole ` set ?S" | "r \<noteq> vsRole st" "r \<notin> vsRole ` set ?S" by blast
  then show ?thesis
  proof cases
    case 1
    then show ?thesis
      using rolesRan_own [OF ran d] takenOf_one [OF d st, of j r] assms(4) by (simp add: leftOf_taken)
  next
    case 2
    then have "takenOf u (roleStates ?S r) = godiv (j * ?T r) (?T (vsRole st))"
      using rolesRan_taken [OF ran, of r] takenOf_one [OF d st, of j r] roleTotals_keys(1) [of req] by simp
    then show ?thesis using assms(3,4) total_nonneg [OF assms(1), of r] by (simp add: leftOf_taken godiv_pos)
  next
    case 3
    then show ?thesis by (simp add: leftOf_def no_states roleTotals_get)
  qed
qed

lemma trimmedUnit_left:
  assumes "model_ok req" and st: "st \<in> set (mrStates req)" and two: "1 < mget 0 (roleTotals req) (vsRole st)"
    and p: "trimmedUnit gpr (vsName st) (vsRole st) c (statesByRole req) = (u, g)" and "0 < mget 0 (roleTotals req) r"
  shows "0 < leftOf req u r"
proof -
  let ?S = "mrStates req" and ?T = "mget 0 (roleTotals req)"
  have d: "distinct (map vsName ?S)" using assms(1) by (simp add: model_ok_def)
  have ran: "rolesRan gpr ?S (vsRole st) (\<lambda>r. godiv (?T r) (?T (vsRole st))) (sort (mkeys (statesByRole req)))
      ([(vsName st, 1)], gpr (vsName st), False) (u, g, False)"
    using trimmedUnit_ran [OF d, of gpr "vsRole st" "vsName st" c] p by (simp add: flagged_def)
  have r: "r \<in> vsRole ` set ?S" using assms(5) no_states by (force simp: roleTotals_get)
  show ?thesis
  proof (cases "r = vsRole st")
    case True
    then show ?thesis
      using rolesRan_own [OF ran d] takenOf_one [OF d st, of 1 r] two by (simp add: leftOf_taken)
  next
    case False
    then have "takenOf u (roleStates ?S r) \<le> max 0 (?T r div ?T (vsRole st))"
      using rolesRan_taken [OF ran, of r] r takenOf_one [OF d st, of 1 r] statesByRole_keys(1) [of req] assms(5) two
      by (simp add: godiv_pos)
    moreover have "?T r div ?T (vsRole st) < ?T r" using assms(5) two by (intro int_div_less_self) auto
    ultimately show ?thesis using assms(5) by (simp add: leftOf_taken)
  qed
qed

lemma partnerUnit_left:
  assumes "model_ok req" and st: "st \<in> set (mrStates req)"
    and p: "partnerUnit gpr (vsName st) (vsRole st) c (statesByRole req) = Some (u, g)" and "0 < mget 0 (roleTotals req) r"
  shows "0 < leftOf req u r"
proof -
  let ?S = "mrStates req" and ?T = "mget 0 (roleTotals req)"
  have d: "distinct (map vsName ?S)" using assms(1) by (simp add: model_ok_def)
  note ran = partnerUnit_ran [OF d p]
  have none: "takenOf [] xs = 0" for xs by (induction xs) (auto simp: takenOf_def mget_def)
  have r: "r \<in> vsRole ` set ?S" using assms(4) no_states by (force simp: roleTotals_get)
  show ?thesis
  proof (cases "r = vsRole st")
    case True
    then show ?thesis using rolesRan_own [OF ran d] assms(4) none by (simp add: leftOf_taken)
  next
    case False
    then show ?thesis
      using rolesRan_taken [OF ran, of r] r statesByRole_keys(1) [of req] assms(4) none by (simp add: leftOf_taken)
  qed
qed

lemma pair_all_or_some:
  assumes "0 < j" "j \<le> (t :: int)"
  shows "(\<forall>n. n - (j * n) div t = 0) \<or> (\<forall>n > 0. 0 < n - (j * n) div t)"
proof (cases "j = t")
  case False
  have "(j * n) div t < n" if "0 < n" for n
  proof -
    have "j * n < n * t" using that assms False by (simp add: mult.commute)
    moreover have "(j * n) div t * t \<le> j * n"
      using div_mult_mod_eq [of "j * n" t] pos_mod_sign [of t "j * n"] assms by linarith
    ultimately have "(j * n) div t * t < n * t" by linarith
    then show ?thesis using assms by (simp add: mult_less_cancel_right)
  qed
  then show ?thesis by simp
qed (use assms in simp)

lemma vsCurrent_le_total:
  assumes "model_ok req" and "st \<in> set (mrStates req)"
  shows "vsCurrent st \<le> mget 0 (roleTotals req) (vsRole st)"
proof -
  have "vsCurrent st \<in> set (map vsCurrent (roleStates (mrStates req) (vsRole st)))" using assms(2) by (auto simp: roleStates_def)
  moreover have "\<forall>x \<in> set (map vsCurrent (roleStates (mrStates req) (vsRole st))). 0 \<le> x"
    using assms(1) by (auto simp: model_ok_def list_all_iff roleStates_def)
  moreover have "x \<in> set xs \<Longrightarrow> \<forall>y \<in> set xs. 0 \<le> y \<Longrightarrow> x \<le> sum_list xs" for x :: int and xs
    by (induction xs) (auto simp: add_increasing sum_list_nonneg add_increasing2)
  ultimately show ?thesis by (metis roleTotals_get)
qed

text \<open>The release of a disaggregated model starts from a populated role.\<close>

lemma releaseUnit_pd:
  assumes "releaseUnit req (vsName st) k c states = Some (u, g)" and "mrDisaggregated req"
    and "model_ok req" and "st \<in> set (mrStates req)"
  shows "releaseFrom (gprOf states (mrNamespace req)) (vsName st) (vsRole st) c (roleTotals req) (statesByRole req) (nat k) = Some (u, g)"
    and "0 < k" and "0 < mget 0 (roleTotals req) (vsRole st)"
  using assms roleOf_eq [of req st] by (auto simp: releaseUnit_def Let_def model_ok_def split: if_splits)

text \<open>The steps that stop at a cap.\<close>

lemma trimReplicas_cap: "fst (snd s) \<le> c \<Longrightarrow> fst (snd (trimReplicas c g v m s)) \<le> c"
  by (induction c g v m s rule: trimReplicas.induct) auto

lemma spareReplicas_cap: "fst (snd s) \<le> c \<Longrightarrow> fst (snd (spareReplicas c d g v m s)) \<le> c"
  by (induction c d g v m s rule: spareReplicas.induct) auto

lemma foldl_keeps: "P s \<Longrightarrow> (\<And>s x. P s \<Longrightarrow> P (step s x)) \<Longrightarrow> P (foldl step s xs)"
  by (induction xs arbitrary: s) auto

lemma trimmedUnit_cap:
  assumes "trimmedUnit gpr v role c by = (u, g)" and "gpr v \<le> c"
  shows "g \<le> c"
proof -
  have "snd (trimRole gpr c role by s r) \<le> c" if "snd s \<le> c" for s r
  proof -
    have "fst (snd (foldl (\<lambda>s st. trimPartner gpr c st s) (fst s, snd s, b) sts)) \<le> c" for b sts
      using that by (intro foldl_keeps [where P = "\<lambda>s. fst (snd s) \<le> c"]) (auto simp: trimPartner_def trimReplicas_cap)
    then show ?thesis using that by (auto simp: trimRole_def split: prod.splits) (metis fst_conv snd_conv)
  qed
  then have "snd (trimmedUnit gpr v role c by) \<le> c"
    unfolding trimmedUnit_def using assms(2) by (intro foldl_keeps [where P = "\<lambda>s. snd s \<le> c"]) auto
  then show ?thesis using assms(1) by simp
qed

lemma partnerUnit_cap:
  assumes "partnerUnit gpr v role c by = Some (u, g)" and "0 \<le> c"
  shows "g \<le> c"
proof -
  have "snd (spareRole gpr c d role by s r) \<le> c" if "snd s \<le> c" for d s r
  proof -
    have "fst (snd (foldl (\<lambda>s st. sparePartner gpr c d st s) (fst s, snd s, b) sts)) \<le> c" for b sts
      using that by (intro foldl_keeps [where P = "\<lambda>s. fst (snd s) \<le> c"]) (auto simp: sparePartner_def spareReplicas_cap)
    then show ?thesis using that by (auto simp: spareRole_def split: prod.splits) (metis fst_conv snd_conv)
  qed
  then have "snd (foldl (spareRole gpr c (gpr v) role by) ([], 0) (sort (mkeys by))) \<le> c"
    using assms(2) by (intro foldl_keeps [where P = "\<lambda>s. snd s \<le> c"]) auto
  then show ?thesis using assms(1) by (auto simp: partnerUnit_def Let_def split: prod.splits if_splits)
qed

text \<open>Either the whole model goes or every populated role keeps a replica.\<close>

lemma releaseUnit_roles:
  assumes "releaseUnit req (vsName st) k c states = Some (u, g)" and "mrDisaggregated req"
    and "model_ok req" and "st \<in> set (mrStates req)" and "k \<le> vsCurrent st"
  shows "(\<forall>r. leftOf req u r = 0) \<or> (\<forall>r. 0 < mget 0 (roleTotals req) r \<longrightarrow> 0 < leftOf req u r)"
proof -
  note pd = releaseUnit_pd [OF assms(1-4)]
  from pd(1) show ?thesis
  proof (cases rule: releaseFrom_cases)
    case (pair j)
    then have "0 < int j" "int j \<le> mget 0 (roleTotals req) (vsRole st)"
      using pd(2) assms(5) vsCurrent_le_total [OF assms(3,4)] by auto
    from pair_all_or_some [OF this] show ?thesis
      unfolding pairUnit_left [OF assms(3,4) \<open>0 < int j\<close> pd(3) pair(3)] by blast
  next
    case trimmed
    then show ?thesis using trimmedUnit_left [OF assms(3,4)] by blast
  next
    case partners
    then show ?thesis using partnerUnit_left [OF assms(3,4)] by blast
  next
    case whole
    then have "mget 0 (roleTotals req) (vsRole st) = 1" using pd(3) by simp
    then show ?thesis using pairUnit_left [OF assms(3,4) _ pd(3) whole(2)] by simp
  qed
qed

text \<open>What a run over the roles, from a unit of the variant alone, did to each variant.\<close>

lemma rolesRan_rooms:
  assumes "rolesRan gpr S (vsRole st) b rs (u, g, f) (u', g', f')" and "distinct (map vsName S)" and "st \<in> set S"
    and "u = [] \<or> u = [(vsName st, k)]" and "g = unitGPUs gpr u" and "0 < k" and "k \<le> partnerRoom st" and "x \<in> set S"
  shows "g' = unitGPUs gpr u' \<and> 0 \<le> mget 0 u' (vsName x) \<and> mget 0 u' (vsName x) \<le> partnerRoom x"
proof -
  have x: "mget 0 u (vsName x) \<le> mget 0 u' (vsName x)" "mget 0 u' (vsName x) - mget 0 u (vsName x) \<le> partnerRoom x"
    and "g' = unitGPUs gpr u'" using assms(1,5,8) by (simp_all add: rolesRan_def)
  moreover have "mget 0 u' (vsName x) = mget 0 u (vsName x)" if "x = st"
  proof -
    have "{y \<in> set S. vsRole y \<in> set rs \<and> vsRole y \<noteq> vsRole st} = {y \<in> set S. vsRole y \<in> set rs - {vsRole st} \<and> vsRole y \<noteq> vsRole st}" by auto
    then show ?thesis
      using assms(1) untouched_name [OF assms(2,3), of "set rs - {vsRole st}" "vsRole st"] that by (simp add: rolesRan_def)
  qed
  moreover have "mget 0 u (vsName x) = 0" if "x \<noteq> st"
    using that assms(4) names_inj [OF assms(2,8,3)] by (auto simp: mget_def)
  moreover have "0 \<le> mget 0 u (vsName st) \<and> mget 0 u (vsName st) \<le> partnerRoom st"
    using assms(4,6,7) partnerRoom_nonneg [of st] by (auto simp: mget_def)
  ultimately show ?thesis by (cases "x = st") auto
qed

lemma releaseUnit_rooms:
  assumes "releaseUnit req (vsName st) k c states = Some (u, g)" and "mrDisaggregated req"
    and "model_ok req" and "st \<in> set (mrStates req)" and "k \<le> vsCurrent st - minOf st" and "x \<in> set (mrStates req)"
  shows "g = unitGPUs (gprOf states (mrNamespace req)) u \<and> 0 \<le> mget 0 u (vsName x) \<and> mget 0 u (vsName x) \<le> partnerRoom x"
proof -
  note pd = releaseUnit_pd [OF assms(1-4)]
  have d: "distinct (map vsName (mrStates req))" using assms(3) by (simp add: model_ok_def)
  have one: "unitGPUs gpr [(v, j)] = j * gpr v" for gpr v j by (simp add: unitGPUs_def)
  note rooms = rolesRan_rooms [OF _ d assms(4) _ _ _ _ assms(6)]
  have k: "1 \<le> partnerRoom st" "j \<le> nat k \<Longrightarrow> int j \<le> partnerRoom st" for j
    using assms(5) pd(2) by (auto simp: partnerRoom_def)
  from pd(1) show ?thesis
  proof (cases rule: releaseFrom_cases)
    case (pair j)
    show ?thesis
      using rooms [of _ _ _ _ _ _ _ _ _ "int j"] pairUnit_ran [OF d, of "int j" _ "vsRole st" "vsName st"] pair k(2) [of j] one
      by (metis of_nat_0_less_iff)
  next
    case trimmed
    show ?thesis
      using rooms [of _ _ _ _ _ _ _ _ _ 1] trimmedUnit_ran [OF d, of _ "vsRole st" "vsName st" c] trimmed k(1) one
      by (metis flagged_def fst_conv mult_1 snd_conv zero_less_one)
  next
    case partners
    show ?thesis
      using rooms [of _ _ _ "[]" 0 _ _ _ _ 1] partnerUnit_ran [OF d partners(1)] k(1) by (simp add: unitGPUs_def)
  next
    case whole
    show ?thesis
      using rooms [of _ _ _ _ _ _ _ _ _ 1] pairUnit_ran [OF d, of 1 _ "vsRole st" "vsName st"] whole k(1) one
      by (metis zero_less_one)
  qed
qed

text \<open>One prefill and two decode replicas of eight GPUs each.\<close>

definition exState :: "string \<Rightarrow> string \<Rightarrow> int \<Rightarrow> variantReplicaState" where
  "exState name role n = zeroState\<lparr>vsName := name, vsRole := role, vsCurrent := n, vsGPUs := 8, vsAccelerator := ''H100''\<rparr>"

definition exPD :: modelScalingRequest where
  "exPD = \<lparr>mrModel = ''m'', mrNamespace = ''ns'', mrStates = [exState ''p'' ''prefill'' 1, exState ''d'' ''decode'' 2],
     mrVariants = [], mrDisaggregated = True\<rparr>"

text \<open>
  C26. A release never leaves a role of a disaggregated model without its partner. Whatever unit
  \<open>releaseUnit\<close> picks for the unplaced replicas -- the pair at its ratio, the pair cut to what is
  borrowed, partners in the variant's place, or the whole pair -- either every role of the model is
  down to 0, or every role that had a replica keeps one.
\<close>

theorem release_keeps_pairs:
  assumes "releaseUnit req (vsName st) k capGPUs states = Some (u, g)" and "mrDisaggregated req"
    and "model_ok req" and "st \<in> set (mrStates req)" and "k \<le> vsCurrent st"
  shows "(\<forall>r. leftOf req u r = 0) \<or> (\<forall>r. 0 < leftOf req [] r \<longrightarrow> 0 < leftOf req u r)"
proof -
  have "mget 0 [] v = (0 :: int)" for v :: string by (simp add: mget_def)
  then have "leftOf req [] r = mget 0 (roleTotals req) r" for r by (simp add: leftOf_def roleTotals_get)
  then show ?thesis using releaseUnit_roles [OF assms] by simp
qed

theorem release_keeps_pairs_witness:
  "releaseUnit exPD ''p'' 1 8 (indexStates [exPD]) = Some ([(''d'', 1)], 8) \<and>
   leftOf exPD [] ''decode'' = 2 \<and> 0 < leftOf exPD [(''d'', 1)] ''prefill'' \<and> 0 < leftOf exPD [(''d'', 1)] ''decode''"
proof -
  let ?p = "exState ''p'' ''prefill'' 1"
  have st: "?p \<in> set (mrStates exPD)" "vsName ?p = ''p''" "1 \<le> vsCurrent ?p" by (simp_all add: exPD_def exState_def)
  have r: "releaseUnit exPD ''p'' 1 8 (indexStates [exPD]) = Some ([(''d'', 1)], 8)" by code_simp
  moreover have "model_ok exPD" "mrDisaggregated exPD" by code_simp+
  moreover have "leftOf exPD [(''d'', 1)] ''prefill'' = 1" "leftOf exPD [] ''decode'' = 2" by code_simp+
  ultimately show ?thesis
    using release_keeps_pairs [of exPD ?p 1 8 "indexStates [exPD]" "[(''d'', 1)]" 8] st
    by (metis zero_less_numeral zero_less_one zero_neq_one)
qed

text \<open>
  C27. What a release takes is bounded. The GPUs counted for a unit are those its replicas hold; no
  variant falls below its minimum; and the unit frees no more than the GPUs borrowed, unless it takes the
  whole model down -- the one case in which a release takes from the guaranteed figure.
\<close>

theorem release_within_borrowed:
  assumes "releaseUnit req (vsName st) k capGPUs states = Some (u, g)" and "mrDisaggregated req"
    and "model_ok req" and "st \<in> set (mrStates req)" and "k \<le> vsCurrent st - minOf st"
    and "gprOf states (mrNamespace req) (vsName st) \<le> capGPUs"
  shows "g = unitGPUs (gprOf states (mrNamespace req)) u \<and>
    (\<forall>x \<in> set (mrStates req). 0 \<le> mget 0 u (vsName x) \<and> (0 < mget 0 u (vsName x) \<longrightarrow> minOf x \<le> vsCurrent x - mget 0 u (vsName x))) \<and>
    (g \<le> capGPUs \<or> (\<forall>r. leftOf req u r = 0))"
proof -
  note pd = releaseUnit_pd [OF assms(1-4)]
  have "g \<le> capGPUs \<or> (\<forall>r. leftOf req u r = 0)"
    using pd(1)
  proof (cases rule: releaseFrom_cases)
    case (pair j)
    then show ?thesis using assms(6) by (auto simp: gprOf_def)
  next
    case trimmed
    then show ?thesis using trimmedUnit_cap assms(6) by blast
  next
    case partners
    then show ?thesis using partnerUnit_cap by blast
  next
    case whole
    then have "mget 0 (roleTotals req) (vsRole st) = 1" using pd(3) by simp
    then show ?thesis using pairUnit_left [OF assms(3,4) _ pd(3) whole(2)] by simp
  qed
  moreover have "minOf x \<le> vsCurrent x - mget 0 u (vsName x)" if "x \<in> set (mrStates req)" "0 < mget 0 u (vsName x)" for x
    using releaseUnit_rooms [OF assms(1-5) that(1)] that(2) by (auto simp: partnerRoom_def split: if_splits)
  ultimately show ?thesis using releaseUnit_rooms [OF assms(1-5)] assms(4) by blast
qed

theorem release_within_borrowed_witness:
  "releaseUnit exPD ''d'' 1 8 (indexStates [exPD]) = Some ([(''d'', 1)], 8) \<and>
   8 = unitGPUs (gprOf (indexStates [exPD]) ''ns'') [(''d'', 1)] \<and> leftOf exPD [(''d'', 1)] ''decode'' = 1 \<and>
   ((8::int) \<le> 8 \<or> (\<forall>r. leftOf exPD [(''d'', 1)] r = 0))"
proof -
  let ?d = "exState ''d'' ''decode'' 2"
  have st: "?d \<in> set (mrStates exPD)" "vsName ?d = ''d''" "1 \<le> vsCurrent ?d - minOf ?d"
    by (simp_all add: exPD_def exState_def minOf_def zeroState_def)
  have "releaseUnit exPD ''d'' 1 8 (indexStates [exPD]) = Some ([(''d'', 1)], 8)" by code_simp
  moreover have "model_ok exPD" "mrDisaggregated exPD" "gprOf (indexStates [exPD]) (mrNamespace exPD) ''d'' \<le> 8" by code_simp+
  moreover have "leftOf exPD [(''d'', 1)] ''decode'' = 1" "mrNamespace exPD = ''ns''" by code_simp+
  ultimately show ?thesis
    using release_within_borrowed [of exPD ?d 1 8 "indexStates [exPD]" "[(''d'', 1)]" 8] st by simp
qed

end
