(* ===== verification/Governor.thy ===== *)
theory Governor
  imports ReleaseUnit
begin

text \<open>
  The borrow governor of \<open>borrow_governor.go\<close>: who may borrow now, the cooldowns that grow with
  every preemption, the lenders that wait, and the ledger that carries all of it over a restart. The
  releases to lenders it only keeps in flight here (\<open>borrow_lender_release.go\<close>); both files are
  under \<open>internal/engines/allocation\<close>.

  Times count from Go's zero time, so that \<open>IsZero\<close> is equality with 0 and \<open>Truncate\<close> cuts
  a multiple. A map to \<open>bool\<close> that only ever holds true is kept as one.
\<close>

subsection \<open>Settings and state\<close>

definition minute :: duration where
  "minute = 60 * second"

definition hpaDefaultScaleDownWindow :: duration where
  "hpaDefaultScaleDownWindow = 300 * second"

definition kedaDefaultPolling :: duration where
  "kedaDefaultPolling = 30 * second"

definition k8sDefaultTerminationGrace :: duration where
  "k8sDefaultTerminationGrace = 30 * second"

definition hpaSyncPeriod :: duration where
  "hpaSyncPeriod = 15 * second"

record borrowSettings =
  gsPlacementTimeout :: duration
  gsCooldown :: duration
  gsLenderDebounce :: duration
  gsReleaseActuation :: duration
  gsReleaseLatencies :: "(string, duration) gomap"

definition pickDuration :: "duration option \<Rightarrow> duration \<Rightarrow> duration" where
  "pickDuration v def = (case v of Some d \<Rightarrow> if 0 \<le> d then d else def | None \<Rightarrow> def)"

definition ReleaseBound :: "duration option \<Rightarrow> duration option \<Rightarrow> duration option \<Rightarrow> duration" where
  "ReleaseBound window polling grace =
     pickDuration window hpaDefaultScaleDownWindow + hpaSyncPeriod + pickDuration polling kedaDefaultPolling +
     pickDuration grace k8sDefaultTerminationGrace"

definition DefaultBorrowSettings :: borrowSettings where
  "DefaultBorrowSettings = \<lparr>gsPlacementTimeout = 5 * minute, gsCooldown = 10 * minute, gsLenderDebounce = 60 * second,
     gsReleaseActuation = 2 * k8sDefaultTerminationGrace + hpaDefaultScaleDownWindow, gsReleaseLatencies = []\<rparr>"

record lenderKey =
  lkCohort :: string
  lkLender :: string
  lkFlavor :: string
  lkResource :: string

definition flavorKey :: "lenderKey \<Rightarrow> string" where
  "flavorKey k = lkCohort k @ ''/'' @ lkFlavor k @ ''/'' @ lkResource k"

definition lenderKeyLess :: "lenderKey \<Rightarrow> lenderKey \<Rightarrow> bool" where
  "lenderKeyLess a b \<longleftrightarrow>
     lkCohort a < lkCohort b \<or> lkCohort a = lkCohort b \<and> (lkFlavor a < lkFlavor b \<or> lkFlavor a = lkFlavor b \<and>
       (lkResource a < lkResource b \<or> lkResource a = lkResource b \<and> lkLender a < lkLender b))"

record lenderWatch =
  lwSince :: gotime
  lwReads :: int
  lwLastRead :: gotime

record backoffEntry =
  boUntil :: gotime
  boLevel :: int
  boLastAt :: gotime
  boPreempted :: bool

record noHoleReplicas =
  nhReplicas :: int
  nhGPUs :: int
  nhSince :: gotime

record releasedUnit =
  ruNamespace :: string
  ruModel :: string
  ruVariant :: string
  ruTo :: int

record lenderRelease =
  lrKey :: lenderKey
  lrUnits :: "releasedUnit list"
  lrGPUs :: int
  lrBorrowedBefore :: int
  lrReleasedAt :: gotime
  lrLandedAt :: "gotime option"
  lrTaken :: bool
  lrTimedOut :: bool

record borrowLedger =
  blVersion :: int
  blCohortCooldown :: "(string, gotime) gomap"
  blModelCooldown :: "(string, gotime) gomap"
  blTimeoutHeld :: "(string, int) gomap"
  blIdleSince :: "gotime option"
  blBackoff :: "(string, backoffEntry) gomap"
  blNoHole :: "(string, noHoleReplicas) gomap"
  blLenderReleases :: "lenderRelease list"

record borrowCycle =
  bcNow :: gotime
  bcConstraints :: "borrowConstraints option list"
  bcRequests :: "modelScalingRequest list"
  bcScaleUpPending :: "(string, bool) gomap"
  bcPreemptionUnknown :: "(string, bool) gomap"
  bcNoHole :: "(string, noHoleReplicas) gomap"
  bcGated :: gatedGPUs
  bcLedgerUnread :: bool

record borrowGovernor =
  gSettings :: borrowSettings
  gWatches :: "(lenderKey, lenderWatch) gomap"
  gCohortCooldown :: "(string, gotime) gomap"
  gModelCooldown :: "(string, gotime) gomap"
  gTimeoutHeld :: "(string, int) gomap"
  gHeld :: "(string, bool) gomap"
  gPreemptUnknown :: "(string, bool) gomap"
  gPastSince :: "(string, gotime) gomap"
  gUncountedSince :: "(string, gotime) gomap"
  gGatedPins :: "(string, bool) gomap"
  gRawWaiting :: "(string, bool) gomap"
  gBackoff :: "(string, backoffEntry) gomap"
  gNoHole :: "(string, noHoleReplicas) gomap"
  gNoHoleRestored :: "(string, bool) gomap"
  gLenderRel :: "(lenderKey, lenderRelease) gomap"
  gLenderRestored :: "(lenderKey, bool) gomap"
  gHalfLowered :: "string list"
  gStarted :: bool
  gIdleSince :: gotime

definition NewBorrowGovernor :: "borrowSettings \<Rightarrow> borrowGovernor" where
  "NewBorrowGovernor s = \<lparr>gSettings = s, gWatches = [], gCohortCooldown = [], gModelCooldown = [], gTimeoutHeld = [], gHeld = [],
     gPreemptUnknown = [], gPastSince = [], gUncountedSince = [], gGatedPins = [], gRawWaiting = [], gBackoff = [], gNoHole = [],
     gNoHoleRestored = [], gLenderRel = [], gLenderRestored = [], gHalfLowered = [], gStarted = False, gIdleSince = 0\<rparr>"

definition SetSettings :: "borrowSettings \<Rightarrow> borrowGovernor \<Rightarrow> borrowGovernor" where
  "SetSettings s g = g\<lparr>gSettings := s\<rparr>"

subsection \<open>Cooldowns\<close>

definition maxBackoffLevel :: int where
  "maxBackoffLevel = 2"

definition maxBackoff :: duration where
  "maxBackoff = 40 * minute"

definition sameEvent :: duration where
  "sameEvent = minute"

definition backoffFor :: "borrowGovernor \<Rightarrow> int \<Rightarrow> duration" where
  "backoffFor g level = min (gsCooldown (gSettings g) * 2 ^ nat level) (max maxBackoff (gsCooldown (gSettings g)))"

definition markModelCooldown :: "string \<Rightarrow> gotime \<Rightarrow> borrowGovernor \<Rightarrow> borrowGovernor" where
  "markModelCooldown modelKey t g =
     (let until = t + gsCooldown (gSettings g) in
      if mget 0 (gModelCooldown g) modelKey < until then g\<lparr>gModelCooldown := mput modelKey until (gModelCooldown g)\<rparr> else g)"

definition MarkPreempted :: "string \<Rightarrow> gotime \<Rightarrow> borrowGovernor \<Rightarrow> borrowGovernor" where
  "MarkPreempted modelKey t g = markModelCooldown modelKey t g"

definition markEntry :: "borrowGovernor \<Rightarrow> gotime \<Rightarrow> bool \<Rightarrow> duration \<Rightarrow> backoffEntry option \<Rightarrow> backoffEntry" where
  "markEntry g t preempted timeout prev =
     (case prev of
        None \<Rightarrow> \<lparr>boUntil = t + backoffFor g 0, boLevel = 0, boLastAt = t, boPreempted = preempted\<rparr>
      | Some e \<Rightarrow>
          if time_sub t (boLastAt e) < sameEvent then e
          else if \<not> preempted \<and> boPreempted e \<and> t < boUntil e then e
          else if \<not> preempted \<and> boPreempted e \<and> t < boLastAt e + (timeout + gsPlacementTimeout (gSettings g))
            then \<lparr>boUntil = t + backoffFor g (boLevel e), boLevel = boLevel e, boLastAt = t, boPreempted = False\<rparr>
          else let level = (if t < boUntil e + gsCooldown (gSettings g) then min (boLevel e + 1) maxBackoffLevel else 0);
                   until = t + backoffFor g level
               in \<lparr>boUntil = (if until < boUntil e then boUntil e else until), boLevel = level, boLastAt = t, boPreempted = preempted\<rparr>)"

definition backoffKey :: "string \<Rightarrow> string \<Rightarrow> string" where
  "backoffKey modelKey c = modelKey @ ''@'' @ c"

definition markBackoffAfter :: "string \<Rightarrow> string list \<Rightarrow> gotime \<Rightarrow> bool \<Rightarrow> duration \<Rightarrow> borrowGovernor \<Rightarrow> borrowGovernor" where
  "markBackoffAfter modelKey cohorts t preempted timeout g =
     (if cohorts = [] then markModelCooldown modelKey t g
      else foldl (\<lambda>g c. let k = backoffKey modelKey c in
             g\<lparr>gBackoff := mput k (markEntry g t preempted timeout (map_of (gBackoff g) k)) (gBackoff g)\<rparr>) g cohorts)"

definition markBackoff :: "string \<Rightarrow> string list \<Rightarrow> gotime \<Rightarrow> bool \<Rightarrow> borrowGovernor \<Rightarrow> borrowGovernor" where
  "markBackoff modelKey cohorts t preempted g = markBackoffAfter modelKey cohorts t preempted (gsPlacementTimeout (gSettings g)) g"

definition MarkPreemptedIn :: "string \<Rightarrow> string list \<Rightarrow> gotime \<Rightarrow> borrowGovernor \<Rightarrow> borrowGovernor" where
  "MarkPreemptedIn modelKey cohorts t g = markBackoff modelKey cohorts t True g"

definition BorrowBlockedIn :: "string \<Rightarrow> string \<Rightarrow> string \<Rightarrow> gotime \<Rightarrow> borrowGovernor \<Rightarrow> bool" where
  "BorrowBlockedIn namespace modelID cohort now g =
     (case map_of (gBackoff g) (backoffKey (variantName namespace modelID) cohort) of None \<Rightarrow> False | Some e \<Rightarrow> now < boUntil e)"

definition inCooldown :: "(string, gotime) gomap \<Rightarrow> string \<Rightarrow> gotime \<Rightarrow> bool" where
  "inCooldown m k now = (case map_of m k of None \<Rightarrow> False | Some until \<Rightarrow> now < until)"

definition CoolingDown :: "string \<Rightarrow> string \<Rightarrow> gotime \<Rightarrow> borrowGovernor \<Rightarrow> bool" where
  "CoolingDown namespace modelID now g =
     (let key = variantName namespace modelID in
      inCooldown (gModelCooldown g) key now \<or>
      list_ex (\<lambda>(k, e). cutPrefix k (key @ ''@'') \<noteq> None \<and> now < boUntil e) (gBackoff g))"

definition namespaceCohorts :: "borrowConstraints option list \<Rightarrow> string \<Rightarrow> string list" where
  "namespaceCohorts constraints ns =
     sort (foldl (\<lambda>out c. case c of None \<Rightarrow> out
       | Some c \<Rightarrow> foldl (\<lambda>out co. if co \<in> set out then out else out @ [co]) out (mget [] (NamespaceCohorts c) ns)) [] constraints)"

definition BlockedCohorts :: "gotime \<Rightarrow> borrowGovernor \<Rightarrow> (string, bool) gomap" where
  "BlockedCohorts now g =
     foldl (\<lambda>out (c, _). mput c True out)
       (foldl (\<lambda>out (c, until). if now < until then mput c True out else out) [] (gCohortCooldown g)) (gRawWaiting g)"

definition BorrowBlocked :: "string \<Rightarrow> string \<Rightarrow> string \<Rightarrow> gotime \<Rightarrow> borrowGovernor \<Rightarrow> bool" where
  "BorrowBlocked namespace modelID variant now g =
     (mget False (gPreemptUnknown g) namespace \<or> inCooldown (gModelCooldown g) (variantName namespace modelID) now \<or>
      mget False (gHeld g) (variantName namespace variant))"

text \<open>The governor the two engines share: \<open>None\<close> while none is published (\<open>borrow_cooldowns.go\<close>).\<close>

definition sharedCoolingDown :: "borrowGovernor option \<Rightarrow> string \<Rightarrow> string \<Rightarrow> gotime \<Rightarrow> bool" where
  "sharedCoolingDown g namespace modelID now = (case g of None \<Rightarrow> False | Some g \<Rightarrow> CoolingDown namespace modelID now g)"

subsection \<open>One cycle\<close>

definition pruneEntry :: "borrowGovernor \<Rightarrow> gotime \<Rightarrow> backoffEntry \<Rightarrow> backoffEntry option" where
  "pruneEntry g now e =
     (if \<not> now < boUntil e + gsCooldown (gSettings g) then None
      else if backoffFor g maxBackoffLevel < time_sub (boUntil e) now then Some (e\<lparr>boUntil := now + backoffFor g maxBackoffLevel\<rparr>)
      else Some e)"

definition pruneClock :: "borrowGovernor \<Rightarrow> gotime \<Rightarrow> gotime \<Rightarrow> gotime option" where
  "pruneClock g now until =
     (if \<not> now < until then None
      else if gsCooldown (gSettings g) < time_sub until now then Some (now + gsCooldown (gSettings g))
      else Some until)"

definition mapValues :: "('v \<Rightarrow> 'w option) \<Rightarrow> ('k, 'v) gomap \<Rightarrow> ('k, 'w) gomap" where
  "mapValues f m = List.map_filter (\<lambda>(k, v). map_option (Pair k) (f v)) m"

definition pruneClocks :: "gotime \<Rightarrow> borrowGovernor \<Rightarrow> borrowGovernor" where
  "pruneClocks now g =
     g\<lparr>gBackoff := mapValues (pruneEntry g now) (gBackoff g),
       gCohortCooldown := mapValues (pruneClock g now) (gCohortCooldown g),
       gModelCooldown := mapValues (pruneClock g now) (gModelCooldown g)\<rparr>"

definition pastKeys :: "(string, (string, int) gomap) gomap \<Rightarrow> string list" where
  "pastKeys held = concat (map (\<lambda>(ns, perType). map (\<lambda>(t, _). variantName ns t) (filter (\<lambda>(_, n). \<not> n \<le> 0) perType)) held)"

definition trackPast :: "(string, gotime) gomap \<Rightarrow> (string, (string, int) gomap) gomap \<Rightarrow> gotime \<Rightarrow> (string, gotime) gomap" where
  "trackPast since held now =
     (let past = pastKeys held;
          since = foldl (\<lambda>since k. if map_of since k = None then mput k now since else since) since past
      in filter (\<lambda>(k, _). k \<in> set past) since)"

definition pastFigures :: "(string, resourcePool) gomap \<Rightarrow> (string, int) gomap" where
  "pastFigures pools = List.map_filter (\<lambda>(t, p). if 0 \<le> Limit p then Some (t, Used p - Limit p) else None) pools"

definition lessGated :: "(string, int) gomap \<Rightarrow> (string, int) gomap \<Rightarrow> (string, int) gomap \<times> int" where
  "lessGated gated past =
     foldl (\<lambda>(past, untyped) (acc, n).
       if acc = [] then (past, untyped + n)
       else case FindBudgetKey past acc of Some t \<Rightarrow> (mput t (mget 0 past t - n) past, untyped) | None \<Rightarrow> (past, untyped))
       (past, 0) gated"

definition shareUntyped :: "(string, int) gomap \<Rightarrow> int \<Rightarrow> (string, int) gomap \<Rightarrow> (string, int) gomap" where
  "shareUntyped past untyped out =
     fst (foldl (\<lambda>(out, untyped) t. let take = min untyped (max 0 (mget 0 past t)) in
        (mput t (max 0 (mget 0 past t - take)) out, untyped - take)) (out, untyped) (sort (mkeys past)))"

definition namespaceBorrowed :: "borrowConstraints option list \<Rightarrow> gatedGPUs \<Rightarrow> (string, (string, int) gomap) gomap" where
  "namespaceBorrowed constraints gated =
     foldl (\<lambda>out c. foldl (\<lambda>out ns.
         let past = pastFigures (mget [] (nsPoolsOf c) ns) in
         if past = [] then out
         else let (past, untyped) = lessGated (mget [] gated ns) past
              in mput ns (shareUntyped past untyped (mget [] out ns)) out)
       out (case NamespaceBorrow c of None \<Rightarrow> [] | Some m \<Rightarrow> mkeys m)) [] (borrowers constraints)"

definition namespaceHeldPast :: "borrowConstraints option list \<Rightarrow> (string, (string, int) gomap) gomap" where
  "namespaceHeldPast constraints = namespaceBorrowed constraints []"

definition observePast :: "borrowCycle \<Rightarrow> borrowGovernor \<Rightarrow> borrowGovernor" where
  "observePast c g =
     g\<lparr>gPastSince := trackPast (gPastSince g) (namespaceHeldPast (bcConstraints c)) (bcNow c),
       gUncountedSince := trackPast (gUncountedSince g) (uncountedHeldPast (bcConstraints c)) (bcNow c)\<rparr>"

definition readTime :: "sharedPoolChunk \<Rightarrow> gotime" where
  "readTime ch = (case chReadAt ch of None \<Rightarrow> 0 | Some t \<Rightarrow> t)"

definition observeLender :: "lenderKey \<Rightarrow> bool \<Rightarrow> gotime \<Rightarrow> gotime \<Rightarrow> borrowGovernor \<Rightarrow> borrowGovernor" where
  "observeLender key waits readAt now g =
     (let w = map_of (gWatches g) key;
          newRead = (case w of None \<Rightarrow> True | Some w \<Rightarrow> lwLastRead w < readAt)
      in if \<not> newRead then g
         else if \<not> waits then g\<lparr>gWatches := mdel key (gWatches g)\<rparr>
         else let w = (case w of None \<Rightarrow> \<lparr>lwSince = now, lwReads = 0, lwLastRead = 0\<rparr> | Some w \<Rightarrow> w)
              in g\<lparr>gWatches := mput key (w\<lparr>lwReads := lwReads w + 1, lwLastRead := readAt\<rparr>) (gWatches g)\<rparr>)"

definition lenderWaiting :: "lenderKey \<Rightarrow> gotime \<Rightarrow> borrowGovernor \<Rightarrow> bool" where
  "lenderWaiting key now g =
     (case map_of (gWatches g) key of None \<Rightarrow> False
      | Some w \<Rightarrow> 2 \<le> lwReads w \<and> gsLenderDebounce (gSettings g) \<le> time_sub now (lwSince w))"

definition chunkLender :: "sharedPoolChunk \<Rightarrow> lenderState \<Rightarrow> lenderKey" where
  "chunkLender ch l = \<lparr>lkCohort = chCohort ch, lkLender = lnQueue l, lkFlavor = chFlavor ch, lkResource = chResource ch\<rparr>"

definition observeChunk :: "gotime \<Rightarrow> borrowGovernor \<Rightarrow> sharedPoolChunk \<Rightarrow> borrowGovernor" where
  "observeChunk now g ch =
     (if chStale ch then g
      else foldl (\<lambda>g l. let key = chunkLender ch l; g = observeLender key (lnWaiting l) (readTime ch) now g in
        if lenderWaiting key now g
        then g\<lparr>gCohortCooldown := mput (chCohort ch) (now + gsCooldown (gSettings g)) (gCohortCooldown g)\<rparr> else g) g (chLenders ch))"

definition rawOf :: "(string, bool) gomap \<Rightarrow> sharedPoolChunk list \<Rightarrow> (string, bool) gomap" where
  "rawOf before chunks =
     foldl (\<lambda>raw ch.
       if chStale ch then (if mget False before (chCohort ch) then mput (chCohort ch) True raw else raw)
       else if list_ex lnWaiting (chLenders ch) then mput (chCohort ch) True raw else raw) [] chunks"

definition listedPools :: "sharedPoolChunk list \<Rightarrow> (string, bool) gomap" where
  "listedPools chunks = foldl (\<lambda>m ch. mput (chunk_key ch) (\<not> chStale ch) m) [] chunks"

definition knownPool :: "sharedPoolChunk list \<Rightarrow> string \<Rightarrow> bool" where
  "knownPool chunks fk =
     (case map_of (listedPools chunks) fk of Some fresh \<Rightarrow> fresh | None \<Rightarrow> \<not> list_ex chStale chunks)"

definition observeNoHoleEntry :: "borrowCycle \<Rightarrow> variantStates \<Rightarrow> borrowGovernor \<Rightarrow> string \<times> noHoleReplicas \<Rightarrow> borrowGovernor" where
  "observeNoHoleEntry c states g kh =
     (let (k, h) = kh; s = map_of states k; unrestored = g\<lparr>gNoHoleRestored := mdel k (gNoHoleRestored g)\<rparr> in
      if map_of (bcNoHole c) k \<noteq> None then unrestored
      else if s = None \<and> mget False (gNoHoleRestored g) k \<and> time_sub (bcNow c) (nhSince h) \<le> 3 * gsPlacementTimeout (gSettings g) then g
      else if (case s of None \<Rightarrow> True | Some s \<Rightarrow> nhReplicas h \<le> 0 \<or> \<not> unplacedSince s (Some (nhSince h)))
        then unrestored\<lparr>gNoHole := mdel k (gNoHole g)\<rparr>
      else unrestored)"

definition watchNoHole :: "gotime \<Rightarrow> borrowGovernor \<Rightarrow> string \<times> noHoleReplicas \<Rightarrow> borrowGovernor" where
  "watchNoHole now g kh =
     (let (k, h) = kh; prev = mget \<lparr>nhReplicas = 0, nhGPUs = 0, nhSince = 0\<rparr> (gNoHole g) k;
          since = (case map_of (gNoHole g) k of Some p \<Rightarrow> nhSince p
                   | None \<Rightarrow> if nhSince h \<noteq> 0 \<and> nhSince h < now then nhSince h else now)
      in g\<lparr>gNoHole := mput k \<lparr>nhReplicas = max (nhReplicas prev) (nhReplicas h), nhGPUs = max (nhGPUs prev) (nhGPUs h), nhSince = since\<rparr> (gNoHole g)\<rparr>)"

definition observeNoHole :: "borrowCycle \<Rightarrow> variantStates \<Rightarrow> borrowGovernor \<Rightarrow> borrowGovernor" where
  "observeNoHole c states g =
     foldl (watchNoHole (bcNow c)) (foldl (observeNoHoleEntry c states) g (gNoHole g)) (bcNoHole c)"

definition NoHoleOf :: "borrowDraw list \<Rightarrow> (string, noHoleReplicas) gomap" where
  "NoHoleOf entries =
     foldl (\<lambda>out d.
       if \<not> bdNoHole d \<or> bdGPUs d \<le> 0 \<or> bdReplicas d \<le> 0 then out
       else let k = variantName (bdNamespace d) (bdVariant d); h = mget \<lparr>nhReplicas = 0, nhGPUs = 0, nhSince = 0\<rparr> out k;
                since = (if bdOrderedAt d \<noteq> 0 \<and> (nhSince h = 0 \<or> bdOrderedAt d < nhSince h) then bdOrderedAt d else nhSince h)
            in mput k \<lparr>nhReplicas = nhReplicas h + bdReplicas d, nhGPUs = nhGPUs h + bdGPUs d, nhSince = since\<rparr> out) [] entries"

subsection \<open>Releases to lenders in flight\<close>

definition kueueSchedulingInterval :: duration where
  "kueueSchedulingInterval = minute"

definition lenderTimeout :: "borrowGovernor \<Rightarrow> string \<Rightarrow> duration" where
  "lenderTimeout g cohort = max (gsReleaseActuation (gSettings g)) (2 * mget 0 (gsReleaseLatencies (gSettings g)) cohort)"

definition dropLenderRelease :: "lenderKey \<Rightarrow> borrowGovernor \<Rightarrow> borrowGovernor" where
  "dropLenderRelease k g = g\<lparr>gLenderRel := mdel k (gLenderRel g), gLenderRestored := mdel k (gLenderRestored g)\<rparr>"

definition unitState :: "variantStates \<Rightarrow> releasedUnit \<Rightarrow> variantReplicaState option" where
  "unitState states u = map_of states (variantName (ruNamespace u) (ruVariant u))"

definition unitsLanded :: "releasedUnit list \<Rightarrow> variantStates \<Rightarrow> bool" where
  "unitsLanded units states =
     list_all (\<lambda>u. case unitState states u of None \<Rightarrow> False | Some s \<Rightarrow> \<not> max (ruTo u) (minOf s) < heldOf s) units"

definition halfLanded :: "releasedUnit list \<Rightarrow> variantStates \<Rightarrow> releasedUnit list" where
  "halfLanded units states =
     (let byModel = foldl (\<lambda>m u. let k = variantName (ruNamespace u) (ruModel u) in mput k (mget [] m k @ [u]) m) [] units
      in concat (map (\<lambda>m. let us = mget [] byModel m; landed = length (filter (\<lambda>u. unitsLanded [u] states) us)
           in if 0 < landed \<and> landed < length us then us else []) (sort (mkeys byModel))))"

definition modelOfVariant :: "modelScalingRequest list \<Rightarrow> (string, string) gomap" where
  "modelOfVariant requests =
     foldl (\<lambda>m req. foldl (\<lambda>m st. mput (variantName (mrNamespace req) (vsName st)) (mrModel req) m) m (mrStates req)) [] requests"

definition releasedModels :: "releasedUnit list \<Rightarrow> modelScalingRequest list \<Rightarrow> string list" where
  "releasedModels units requests =
     sort (remdups (List.map_filter (\<lambda>u.
       let m = (if ruModel u = [] then mget [] (modelOfVariant requests) (variantName (ruNamespace u) (ruVariant u)) else ruModel u)
       in if m = [] then None else Some (variantName (ruNamespace u) m)) units))"

record poolRead =
  prAt :: gotime
  prFresh :: bool
  prBorrowed :: int
  prWaiting :: "(string, bool) gomap"

definition poolReads :: "sharedPoolChunk list \<Rightarrow> (string, poolRead) gomap" where
  "poolReads chunks =
     foldl (\<lambda>m ch. mput (chunk_key ch) \<lparr>prAt = readTime ch, prFresh = (\<not> chStale ch), prBorrowed = chBorrowed ch,
       prWaiting = foldl (\<lambda>w l. mput (lnQueue l) (mget False w (lnQueue l) \<or> lnWaiting l) w) [] (chLenders ch)\<rparr> m) [] chunks"

definition landRelease :: "modelScalingRequest list \<Rightarrow> variantStates \<Rightarrow> gotime \<Rightarrow> lenderKey \<Rightarrow> lenderRelease \<Rightarrow> borrowGovernor \<Rightarrow>
    lenderRelease \<times> borrowGovernor" where
  "landRelease requests states now k e g =
     (if lrLandedAt e = None \<and> lrUnits e \<noteq> [] \<and> unitsLanded (lrUnits e) states
      then (e\<lparr>lrLandedAt := Some now\<rparr>, foldl (\<lambda>g m. markBackoff m [lkCohort k] now True g) g (releasedModels (lrUnits e) requests))
      else (e, g))"

text \<open>What a fresh read says of a release: \<open>None\<close> when its lender waits for nothing more or Kueue took it in.\<close>

definition readRelease :: "poolRead \<Rightarrow> lenderKey \<Rightarrow> lenderRelease \<Rightarrow> lenderRelease option" where
  "readRelease r k e =
     (if \<not> mget False (prWaiting r) (lkLender k) then None
      else if \<not> lrTaken e \<and> 0 < lrGPUs e \<and> prBorrowed r \<le> lrBorrowedBefore e - lrGPUs e then None
      else if \<not> lrTaken e \<and> (case lrLandedAt e of None \<Rightarrow> False | Some t \<Rightarrow> t + kueueSchedulingInterval < prAt r)
        then Some (e\<lparr>lrTaken := True, lrUnits := []\<rparr>)
      else Some e)"

text \<open>A release past its timeout; the models left half lowered.\<close>

definition ageRelease :: "borrowGovernor \<Rightarrow> modelScalingRequest list \<Rightarrow> variantStates \<Rightarrow> gotime \<Rightarrow> lenderKey \<Rightarrow> lenderRelease \<Rightarrow>
    lenderRelease option \<times> string list" where
  "ageRelease g requests states now k e =
     (let age = time_sub now (lrReleasedAt e); timeout = lenderTimeout g (lkCohort k) in
      if lrTaken e then (if 2 * timeout < age then None else Some e, [])
      else if age \<le> timeout then (Some e, [])
      else if lrTimedOut e \<and> unitsLanded (lrUnits e) states then (None, [])
      else if lrTimedOut e \<and> 2 * timeout < age then (None, releasedModels (lrUnits e) requests)
      else if \<not> lrTimedOut e then
        (let half = halfLanded (lrUnits e) states in
         if half \<noteq> [] then (Some (e\<lparr>lrUnits := half, lrTimedOut := True\<rparr>), []) else (None, []))
      else (Some e, []))"

definition restoredUnits :: "modelScalingRequest list \<Rightarrow> variantStates \<Rightarrow> releasedUnit list \<Rightarrow> releasedUnit list" where
  "restoredUnits requests states units =
     filter (\<lambda>u. \<not> (unitState states u = None \<and> ruNamespace u \<in> set (map mrNamespace requests))) units"

definition observeRelease :: "(string, poolRead) gomap \<Rightarrow> modelScalingRequest list \<Rightarrow> variantStates \<Rightarrow> gotime \<Rightarrow> borrowGovernor \<Rightarrow>
    lenderKey \<times> lenderRelease \<Rightarrow> borrowGovernor" where
  "observeRelease reads requests states now g ke =
     (let (k, e) = ke;
          e = (if now < lrReleasedAt e then e\<lparr>lrReleasedAt := now\<rparr> else e);
          restored = mget False (gLenderRestored g) k;
          e = (if restored then e\<lparr>lrUnits := restoredUnits requests states (lrUnits e)\<rparr> else e)
      in if restored \<and> lrUnits e = [] \<and> \<not> lrTaken e then dropLenderRelease k g
         else let (e, g) = landRelease requests states now k e g;
                  read = (case map_of reads (flavorKey k) of Some r \<Rightarrow> if prFresh r then readRelease r k e else Some e | None \<Rightarrow> Some e)
              in case read of None \<Rightarrow> dropLenderRelease k g
                 | Some e \<Rightarrow>
                     (let (kept, half) = ageRelease g requests states now k e; g = g\<lparr>gHalfLowered := gHalfLowered g @ half\<rparr>
                      in case kept of None \<Rightarrow> dropLenderRelease k g | Some e \<Rightarrow> g\<lparr>gLenderRel := mput k e (gLenderRel g)\<rparr>))"

definition observeLenderReleases :: "sharedPoolChunk list \<Rightarrow> modelScalingRequest list \<Rightarrow> variantStates \<Rightarrow> gotime \<Rightarrow> borrowGovernor \<Rightarrow> borrowGovernor" where
  "observeLenderReleases chunks requests states now g =
     foldl (observeRelease (poolReads chunks) requests states now) (g\<lparr>gHalfLowered := []\<rparr>) (gLenderRel g)"

subsection \<open>Observe\<close>

definition landedPins :: "variantStates \<Rightarrow> borrowGovernor \<Rightarrow> string list" where
  "landedPins states g =
     map fst (filter (\<lambda>(k, to). case map_of states k of None \<Rightarrow> True | Some s \<Rightarrow> heldOf s \<le> to) (gTimeoutHeld g))"

definition dropPins :: "string list \<Rightarrow> borrowGovernor \<Rightarrow> borrowGovernor" where
  "dropPins ks g =
     g\<lparr>gTimeoutHeld := filter (\<lambda>(k, _). k \<notin> set ks) (gTimeoutHeld g), gGatedPins := filter (\<lambda>(k, _). k \<notin> set ks) (gGatedPins g)\<rparr>"

definition observeStates :: "borrowCycle \<Rightarrow> variantStates \<Rightarrow> borrowGovernor \<Rightarrow> borrowGovernor" where
  "observeStates c states g =
     (let g = pruneClocks (bcNow c) (g\<lparr>gIdleSince := 0, gPreemptUnknown := bcPreemptionUnknown c\<rparr>);
          g = g\<lparr>gHeld := List.map_filter (\<lambda>(k, s). if 0 < vsUnplaced s then Some (k, True) else None) states\<rparr>;
          g = dropPins (landedPins states g) g
      in observeNoHole c states (observePast c g))"

definition observeReads :: "borrowCycle \<Rightarrow> sharedPoolChunk list \<Rightarrow> borrowGovernor \<Rightarrow> borrowGovernor" where
  "observeReads c chunks g =
     (let raw = rawOf (gRawWaiting g) chunks;
          g = (foldl (observeChunk (bcNow c)) g chunks)\<lparr>gRawWaiting := raw\<rparr>;
          seen = concat (map (\<lambda>ch. map (chunkLender ch) (chLenders ch)) chunks);
          gone = filter (\<lambda>k. map_of (listedPools chunks) (flavorKey k) = None \<and> \<not> list_ex chStale chunks) (mkeys (gLenderRel g))
      in foldl (\<lambda>g k. dropLenderRelease k g)
           (g\<lparr>gWatches := filter (\<lambda>(k, _). \<not> (k \<notin> set seen \<and> knownPool chunks (flavorKey k))) (gWatches g)\<rparr>) gone)"

definition Observe_governor :: "borrowCycle \<Rightarrow> borrowGovernor \<Rightarrow> borrowGovernor" where
  "Observe_governor c g =
     (let states = indexStates (bcRequests c); chunks = fst (mergeSharedPools (bcConstraints c));
          g = observeReads c chunks (observeStates c states g)
      in (observeLenderReleases chunks (bcRequests c) states (bcNow c) g)\<lparr>gStarted := True\<rparr>)"

subsection \<open>The persisted ledger\<close>

definition BorrowLedgerVersion :: int where
  "BorrowLedgerVersion = 1"

definition maxLedgerItems :: nat where
  "maxLedgerItems = 4096"

definition maxLedgerUnits :: nat where
  "maxLedgerUnits = 64"

definition maxLedgerGPUs :: int where
  "maxLedgerGPUs = 1000000"

definition truncateTo :: "duration \<Rightarrow> gotime \<Rightarrow> gotime" where
  "truncateTo d t = t - t mod d"

definition upToMinute :: "gotime \<Rightarrow> gotime" where
  "upToMinute until = (let r = truncateTo minute until in if r < until then r + minute else r)"

definition persistClocks :: "(string, gotime) gomap \<Rightarrow> (string, gotime) gomap" where
  "persistClocks m = map (\<lambda>(k, until). (k, upToMinute until)) m"

definition persistBackoff :: "backoffEntry \<Rightarrow> backoffEntry" where
  "persistBackoff e = e\<lparr>boUntil := upToMinute (boUntil e), boLastAt := truncateTo second (boLastAt e)\<rparr>"

definition persistLenderReleases :: "borrowGovernor \<Rightarrow> lenderRelease list" where
  "persistLenderReleases g = stable_sort (\<lambda>a b. lenderKeyLess (lrKey a) (lrKey b)) (map snd (gLenderRel g))"

definition ledgerLocked :: "borrowGovernor \<Rightarrow> borrowLedger" where
  "ledgerLocked g =
     (let rels = persistLenderReleases g in
      \<lparr>blVersion = (if rels = [] then 0 else BorrowLedgerVersion),
       blCohortCooldown = persistClocks (gCohortCooldown g), blModelCooldown = persistClocks (gModelCooldown g),
       blTimeoutHeld = gTimeoutHeld g, blIdleSince = (if gIdleSince g = 0 then None else Some (gIdleSince g)),
       blBackoff = map (\<lambda>(k, e). (k, persistBackoff e)) (gBackoff g),
       blNoHole = filter (\<lambda>(_, h). \<not> (nhReplicas h \<le> 0 \<or> nhSince h = 0)) (gNoHole g), blLenderReleases = rels\<rparr>)"

definition Ledger :: "borrowGovernor \<Rightarrow> borrowLedger" where
  "Ledger g = ledgerLocked g"

definition boundedKeys :: "(string, 'v) gomap \<Rightarrow> string list \<times> nat" where
  "boundedKeys m = (let keys = sort (mkeys m) in (take maxLedgerItems keys, length keys - maxLedgerItems))"

definition restoreClocks :: "(string, gotime) gomap \<Rightarrow> (string, gotime) gomap \<Rightarrow> (string, gotime) gomap \<times> nat" where
  "restoreClocks dst src =
     (let (keys, dropped) = boundedKeys src in
      (foldl (\<lambda>dst k. let until = mget 0 src k in
         if map_of dst k = None \<and> k \<noteq> [] \<and> until \<noteq> 0 then mput k until dst else dst) dst keys, dropped))"

definition restoreTimeoutHeld :: "(string, int) gomap \<Rightarrow> borrowGovernor \<Rightarrow> borrowGovernor \<times> nat" where
  "restoreTimeoutHeld src g =
     (let (keys, dropped) = boundedKeys src in
      foldl (\<lambda>(g, dropped) k. let to = mget 0 src k in
        if maxLedgerReplicas < to then (g, dropped + 1)
        else if map_of (gTimeoutHeld g) k = None \<and> 0 \<le> to \<and> CHR ''/'' \<in> set k then (g\<lparr>gTimeoutHeld := mput k to (gTimeoutHeld g)\<rparr>, dropped)
        else (g, dropped)) (g, dropped) keys)"

definition restoreBackoff :: "(string, backoffEntry) gomap \<Rightarrow> borrowGovernor \<Rightarrow> borrowGovernor \<times> nat" where
  "restoreBackoff src g =
     (let (keys, dropped) = boundedKeys src in
      (foldl (\<lambda>g k. case map_of src k of None \<Rightarrow> g | Some e \<Rightarrow>
         if map_of (gBackoff g) k = None \<and> CHR ''@'' \<in> set k \<and> boUntil e \<noteq> 0 \<and> 0 \<le> boLevel e \<and> boLevel e \<le> maxBackoffLevel
         then g\<lparr>gBackoff := mput k e (gBackoff g)\<rparr> else g) g keys, dropped))"

definition restoreNoHole :: "(string, noHoleReplicas) gomap \<Rightarrow> borrowGovernor \<Rightarrow> borrowGovernor \<times> nat" where
  "restoreNoHole src g =
     (let (keys, dropped) = boundedKeys src in
      foldl (\<lambda>(g, dropped) k. case map_of src k of None \<Rightarrow> (g, dropped) | Some h \<Rightarrow>
        if maxLedgerReplicas < nhReplicas h then (g, dropped + 1)
        else if map_of (gNoHole g) k = None \<and> CHR ''/'' \<in> set k \<and> 0 < nhReplicas h \<and> 0 \<le> nhGPUs h \<and> nhSince h \<noteq> 0
          then (g\<lparr>gNoHole := mput k h (gNoHole g), gNoHoleRestored := mput k True (gNoHoleRestored g)\<rparr>, dropped)
        else (g, dropped)) (g, dropped) keys)"

definition badUnit :: "releasedUnit \<Rightarrow> bool" where
  "badUnit u \<longleftrightarrow> ruNamespace u = [] \<or> ruVariant u = [] \<or> ruTo u < 0 \<or> maxLedgerReplicas < ruTo u"

definition badRelease :: "lenderRelease \<Rightarrow> bool" where
  "badRelease e \<longleftrightarrow>
     lkCohort (lrKey e) = [] \<or> lkLender (lrKey e) = [] \<or> lkFlavor (lrKey e) = [] \<or> lkResource (lrKey e) = [] \<or> lrReleasedAt e = 0 \<or>
     lrUnits e = [] \<and> \<not> lrTaken e \<or> maxLedgerUnits < length (lrUnits e) \<or>
     lrGPUs e < 0 \<or> maxLedgerGPUs < lrGPUs e \<or> lrBorrowedBefore e < 0 \<or> maxLedgerGPUs < lrBorrowedBefore e \<or> list_ex badUnit (lrUnits e)"

definition restoreLenderReleases :: "lenderRelease list \<Rightarrow> borrowGovernor \<Rightarrow> borrowGovernor \<times> nat" where
  "restoreLenderReleases entries g =
     (let (g, _, dropped) = foldl (\<lambda>(g, seen, dropped) e. let k = lrKey e in
        if badRelease e \<or> k \<in> set seen then (g, seen, dropped + 1)
        else if map_of (gLenderRel g) k \<noteq> None then (g, k # seen, dropped)
        else (g\<lparr>gLenderRel := mput k e (gLenderRel g), gLenderRestored := mput k True (gLenderRestored g)\<rparr>, k # seen, dropped))
        (g, [], length entries - maxLedgerItems) (take maxLedgerItems entries)
      in (g, dropped))"

definition Restore :: "borrowLedger \<Rightarrow> borrowGovernor \<Rightarrow> nat \<times> borrowGovernor" where
  "Restore l g =
     (let (cohorts, d1) = restoreClocks (gCohortCooldown g) (blCohortCooldown l);
          (models, d2) = restoreClocks (gModelCooldown g) (blModelCooldown l);
          (g, d3) = restoreTimeoutHeld (blTimeoutHeld l) (g\<lparr>gCohortCooldown := cohorts, gModelCooldown := models\<rparr>);
          (g, d4) = restoreBackoff (blBackoff l) g;
          (g, d5) = restoreNoHole (blNoHole l) g;
          (g, d6) = restoreLenderReleases (blLenderReleases l) g;
          g = (case blIdleSince l of None \<Rightarrow> g | Some t \<Rightarrow> if gIdleSince g = 0 \<and> \<not> gStarted g then g\<lparr>gIdleSince := t\<rparr> else g)
      in (d1 + d2 + d3 + d4 + d5 + d6, g))"

datatype ledgerError = LedgerNotJSON | LedgerVersion int

definition emptyLedger :: borrowLedger where
  "emptyLedger = \<lparr>blVersion = 0, blCohortCooldown = [], blModelCooldown = [], blTimeoutHeld = [], blIdleSince = None, blBackoff = [],
     blNoHole = [], blLenderReleases = []\<rparr>"

definition UnmarshalBorrowLedger :: "(string \<Rightarrow> borrowLedger option) \<Rightarrow> string \<Rightarrow> ledgerError + borrowLedger" where
  "UnmarshalBorrowLedger decode s =
     (if s = [] then Inr emptyLedger
      else case decode s of None \<Rightarrow> Inl LedgerNotJSON
      | Some l \<Rightarrow> if blVersion l < 0 \<or> BorrowLedgerVersion < blVersion l then Inl (LedgerVersion (blVersion l)) else Inr l)"

end
