(* ===== verification/GovernorRelease.thy ===== *)
theory GovernorRelease
  imports Governor
begin

text \<open>
  The release half of the borrow governor (\<open>borrow_governor.go\<close>): the replicas unplaced past the
  placement timeout that are released, the pins that keep a lowered target in force until it has landed,
  and the cycles that count no borrowing. The decision which models give capacity back to a waiting
  lender is not part of it; the pins of such a release are (\<open>borrow_lender_release.go\<close>).
\<close>

subsection \<open>Releases\<close>

datatype releaseCause = ReleasePlacementTimeout | ReleaseKueueGate | ReleaseLenderWaiting

record borrowRelease =
  brNamespace :: string
  brModel :: string
  brVariant :: string
  brFrom :: int
  brTo :: int
  brCause :: releaseCause
  brGuaranteed :: int
  brAtGate :: bool

type_synonym heldPast = "(string, (string, int) gomap) gomap"

text \<open>What a release in progress reads and writes: the governor and the two figures still to release.\<close>

record releaseState =
  rsGovernor :: borrowGovernor
  rsHeldPast :: heldPast
  rsUncounted :: heldPast

definition lenderPinned :: "borrowGovernor \<Rightarrow> string \<Rightarrow> bool" where
  "lenderPinned g key = list_ex (\<lambda>(_, e). list_ex (\<lambda>u. variantName (ruNamespace u) (ruVariant u) = key) (lrUnits e)) (gLenderRel g)"

definition modelPinned :: "borrowGovernor \<Rightarrow> modelScalingRequest \<Rightarrow> bool" where
  "modelPinned g req =
     list_ex (\<lambda>st. let k = variantName (mrNamespace req) (vsName st) in map_of (gTimeoutHeld g) k \<noteq> None \<or> lenderPinned g k) (mrStates req)"

definition pinUnit :: "modelScalingRequest \<Rightarrow> unitMap \<Rightarrow> variantStates \<Rightarrow> int \<Rightarrow> borrowGovernor \<Rightarrow> borrowGovernor \<times> borrowRelease list" where
  "pinUnit req unit states guaranteed g =
     (let (g, out, _) = foldl (\<lambda>(g, out, guaranteed) v.
        let k = variantName (mrNamespace req) v; s = mget zeroState states k; to = vsCurrent s - mget 0 unit v
        in (g\<lparr>gTimeoutHeld := mput k to (gTimeoutHeld g)\<rparr>,
            out @ [\<lparr>brNamespace = mrNamespace req, brModel = mrModel req, brVariant = v, brFrom = vsCurrent s, brTo = to,
                    brCause = ReleasePlacementTimeout, brGuaranteed = guaranteed, brAtGate = False\<rparr>], 0))
        (g, [], guaranteed) (sort (mkeys unit))
      in (g, out))"

text \<open>
  \<open>borrowedRelease\<close>: the governor, what is left of the figures, and the releases; \<open>None\<close> when
  there is none. \<open>since\<close> is since when the namespace has held past its figure.
\<close>

definition borrowedRelease :: "gotime \<Rightarrow> modelScalingRequest \<Rightarrow> variantReplicaState \<Rightarrow> variantStates \<Rightarrow> heldPast \<Rightarrow> (string, gotime) gomap \<Rightarrow>
    duration \<Rightarrow> borrowGovernor \<Rightarrow> (borrowGovernor \<times> heldPast \<times> borrowRelease list) option" where
  "borrowedRelease now req st states held since timeout g =
     (case FindKey (mget [] held (mrNamespace req)) (accOf req (vsName st)) of None \<Rightarrow> None
      | Some typeKey \<Rightarrow>
         (let expired = expiredUnplaced st (map_of since (variantName (mrNamespace req) typeKey)) timeout now;
              borrowed = mget 0 (mget [] held (mrNamespace req)) typeKey;
              gpr = max (vsGPUs st) 1
          in if expired = 0 then None
             else if borrowed < gpr then None
             else let k = min (min expired (vsUnplaced st)) (min (godiv borrowed gpr) (vsCurrent st - minOf st))
                  in case releaseUnit req (vsName st) k borrowed states of None \<Rightarrow> None
                     | Some (unit, freed) \<Rightarrow>
                        if \<not> unitFits unit (mrNamespace req) states then None
                        else let held = mput (mrNamespace req) (mput typeKey (borrowed - freed) (mget [] held (mrNamespace req))) held;
                                 (g, out) = pinUnit req unit states (max 0 (freed - borrowed)) g
                             in Some (g, held, out)))"

definition gatedRelease :: "gotime \<Rightarrow> modelScalingRequest \<Rightarrow> variantReplicaState \<Rightarrow> variantStates \<Rightarrow> heldPast \<Rightarrow> borrowGovernor \<Rightarrow>
    (borrowGovernor \<times> heldPast \<times> borrowRelease list) option" where
  "gatedRelease now req st states uncounted g =
     (if vsGatedAt st = [] \<or> mget [] uncounted (mrNamespace req) = [] then None
      else let gated = st\<lparr>vsUnplacedAt := vsGatedAt st, vsUnplaced := int (length (vsGatedAt st))\<rparr>
           in case borrowedRelease now req gated states uncounted (gUncountedSince g) (gsPlacementTimeout (gSettings g)) g of None \<Rightarrow> None
              | Some (g, uncounted, out) \<Rightarrow>
                  Some (g\<lparr>gGatedPins := foldl (\<lambda>m r. mput (variantName (mrNamespace req) (brVariant r)) True m) (gGatedPins g) out\<rparr>, uncounted,
                    map (\<lambda>r. r\<lparr>brAtGate := True, brCause := ReleaseKueueGate, brGuaranteed := 0\<rparr>) out))"

definition noHoleRelease :: "gotime \<Rightarrow> modelScalingRequest \<Rightarrow> variantReplicaState \<Rightarrow> variantStates \<Rightarrow> duration \<Rightarrow> borrowGovernor \<Rightarrow>
    (borrowGovernor \<times> borrowRelease list) option" where
  "noHoleRelease now req st states timeout g =
     (let key = variantName (mrNamespace req) (vsName st); h = mget \<lparr>nhReplicas = 0, nhGPUs = 0, nhSince = 0\<rparr> (gNoHole g) key in
      if nhReplicas h \<le> 0 then None
      else let expired = expiredUnplaced st (Some (nhSince h)) timeout now;
               k = min (min expired (vsUnplaced st)) (min (nhReplicas h) (vsCurrent st - minOf st))
           in if k \<le> 0 then None
              else case releaseUnit req (vsName st) k (- 1) states of None \<Rightarrow> None
                | Some (unit, freed) \<Rightarrow>
                   if \<not> unitFits unit (mrNamespace req) states then None
                   else Some (pinUnit req unit states freed
                     (g\<lparr>gNoHole := mput key (h\<lparr>nhReplicas := nhReplicas h - mget 0 unit (vsName st)\<rparr>) (gNoHole g)\<rparr>)))"

type_synonym releaseRule =
  "modelScalingRequest \<Rightarrow> variantReplicaState \<Rightarrow> duration \<Rightarrow> releaseState \<Rightarrow> (releaseState \<times> borrowRelease list) option"

fun releaseVariants :: "borrowCycle \<Rightarrow> releaseRule \<Rightarrow> modelScalingRequest \<Rightarrow> variantReplicaState list \<Rightarrow> releaseState \<Rightarrow> releaseState \<times> borrowRelease list" where
  "releaseVariants c release req [] s = (s, [])"
| "releaseVariants c release req (st # sts) s =
     (if vsUnplaced st \<le> 0 then releaseVariants c release req sts s
      else let placement = gsPlacementTimeout (gSettings (rsGovernor s));
               timeout = (if mget False (bcScaleUpPending c) (variantName (mrNamespace req) (vsName st)) then placement * 3 else placement)
           in case release req st timeout s of None \<Rightarrow> releaseVariants c release req sts s
              | Some (s, rel) \<Rightarrow>
                  (if rel = [] \<or> brCause (hd rel) = ReleaseKueueGate then (s, rel)
                   else (s\<lparr>rsGovernor := markBackoffAfter (variantName (mrNamespace req) (mrModel req))
                           (namespaceCohorts (bcConstraints c) (mrNamespace req)) (bcNow c) False timeout (rsGovernor s)\<rparr>, rel)))"

definition eachUnplaced :: "borrowCycle \<Rightarrow> releaseRule \<Rightarrow> releaseState \<Rightarrow> releaseState \<times> borrowRelease list" where
  "eachUnplaced c release s =
     foldl (\<lambda>(s, out) req. if modelPinned (rsGovernor s) req then (s, out)
       else let (s, rel) = releaseVariants c release req (mrStates req) s in (s, out @ rel)) (s, []) (bcRequests c)"

definition timeoutRule :: "gotime \<Rightarrow> variantStates \<Rightarrow> releaseRule" where
  "timeoutRule now states req st timeout s =
     (case borrowedRelease now req st states (rsHeldPast s) (gPastSince (rsGovernor s)) timeout (rsGovernor s) of
        Some (g, held, out) \<Rightarrow> Some (s\<lparr>rsGovernor := g, rsHeldPast := held\<rparr>, out)
      | None \<Rightarrow>
         (case gatedRelease now req st states (rsUncounted s) (rsGovernor s) of
            Some (g, held, out) \<Rightarrow> Some (s\<lparr>rsGovernor := g, rsUncounted := held\<rparr>, out)
          | None \<Rightarrow>
             (case noHoleRelease now req st states timeout (rsGovernor s) of
                Some (g, out) \<Rightarrow> Some (s\<lparr>rsGovernor := g\<rparr>, out)
              | None \<Rightarrow> None)))"

definition timeoutReleases :: "borrowCycle \<Rightarrow> variantStates \<Rightarrow> heldPast \<Rightarrow> heldPast \<Rightarrow> borrowGovernor \<Rightarrow> borrowGovernor \<times> borrowRelease list" where
  "timeoutReleases c states held uncounted g =
     (let (s, out) = eachUnplaced c (timeoutRule (bcNow c) states) \<lparr>rsGovernor = g, rsHeldPast = held, rsUncounted = uncounted\<rparr>
      in (rsGovernor s, out))"

subsection \<open>Pins\<close>

datatype saturationAction = ActionScaleUp | ActionScaleDown | ActionNoChange

record variantDecision =
  gdNamespace :: string
  gdVariant :: string
  gdCurrent :: int
  gdTarget :: int
  gdGPUsPerReplica :: int
  gdGPUsAllocated :: int
  gdAction :: saturationAction
  gdReason :: string

definition lowerDecision :: "int \<Rightarrow> string \<Rightarrow> variantDecision \<Rightarrow> variantDecision" where
  "lowerDecision to reason d =
     (if gdTarget d \<le> to then d
      else d\<lparr>gdTarget := to, gdGPUsAllocated := to * max (gdGPUsPerReplica d) 1,
             gdAction := (if gdCurrent d \<le> to then ActionNoChange else ActionScaleDown), gdReason := ''V2 ('' @ reason @ '')''\<rparr>)"

text \<open>The last decision of a variant is the one the index holds.\<close>

definition byVariant :: "variantDecision list \<Rightarrow> (string, nat) gomap" where
  "byVariant decisions = foldl (\<lambda>m i. mput (variantName (gdNamespace (decisions ! i)) (gdVariant (decisions ! i))) i m) [] [0..<length decisions]"

definition lowerTo :: "(string, nat) gomap \<Rightarrow> string \<Rightarrow> int \<Rightarrow> string \<Rightarrow> variantDecision list \<Rightarrow> variantDecision list" where
  "lowerTo index key to reason decisions =
     (case map_of index key of None \<Rightarrow> decisions | Some i \<Rightarrow> decisions[i := lowerDecision to reason (decisions ! i)])"

definition applyLenderPins :: "(string, nat) gomap \<Rightarrow> variantStates \<Rightarrow> borrowGovernor \<Rightarrow> variantDecision list \<Rightarrow> variantDecision list" where
  "applyLenderPins index states g decisions =
     foldl (\<lambda>ds (_, e). foldl (\<lambda>ds u. let k = variantName (ruNamespace u) (ruVariant u);
         to = (case map_of states k of Some s \<Rightarrow> max (ruTo u) (minOf s) | None \<Rightarrow> ruTo u)
       in lowerTo index k to ''released-to-lender'' ds) ds (lrUnits e)) decisions (gLenderRel g)"

definition applyPins :: "variantStates \<Rightarrow> borrowGovernor \<Rightarrow> variantDecision list \<Rightarrow> variantDecision list" where
  "applyPins states g decisions =
     (let index = byVariant decisions in
      applyLenderPins index states g (foldl (\<lambda>ds (k, to). lowerTo index k to ''borrow-unplaced'' ds) decisions (gTimeoutHeld g)))"

subsection \<open>Cycles that count no borrowing\<close>

definition stillHeld :: "variantStates \<Rightarrow> string \<Rightarrow> int \<Rightarrow> bool" where
  "stillHeld states k to = (case map_of states k of None \<Rightarrow> False | Some s \<Rightarrow> to < heldOf s)"

definition idleReset :: "variantStates \<Rightarrow> borrowGovernor \<Rightarrow> borrowGovernor" where
  "idleReset states g =
     (dropPins (map fst (filter (\<lambda>(k, to). \<not> (mget False (gGatedPins g) k \<and> stillHeld states k to)) (gTimeoutHeld g))) g)
       \<lparr>gWatches := [], gRawWaiting := [], gPastSince := [], gNoHole := [], gNoHoleRestored := [], gLenderRel := [], gLenderRestored := [],
        gStarted := False\<rparr>"

definition landedHolds :: "variantStates \<Rightarrow> borrowGovernor \<Rightarrow> borrowGovernor" where
  "landedHolds states g =
     dropPins (map fst (filter (\<lambda>(k, to). case map_of states k of None \<Rightarrow> False | Some s \<Rightarrow> heldOf s \<le> to) (gTimeoutHeld g))) g"

definition landedLenders :: "variantStates \<Rightarrow> gotime \<Rightarrow> borrowGovernor \<Rightarrow> borrowGovernor" where
  "landedLenders states now g =
     foldl (\<lambda>g (k, e). if unitsLanded (lrUnits e) states \<or> lenderTimeout g (lkCohort k) < time_sub now (lrReleasedAt e)
       then dropLenderRelease k g else g) g (gLenderRel g)"

definition HoldReleases :: "gotime \<Rightarrow> modelScalingRequest list \<Rightarrow> variantDecision list \<Rightarrow> borrowGovernor \<Rightarrow> borrowGovernor \<times> variantDecision list" where
  "HoldReleases now requests decisions g =
     (let g = (if gIdleSince g = 0 \<or> now < gIdleSince g then g\<lparr>gIdleSince := now\<rparr> else g);
          states = indexStates requests;
          idle = gsCooldown (gSettings g) + gsReleaseActuation (gSettings g) < time_sub now (gIdleSince g);
          g = (if idle then idleReset states g else g)
      in if idle \<and> gTimeoutHeld g = [] then (g, decisions)
         else let g = landedLenders states now (landedHolds states g) in (g, applyPins states g decisions))"

definition GatedReleases :: "borrowCycle \<Rightarrow> variantDecision list \<Rightarrow> borrowGovernor \<Rightarrow> borrowGovernor \<times> variantDecision list \<times> borrowRelease list" where
  "GatedReleases c decisions g =
     (let g = g\<lparr>gGatedPins := filter (\<lambda>(k, _). map_of (gTimeoutHeld g) k \<noteq> None) (gGatedPins g)\<rparr>;
          uncounted = uncountedHeldPast (bcConstraints c);
          g = g\<lparr>gUncountedSince := trackPast (gUncountedSince g) uncounted (bcNow c)\<rparr>;
          states = indexStates (bcRequests c);
          (s, out) = eachUnplaced c (\<lambda>req st _ s.
            case gatedRelease (bcNow c) req st states (rsUncounted s) (rsGovernor s) of None \<Rightarrow> None
            | Some (g, held, rel) \<Rightarrow> Some (s\<lparr>rsGovernor := g, rsUncounted := held\<rparr>, rel))
            \<lparr>rsGovernor = g, rsHeldPast = [], rsUncounted = uncounted\<rparr>
      in (rsGovernor s, applyPins states (rsGovernor s) decisions, out))"

end
