(* ===== verification/GovernorClocks.thy ===== *)
theory GovernorClocks
  imports GovernorRelease
begin

text \<open>
  The cooldowns of the borrow governor over a run of its operations, restarts included: none is
  shortened, and none lasts longer than the settings allow.
\<close>

subsection \<open>One entry\<close>

definition backoffCap :: "borrowSettings \<Rightarrow> duration" where
  "backoffCap s = min (gsCooldown s * 4) (max maxBackoff (gsCooldown s))"

text \<open>The longest cooldown is a \<open>Duration\<close>, with a minute to spare.\<close>

definition settings_ok :: "borrowSettings \<Rightarrow> bool" where
  "settings_ok s \<longleftrightarrow> 0 \<le> gsCooldown s \<and> backoffCap s + minute \<le> max_int"

definition entry_ok :: "borrowSettings \<Rightarrow> gotime \<Rightarrow> backoffEntry \<Rightarrow> bool" where
  "entry_ok s T e \<longleftrightarrow> 0 \<le> boLevel e \<and> boLevel e \<le> maxBackoffLevel \<and> boUntil e \<le> T + backoffCap s"

lemma backoffFor_cap: "backoffFor g maxBackoffLevel = backoffCap (gSettings g)"
  by (simp add: backoffFor_def backoffCap_def maxBackoffLevel_def)

lemma backoffFor_le:
  assumes "0 \<le> gsCooldown (gSettings g)" and "level \<le> maxBackoffLevel"
  shows "backoffFor g level \<le> backoffCap (gSettings g)"
proof -
  have "(2 :: int) ^ nat level \<le> 2 ^ nat maxBackoffLevel" using assms(2) by (intro power_increasing) auto
  then have "gsCooldown (gSettings g) * 2 ^ nat level \<le> gsCooldown (gSettings g) * 2 ^ nat maxBackoffLevel"
    using assms(1) by (rule mult_left_mono)
  then show ?thesis unfolding backoffFor_cap [symmetric] by (simp add: backoffFor_def min_le_iff_disj)
qed

lemma backoffFor_nonneg: "0 \<le> gsCooldown (gSettings g) \<Longrightarrow> 0 \<le> backoffFor g level"
  by (simp add: backoffFor_def maxBackoff_def minute_def second_def)

lemma backoffCap_bounds: "0 \<le> gsCooldown s \<Longrightarrow> gsCooldown s \<le> backoffCap s \<and> 0 \<le> backoffCap s"
  by (simp add: backoffCap_def maxBackoff_def minute_def second_def)

text \<open>A mark keeps an entry within its bounds, and never moves its end to an earlier time.\<close>

lemma markEntry_new:
  "0 \<le> gsCooldown (gSettings g) \<Longrightarrow> t \<le> T \<Longrightarrow> entry_ok (gSettings g) T (markEntry g t p timeout None)"
  using backoffFor_le [of g 0] by (simp add: markEntry_def entry_ok_def maxBackoffLevel_def)

lemma markEntry_old:
  assumes "0 \<le> gsCooldown (gSettings g)" and "t \<le> T" and "entry_ok (gSettings g) T e"
  shows "entry_ok (gSettings g) T (markEntry g t p timeout (Some e)) \<and> boUntil e \<le> boUntil (markEntry g t p timeout (Some e))"
proof (cases "time_sub t (boLastAt e) < sameEvent \<or> \<not> p \<and> boPreempted e \<and> t < boUntil e")
  case True
  then show ?thesis using assms by (auto simp: markEntry_def)
next
  case False
  show ?thesis
  proof (cases "\<not> p \<and> boPreempted e \<and> t < boLastAt e + (timeout + gsPlacementTimeout (gSettings g))")
    case True
    then show ?thesis
      using False assms backoffFor_nonneg [of g "boLevel e"] backoffFor_le [of g "boLevel e"] by (auto simp: markEntry_def entry_ok_def)
  next
    case notLate: False
    define level where "level = (if t < boUntil e + gsCooldown (gSettings g) then min (boLevel e + 1) maxBackoffLevel else 0)"
    have "markEntry g t p timeout (Some e) =
        \<lparr>boUntil = max (boUntil e) (t + backoffFor g level), boLevel = level, boLastAt = t, boPreempted = p\<rparr>"
      using False notLate by (auto simp: markEntry_def level_def Let_def max_def)
    moreover have "0 \<le> level" "level \<le> maxBackoffLevel" using assms(3) by (auto simp: level_def entry_ok_def maxBackoffLevel_def)
    ultimately show ?thesis using assms backoffFor_le [OF assms(1), of level] by (auto simp: entry_ok_def)
  qed
qed

subsection \<open>Maps of clocks\<close>

text \<open>Every clock of \<open>m\<close> still running at \<open>T\<close> runs in \<open>m'\<close> at least as long.\<close>

definition outlasted :: "('e \<Rightarrow> gotime) \<Rightarrow> gotime \<Rightarrow> (string, 'e) gomap \<Rightarrow> (string, 'e) gomap \<Rightarrow> bool" where
  "outlasted until T m m' \<longleftrightarrow>
     (\<forall>k e. map_of m k = Some e \<longrightarrow> T < until e \<longrightarrow> (\<exists>e'. map_of m' k = Some e' \<and> until e \<le> until e'))"

lemma outlasted_refl [simp]: "outlasted until T m m"
  by (auto simp: outlasted_def)

lemma outlasted_obtain:
  assumes "outlasted until T m m'" and "map_of m k = Some e" and "T < until e"
  obtains e' where "map_of m' k = Some e'" and "until e \<le> until e'"
  using assms unfolding outlasted_def by blast

lemma outlasted_trans:
  assumes "outlasted until T m m'" and "outlasted until T m' m''"
  shows "outlasted until T m m''"
  unfolding outlasted_def
proof (intro allI impI)
  fix k e assume e: "map_of m k = Some e" "T < until e"
  obtain e' where e': "map_of m' k = Some e'" "until e \<le> until e'" using outlasted_obtain [OF assms(1) e] .
  then have "T < until e'" using e(2) by simp
  then obtain e'' where "map_of m'' k = Some e''" "until e' \<le> until e''" using outlasted_obtain [OF assms(2) e'(1)] by blast
  then show "\<exists>e''. map_of m'' k = Some e'' \<and> until e \<le> until e''" using e'(2) by auto
qed

lemma outlasted_later:
  assumes "outlasted until T m m'" and "T \<le> T'"
  shows "outlasted until T' m m'"
  unfolding outlasted_def
proof (intro allI impI)
  fix k e assume "map_of m k = Some e" "T' < until e"
  then show "\<exists>e'. map_of m' k = Some e' \<and> until e \<le> until e'"
    using assms outlasted_obtain [OF assms(1), of k e] by force
qed

lemma outlasted_mput:
  "(\<And>e. map_of m k = Some e \<Longrightarrow> T < until e \<Longrightarrow> until e \<le> until e') \<Longrightarrow> outlasted until T m (mput k e' m)"
  by (auto simp: outlasted_def gomap_simps)

lemma map_of_mapValues: "gomap_ok m \<Longrightarrow> map_of (mapValues f m) k = Option.bind (map_of m k) f"
proof (induction m)
  case (Cons x m)
  then have "fst x \<notin> fst ` set m" "gomap_ok m" by (auto simp: gomap_ok_def mkeys_def)
  moreover have "map_of m (fst x) = None" using \<open>fst x \<notin> fst ` set m\<close> by (simp add: map_of_eq_None_iff)
  ultimately show ?case using Cons.IH by (cases x; cases "f (snd x)") (auto simp: mapValues_def map_filter_def)
qed (simp add: mapValues_def map_filter_def)

lemma mkeys_mapValues: "set (mkeys (mapValues f m)) \<subseteq> set (mkeys m)"
  by (force simp: mkeys_def mapValues_def map_filter_def)

lemma mapValues_Cons: "mapValues f (x # m) = (case f (snd x) of None \<Rightarrow> mapValues f m | Some v \<Rightarrow> (fst x, v) # mapValues f m)"
  by (cases x) (simp add: mapValues_def map_filter_def split: option.split)

lemma gomap_ok_mapValues: "gomap_ok m \<Longrightarrow> gomap_ok (mapValues f m)"
proof (induction m)
  case (Cons x m)
  then have "fst x \<notin> set (mkeys (mapValues f m))" "gomap_ok (mapValues f m)"
    using mkeys_mapValues [of f m] by (auto simp: gomap_ok_def mkeys_def)
  then show ?case by (cases "f (snd x)") (simp_all add: mapValues_Cons gomap_ok_def mkeys_def)
qed (simp add: mapValues_def map_filter_def)

lemma outlasted_mapValues:
  assumes "gomap_ok m" and "\<And>k e. map_of m k = Some e \<Longrightarrow> T < until e \<Longrightarrow> \<exists>e'. f e = Some e' \<and> until e \<le> until e'"
  shows "outlasted until T m (mapValues f m)"
  using assms by (auto simp: outlasted_def map_of_mapValues)

subsection \<open>The governor's clocks\<close>

definition clocks_ok :: "gotime \<Rightarrow> borrowGovernor \<Rightarrow> bool" where
  "clocks_ok T g \<longleftrightarrow> settings_ok (gSettings g) \<and> 0 \<le> T \<and>
     gomap_ok (gBackoff g) \<and> gomap_ok (gModelCooldown g) \<and>
     (\<forall>(k, e) \<in> set (gBackoff g). CHR ''@'' \<in> set k \<and> entry_ok (gSettings g) T e) \<and>
     (\<forall>(k, u) \<in> set (gModelCooldown g). k \<noteq> [] \<and> u \<le> T + gsCooldown (gSettings g))"

definition keepsClocks :: "gotime \<Rightarrow> borrowGovernor \<Rightarrow> borrowGovernor \<Rightarrow> bool" where
  "keepsClocks T g g' \<longleftrightarrow> clocks_ok T g' \<and> gSettings g' = gSettings g \<and>
     outlasted boUntil T (gBackoff g) (gBackoff g') \<and> outlasted id T (gModelCooldown g) (gModelCooldown g')"

lemma clocks_ok_later: "clocks_ok T g \<Longrightarrow> T \<le> T' \<Longrightarrow> clocks_ok T' g"
  by (fastforce simp: clocks_ok_def entry_ok_def)

lemma keepsClocks_trans: "keepsClocks T g g' \<Longrightarrow> keepsClocks T g' g'' \<Longrightarrow> keepsClocks T g g''"
  by (auto simp: keepsClocks_def intro: outlasted_trans)

lemma keepsClocks_same:
  "clocks_ok T g \<Longrightarrow> gBackoff g' = gBackoff g \<Longrightarrow> gModelCooldown g' = gModelCooldown g \<Longrightarrow> gSettings g' = gSettings g \<Longrightarrow> keepsClocks T g g'"
  by (simp add: keepsClocks_def clocks_ok_def)

lemma keepsClocks_foldl:
  assumes "clocks_ok T g" and "\<And>g x. x \<in> set xs \<Longrightarrow> clocks_ok T g \<Longrightarrow> keepsClocks T g (step g x)"
  shows "keepsClocks T g (foldl step g xs)"
  using assms
proof (induction xs arbitrary: g)
  case Nil
  then show ?case by (simp add: keepsClocks_same)
next
  case (Cons x xs)
  have one: "keepsClocks T g (step g x)" using Cons.prems by simp
  then have "keepsClocks T (step g x) (foldl step (step g x) xs)"
    using Cons.prems(2) by (intro Cons.IH) (auto simp: keepsClocks_def)
  with one show ?case by (auto intro: keepsClocks_trans)
qed

subsection \<open>Marks and prunes\<close>

lemma keepsClocks_backoff:
  assumes "clocks_ok T g" and "CHR ''@'' \<in> set k" and "entry_ok (gSettings g) T e'"
    and "\<And>e. map_of (gBackoff g) k = Some e \<Longrightarrow> boUntil e \<le> boUntil e'"
  shows "keepsClocks T g (g\<lparr>gBackoff := mput k e' (gBackoff g)\<rparr>)"
proof -
  have "set (mput k e' (gBackoff g)) \<subseteq> insert (k, e') (set (gBackoff g))"
    using assms(1) by (auto simp: clocks_ok_def set_mput)
  then have "\<forall>(k, e) \<in> set (mput k e' (gBackoff g)). CHR ''@'' \<in> set k \<and> entry_ok (gSettings g) T e"
    using assms(1-3) by (auto simp: clocks_ok_def)
  then show ?thesis
    using assms by (auto simp: keepsClocks_def clocks_ok_def intro!: outlasted_mput)
qed

lemma keepsClocks_model:
  assumes "clocks_ok T g" and "k \<noteq> []" and "t \<le> T"
  shows "keepsClocks T g (markModelCooldown k t g)"
proof (cases "mget 0 (gModelCooldown g) k < t + gsCooldown (gSettings g)")
  case True
  let ?m = "mput k (t + gsCooldown (gSettings g)) (gModelCooldown g)"
  have "set ?m \<subseteq> insert (k, t + gsCooldown (gSettings g)) (set (gModelCooldown g))"
    using assms(1) by (auto simp: clocks_ok_def set_mput)
  then have "\<forall>(k, u) \<in> set ?m. k \<noteq> [] \<and> u \<le> T + gsCooldown (gSettings g)"
    using assms by (auto simp: clocks_ok_def)
  moreover have "outlasted id T (gModelCooldown g) ?m"
    using True by (intro outlasted_mput) (simp add: mget_def)
  ultimately show ?thesis
    using True assms(1) by (auto simp: markModelCooldown_def keepsClocks_def clocks_ok_def Let_def)
next
  case False
  then show ?thesis using assms(1) by (simp add: markModelCooldown_def Let_def keepsClocks_same)
qed

lemma markBackoffAfter_keeps:
  assumes "clocks_ok T g" and "k \<noteq> []" and "t \<le> T"
  shows "keepsClocks T g (markBackoffAfter k cohorts t p timeout g)"
proof (cases "cohorts = []")
  case True
  then show ?thesis using keepsClocks_model [OF assms] by (simp add: markBackoffAfter_def)
next
  case False
  have "keepsClocks T g (let k = backoffKey k c in
      g\<lparr>gBackoff := mput k (markEntry g t p timeout (map_of (gBackoff g) k)) (gBackoff g)\<rparr>)" if ok: "clocks_ok T g" for g c
  proof -
    have cd: "0 \<le> gsCooldown (gSettings g)" using ok by (simp add: clocks_ok_def settings_ok_def)
    have old: "entry_ok (gSettings g) T e" if "map_of (gBackoff g) (backoffKey k c) = Some e" for e
      using ok map_of_SomeD [OF that] by (auto simp: clocks_ok_def)
    show ?thesis
      unfolding Let_def
    proof (rule keepsClocks_backoff [OF ok])
      show "CHR ''@'' \<in> set (backoffKey k c)" by (simp add: backoffKey_def)
      show "entry_ok (gSettings g) T (markEntry g t p timeout (map_of (gBackoff g) (backoffKey k c)))"
        using markEntry_new [OF cd assms(3)] markEntry_old [OF cd assms(3) old]
        by (cases "map_of (gBackoff g) (backoffKey k c)") simp_all
    qed (use markEntry_old [OF cd assms(3) old] in simp)
  qed
  then have "keepsClocks T g (foldl (\<lambda>g c. let k = backoffKey k c in
      g\<lparr>gBackoff := mput k (markEntry g t p timeout (map_of (gBackoff g) k)) (gBackoff g)\<rparr>) g cohorts)"
    by (intro keepsClocks_foldl [OF assms(1)])
  then show ?thesis unfolding markBackoffAfter_def if_not_P [OF False] .
qed

lemma markBackoff_keeps:
  "clocks_ok T g \<Longrightarrow> k \<noteq> [] \<Longrightarrow> t \<le> T \<Longrightarrow> keepsClocks T g (markBackoff k cohorts t p g)"
  by (simp add: markBackoff_def markBackoffAfter_keeps)

text \<open>Pruning at \<open>now\<close>: what \<open>f\<close> keeps of the maps, when their clocks may run a little longer than the bound.\<close>

lemma pruneEntry_cases:
  assumes "0 \<le> gsCooldown (gSettings g)" and "0 \<le> boLevel e" "boLevel e \<le> maxBackoffLevel" and "pruneEntry g now e = Some e'"
    and "boUntil e - now \<le> max_int"
  shows "entry_ok (gSettings g) now e' \<and> min (boUntil e) (now + backoffCap (gSettings g)) \<le> boUntil e'"
proof -
  have "time_sub (boUntil e) now < boUntil e - now \<Longrightarrow> False" using assms(5) by (auto simp: time_sub_def)
  then show ?thesis
    using assms(2-4) by (force simp: pruneEntry_def entry_ok_def backoffFor_cap split: if_splits)
qed

lemma pruneClock_cases:
  assumes "pruneClock g now u = Some u'" and "u - now \<le> max_int"
  shows "u' \<le> now + gsCooldown (gSettings g) \<and> min u (now + gsCooldown (gSettings g)) \<le> u'"
proof -
  have "u - now \<le> time_sub u now" using assms(2) by (auto simp: time_sub_def)
  then show ?thesis using assms(1) by (auto simp: pruneClock_def split: if_splits)
qed

text \<open>
  A governor whose clocks were read back from a ledger: they may run a minute past the bound, until
  the first prune cuts them to it.
\<close>

definition restored_ok :: "gotime \<Rightarrow> borrowGovernor \<Rightarrow> bool" where
  "restored_ok T g \<longleftrightarrow> settings_ok (gSettings g) \<and> 0 \<le> T \<and>
     gomap_ok (gBackoff g) \<and> gomap_ok (gModelCooldown g) \<and>
     (\<forall>(k, e) \<in> set (gBackoff g). CHR ''@'' \<in> set k \<and> 0 \<le> boLevel e \<and> boLevel e \<le> maxBackoffLevel \<and>
        boUntil e \<le> T + backoffCap (gSettings g) + minute) \<and>
     (\<forall>(k, u) \<in> set (gModelCooldown g). k \<noteq> [] \<and> u \<le> T + gsCooldown (gSettings g) + minute)"

lemma set_mapValues: "(k, v) \<in> set (mapValues f m) \<Longrightarrow> \<exists>w. (k, w) \<in> set m \<and> f w = Some v"
  by (force simp: mapValues_def map_filter_def)

lemma pruneClocks_ok:
  assumes "restored_ok T g" and "T \<le> now"
  shows "clocks_ok now (pruneClocks now g)"
proof -
  have cd: "0 \<le> gsCooldown (gSettings g)" "gsCooldown (gSettings g) \<le> backoffCap (gSettings g)"
    using assms(1) backoffCap_bounds by (auto simp: restored_ok_def settings_ok_def)
  have "CHR ''@'' \<in> set k \<and> entry_ok (gSettings g) now e" if in': "(k, e) \<in> set (mapValues (pruneEntry g now) (gBackoff g))" for k e
  proof -
    obtain e0 where e0: "(k, e0) \<in> set (gBackoff g)" "pruneEntry g now e0 = Some e" using set_mapValues [OF in'] by blast
    then show ?thesis using pruneEntry_cases [OF cd(1) _ _ e0(2)] assms by (force simp: restored_ok_def settings_ok_def)
  qed
  moreover have "k \<noteq> [] \<and> u \<le> now + gsCooldown (gSettings g)"
    if in': "(k, u) \<in> set (mapValues (pruneClock g now) (gModelCooldown g))" for k u
  proof -
    obtain u0 where u0: "(k, u0) \<in> set (gModelCooldown g)" "pruneClock g now u0 = Some u" using set_mapValues [OF in'] by blast
    then show ?thesis using pruneClock_cases [OF u0(2)] assms cd by (force simp: restored_ok_def settings_ok_def)
  qed
  ultimately show ?thesis
    using assms by (auto simp: clocks_ok_def pruneClocks_def restored_ok_def gomap_ok_mapValues)
qed

text \<open>A clock that runs no longer than the bound is not cut by a prune.\<close>

lemma pruneEntry_outlasts:
  assumes "0 \<le> gsCooldown (gSettings g)" and "now < boUntil e"
  shows "\<exists>e'. pruneEntry g now e = Some e' \<and> min (boUntil e) (now + backoffCap (gSettings g)) \<le> boUntil e'"
  using assms by (auto simp: pruneEntry_def backoffFor_cap)

lemma pruneClock_outlasts:
  "now < u \<Longrightarrow> \<exists>u'. pruneClock g now u = Some u' \<and> min u (now + gsCooldown (gSettings g)) \<le> u'"
  by (auto simp: pruneClock_def)

lemma clocks_restored: "clocks_ok T g \<Longrightarrow> restored_ok T g"
  by (fastforce simp: clocks_ok_def restored_ok_def entry_ok_def minute_def second_def)

lemma pruneClocks_keeps:
  assumes "clocks_ok T g" and "T \<le> now"
  shows "keepsClocks now g (pruneClocks now g)"
proof -
  have ok: "0 \<le> gsCooldown (gSettings g)" "gomap_ok (gBackoff g)" "gomap_ok (gModelCooldown g)"
    using assms(1) by (auto simp: clocks_ok_def settings_ok_def)
  have "outlasted boUntil now (gBackoff g) (mapValues (pruneEntry g now) (gBackoff g))"
  proof (rule outlasted_mapValues [OF ok(2)])
    fix k e assume e: "map_of (gBackoff g) k = Some e" "now < boUntil e"
    then have "boUntil e \<le> now + backoffCap (gSettings g)"
      using assms map_of_SomeD [OF e(1)] by (force simp: clocks_ok_def entry_ok_def)
    then show "\<exists>e'. pruneEntry g now e = Some e' \<and> boUntil e \<le> boUntil e'"
      using pruneEntry_outlasts [OF ok(1) e(2)] by (simp add: min_absorb1)
  qed
  moreover have "outlasted id now (gModelCooldown g) (mapValues (pruneClock g now) (gModelCooldown g))"
  proof (rule outlasted_mapValues [OF ok(3)])
    fix k u assume u: "map_of (gModelCooldown g) k = Some u" "now < id u"
    then have "u \<le> now + gsCooldown (gSettings g)"
      using assms map_of_SomeD [OF u(1)] by (force simp: clocks_ok_def)
    then show "\<exists>u'. pruneClock g now u = Some u' \<and> id u \<le> id u'"
      using pruneClock_outlasts [of now u g] u(2) by (simp add: min_absorb1)
  qed
  ultimately show ?thesis
    using pruneClocks_ok [OF clocks_restored [OF assms(1)] assms(2)] by (simp add: keepsClocks_def pruneClocks_def)
qed

subsection \<open>Everything else leaves the clocks alone\<close>

definition sameClocks :: "borrowGovernor \<Rightarrow> borrowGovernor \<Rightarrow> bool" where
  "sameClocks g g' \<longleftrightarrow> gSettings g' = gSettings g \<and> gBackoff g' = gBackoff g \<and> gModelCooldown g' = gModelCooldown g"

named_theorems same_clocks \<open>operations that touch no cooldown\<close>

lemma sameClocks_refl [same_clocks]: "sameClocks g g"
  by (simp add: sameClocks_def)

lemma sameClocks_trans: "sameClocks g g' \<Longrightarrow> sameClocks g' g'' \<Longrightarrow> sameClocks g g''"
  by (simp add: sameClocks_def)

lemma sameClocks_foldl: "(\<And>g x. sameClocks g (step g x)) \<Longrightarrow> sameClocks g (foldl step g xs)"
  by (induction xs arbitrary: g) (auto intro: same_clocks sameClocks_trans)

lemma keeps_same: "clocks_ok T g \<Longrightarrow> sameClocks g g' \<Longrightarrow> keepsClocks T g g'"
  by (simp add: sameClocks_def keepsClocks_same)

lemma drop_same [same_clocks]: "sameClocks g (dropLenderRelease k g)"
  by (simp add: sameClocks_def dropLenderRelease_def)

lemma dropPins_same [same_clocks]: "sameClocks g (dropPins ks g)"
  by (simp add: sameClocks_def dropPins_def)

lemma observePast_same [same_clocks]: "sameClocks g (observePast c g)"
  by (simp add: sameClocks_def observePast_def)

lemma observeNoHole_same [same_clocks]: "sameClocks g (observeNoHole c states g)"
proof -
  have "sameClocks g (observeNoHoleEntry c states g x)" for g x
    by (simp add: sameClocks_def observeNoHoleEntry_def Let_def split: prod.split option.split)
  moreover have "sameClocks g (watchNoHole now g x)" for g now x
    by (simp add: sameClocks_def watchNoHole_def Let_def split: prod.split)
  ultimately show ?thesis
    unfolding observeNoHole_def by (intro sameClocks_trans [OF sameClocks_foldl sameClocks_foldl])
qed

lemma observeChunk_same [same_clocks]: "sameClocks g (observeChunk now g ch)"
proof -
  have "sameClocks g (let key = chunkLender ch l; g = observeLender key (lnWaiting l) (readTime ch) now g in
      if lenderWaiting key now g
      then g\<lparr>gCohortCooldown := mput (chCohort ch) (now + gsCooldown (gSettings g)) (gCohortCooldown g)\<rparr> else g)" for g l
    by (simp add: sameClocks_def observeLender_def Let_def split: option.split)
  then show ?thesis by (simp add: observeChunk_def same_clocks sameClocks_foldl)
qed

lemma observeReads_same [same_clocks]: "sameClocks g (observeReads c chunks g)"
proof -
  let ?g = "foldl (observeChunk (bcNow c)) g chunks"
  have "sameClocks g ?g" by (intro sameClocks_foldl observeChunk_same)
  moreover have "sameClocks ?g (foldl (\<lambda>g k. dropLenderRelease k g) (?g\<lparr>gRawWaiting := r, gWatches := w\<rparr>) ks)" for r w ks
  proof -
    have "sameClocks ?g (?g\<lparr>gRawWaiting := r, gWatches := w\<rparr>)" by (simp add: sameClocks_def)
    moreover have "sameClocks g' (foldl (\<lambda>g k. dropLenderRelease k g) g' ks)" for g' by (intro sameClocks_foldl drop_same)
    ultimately show ?thesis by (rule sameClocks_trans)
  qed
  ultimately show ?thesis unfolding observeReads_def Let_def by (rule sameClocks_trans)
qed

lemma observeStates_same: "sameClocks (pruneClocks (bcNow c) g) (observeStates c states g)"
proof -
  let ?g = "(pruneClocks (bcNow c) (g\<lparr>gIdleSince := 0, gPreemptUnknown := bcPreemptionUnknown c\<rparr>))
    \<lparr>gHeld := List.map_filter (\<lambda>(k, s). if 0 < vsUnplaced s then Some (k, True) else None) states\<rparr>"
  have "pruneEntry (g\<lparr>gIdleSince := 0, gPreemptUnknown := bcPreemptionUnknown c\<rparr>) = pruneEntry g"
    and "pruneClock (g\<lparr>gIdleSince := 0, gPreemptUnknown := bcPreemptionUnknown c\<rparr>) = pruneClock g"
    by (intro ext, simp add: pruneEntry_def pruneClock_def backoffFor_def)+
  then have "sameClocks (pruneClocks (bcNow c) g) ?g" by (simp add: sameClocks_def pruneClocks_def)
  then show ?thesis
    unfolding observeStates_def Let_def
    by (intro sameClocks_trans [OF _ observeNoHole_same] sameClocks_trans [OF _ observePast_same] sameClocks_trans [OF _ dropPins_same])
qed

lemma landRelease_keeps:
  assumes "clocks_ok T g" and "now \<le> T" and "landRelease requests states now k e g = (e', g')"
  shows "keepsClocks T g g'"
proof -
  have "keepsClocks T g (foldl (\<lambda>g m. markBackoff m [lkCohort k] now True g) g (releasedModels (lrUnits e) requests))"
  proof (rule keepsClocks_foldl [OF assms(1)])
    fix g m assume "m \<in> set (releasedModels (lrUnits e) requests)" and ok: "clocks_ok T g"
    then have "m \<noteq> []" by (auto simp: releasedModels_def map_filter_def variantName_def Let_def split: if_splits)
    then show "keepsClocks T g (markBackoff m [lkCohort k] now True g)" using ok assms(2) by (intro markBackoff_keeps)
  qed
  then show ?thesis
    using assms(1,3) by (auto simp: landRelease_def keepsClocks_same split: if_splits)
qed

lemma observeRelease_keeps:
  assumes "clocks_ok T g" and "now \<le> T"
  shows "keepsClocks T g (observeRelease reads requests states now g (k, e))"
proof -
  define e1 where "e1 = (if now < lrReleasedAt e then e\<lparr>lrReleasedAt := now\<rparr> else e)"
  define e2 where "e2 = (if mget False (gLenderRestored g) k then e1\<lparr>lrUnits := restoredUnits requests states (lrUnits e1)\<rparr> else e1)"
  obtain e3 g3 where land: "landRelease requests states now k e2 g = (e3, g3)" by (metis prod.exhaust)
  have g3: "keepsClocks T g g3" using landRelease_keeps [OF assms land] .
  then have ok3: "clocks_ok T g3" by (simp add: keepsClocks_def)
  have "sameClocks g (observeRelease reads requests states now g (k, e)) \<or> sameClocks g3 (observeRelease reads requests states now g (k, e))"
    using land unfolding observeRelease_def Let_def prod.case e1_def [symmetric] e2_def [symmetric]
    by (auto simp: sameClocks_def dropLenderRelease_def split: prod.splits option.splits)
  then show ?thesis using g3 keeps_same [OF assms(1)] keeps_same [OF ok3] keepsClocks_trans by blast
qed

lemma observeLenderReleases_keeps:
  assumes "clocks_ok T g" and "now \<le> T"
  shows "keepsClocks T g (observeLenderReleases chunks requests states now g)"
proof -
  let ?g = "g\<lparr>gHalfLowered := []\<rparr>"
  have g: "keepsClocks T g ?g" using assms(1) by (intro keeps_same) (simp_all add: sameClocks_def)
  then have "clocks_ok T ?g" by (simp add: keepsClocks_def)
  then have "keepsClocks T ?g (observeLenderReleases chunks requests states now g)"
    unfolding observeLenderReleases_def
    by (rule keepsClocks_foldl) (metis assms(2) observeRelease_keeps prod.exhaust)
  with g show ?thesis by (rule keepsClocks_trans)
qed

lemma Observe_after_prune:
  assumes "clocks_ok (bcNow c) (pruneClocks (bcNow c) g)"
  shows "keepsClocks (bcNow c) (pruneClocks (bcNow c) g) (Observe_governor c g)"
proof -
  let ?states = "indexStates (bcRequests c)" and ?chunks = "fst (mergeSharedPools (bcConstraints c))"
  let ?g = "observeReads c ?chunks (observeStates c ?states g)"
  have one: "keepsClocks (bcNow c) (pruneClocks (bcNow c) g) ?g"
    by (rule keeps_same [OF assms sameClocks_trans [OF observeStates_same observeReads_same]])
  then have "keepsClocks (bcNow c) ?g (observeLenderReleases ?chunks (bcRequests c) ?states (bcNow c) ?g)" (is "keepsClocks _ _ ?h")
    by (intro observeLenderReleases_keeps) (simp_all add: keepsClocks_def)
  moreover from this have "keepsClocks (bcNow c) ?h (?h\<lparr>gStarted := True\<rparr>)"
    by (intro keepsClocks_same) (simp_all add: keepsClocks_def)
  ultimately show ?thesis
    unfolding Observe_governor_def Let_def using one by (blast intro: keepsClocks_trans)
qed

lemma Observe_keeps: "clocks_ok T g \<Longrightarrow> T \<le> bcNow c \<Longrightarrow> keepsClocks (bcNow c) g (Observe_governor c g)"
  using pruneClocks_keeps [of T g "bcNow c"] Observe_after_prune [of c g] keepsClocks_trans
  by (metis keepsClocks_def)

subsection \<open>Releases\<close>

lemma pinUnit_same: "pinUnit req unit states guaranteed g = (g', out) \<Longrightarrow> sameClocks g g'"
proof -
  have "sameClocks (fst s) (fst (foldl (\<lambda>(g, out, guaranteed) v.
        let k = variantName (mrNamespace req) v; s = mget zeroState states k; to = vsCurrent s - mget 0 unit v
        in (g\<lparr>gTimeoutHeld := mput k to (gTimeoutHeld g)\<rparr>,
            out @ [\<lparr>brNamespace = mrNamespace req, brModel = mrModel req, brVariant = v, brFrom = vsCurrent s, brTo = to,
                    brCause = ReleasePlacementTimeout, brGuaranteed = guaranteed, brAtGate = False\<rparr>], 0)) s vs))" for s vs
    by (induction vs arbitrary: s) (auto simp: sameClocks_def Let_def split: prod.splits)
  from this [of "(g, [], guaranteed)" "sort (mkeys unit)"] show "pinUnit req unit states guaranteed g = (g', out) \<Longrightarrow> ?thesis"
    by (simp add: pinUnit_def Let_def split: prod.splits)
qed

lemma borrowedRelease_same: "borrowedRelease now req st states held since timeout g = Some (g', held', out) \<Longrightarrow> sameClocks g g'"
  by (auto simp: borrowedRelease_def Let_def dest: pinUnit_same split: option.splits if_splits prod.splits)

lemma gatedRelease_same:
  assumes "gatedRelease now req st states uncounted g = Some (g', held', out)"
  shows "sameClocks g g'"
proof -
  obtain g1 out1 m where "borrowedRelease now req (st\<lparr>vsUnplacedAt := vsGatedAt st, vsUnplaced := int (length (vsGatedAt st))\<rparr>) states
      uncounted (gUncountedSince g) (gsPlacementTimeout (gSettings g)) g = Some (g1, held', out1)" and g': "g' = g1\<lparr>gGatedPins := m\<rparr>"
    using assms by (auto simp: gatedRelease_def Let_def split: if_splits option.splits)
  then have "sameClocks g g1" by (intro borrowedRelease_same)
  then show ?thesis using g' by (simp add: sameClocks_def)
qed

lemma noHoleRelease_same:
  assumes "noHoleRelease now req st states timeout g = Some (g', out)"
  shows "sameClocks g g'"
proof -
  obtain unit freed m where "pinUnit req unit states freed (g\<lparr>gNoHole := m\<rparr>) = (g', out)"
    using assms by (auto simp: noHoleRelease_def Let_def split: if_splits option.splits)
  then have "sameClocks (g\<lparr>gNoHole := m\<rparr>) g'" by (rule pinUnit_same)
  then show ?thesis by (simp add: sameClocks_def)
qed

text \<open>A rule that touches no cooldown: the two rules \<open>eachUnplaced\<close> is run with.\<close>

locale release_rule =
  fixes rule :: releaseRule
  assumes rule_same: "rule req st timeout s = Some (s', rel) \<Longrightarrow> sameClocks (rsGovernor s) (rsGovernor s')"
begin

lemma variants_keep:
  assumes "clocks_ok T (rsGovernor s)" and "bcNow c \<le> T" and "releaseVariants c rule req sts s = (s', rel)"
  shows "keepsClocks T (rsGovernor s) (rsGovernor s')"
  using assms
proof (induction sts arbitrary: s s' rel)
  case Nil
  then show ?case by (simp add: keepsClocks_same)
next
  case (Cons st sts)
  define timeout where "timeout = (if mget False (bcScaleUpPending c) (variantName (mrNamespace req) (vsName st))
    then gsPlacementTimeout (gSettings (rsGovernor s)) * 3 else gsPlacementTimeout (gSettings (rsGovernor s)))"
  show ?case
  proof (cases "vsUnplaced st \<le> 0 \<or> rule req st timeout s = None")
    case True
    then have "releaseVariants c rule req sts s = (s', rel)" 
      using Cons.prems(3) unfolding releaseVariants.simps Let_def timeout_def [symmetric] by (auto split: if_splits)
    then show ?thesis using Cons by blast
  next
    case False
    then obtain s1 r where r: "rule req st timeout s = Some (s1, r)" by auto
    have one: "keepsClocks T (rsGovernor s) (rsGovernor s1)" using keeps_same [OF Cons.prems(1) rule_same [OF r]] .
    have "variantName (mrNamespace req) (mrModel req) \<noteq> []" by (simp add: variantName_def)
    then have two: "keepsClocks T (rsGovernor s1) (markBackoffAfter (variantName (mrNamespace req) (mrModel req))
        (namespaceCohorts (bcConstraints c) (mrNamespace req)) (bcNow c) False timeout (rsGovernor s1))"
      using one Cons.prems(2) by (intro markBackoffAfter_keeps) (auto simp: keepsClocks_def)
    have "rsGovernor s' = rsGovernor s1 \<or> rsGovernor s' = markBackoffAfter (variantName (mrNamespace req) (mrModel req))
        (namespaceCohorts (bcConstraints c) (mrNamespace req)) (bcNow c) False timeout (rsGovernor s1)"
      using Cons.prems(3) False r unfolding releaseVariants.simps Let_def timeout_def [symmetric] by (auto split: if_splits)
    then show ?thesis using one keepsClocks_trans [OF one two] by auto
  qed
qed

lemma unplaced_keep:
  assumes "clocks_ok T (rsGovernor s)" and "bcNow c \<le> T"
  shows "keepsClocks T (rsGovernor s) (rsGovernor (fst (eachUnplaced c rule s)))"
proof -
  have "keepsClocks T (rsGovernor (fst so)) (rsGovernor (fst (foldl (\<lambda>(s, out) req. if modelPinned (rsGovernor s) req then (s, out)
       else let (s, rel) = releaseVariants c rule req (mrStates req) s in (s, out @ rel)) so reqs)))"
    if "clocks_ok T (rsGovernor (fst so))" for so reqs
    using that
  proof (induction reqs arbitrary: so)
    case Nil
    then show ?case by (simp add: keepsClocks_same)
  next
    case (Cons req reqs)
    obtain s out where so: "so = (s, out)" by (cases so)
    show ?case
    proof (cases "modelPinned (rsGovernor s) req")
      case True
      then show ?thesis using Cons.IH [of "(s, out)"] Cons.prems so by simp
    next
      case False
      obtain s1 rel where r: "releaseVariants c rule req (mrStates req) s = (s1, rel)" by (metis prod.exhaust)
      have one: "keepsClocks T (rsGovernor s) (rsGovernor s1)" using variants_keep [OF _ assms(2) r] Cons.prems so by simp
      then have "clocks_ok T (rsGovernor (fst (s1, out @ rel)))" by (simp add: keepsClocks_def)
      from keepsClocks_trans [OF one Cons.IH [OF this, simplified]] show ?thesis using so False r by simp
    qed
  qed
  from this [of "(s, [])"] show ?thesis using assms(1) by (simp add: eachUnplaced_def)
qed

end

interpretation timeouts: release_rule "timeoutRule now states" for now states
proof
  show "sameClocks (rsGovernor s) (rsGovernor s')" if "timeoutRule now states req st timeout s = Some (s', rel)" for req st timeout s s' rel
    using that by (auto simp: timeoutRule_def dest: borrowedRelease_same gatedRelease_same noHoleRelease_same split: option.splits)
qed

interpretation gates: release_rule "\<lambda>req st _ s. case gatedRelease now req st states (rsUncounted s) (rsGovernor s) of None \<Rightarrow> None
    | Some (g, held, rel) \<Rightarrow> Some (s\<lparr>rsGovernor := g, rsUncounted := held\<rparr>, rel)" for now states
proof
  show "sameClocks (rsGovernor s) (rsGovernor s')" if "(case gatedRelease now req st states (rsUncounted s) (rsGovernor s) of None \<Rightarrow> None
    | Some (g, held, rel) \<Rightarrow> Some (s\<lparr>rsGovernor := g, rsUncounted := held\<rparr>, rel)) = Some (s', rel)" for req st timeout s s' rel
    using that by (auto dest: gatedRelease_same split: option.splits)
qed

end
