(* ===== verification/GovernorRuns.thy ===== *)
theory GovernorRuns
  imports GovernorClocks
begin

text \<open>
  Runs of the borrow governor: any order of preemptions, cycles that count borrowing, cycles that
  count none, and restarts from the persisted ledger, under a clock that does not go back.
\<close>

subsection \<open>The operations\<close>

lemma timeoutReleases_keeps:
  assumes "clocks_ok T g" and "bcNow c \<le> T"
  shows "keepsClocks T g (fst (timeoutReleases c states held uncounted g))"
  using timeouts.unplaced_keep [of T "\<lparr>rsGovernor = g, rsHeldPast = held, rsUncounted = uncounted\<rparr>" c "bcNow c" states] assms
  by (simp add: timeoutReleases_def Let_def case_prod_beta')

lemma GatedReleases_keeps:
  assumes "clocks_ok T g" and "bcNow c \<le> T"
  shows "keepsClocks T g (fst (GatedReleases c decisions g))"
proof -
  let ?g = "g\<lparr>gGatedPins := filter (\<lambda>(k, _). map_of (gTimeoutHeld g) k \<noteq> None) (gGatedPins g),
    gUncountedSince := trackPast (gUncountedSince g) (uncountedHeldPast (bcConstraints c)) (bcNow c)\<rparr>"
  have one: "keepsClocks T g ?g" using assms(1) by (intro keepsClocks_same) simp_all
  then have "keepsClocks T ?g (fst (GatedReleases c decisions g))"
    using gates.unplaced_keep [of T "\<lparr>rsGovernor = ?g, rsHeldPast = [], rsUncounted = uncountedHeldPast (bcConstraints c)\<rparr>" c
      "bcNow c" "indexStates (bcRequests c)"] assms(2)
    by (simp add: GatedReleases_def Let_def keepsClocks_def case_prod_beta')
  with one show ?thesis by (rule keepsClocks_trans)
qed

lemma landedLenders_same: "sameClocks g (landedLenders states now g)"
  unfolding landedLenders_def by (intro sameClocks_foldl) (simp add: same_clocks split: prod.split)

lemma HoldReleases_same: "sameClocks g (fst (HoldReleases now requests decisions g))"
proof -
  have hold: "sameClocks g (landedHolds states g)" for g states by (simp add: landedHolds_def same_clocks)
  have idle: "sameClocks g (idleReset states g)" for g states by (simp add: idleReset_def dropPins_def sameClocks_def)
  have since: "sameClocks g (if b then g\<lparr>gIdleSince := now\<rparr> else g)" for b by (simp add: sameClocks_def)
  show ?thesis
    unfolding HoldReleases_def Let_def
    using since idle sameClocks_trans [OF hold landedLenders_same] by (simp add: sameClocks_def)
qed

subsection \<open>Restarts\<close>

definition restartGovernor :: "borrowGovernor \<Rightarrow> borrowGovernor" where
  "restartGovernor g = snd (Restore (Ledger g) (NewBorrowGovernor (gSettings g)))"

lemma upToMinute_bounds: "t \<le> upToMinute t \<and> upToMinute t \<le> t + minute"
proof -
  have "0 \<le> t mod minute" "t mod minute < minute" by (simp_all add: minute_def second_def)
  then show ?thesis by (auto simp: upToMinute_def truncateTo_def Let_def)
qed

lemma boundedKeys_all: "length m \<le> maxLedgerItems \<Longrightarrow> fst (boundedKeys m) = sort (mkeys m)"
  by (simp add: boundedKeys_def Let_def mkeys_def)

text \<open>A map rebuilt key by key from the entries that pass a test.\<close>

definition rebuild :: "(string \<Rightarrow> bool) \<Rightarrow> (string \<Rightarrow> 'v) \<Rightarrow> (string, 'v) gomap \<Rightarrow> string list \<Rightarrow> (string, 'v) gomap" where
  "rebuild P f = foldl (\<lambda>m k. if map_of m k = None \<and> P k then mput k (f k) m else m)"

lemma rebuild_map_of:
  "map_of (rebuild P f m ks) k = (case map_of m k of Some v \<Rightarrow> Some v | None \<Rightarrow> if k \<in> set ks \<and> P k then Some (f k) else None)"
proof (induction ks arbitrary: m)
  case (Cons a ks)
  have "rebuild P f m (a # ks) = rebuild P f (if map_of m a = None \<and> P a then mput a (f a) m else m) ks"
    by (simp add: rebuild_def)
  then show ?case using Cons.IH by (auto simp: gomap_simps split: option.splits)
qed (simp add: rebuild_def split: option.split)

lemma rebuild_ok: "gomap_ok m \<Longrightarrow> gomap_ok (rebuild P f m ks)"
proof (induction ks arbitrary: m)
  case (Cons a ks)
  then have "gomap_ok (if map_of m a = None \<and> P a then mput a (f a) m else m)" by (simp add: gomap_ok_mput)
  from Cons.IH [OF this] show ?case by (simp add: rebuild_def)
qed (simp add: rebuild_def)

lemma rebuild_Nil: "map_of (rebuild P f [] ks) k = (if k \<in> set ks \<and> P k then Some (f k) else None)"
  by (simp add: rebuild_map_of)

lemma restoreClocks_rebuild:
  "fst (restoreClocks dst src) = rebuild (\<lambda>k. k \<noteq> [] \<and> mget 0 src k \<noteq> 0) (mget 0 src) dst (fst (boundedKeys src))"
  by (simp add: restoreClocks_def rebuild_def Let_def case_prod_beta')

definition backoffValid :: "string \<Rightarrow> backoffEntry \<Rightarrow> bool" where
  "backoffValid k e \<longleftrightarrow> CHR ''@'' \<in> set k \<and> boUntil e \<noteq> 0 \<and> 0 \<le> boLevel e \<and> boLevel e \<le> maxBackoffLevel"

lemma restoreBackoff_rebuild:
  "fst (restoreBackoff src g) =
     g\<lparr>gBackoff := rebuild (\<lambda>k. \<exists>e. map_of src k = Some e \<and> backoffValid k e) (\<lambda>k. the (map_of src k)) (gBackoff g) (fst (boundedKeys src))\<rparr>"
proof -
  have "foldl (\<lambda>g k. case map_of src k of None \<Rightarrow> g | Some e \<Rightarrow>
         if map_of (gBackoff g) k = None \<and> CHR ''@'' \<in> set k \<and> boUntil e \<noteq> 0 \<and> 0 \<le> boLevel e \<and> boLevel e \<le> maxBackoffLevel
         then g\<lparr>gBackoff := mput k e (gBackoff g)\<rparr> else g) g ks =
     g\<lparr>gBackoff := rebuild (\<lambda>k. \<exists>e. map_of src k = Some e \<and> backoffValid k e) (\<lambda>k. the (map_of src k)) (gBackoff g) ks\<rparr>" for ks
    by (induction ks arbitrary: g) (simp_all add: rebuild_def backoffValid_def split: option.split)
  then show ?thesis by (simp add: restoreBackoff_def Let_def case_prod_beta')
qed

lemma restoreTimeoutHeld_same: "sameClocks g (fst (restoreTimeoutHeld src g))"
proof -
  have "sameClocks (fst s) (fst (foldl (\<lambda>(g, dropped) k. let to = mget 0 src k in
        if maxLedgerReplicas < to then (g, dropped + 1)
        else if map_of (gTimeoutHeld g) k = None \<and> 0 \<le> to \<and> CHR ''/'' \<in> set k then (g\<lparr>gTimeoutHeld := mput k to (gTimeoutHeld g)\<rparr>, dropped)
        else (g, dropped)) s ks))" for s ks
    by (induction ks arbitrary: s) (auto simp: sameClocks_def Let_def split: prod.splits)
  from this [of "(g, snd (boundedKeys src))"] show ?thesis by (simp add: restoreTimeoutHeld_def Let_def case_prod_beta')
qed

lemma restoreNoHole_same: "sameClocks g (fst (restoreNoHole src g))"
proof -
  have "sameClocks (fst s) (fst (foldl (\<lambda>(g, dropped) k. case map_of src k of None \<Rightarrow> (g, dropped) | Some h \<Rightarrow>
        if maxLedgerReplicas < nhReplicas h then (g, dropped + 1)
        else if map_of (gNoHole g) k = None \<and> CHR ''/'' \<in> set k \<and> 0 < nhReplicas h \<and> 0 \<le> nhGPUs h \<and> nhSince h \<noteq> 0
          then (g\<lparr>gNoHole := mput k h (gNoHole g), gNoHoleRestored := mput k True (gNoHoleRestored g)\<rparr>, dropped)
        else (g, dropped)) s ks))" for s ks
    by (induction ks arbitrary: s) (auto simp: sameClocks_def split: prod.splits option.splits)
  from this [of "(g, snd (boundedKeys src))"] show ?thesis by (simp add: restoreNoHole_def Let_def case_prod_beta')
qed

lemma restoreLenderReleases_same: "sameClocks g (fst (restoreLenderReleases entries g))"
proof -
  have "sameClocks (fst s) (fst (foldl (\<lambda>(g, seen, dropped) e. let k = lrKey e in
        if badRelease e \<or> k \<in> set seen then (g, seen, dropped + 1)
        else if map_of (gLenderRel g) k \<noteq> None then (g, k # seen, dropped)
        else (g\<lparr>gLenderRel := mput k e (gLenderRel g), gLenderRestored := mput k True (gLenderRestored g)\<rparr>, k # seen, dropped)) s es))" for s :: "borrowGovernor \<times> lenderKey list \<times> nat" and es
    by (induction es arbitrary: s) (auto simp: sameClocks_def Let_def split: prod.splits)
  from this [of "(g, [], length entries - maxLedgerItems)"] show ?thesis
    by (simp add: restoreLenderReleases_def Let_def case_prod_beta')
qed

text \<open>What a restart restores of the clocks.\<close>

lemma restart_fields:
  "gSettings (restartGovernor g) = gSettings g"
  "gBackoff (restartGovernor g) = rebuild (\<lambda>k. \<exists>e. map_of (blBackoff (Ledger g)) k = Some e \<and> backoffValid k e)
     (\<lambda>k. the (map_of (blBackoff (Ledger g)) k)) [] (fst (boundedKeys (blBackoff (Ledger g))))"
  "gModelCooldown (restartGovernor g) = rebuild (\<lambda>k. k \<noteq> [] \<and> mget 0 (blModelCooldown (Ledger g)) k \<noteq> 0)
     (mget 0 (blModelCooldown (Ledger g))) [] (fst (boundedKeys (blModelCooldown (Ledger g))))"
proof -
  let ?l = "Ledger g" and ?g = "NewBorrowGovernor (gSettings g)"
  define g1 where "g1 = ?g\<lparr>gCohortCooldown := fst (restoreClocks (gCohortCooldown ?g) (blCohortCooldown ?l)),
    gModelCooldown := fst (restoreClocks (gModelCooldown ?g) (blModelCooldown ?l))\<rparr>"
  define g2 where "g2 = fst (restoreTimeoutHeld (blTimeoutHeld ?l) g1)"
  define g3 where "g3 = fst (restoreBackoff (blBackoff ?l) g2)"
  define g4 where "g4 = fst (restoreLenderReleases (blLenderReleases ?l) (fst (restoreNoHole (blNoHole ?l) g3)))"
  have "sameClocks g1 g2" "sameClocks g3 g4"
    unfolding g2_def g4_def using sameClocks_trans [OF restoreNoHole_same restoreLenderReleases_same] restoreTimeoutHeld_same by blast+
  moreover have "sameClocks g4 (restartGovernor g)"
    unfolding restartGovernor_def Restore_def Let_def g4_def g3_def g2_def g1_def
    by (simp add: case_prod_beta' sameClocks_def split: option.split)
  moreover have "g3 = g2\<lparr>gBackoff := rebuild (\<lambda>k. \<exists>e. map_of (blBackoff ?l) k = Some e \<and> backoffValid k e)
     (\<lambda>k. the (map_of (blBackoff ?l) k)) (gBackoff g2) (fst (boundedKeys (blBackoff ?l)))\<rparr>"
    unfolding g3_def by (rule restoreBackoff_rebuild)
  moreover have "gSettings g1 = gSettings g" "gBackoff g1 = []" "gModelCooldown g1 = fst (restoreClocks [] (blModelCooldown ?l))"
    by (simp_all add: g1_def NewBorrowGovernor_def)
  ultimately show "gSettings (restartGovernor g) = gSettings g"
    "gBackoff (restartGovernor g) = rebuild (\<lambda>k. \<exists>e. map_of (blBackoff ?l) k = Some e \<and> backoffValid k e)
     (\<lambda>k. the (map_of (blBackoff ?l) k)) [] (fst (boundedKeys (blBackoff ?l)))"
    "gModelCooldown (restartGovernor g) = rebuild (\<lambda>k. k \<noteq> [] \<and> mget 0 (blModelCooldown ?l) k \<noteq> 0)
     (mget 0 (blModelCooldown ?l)) [] (fst (boundedKeys (blModelCooldown ?l)))"
    by (simp_all add: sameClocks_def restoreClocks_rebuild)
qed

definition ledgerFits :: "borrowGovernor \<Rightarrow> bool" where
  "ledgerFits g \<longleftrightarrow> length (gBackoff g) \<le> maxLedgerItems \<and> length (gModelCooldown g) \<le> maxLedgerItems"

lemma persisted_backoff: "map_of (blBackoff (Ledger g)) k = map_option persistBackoff (map_of (gBackoff g) k)"
  by (simp add: Ledger_def ledgerLocked_def Let_def map_of_map_values)

lemma persisted_cooldown: "map_of (blModelCooldown (Ledger g)) k = map_option upToMinute (map_of (gModelCooldown g) k)"
  by (simp add: Ledger_def ledgerLocked_def Let_def persistClocks_def map_of_map_values)

lemma persisted_length:
  "length (blBackoff (Ledger g)) = length (gBackoff g)" "length (blModelCooldown (Ledger g)) = length (gModelCooldown g)"
  by (simp_all add: Ledger_def ledgerLocked_def Let_def persistClocks_def)

lemma restart_backoff:
  "map_of (gBackoff (restartGovernor g)) k = Some e' \<Longrightarrow> \<exists>e. map_of (gBackoff g) k = Some e \<and> e' = persistBackoff e \<and> backoffValid k e'"
  "ledgerFits g \<Longrightarrow> map_of (gBackoff g) k = Some e \<Longrightarrow> backoffValid k (persistBackoff e) \<Longrightarrow>
     map_of (gBackoff (restartGovernor g)) k = Some (persistBackoff e)"
proof -
  show "\<exists>e. map_of (gBackoff g) k = Some e \<and> e' = persistBackoff e \<and> backoffValid k e'"
    if "map_of (gBackoff (restartGovernor g)) k = Some e'"
    using that unfolding restart_fields rebuild_Nil persisted_backoff by (auto split: if_splits)
  show "map_of (gBackoff (restartGovernor g)) k = Some (persistBackoff e)"
    if "ledgerFits g" "map_of (gBackoff g) k = Some e" "backoffValid k (persistBackoff e)"
  proof -
    have e: "map_of (blBackoff (Ledger g)) k = Some (persistBackoff e)" using that(2) by (simp add: persisted_backoff)
    then have "k \<in> set (fst (boundedKeys (blBackoff (Ledger g))))"
      using that(1) map_of_in_mkeys [OF e] by (simp add: boundedKeys_all persisted_length ledgerFits_def)
    then show ?thesis unfolding restart_fields rebuild_Nil using e that(3) by simp
  qed
qed

lemma restart_cooldown:
  "map_of (gModelCooldown (restartGovernor g)) k = Some u' \<Longrightarrow> \<exists>u. map_of (gModelCooldown g) k = Some u \<and> u' = upToMinute u \<and> k \<noteq> []"
  "ledgerFits g \<Longrightarrow> map_of (gModelCooldown g) k = Some u \<Longrightarrow> k \<noteq> [] \<Longrightarrow> upToMinute u \<noteq> 0 \<Longrightarrow>
     map_of (gModelCooldown (restartGovernor g)) k = Some (upToMinute u)"
proof -
  show "\<exists>u. map_of (gModelCooldown g) k = Some u \<and> u' = upToMinute u \<and> k \<noteq> []"
    if "map_of (gModelCooldown (restartGovernor g)) k = Some u'"
    using that unfolding restart_fields rebuild_Nil mget_def persisted_cooldown
    by (cases "map_of (gModelCooldown g) k") (auto split: if_splits)
  show "map_of (gModelCooldown (restartGovernor g)) k = Some (upToMinute u)"
    if "ledgerFits g" "map_of (gModelCooldown g) k = Some u" "k \<noteq> []" "upToMinute u \<noteq> 0"
  proof -
    have u: "map_of (blModelCooldown (Ledger g)) k = Some (upToMinute u)" using that(2) by (simp add: persisted_cooldown)
    then have "k \<in> set (fst (boundedKeys (blModelCooldown (Ledger g))))"
      using that(1) map_of_in_mkeys [OF u] by (simp add: boundedKeys_all persisted_length ledgerFits_def)
    then show ?thesis unfolding restart_fields rebuild_Nil using u that(3,4) by (simp add: mget_def)
  qed
qed

lemma restart_ok:
  assumes "clocks_ok T g"
  shows "restored_ok T (restartGovernor g)"
proof -
  have "CHR ''@'' \<in> set k \<and> 0 \<le> boLevel e \<and> boLevel e \<le> maxBackoffLevel \<and> boUntil e \<le> T + backoffCap (gSettings g) + minute"
    if "(k, e) \<in> set (gBackoff (restartGovernor g))" for k e
  proof -
    have "gomap_ok (gBackoff (restartGovernor g))" by (simp add: restart_fields rebuild_ok)
    then have "map_of (gBackoff (restartGovernor g)) k = Some e" using that by (simp add: gomap_ok_def mkeys_def)
    then obtain e0 where e0: "map_of (gBackoff g) k = Some e0" "e = persistBackoff e0" "backoffValid k e"
      using restart_backoff(1) by blast
    then have "boUntil e0 \<le> T + backoffCap (gSettings g)"
      using assms map_of_SomeD [OF e0(1)] by (force simp: clocks_ok_def entry_ok_def)
    then show ?thesis using e0(2,3) upToMinute_bounds [of "boUntil e0"] by (simp add: persistBackoff_def backoffValid_def)
  qed
  moreover have "k \<noteq> [] \<and> u \<le> T + gsCooldown (gSettings g) + minute" if "(k, u) \<in> set (gModelCooldown (restartGovernor g))" for k u
  proof -
    have "gomap_ok (gModelCooldown (restartGovernor g))" by (simp add: restart_fields rebuild_ok)
    then have "map_of (gModelCooldown (restartGovernor g)) k = Some u" using that by (simp add: gomap_ok_def mkeys_def)
    then obtain u0 where u0: "map_of (gModelCooldown g) k = Some u0" "u = upToMinute u0" "k \<noteq> []"
      using restart_cooldown(1) by blast
    then have "u0 \<le> T + gsCooldown (gSettings g)" using assms map_of_SomeD [OF u0(1)] by (force simp: clocks_ok_def)
    then show ?thesis using u0 upToMinute_bounds [of u0] by simp
  qed
  ultimately show ?thesis
    using assms by (auto simp: restored_ok_def clocks_ok_def restart_fields(1) rebuild_ok restart_fields(2,3))
qed

lemma restart_outlasts:
  assumes "clocks_ok T g" and "T \<le> now" and "ledgerFits g"
  shows "keepsClocks now g (pruneClocks now (restartGovernor g))"
proof -
  let ?r = "restartGovernor g"
  have set: "gSettings ?r = gSettings g" by (rule restart_fields)
  have ok: "0 \<le> gsCooldown (gSettings ?r)" "0 \<le> now" "gomap_ok (gBackoff ?r)" "gomap_ok (gModelCooldown ?r)"
    using assms(1,2) by (auto simp: set clocks_ok_def settings_ok_def restart_fields(2,3) rebuild_ok)
  have "outlasted boUntil now (gBackoff g) (mapValues (pruneEntry ?r now) (gBackoff ?r))"
    unfolding outlasted_def
  proof (intro allI impI)
    fix k e assume e: "map_of (gBackoff g) k = Some e" "now < boUntil e"
    have b: "CHR ''@'' \<in> set k" "entry_ok (gSettings g) T e" using assms(1) map_of_SomeD [OF e(1)] by (auto simp: clocks_ok_def)
    have up: "boUntil e \<le> boUntil (persistBackoff e)" using upToMinute_bounds by (simp add: persistBackoff_def)
    then have "backoffValid k (persistBackoff e)" using b e(2) ok(2) by (auto simp: backoffValid_def entry_ok_def persistBackoff_def)
    then have r: "map_of (gBackoff ?r) k = Some (persistBackoff e)" using restart_backoff(2) assms(3) e(1) by blast
    obtain e' where "pruneEntry ?r now (persistBackoff e) = Some e'"
      "min (boUntil (persistBackoff e)) (now + backoffCap (gSettings ?r)) \<le> boUntil e'"
      using pruneEntry_outlasts [OF ok(1), of now "persistBackoff e"] e(2) up by fastforce
    then show "\<exists>e'. map_of (mapValues (pruneEntry ?r now) (gBackoff ?r)) k = Some e' \<and> boUntil e \<le> boUntil e'"
      using r up b(2) assms(2) by (auto simp: map_of_mapValues [OF ok(3)] set entry_ok_def)
  qed
  moreover have "outlasted id now (gModelCooldown g) (mapValues (pruneClock ?r now) (gModelCooldown ?r))"
    unfolding outlasted_def
  proof (intro allI impI)
    fix k u assume u: "map_of (gModelCooldown g) k = Some u" "now < id u"
    have b: "k \<noteq> []" "u \<le> T + gsCooldown (gSettings g)" using assms(1) map_of_SomeD [OF u(1)] by (auto simp: clocks_ok_def)
    have up: "u \<le> upToMinute u" using upToMinute_bounds by simp
    then have r: "map_of (gModelCooldown ?r) k = Some (upToMinute u)" using restart_cooldown(2) assms(3) u b(1) ok(2) by force
    obtain u' where "pruneClock ?r now (upToMinute u) = Some u'" "min (upToMinute u) (now + gsCooldown (gSettings ?r)) \<le> u'"
      using pruneClock_outlasts [of now "upToMinute u" ?r] u(2) up by auto
    then show "\<exists>u'. map_of (mapValues (pruneClock ?r now) (gModelCooldown ?r)) k = Some u' \<and> id u \<le> id u'"
      using r up b(2) assms(2) by (auto simp: map_of_mapValues [OF ok(4)] set)
  qed
  ultimately show ?thesis
    using pruneClocks_ok [OF restart_ok [OF assms(1)] assms(2)] by (simp add: keepsClocks_def pruneClocks_def set)
qed

lemma restart_keeps:
  assumes "clocks_ok T g" and "T \<le> bcNow c" and "ledgerFits g"
  shows "keepsClocks (bcNow c) g (Observe_governor c (restartGovernor g))"
proof -
  note k = restart_outlasts [OF assms]
  then have "clocks_ok (bcNow c) (pruneClocks (bcNow c) (restartGovernor g))" by (simp add: keepsClocks_def)
  from keepsClocks_trans [OF k Observe_after_prune [OF this]] show ?thesis .
qed

subsection \<open>Runs\<close>

datatype governorOp =
    OpPreempted string string "string list" gotime
  | OpObserve borrowCycle
  | OpReleases borrowCycle
  | OpHold "modelScalingRequest list" "variantDecision list"
  | OpGated borrowCycle "variantDecision list"
  | OpRestart borrowCycle

text \<open>
  One operation at the time \<open>now\<close>. \<open>OpReleases\<close> is the part of \<open>Releases\<close> that decides
  placement timeouts, with the figures it reads; \<open>OpRestart\<close> is a new process that restores the
  ledger the old one wrote and observes its first cycle.
\<close>

fun runOp :: "gotime \<Rightarrow> governorOp \<Rightarrow> borrowGovernor \<Rightarrow> borrowGovernor" where
  "runOp now (OpPreempted ns model cohorts t) g = MarkPreemptedIn (variantName ns model) cohorts t g"
| "runOp now (OpObserve c) g = Observe_governor c g"
| "runOp now (OpReleases c) g =
     fst (timeoutReleases c (indexStates (bcRequests c)) (namespaceHeldPast (bcConstraints c)) (uncountedHeldPast (bcConstraints c)) g)"
| "runOp now (OpHold requests decisions) g = fst (HoldReleases now requests decisions g)"
| "runOp now (OpGated c decisions) g = fst (GatedReleases c decisions g)"
| "runOp now (OpRestart c) g = Observe_governor c (restartGovernor g)"

fun opAllowed :: "gotime \<Rightarrow> governorOp \<Rightarrow> borrowGovernor \<Rightarrow> bool" where
  "opAllowed now (OpPreempted ns model cohorts t) g \<longleftrightarrow> t \<le> now"
| "opAllowed now (OpObserve c) g \<longleftrightarrow> bcNow c = now"
| "opAllowed now (OpReleases c) g \<longleftrightarrow> bcNow c = now"
| "opAllowed now (OpHold requests decisions) g \<longleftrightarrow> True"
| "opAllowed now (OpGated c decisions) g \<longleftrightarrow> bcNow c = now"
| "opAllowed now (OpRestart c) g \<longleftrightarrow> bcNow c = now \<and> ledgerFits g"

inductive governorRun :: "gotime \<Rightarrow> borrowGovernor \<Rightarrow> gotime \<Rightarrow> borrowGovernor \<Rightarrow> bool" for T g where
  start: "governorRun T g T g"
| step: "governorRun T g T' g' \<Longrightarrow> T' \<le> now \<Longrightarrow> opAllowed now op g' \<Longrightarrow> governorRun T g now (runOp now op g')"

lemma runOp_keeps:
  assumes "clocks_ok T g" and "T \<le> now" and "opAllowed now op g"
  shows "keepsClocks now g (runOp now op g)"
proof -
  have ok: "clocks_ok now g" using clocks_ok_later [OF assms(1,2)] .
  show ?thesis
  proof (cases op)
    case (OpPreempted ns model cohorts t)
    then show ?thesis using ok assms(3) by (simp add: MarkPreemptedIn_def markBackoff_keeps variantName_def)
  next
    case (OpObserve c)
    then show ?thesis using Observe_keeps [OF assms(1)] assms by auto
  next
    case (OpReleases c)
    then show ?thesis using timeoutReleases_keeps [OF ok] assms(3) by auto
  next
    case (OpHold requests decisions)
    then show ?thesis using keeps_same [OF ok HoldReleases_same] by simp
  next
    case (OpGated c decisions)
    then show ?thesis using GatedReleases_keeps [OF ok] assms(3) by auto
  next
    case (OpRestart c)
    then show ?thesis using restart_keeps [OF assms(1)] assms by auto
  qed
qed

lemma run_keeps: "governorRun T g T' g' \<Longrightarrow> clocks_ok T g \<Longrightarrow> T \<le> T' \<and> keepsClocks T' g g'"
proof (induction rule: governorRun.induct)
  case start
  then show ?case by (simp add: keepsClocks_same)
next
  case (step T' g' now op)
  then have k: "T \<le> T'" "keepsClocks T' g g'" by auto
  then have "keepsClocks now g' (runOp now op g')" using step by (intro runOp_keeps [of T']) (auto simp: keepsClocks_def)
  then show ?case
    using k step(2) by (auto simp: keepsClocks_def intro: outlasted_trans outlasted_later)
qed

subsection \<open>Who is kept from borrowing, and for how long\<close>

lemma blocked_outlasts:
  assumes "keepsClocks T g g'" and "T \<le> t" and "BorrowBlockedIn ns m co t g"
  shows "BorrowBlockedIn ns m co t g'"
proof -
  obtain e where e: "map_of (gBackoff g) (backoffKey (variantName ns m) co) = Some e" "t < boUntil e"
    using assms(3) by (auto simp: BorrowBlockedIn_def split: option.splits)
  have "outlasted boUntil T (gBackoff g) (gBackoff g')" using assms(1) by (simp add: keepsClocks_def)
  from outlasted_obtain [OF this e(1)] e(2) assms(2) show ?thesis by (fastforce simp: BorrowBlockedIn_def)
qed

lemma cooling_outlasts:
  assumes "keepsClocks T g g'" and "T \<le> t" and "gomap_ok (gBackoff g)" and "CoolingDown ns m t g"
  shows "CoolingDown ns m t g'"
proof -
  consider (model) u where "map_of (gModelCooldown g) (variantName ns m) = Some u" "t < u"
    | (backoff) k e where "(k, e) \<in> set (gBackoff g)" "cutPrefix k (variantName ns m @ ''@'') \<noteq> None" "t < boUntil e"
    using assms(4) by (auto simp: CoolingDown_def inCooldown_def Let_def list_ex_iff split: option.splits)
  then show ?thesis
  proof cases
    case model
    have "outlasted id T (gModelCooldown g) (gModelCooldown g')" using assms(1) by (simp add: keepsClocks_def)
    from outlasted_obtain [OF this model(1)] model(2) assms(2) show ?thesis
      by (fastforce simp: CoolingDown_def inCooldown_def Let_def)
  next
    case backoff
    have m: "map_of (gBackoff g) k = Some e" using backoff(1) assms(3) by (simp add: gomap_ok_def mkeys_def)
    have o: "outlasted boUntil T (gBackoff g) (gBackoff g')" using assms(1) by (simp add: keepsClocks_def)
    have "T < boUntil e" using backoff(3) assms(2) by simp
    then obtain e' where e': "map_of (gBackoff g') k = Some e'" "boUntil e \<le> boUntil e'"
      by (rule outlasted_obtain [OF o m])
    then have "(k, e') \<in> set (gBackoff g')" "t < boUntil e'" using backoff(3) by (auto dest: map_of_SomeD)
    then show ?thesis using backoff(2) by (auto simp: CoolingDown_def Let_def list_ex_iff)
  qed
qed

lemma cooling_ends:
  assumes "clocks_ok T g" and "T + backoffCap (gSettings g) \<le> t"
  shows "\<not> CoolingDown ns m t g"
proof -
  have "boUntil e \<le> t" if "(k, e) \<in> set (gBackoff g)" for k e using assms that by (force simp: clocks_ok_def entry_ok_def)
  moreover have "u \<le> t" if "map_of (gModelCooldown g) k = Some u" for k u
    using assms map_of_SomeD [OF that] backoffCap_bounds [of "gSettings g"] by (force simp: clocks_ok_def settings_ok_def)
  ultimately show ?thesis
    by (force simp: CoolingDown_def inCooldown_def Let_def list_ex_iff split: option.splits)
qed

text \<open>A model preempted in its cohort, and a cycle that reads nothing, five minutes later.\<close>

definition exPreempted :: borrowGovernor where
  "exPreempted = MarkPreemptedIn ''ns/m'' [''c''] 0 (NewBorrowGovernor DefaultBorrowSettings)"

definition exCycle :: borrowCycle where
  "exCycle = \<lparr>bcNow = 5 * minute, bcConstraints = [], bcRequests = [], bcScaleUpPending = [], bcPreemptionUnknown = [], bcNoHole = [],
     bcGated = [], bcLedgerUnread = False\<rparr>"

text \<open>
  C22. A cooldown lasts as long as it was set, and no longer than the settings allow. Take any run of
  the governor from a well-formed state, under fixed settings and a clock that does not go back:
  preemptions found late, observed cycles, placement-timeout releases, hold and gated releases, and
  restarts that read back the ledger the old process wrote, whose clocks are rounded, while the
  cooldowns fit the bounds of that ledger. (The releases for waiting lenders are not part of a run.)
  A model that before the run was due to be blocked in a cohort at some time after the run is still
  blocked there at that time; the same holds for the model's cooldown as the other engine reads it;
  and no model is cooling down once four cooldowns, at most 40 minutes unless one cooldown is longer,
  have passed since the end of the run.
\<close>

theorem cooldowns_outlast_runs:
  assumes "governorRun T g T' g'" and "clocks_ok T g"
  shows "(\<forall>ns m co t. T' \<le> t \<longrightarrow> BorrowBlockedIn ns m co t g \<longrightarrow> BorrowBlockedIn ns m co t g') \<and>
    (\<forall>ns m t. T' \<le> t \<longrightarrow> CoolingDown ns m t g \<longrightarrow> CoolingDown ns m t g') \<and>
    (\<forall>ns m t. T' + min (gsCooldown (gSettings g) * 4) (max maxBackoff (gsCooldown (gSettings g))) \<le> t \<longrightarrow> \<not> CoolingDown ns m t g')"
proof -
  have k: "keepsClocks T' g g'" using run_keeps [OF assms] by blast
  have m: "gomap_ok (gBackoff g)" using assms(2) by (simp add: clocks_ok_def)
  have e: "clocks_ok T' g'" "gSettings g' = gSettings g" using k by (simp_all add: keepsClocks_def)
  show ?thesis
  proof (intro conjI allI impI)
    show "BorrowBlockedIn ns m co t g'" if "T' \<le> t" "BorrowBlockedIn ns m co t g" for ns m co t
      using that by (rule blocked_outlasts [OF k])
    show "CoolingDown ns m t g'" if "T' \<le> t" "CoolingDown ns m t g" for ns m t
      using that by (rule cooling_outlasts [OF k _ m])
    show "\<not> CoolingDown ns m t g'"
      if "T' + min (gsCooldown (gSettings g) * 4) (max maxBackoff (gsCooldown (gSettings g))) \<le> t" for ns m t
      using cooling_ends [OF e(1)] that by (simp add: e(2) backoffCap_def)
  qed
qed

theorem cooldowns_outlast_runs_witness:
  "governorRun 0 exPreempted (5 * minute) (Observe_governor exCycle (restartGovernor exPreempted)) \<and>
   BorrowBlockedIn ''ns'' ''m'' ''c'' (9 * minute) (Observe_governor exCycle (restartGovernor exPreempted)) \<and>
   CoolingDown ''ns'' ''m'' (9 * minute) (Observe_governor exCycle (restartGovernor exPreempted)) \<and>
   \<not> CoolingDown ''ns'' ''m'' (45 * minute) (Observe_governor exCycle (restartGovernor exPreempted))"
proof -
  have ok: "clocks_ok 0 exPreempted" by code_simp
  have "opAllowed (5 * minute) (OpRestart exCycle) exPreempted" by code_simp
  moreover have "(0 :: gotime) \<le> 5 * minute" by code_simp
  ultimately have run: "governorRun 0 exPreempted (5 * minute) (Observe_governor exCycle (restartGovernor exPreempted))"
    using governorRun.step [OF governorRun.start, of 0 "5 * minute" "OpRestart exCycle" exPreempted] by simp
  have "BorrowBlockedIn ''ns'' ''m'' ''c'' (9 * minute) exPreempted" "CoolingDown ''ns'' ''m'' (9 * minute) exPreempted"
    "5 * minute \<le> (9 * minute :: gotime)"
    "5 * minute + min (gsCooldown (gSettings exPreempted) * 4) (max maxBackoff (gsCooldown (gSettings exPreempted))) \<le> 45 * minute"
    by code_simp+
  then show ?thesis using cooldowns_outlast_runs [OF run ok] run by blast
qed

end
