(* ===== verification/Spec2Isabelle.thy ===== *)
theory Spec2Isabelle
  imports PolicyPlan Headroom Stores ShareClaims BudgetFits InFlightRestart BorrowMerge ShareLife ReleasePair GovernorRuns
begin

text \<open>
  A verification library for the workload-variant autoscaler (\<open>src/\<close>), a Kubernetes controller
  written in Go. Every optimize interval its steady-state engine reads how loaded each model is,
  decides how many replicas each variant of it runs, and publishes the targets. What this library
  models is the part that decides who gets which GPUs, and the state that carries such a decision from
  one cycle to the next:

  \<^item> the \<^emph>\<open>limiters\<close> bound what may be placed: pools per accelerator, allowlists per namespace,
    nodes with free GPUs (\<open>internal/engines/allocation\<close>, \<open>internal/accelerator\<close>);
  \<^item> the \<^emph>\<open>ledgers\<close> remember what was ordered and is not visible yet: replicas in flight to
    a node, GPUs borrowed from a cohort, transfers between models
    (\<open>internal/engines/allocation\<close>);
  \<^item> the \<^emph>\<open>stores\<close> are how the engines tell each other what they saw
    (\<open>internal/decision\<close>);
  \<^item> the \<^emph>\<open>warm pool\<close> lends sleeping engines to models that are short
    (\<open>internal/warmpool\<close>).

  \<^bold>\<open>Go values.\<close> Theory \<open>Prelude\<close> fixes them. An \<open>int\<close> is an integer; where a
  source depends on the width (a saturating \<open>time.Time.Sub\<close>, a parsed number) the bound is written
  out. A map is an association list without duplicate keys (\<open>gomap\<close>): a lookup that misses yields
  the zero value, and where a source ranges over a map the theorems either quantify over every order
  or show that the order does not matter. A nil map that differs from an empty one, and a zero time that
  is tested for, are \<open>None\<close>. A mutex guards each store, so an operation is one step. Slices of
  pointers are lists, and a write through a pointer is an update at its index. Clocks, random strings,
  the JSON encoding and what Kubernetes reports are arguments.

  \<^bold>\<open>Names and allowlists\<close> (\<open>Accelerator\<close>; \<open>accelerator.go\<close>, \<open>family.go\<close>,
  \<open>identity.go\<close>, \<open>allowlist.go\<close>). Accelerator names form a tree of products under
  families. The lemmas show that the key found for a name does not depend on the order of the map, that
  a closed list stays closed to siblings, and that the joint bound of several lists is the least bound.

  \<^bold>\<open>Budgets\<close> (\<open>Budget\<close>, \<open>BudgetSpend\<close>, \<open>BudgetFits\<close>;
  \<open>budget_merge.go\<close>, \<open>gpu_budget.go\<close>, the helpers of the two optimizers). The bounds of all
  providers are merged into one budget, and every spend debits its key and the family above it.
  \<open>BudgetSpend\<close> shows that spends stay within every bound merged. \<open>BudgetFits\<close> shows what
  the placement check compares: where no quota holds the namespace it admits exactly what could be
  spent, and where quotas list products only it checks each product of a family apart.

  \<^bold>\<open>Nodes\<close> (\<open>NodeView\<close>, \<open>NodeFit\<close>, \<open>NodeOwners\<close>,
  \<open>NodePlacement\<close>, \<open>NodeTakeBack\<close>; \<open>node_view.go\<close>, \<open>borrow_node_fit.go\<close>,
  \<open>node_gpus.go\<close>). A view holds the free GPUs of every node, debits, their owners and the topology
  domains taken. The lemmas show that no sequence of operations overcommits a node, that a placement is
  all or nothing and best-fit, that an owner's placements can be taken back exactly, and what a rollback
  forgets. The loop of \<open>Reserve\<close> is a recursion that ends because every round takes a GPU.

  \<^bold>\<open>Replicas in flight\<close> (\<open>InFlight\<close>, \<open>InFlightHolds\<close>, \<open>InFlightView\<close>,
  \<open>InFlightKeep\<close>, \<open>InFlightRestart\<close>; \<open>inflight.go\<close>, \<open>inflight_persist.go\<close>).
  The ledger holds the holes of replicas whose pods have no node yet. A provisional admission leaves no
  trace, a hold is not renewed, every operation keeps the ledger well-formed, the holes stay within the
  nodes, and a ledger written out and read back holds the same holes but for the entries reading back
  refuses, which the lemmas name one by one.

  \<^bold>\<open>Cohort borrowing\<close> (\<open>Borrow\<close>, \<open>BorrowFlight\<close>, \<open>BorrowSafe\<close>,
  \<open>BorrowMerge\<close>; \<open>borrow_constraints.go\<close>, \<open>borrow_gated.go\<close>,
  \<open>borrow_inflight.go\<close>, \<open>borrow_wake.go\<close>). \<open>Borrow\<close> extends the constraints with
  what Kueue lends, \<open>BorrowFlight\<close> is the record of draws ordered and not shown by a read.
  Settling the record loses nothing; GPUs in flight are not offered again, nor what lags beyond the
  pods at the gate; and to a model whose priority a read knows the merge of several reads offers no
  more than that read.

  \<^bold>\<open>Borrow governor\<close> (\<open>ReleaseUnit\<close>, \<open>ReleasePair\<close>, \<open>Governor\<close>,
  \<open>GovernorRelease\<close>, \<open>GovernorClocks\<close>, \<open>GovernorRuns\<close>;
  \<open>borrow_governor.go\<close>, \<open>borrow_cooldown.go\<close>, \<open>borrow_lender_release.go\<close>).
  \<open>ReleaseUnit\<close> is the set of replicas one release takes from a model; \<open>ReleasePair\<close> shows
  that it leaves no role of a disaggregated model without its partner and frees no more than is
  borrowed. \<open>Governor\<close> holds the settings, the cooldowns and their back-off, \<open>Observe\<close>
  and the persisted ledger; \<open>GovernorRelease\<close> the releases of unplaced and gated replicas and
  their pins. \<open>GovernorClocks\<close> states what it means to keep the clocks of the governor, once for
  every release rule in a locale, and \<open>GovernorRuns\<close> shows that no run of these operations, with
  restarts from the ledger, ends a cooldown early or lets one last.

  \<^bold>\<open>Utilization share\<close> (\<open>ShareClaims\<close>; \<open>share_claims.go\<close>, and \<open>ShareLedger\<close>,
  \<open>ShareRelease\<close>, \<open>ShareDonor\<close>, \<open>ShareSets\<close>, \<open>ShareLife\<close>;
  \<open>utilization_share_ledger.go\<close>). A transfer takes GPUs from a donor and, once the donor has
  shrunk, raises a receiver. A cycle loses no transfer, releases no more than the donor lost, raises the
  receiver of a donor set only when all its members released while it shows their donors, and ends
  every transfer. One theorem says exactly when the primary of a set is released, which is more often
  than the comments say; another what a release takes from the base of a transfer started before it.
  A wake may claim a transfer under way;
  the search of \<open>ClaimSet\<close> is complete and no transfer is claimed twice.

  \<^bold>\<open>Stores\<close> (\<open>Stores\<close>, \<open>Headroom\<close>; \<open>internal/decision\<close>). Each keyed store
  answers with its last write while that is fresh; the headroom a warm pool reads never credits it
  its own GPUs.

  \<^bold>\<open>Warm pool\<close> (\<open>WarmPool\<close>, \<open>Shape\<close>; \<open>pool.go\<close>, \<open>shape.go\<close>, and
  \<open>Policy\<close>, \<open>PolicyReturns\<close>, \<open>PolicyLoops\<close>, \<open>PolicyPlan\<close>;
  \<open>policy.go\<close>). \<open>Decide\<close> is modelled whole, with Go's map order and its unstable sort as
  arguments, so that its theorems hold for every runtime: no Pod is used twice, a short variant is lent
  its shortfall or reported, the reserve is accounted for Pod by Pod, an admitted engine fits, the hold
  timeout returns the bridges of the variants in demand, and a return carries the labels its rule knows.

  \<^bold>\<open>Fuel.\<close> There is none: every loop is a structural recursion or a \<open>function\<close> with a
  termination proof.

  \<^bold>\<open>Not modelled.\<close> The analyzers, the collector, the floating-point scoring and planning of the
  optimizers and of the share planner (\<open>utilization_share_plan.go\<close> and the readers of the need
  history) compute with \<open>float64\<close>, whose rounding a model over the rationals would not be faithful
  to. The reconcilers, the actuators, the scaler's gRPC server, the warm-pool adapter and proxy, the
  Kueue and node readers and \<open>cmd\<close> are calls to Kubernetes, Prometheus and HTTP servers. The quota
  inventory and the borrowing placer are not modelled beyond the parts named above; of the governor,
  the choice of the models that give capacity back to a waiting lender (\<open>lenderReleases\<close>) is
  left out, since it ranks them by a \<open>float64\<close> cost.
\<close>

end
